(* ===== verification/Goish_Prelude.thy ===== *)
theory Goish_Prelude
  imports Main "HOL-Library.Word"
begin

text \<open>
  Shared material of the development: the machine integer types of the Rust code, the
  \<^theory_text>\<open>named_theorems\<close> collections the component theories feed, and the generic
  lemmas on words, lists and counters that several components use.

  Rust's \<^verbatim>\<open>usize\<close> is 64 bits wide on every target the runtime supports
  (linux/amd64, linux/arm64, darwin/arm64).  A counter whose wrap-around the code relies on
  (\<^verbatim>\<open>wrapping_add\<close>, \<^verbatim>\<open>wrapping_sub\<close>, atomic
  \<^verbatim>\<open>fetch_add\<close>) is a word; a \<^verbatim>\<open>usize\<close> that only counts or
  indexes, where the code states no wrap-around, is a \<^typ>\<open>nat\<close>.
\<close>

unbundle bit_operations_syntax

type_synonym u8 = "8 word"
type_synonym u16 = "16 word"
type_synonym u32 = "32 word"
type_synonym u64 = "64 word"

named_theorems rep_simps \<open>abstraction functions applied to the operations of the model\<close>
named_theorems inv_intros \<open>preservation of the invariants by the operations of the model\<close>

section \<open>Words as circular counters\<close>

lemma unat_and_mask: "unat (w AND mask k) = unat w mod 2 ^ k"
  by (simp flip: take_bit_eq_mask take_bit_eq_mod add: unsigned_take_bit_eq)

lemma unat_less_exp: "unat (w :: 'a::len word) < 2 ^ LENGTH('a)"
  by simp

lemma unat_drop_bit: "unat (drop_bit k w) = unat w div 2 ^ k"
  by (metis drop_bit_eq_div unat_drop_bit_eq)

lemma mod_pow2_mod: "k \<le> m \<Longrightarrow> (x mod 2 ^ m) mod 2 ^ k = x mod (2 ^ k :: nat)"
  by (simp add: mod_mod_cancel le_imp_power_dvd)

text \<open>The slot a free-running counter addresses in a table of \<open>2 ^ k\<close> entries.\<close>

lemma unat_counter_slot:
  fixes h :: "'a::len word"
  assumes "k \<le> LENGTH('a)"
  shows "unat ((h + of_nat j) AND mask k) = (unat h + j) mod 2 ^ k"
proof -
  have "unat (h + of_nat j) = (unat h + j) mod 2 ^ LENGTH('a)"
    by (simp add: unat_word_ariths unat_of_nat mod_add_right_eq)
  then show ?thesis
    by (simp add: unat_and_mask mod_pow2_mod [OF assms])
qed

lemma of_nat_unat_diff: "h + of_nat (unat (t - h)) = (t :: 'a::len word)"
  by simp

lemma unat_diff_Suc:
  fixes t h :: "'a::len word"
  assumes "unat (t - h) < m" "m < 2 ^ LENGTH('a)"
  shows "unat (t + 1 - h) = Suc (unat (t - h))"
proof -
  have *: "t + 1 - h = (t - h) + 1" by simp
  have "unat (t - h) + 1 < 2 ^ LENGTH('a)" using assms by simp
  then show ?thesis
    by (simp add: * unat_word_ariths)
qed

lemma unat_diff_pred:
  fixes t h :: "'a::len word"
  assumes "t \<noteq> h"
  shows "unat (t - (h + 1)) = unat (t - h) - 1"
proof -
  have *: "t - (h + 1) = (t - h) - 1" by simp
  have "t - h \<noteq> 0" using assms by simp
  then show ?thesis unfolding * by (rule unat_minus_one)
qed

text \<open>The sign of a wrapped difference tells the order of two counters that are close.\<close>

lemma sint_of_nat_small:
  assumes "n < 2 ^ (LENGTH('a) - 1)"
  shows "sint (of_nat n :: 'a::len word) = int n"
proof -
  have "int n < 2 ^ (LENGTH('a) - 1)"
    using assms by (metis of_nat_less_iff of_nat_numeral of_nat_power)
  moreover have "- (2 ^ (LENGTH('a) - 1)) \<le> int n"
    by (rule order_trans [of _ 0]) simp_all
  ultimately show ?thesis
    by (simp add: signed_of_nat signed_take_bit_int_eq_self_iff)
qed

lemma sint_minus_of_nat_neg:
  assumes "0 < n" "n \<le> 2 ^ (LENGTH('a) - 1)"
  shows "sint (- of_nat n :: 'a::len word) < 0"
proof -
  have b: "int n \<le> 2 ^ (LENGTH('a) - 1)"
    using assms(2) by (metis of_nat_le_iff of_nat_numeral of_nat_power)
  have "sint (- of_nat n :: 'a::len word) = sint (word_of_int (- int n) :: 'a word)"
    by simp
  also have "\<dots> = signed_take_bit (LENGTH('a) - 1) (- int n)"
    by (simp add: signed_of_int del: of_int_minus)
  also have "\<dots> = - int n"
  proof (rule signed_take_bit_int_eq_self)
    show "- (2 ^ (LENGTH('a) - 1)) \<le> - int n" using b by simp
    have "- int n < 0" using assms(1) by simp
    then show "- int n < 2 ^ (LENGTH('a) - 1)" by (rule less_trans) simp
  qed
  finally show ?thesis using assms(1) by simp
qed

section \<open>Words as numbers and as bits\<close>

lemma unat_mult_small: "unat (x :: 'a::len word) * unat y < 2 ^ LENGTH('a) \<Longrightarrow> unat (x * y) = unat x * unat y"
  by (simp add: unat_word_ariths)

lemma unat_add_small: "unat (x :: 'a::len word) + unat y < 2 ^ LENGTH('a) \<Longrightarrow> unat (x + y) = unat x + unat y"
  by (simp add: unat_word_ariths)

lemma unat_less_pow2I: "(\<And>n. k \<le> n \<Longrightarrow> \<not> bit x n) \<Longrightarrow> unat (x :: 'a::len word) < 2 ^ k"
proof -
  assume "\<And>n. k \<le> n \<Longrightarrow> \<not> bit x n"
  then have "take_bit k x = x" by (intro bit_word_eqI) (auto simp: bit_take_bit_iff not_le[symmetric])
  then have "unat x = take_bit k (unat x)" by (metis unsigned_take_bit_eq)
  then show ?thesis by (metis take_bit_nat_less_exp)
qed

lemma bit_word_odd: "bit (x :: 'a::len word) n \<longleftrightarrow> odd (unat x div 2 ^ n)"
  by (simp add: bit_unsigned_iff flip: bit_iff_odd)

lemma bit_imp_ge_pow2: "bit (x :: 'a::len word) n \<Longrightarrow> 2 ^ n \<le> unat x"
proof -
  assume "bit x n"
  then have "odd (unat x div 2 ^ n)" by (simp add: bit_word_odd)
  then have "unat x div 2 ^ n \<noteq> 0" by (metis even_zero)
  then show ?thesis by (simp add: div_eq_0_iff)
qed

lemma unat_push_bit_small: "unat x * 2 ^ n < 2 ^ LENGTH('a) \<Longrightarrow> unat (push_bit n (x :: 'a::len word)) = unat x * 2 ^ n"
  by (simp only: unsigned_push_bit_eq) (simp add: push_bit_eq_mult take_bit_nat_eq_self)

lemma unat_or_disjoint: "(x :: 'a::len word) AND y = 0 \<Longrightarrow> unat (x OR y) = unat x + unat y"
proof -
  assume a: "x AND y = 0"
  have "unat (x OR y) = unat x OR unat y" by (simp add: unsigned_or_eq)
  moreover have "unat x AND unat y = 0" using a by (metis unsigned_and_eq unsigned_0)
  then have "unat x OR unat y = unat x + unat y"
    by (metis add.right_neutral disjunctive_add bit_and_iff bit_0_eq bot_apply bot_bool_def)
  ultimately show ?thesis by simp
qed

lemma unat_or_high:
  fixes x y :: "'a::len word"
  assumes "unat x < 2 ^ k" "2 ^ k dvd unat y"
  shows "unat (y OR x) = unat y + unat x"
proof (rule unat_or_disjoint, rule bit_word_eqI)
  fix n
  have "\<not> bit y n" if "n < k"
  proof -
    obtain m where m: "unat y = 2 ^ k * m" using assms(2) by blast
    have "2 ^ k = (2 :: nat) ^ n * 2 ^ (k - n)" using that by (simp flip: power_add)
    then have "unat y div 2 ^ n = 2 ^ (k - n) * m" unfolding m by simp
    then show ?thesis using that by (simp add: bit_word_odd)
  qed
  moreover have "\<not> bit x n" if "k \<le> n"
    using bit_imp_ge_pow2 [of x n] assms(1) power_increasing [OF that, of "2 :: nat"] by fastforce
  ultimately show "bit (y AND x) n = bit 0 n" by (cases "n < k") (auto simp: bit_and_iff)
qed

section \<open>Circular indices\<close>

lemma circ_index_inj:
  assumes "(h + i) mod c = (h + j) mod c" "i < c" "j < (c::nat)"
  shows "i = j"
proof -
  have *: "a = b" if "(h + a) mod c = (h + b) mod c" "a \<le> b" "b < c" for a b
  proof -
    have "c dvd (h + b) - (h + a)"
      by (rule mod_eq_dvd_iff_nat [THEN iffD1]) (use that in simp_all)
    then have "c dvd b - a" by simp
    then have "c \<le> b - a \<or> b - a = 0"
      by (auto dest: dvd_imp_le)
    with that show ?thesis by linarith
  qed
  show ?thesis
    using assms * [of i j] * [of j i] by (cases "i \<le> j") auto
qed

lemma circ_index_shift: "(Suc h + j) mod c = (h + Suc j) mod (c::nat)"
  by simp

section \<open>Counting the threads in a state\<close>

text \<open>
  The step systems keep one program counter per goroutine in a list.  \<open>cnt\<close> counts the
  entries that satisfy a predicate, as an integer, so that invariants are linear equations.
\<close>

definition cnt :: "('a \<Rightarrow> bool) \<Rightarrow> 'a list \<Rightarrow> int" where
  "cnt P xs = int (length (filter P xs))"

lemma cnt_Nil [simp]: "cnt P [] = 0"
  by (simp add: cnt_def)

lemma cnt_Cons [simp]: "cnt P (x # xs) = (if P x then 1 else 0) + cnt P xs"
  by (simp add: cnt_def)

lemma cnt_nonneg [simp]: "0 \<le> cnt P xs"
  by (simp add: cnt_def)

lemma cnt_le_length: "cnt P xs \<le> int (length xs)"
  by (simp add: cnt_def)

lemma cnt_replicate [simp]: "cnt P (replicate n x) = (if P x then int n else 0)"
  by (induction n) auto

lemma cnt_update:
  "i < length xs \<Longrightarrow>
   cnt P (xs[i := x]) = cnt P xs - (if P (xs ! i) then 1 else 0) + (if P x then 1 else 0)"
proof (induction xs arbitrary: i)
  case Nil
  then show ?case by simp
next
  case (Cons y ys)
  then show ?case by (cases i) auto
qed

lemma cnt_pos: "i < length xs \<Longrightarrow> P (xs ! i) \<Longrightarrow> 1 \<le> cnt P xs"
proof (induction xs arbitrary: i)
  case Nil
  then show ?case by simp
next
  case (Cons y ys)
  have "0 \<le> cnt P ys" by simp
  with Cons show ?case by (cases i) force+
qed

lemma cnt_zero: "cnt P xs = 0 \<longleftrightarrow> (\<forall>x \<in> set xs. \<not> P x)"
  by (auto simp: cnt_def filter_empty_conv)

lemma cnt_two:
  assumes "i < length xs" "j < length xs" "i \<noteq> j" "P (xs ! i)" "P (xs ! j)"
  shows "2 \<le> cnt P xs"
proof -
  define Q where "Q = (\<lambda>o1. case o1 of None \<Rightarrow> False | Some x \<Rightarrow> P x)"
  have "cnt Q ((map Some xs)[i := None]) = cnt Q (map Some xs) - 1"
    using assms by (simp add: cnt_update Q_def)
  moreover have "1 \<le> cnt Q ((map Some xs)[i := None])"
    using assms by (intro cnt_pos [of j]) (simp_all add: Q_def)
  moreover have "cnt Q (map Some xs) = cnt P xs"
    by (induction xs) (auto simp: Q_def)
  ultimately show ?thesis by simp
qed

lemma cnt_disj:
  "(\<And>x. \<not> (P x \<and> Q x)) \<Longrightarrow> cnt (\<lambda>x. P x \<or> Q x) xs = cnt P xs + cnt Q xs"
  by (induction xs) auto

lemma cnt_mono: "(\<And>x. P x \<Longrightarrow> Q x) \<Longrightarrow> cnt P xs \<le> cnt Q xs"
  by (induction xs) auto

lemma cnt_cong: "(\<And>x. x \<in> set xs \<Longrightarrow> P x = Q x) \<Longrightarrow> cnt P xs = cnt Q xs"
  by (induction xs) auto

text \<open>The sum of a quantity over the program counters.\<close>

definition isum :: "('a \<Rightarrow> int) \<Rightarrow> 'a list \<Rightarrow> int" where
  "isum f xs = sum_list (map f xs)"

lemma isum_update: "i < length xs \<Longrightarrow> isum f (xs[i := x]) = isum f xs - f (xs ! i) + f x"
  unfolding isum_def
proof (induction xs arbitrary: i)
  case (Cons y ys)
  then show ?case by (cases i) auto
qed simp

lemma isum_nonneg: "(\<And>x. x \<in> set xs \<Longrightarrow> 0 \<le> f x) \<Longrightarrow> 0 \<le> isum f xs"
  unfolding isum_def by (induction xs) auto

lemma isum_zero: "(\<And>x. x \<in> set xs \<Longrightarrow> f x = 0) \<Longrightarrow> isum f xs = 0"
  unfolding isum_def by (induction xs) auto

end
