(* ===== verification/Ring.thy ===== *)
theory Ring
  imports Goish_Prelude
begin

text \<open>
  \<^verbatim>\<open>src/src/runtime/lockfree_ring.rs\<close>: the bounded ring with one sequence number per slot
  that backs the buffer of a channel.  The model keeps the code's representation: free-running
  64-bit \<^verbatim>\<open>head\<close> and \<^verbatim>\<open>tail\<close>, a table of slots, the index mask.

  Channels only touch the ring while they hold their lock, so the operations are modelled without
  interference from other threads.  The one nondeterminism left is
  \<^verbatim>\<open>compare_exchange_weak\<close>, which may fail spuriously: the loops take a list of
  booleans, one per attempt, that says whether the exchange of that attempt goes through.  An
  exhausted list is a loop that has not returned yet (\<^const>\<open>None\<close>).
\<close>

record 'a slot =
  seq :: u64
  sval :: "'a option"

record 'a ring =
  rhead :: u64
  rtail :: u64
  slots :: "'a slot list"
  cap_mask :: u64

fun next_power_of_two_from :: "nat \<Rightarrow> nat \<Rightarrow> nat \<Rightarrow> nat" where
  "next_power_of_two_from 0 p n = p"
| "next_power_of_two_from (Suc k) p n = (if n \<le> p then p else next_power_of_two_from k (2 * p) n)"

text \<open>\<^verbatim>\<open>usize::next_power_of_two\<close>, for an argument of at most \<open>2 ^ 63\<close>.\<close>

definition next_power_of_two :: "nat \<Rightarrow> nat" where
  "next_power_of_two n = next_power_of_two_from 63 1 n"

definition ring_new :: "nat \<Rightarrow> 'a ring" where
  "ring_new n =
     (let c = next_power_of_two (max n 1)
      in \<lparr>rhead = 0, rtail = 0,
          slots = map (\<lambda>i. \<lparr>seq = of_nat i, sval = None\<rparr>) [0..<c],
          cap_mask = of_nat (c - 1)\<rparr>)"

definition capacity :: "'a ring \<Rightarrow> u64" where
  "capacity r = cap_mask r + 1"

definition ring_len :: "'a ring \<Rightarrow> u64" where
  "ring_len r = rtail r - rhead r"

fun try_send_loop :: "bool list \<Rightarrow> 'a ring \<Rightarrow> u64 \<Rightarrow> 'a \<Rightarrow> ('a ring \<times> ('a + unit)) option" where
  "try_send_loop [] r tail v = None"
| "try_send_loop (go # gos) r tail v =
     (let i = unat (tail AND cap_mask r);
          diff = seq (slots r ! i) - tail
      in if diff = 0 then
           (if go \<and> rtail r = tail
            then Some (r\<lparr>rtail := tail + 1,
                         slots := (slots r)[i := \<lparr>seq = tail + 1, sval = Some v\<rparr>]\<rparr>, Inr ())
            else try_send_loop gos r (rtail r) v)
         else if sint diff < 0 then Some (r, Inl v)
         else try_send_loop gos r (rtail r) v)"

definition ring_try_send :: "bool list \<Rightarrow> 'a ring \<Rightarrow> 'a \<Rightarrow> ('a ring \<times> ('a + unit)) option" where
  "ring_try_send gos r v = try_send_loop gos r (rtail r) v"

fun try_recv_loop :: "bool list \<Rightarrow> 'a ring \<Rightarrow> u64 \<Rightarrow> ('a ring \<times> 'a option) option" where
  "try_recv_loop [] r head = None"
| "try_recv_loop (go # gos) r head =
     (let i = unat (head AND cap_mask r);
          s = slots r ! i;
          diff = seq s - (head + 1)
      in if diff = 0 then
           (if go \<and> rhead r = head
            then Some (r\<lparr>rhead := head + 1,
                         slots := (slots r)[i := \<lparr>seq = head + capacity r, sval = None\<rparr>]\<rparr>, sval s)
            else try_recv_loop gos r (rhead r))
         else if sint diff < 0 then Some (r, None)
         else try_recv_loop gos r (rhead r))"

definition ring_try_recv :: "bool list \<Rightarrow> 'a ring \<Rightarrow> ('a ring \<times> 'a option) option" where
  "ring_try_recv gos r = try_recv_loop gos r (rhead r)"

section \<open>Representation invariant and abstraction\<close>

definition ring_slot :: "'a ring \<Rightarrow> nat \<Rightarrow> 'a slot" where
  "ring_slot r j = slots r ! ((unat (rhead r) + j) mod length (slots r))"

definition ring_inv :: "'a ring \<Rightarrow> bool" where
  "ring_inv r \<longleftrightarrow>
     (\<exists>k \<le> 62. length (slots r) = 2 ^ k \<and> cap_mask r = mask k) \<and>
     unat (ring_len r) \<le> length (slots r) \<and>
     (\<forall>j < length (slots r).
        (if j < unat (ring_len r)
         then seq (ring_slot r j) = rhead r + of_nat j + 1 \<and> sval (ring_slot r j) \<noteq> None
         else seq (ring_slot r j) = rhead r + of_nat j))"

definition ring_list :: "'a ring \<Rightarrow> 'a list" where
  "ring_list r = map (\<lambda>j. the (sval (ring_slot r j))) [0..<unat (ring_len r)]"

lemma length_ring_list [simp]: "length (ring_list r) = unat (ring_len r)"
  by (simp add: ring_list_def)

section \<open>Facts of the invariant\<close>

lemma ring_inv_geometry:
  assumes "ring_inv r"
  obtains k where "k \<le> 62" "length (slots r) = 2 ^ k" "cap_mask r = mask k"
  using assms by (auto simp: ring_inv_def)

lemma ring_inv_index:
  assumes "ring_inv r"
  shows "unat ((rhead r + of_nat j) AND cap_mask r) = (unat (rhead r) + j) mod length (slots r)"
proof -
  obtain k where "k \<le> 62" "length (slots r) = 2 ^ k" "cap_mask r = mask k"
    using assms by (rule ring_inv_geometry)
  then show ?thesis
    using unat_counter_slot [of k "rhead r" j] by simp
qed

lemma ring_inv_capacity:
  assumes "ring_inv r"
  shows "capacity r = of_nat (length (slots r))"
proof -
  obtain k where k: "k \<le> 62" "length (slots r) = 2 ^ k" "cap_mask r = mask k"
    using assms by (rule ring_inv_geometry)
  then show ?thesis
    by (simp add: capacity_def mask_eq_exp_minus_1)
qed

lemma ring_inv_bounds:
  assumes "ring_inv r"
  shows "0 < length (slots r)" "length (slots r) \<le> 2 ^ 62" "unat (ring_len r) \<le> length (slots r)"
proof -
  obtain k where k: "k \<le> 62" "length (slots r) = 2 ^ k"
    using assms by (rule ring_inv_geometry)
  then show "0 < length (slots r)" by simp
  show "length (slots r) \<le> 2 ^ 62"
    using k by (simp only: k(2)) (rule power_increasing, simp_all)
  show "unat (ring_len r) \<le> length (slots r)"
    using assms by (simp add: ring_inv_def)
qed

lemma ring_inv_head_Suc:
  assumes "ring_inv r"
  shows "(unat (rhead r + 1) + j) mod length (slots r) = (unat (rhead r) + Suc j) mod length (slots r)"
proof -
  obtain k where k: "k \<le> 62" "length (slots r) = 2 ^ k" "cap_mask r = mask k"
    using assms by (rule ring_inv_geometry)
  have "(unat (rhead r + 1) + j) mod 2 ^ k = unat ((rhead r + 1 + of_nat j) AND mask k)"
    using k unat_counter_slot [of k "rhead r + 1" j] by simp
  also have "\<dots> = unat ((rhead r + of_nat (Suc j)) AND mask k)"
    by (simp add: add.assoc)
  also have "\<dots> = (unat (rhead r) + Suc j) mod 2 ^ k"
    using k unat_counter_slot [of k "rhead r" "Suc j"] by (simp del: of_nat_Suc)
  finally show ?thesis by (simp add: k(2))
qed

lemma ring_tail_eq: "rtail r = rhead r + of_nat (unat (ring_len r))"
  by (simp add: ring_len_def)

lemma ring_inv_full_slot:
  assumes "ring_inv r" "j < unat (ring_len r)"
  shows "seq (ring_slot r j) = rhead r + of_nat j + 1" "sval (ring_slot r j) \<noteq> None"
proof -
  have "j < length (slots r)"
    using assms ring_inv_bounds(3) by (metis order_less_le_trans)
  with assms show "seq (ring_slot r j) = rhead r + of_nat j + 1" "sval (ring_slot r j) \<noteq> None"
    unfolding ring_inv_def by metis+
qed

lemma ring_inv_free_slot:
  assumes "ring_inv r" "unat (ring_len r) \<le> j" "j < length (slots r)"
  shows "seq (ring_slot r j) = rhead r + of_nat j"
  using assms unfolding ring_inv_def by (metis not_le)

section \<open>Sending\<close>

definition ring_put :: "'a ring \<Rightarrow> 'a \<Rightarrow> 'a ring" where
  "ring_put r v =
     r\<lparr>rtail := rtail r + 1,
       slots := (slots r)[unat (rtail r AND cap_mask r) := \<lparr>seq = rtail r + 1, sval = Some v\<rparr>]\<rparr>"

lemma ring_put_slot:
  assumes "ring_inv r" "unat (ring_len r) < length (slots r)" "j < length (slots r)"
  shows "ring_slot (ring_put r v) j =
         (if j = unat (ring_len r) then \<lparr>seq = rtail r + 1, sval = Some v\<rparr> else ring_slot r j)"
proof -
  let ?c = "length (slots r)" and ?h = "unat (rhead r)" and ?n = "unat (ring_len r)"
  have i: "unat (rtail r AND cap_mask r) = (?h + ?n) mod ?c"
    using ring_inv_index [OF assms(1), of ?n] by (simp add: ring_len_def)
  have "(?h + j) mod ?c = (?h + ?n) mod ?c \<longleftrightarrow> j = ?n"
    using assms circ_index_inj [of ?h j ?c ?n] by auto
  moreover have "(?h + j) mod ?c < ?c"
    using assms(3) by (intro mod_less_divisor) linarith
  ultimately show ?thesis
    by (auto simp: ring_slot_def ring_put_def i nth_list_update)
qed

lemma ring_put_len:
  assumes "ring_inv r" "unat (ring_len r) < length (slots r)"
  shows "unat (ring_len (ring_put r v)) = Suc (unat (ring_len r))"
proof -
  have "length (slots r) < 2 ^ LENGTH(64)"
    using ring_inv_bounds(2) [OF assms(1)] by simp
  then show ?thesis
    using unat_diff_Suc [of "rtail r" "rhead r" "length (slots r)"] assms(2)
    by (simp add: ring_len_def ring_put_def)
qed

lemma ring_put_inv [inv_intros]:
  assumes "ring_inv r" "unat (ring_len r) < length (slots r)"
  shows "ring_inv (ring_put r v)"
proof -
  have t: "rtail r = rhead r + of_nat (unat (ring_len r))" by (rule ring_tail_eq)
  have len: "length (slots (ring_put r v)) = length (slots r)" by (simp add: ring_put_def)
  have "if j < unat (ring_len (ring_put r v))
        then seq (ring_slot (ring_put r v) j) = rhead (ring_put r v) + of_nat j + 1 \<and>
             sval (ring_slot (ring_put r v) j) \<noteq> None
        else seq (ring_slot (ring_put r v) j) = rhead (ring_put r v) + of_nat j"
    if "j < length (slots r)" for j
  proof -
    consider "j = unat (ring_len r)" | "j < unat (ring_len r)" | "unat (ring_len r) < j"
      by linarith
    then show ?thesis
    proof cases
      case 1
      then show ?thesis
        using that assms t by (simp add: ring_put_slot ring_put_len) (simp add: ring_put_def)
    next
      case 2
      then show ?thesis
        using that assms ring_inv_full_slot [OF assms(1) 2]
        by (simp add: ring_put_slot ring_put_len) (simp add: ring_put_def)
    next
      case 3
      then show ?thesis
        using that assms ring_inv_free_slot [OF assms(1), of j]
        by (simp add: ring_put_slot ring_put_len) (simp add: ring_put_def)
    qed
  qed
  moreover have "\<exists>k\<le>62. length (slots (ring_put r v)) = 2 ^ k \<and> cap_mask (ring_put r v) = mask k"
    using assms(1) by (simp add: ring_inv_def ring_put_def)
  ultimately show ?thesis
    using assms by (simp add: ring_inv_def ring_put_len len)
qed

lemma ring_put_list [rep_simps]:
  assumes "ring_inv r" "unat (ring_len r) < length (slots r)"
  shows "ring_list (ring_put r v) = ring_list r @ [v]"
  using assms by (simp add: ring_list_def ring_put_len ring_put_slot)

lemma try_send_loop_room:
  assumes "ring_inv r" "unat (ring_len r) < length (slots r)" "True \<in> set gos"
  shows "try_send_loop gos r (rtail r) v = Some (ring_put r v, Inr ())"
  using assms(3)
proof (induction gos)
  case Nil
  then show ?case by simp
next
  case (Cons g gos)
  have i: "unat (rtail r AND cap_mask r) = (unat (rhead r) + unat (ring_len r)) mod length (slots r)"
    using ring_inv_index [OF assms(1), of "unat (ring_len r)"] by (simp add: ring_len_def)
  have "seq (slots r ! unat (rtail r AND cap_mask r)) = rtail r"
    using ring_inv_free_slot [OF assms(1) order_refl assms(2)]
    by (simp only: i ring_slot_def ring_tail_eq [symmetric])
  then show ?case
    using Cons by (auto simp: Let_def ring_put_def)
qed

lemma try_send_loop_full:
  assumes "ring_inv r" "unat (ring_len r) = length (slots r)" "2 \<le> length (slots r)" "gos \<noteq> []"
  shows "try_send_loop gos r (rtail r) v = Some (r, Inl v)"
proof -
  let ?c = "length (slots r)"
  have t: "rtail r = rhead r + of_nat ?c"
    using ring_tail_eq [of r] assms(2) by simp
  have i: "unat (rtail r AND cap_mask r) = (unat (rhead r) + 0) mod ?c"
    using ring_inv_index [OF assms(1), of ?c] by (simp add: t)
  have "seq (slots r ! unat (rtail r AND cap_mask r)) = rhead r + 1"
    using ring_inv_full_slot(1) [OF assms(1), of 0] assms(2) ring_inv_bounds(1) [OF assms(1)]
    by (simp add: i ring_slot_def)
  then have d: "seq (slots r ! unat (rtail r AND cap_mask r)) - rtail r = - of_nat (?c - 1)"
    using assms(3) by (simp add: t of_nat_diff)
  have "?c - 1 \<le> 2 ^ 63"
    using ring_inv_bounds(2) [OF assms(1)] by simp
  then have neg: "sint (- of_nat (?c - 1) :: u64) < 0"
    using sint_minus_of_nat_neg [of "?c - 1", where 'a = 64] assms(3) by simp
  then have "seq (slots r ! unat (rtail r AND cap_mask r)) - rtail r \<noteq> 0"
    unfolding d by force
  then have "seq (slots r ! unat (rtail r AND cap_mask r)) \<noteq> rtail r"
    by simp
  with neg d show ?thesis
    using assms(4) by (cases gos) (simp_all add: Let_def)
qed

section \<open>Receiving\<close>

definition ring_take :: "'a ring \<Rightarrow> 'a ring" where
  "ring_take r =
     r\<lparr>rhead := rhead r + 1,
       slots := (slots r)[unat (rhead r AND cap_mask r) :=
                            \<lparr>seq = rhead r + capacity r, sval = None\<rparr>]\<rparr>"

lemma ring_take_slot:
  assumes "ring_inv r" "j < length (slots r)"
  shows "ring_slot (ring_take r) j =
         (if Suc j = length (slots r) then \<lparr>seq = rhead r + of_nat (Suc j), sval = None\<rparr>
          else ring_slot r (Suc j))"
proof -
  let ?c = "length (slots r)" and ?h = "unat (rhead r)"
  have i: "unat (rhead r AND cap_mask r) = ?h mod ?c"
    using ring_inv_index [OF assms(1), of 0] by simp
  have s: "ring_slot (ring_take r) j = slots (ring_take r) ! ((?h + Suc j) mod ?c)"
    using ring_inv_head_Suc [OF assms(1), of j] by (simp add: ring_slot_def ring_take_def)
  show ?thesis
  proof (cases "Suc j = ?c")
    case True
    then have "(?h + Suc j) mod ?c = ?h mod ?c" by simp
    then have "ring_slot (ring_take r) j = slots (ring_take r) ! (?h mod ?c)"
      by (simp only: s)
    then show ?thesis
      using True assms ring_inv_bounds(1) [OF assms(1)]
      by (simp add: ring_take_def i ring_inv_capacity del: of_nat_Suc)
  next
    case False
    then have "(?h + 0) mod ?c \<noteq> (?h + Suc j) mod ?c"
      using circ_index_inj [of ?h 0 ?c "Suc j"] assms(2) ring_inv_bounds(1) [OF assms(1)] by auto
    then have "ring_slot (ring_take r) j = slots r ! ((?h + Suc j) mod ?c)"
      unfolding s by (simp add: ring_take_def i)
    then show ?thesis
      using False by (simp only: ring_slot_def [of r "Suc j"] if_False)
  qed
qed

lemma ring_take_len:
  assumes "0 < unat (ring_len r)"
  shows "unat (ring_len (ring_take r)) = unat (ring_len r) - 1"
proof -
  have "rtail r \<noteq> rhead r" using assms by (auto simp: ring_len_def)
  then show ?thesis
    using unat_diff_pred [of "rtail r" "rhead r"] by (simp add: ring_len_def ring_take_def)
qed

lemma ring_take_inv [inv_intros]:
  assumes "ring_inv r" "0 < unat (ring_len r)"
  shows "ring_inv (ring_take r)"
proof -
  have len: "length (slots (ring_take r)) = length (slots r)" by (simp add: ring_take_def)
  have h: "rhead (ring_take r) = rhead r + 1" by (simp add: ring_take_def)
  have n: "unat (ring_len r) \<le> length (slots r)"
    by (rule ring_inv_bounds(3) [OF assms(1)])
  have "if j < unat (ring_len (ring_take r))
        then seq (ring_slot (ring_take r) j) = rhead (ring_take r) + of_nat j + 1 \<and>
             sval (ring_slot (ring_take r) j) \<noteq> None
        else seq (ring_slot (ring_take r) j) = rhead (ring_take r) + of_nat j"
    if j: "j < length (slots r)" for j
  proof (cases "Suc j < unat (ring_len r)")
    case True
    then show ?thesis
      using j assms n ring_inv_full_slot [OF assms(1) True]
      by (simp add: ring_take_slot ring_take_len h add_ac)
  next
    case False
    have "ring_slot (ring_take r) j = \<lparr>seq = rhead r + of_nat (Suc j), sval = None\<rparr>"
      if "Suc j = length (slots r)"
      using ring_take_slot [OF assms(1) j] that by (simp del: of_nat_Suc)
    moreover have "of_nat (length (slots r)) = (1 + of_nat j :: u64)" if "Suc j = length (slots r)"
      by (simp flip: that)
    ultimately show ?thesis
      using False j assms n ring_inv_free_slot [OF assms(1), of "Suc j"]
      by (cases "Suc j = length (slots r)") (auto simp: ring_take_slot ring_take_len h add_ac)
  qed
  moreover have "\<exists>k\<le>62. length (slots (ring_take r)) = 2 ^ k \<and> cap_mask (ring_take r) = mask k"
    using assms(1) by (simp add: ring_inv_def ring_take_def)
  ultimately show ?thesis
    using assms n by (simp add: ring_inv_def ring_take_len len)
qed

lemma ring_list_Cons:
  assumes "ring_inv r" "0 < unat (ring_len r)"
  shows "ring_list r = the (sval (ring_slot r 0)) # ring_list (ring_take r)"
proof -
  let ?n = "unat (ring_len r)"
  have n: "?n \<le> length (slots r)" by (rule ring_inv_bounds(3) [OF assms(1)])
  have "[0..<?n] = 0 # map Suc [0..<?n - 1]"
    using assms(2) by (simp add: map_Suc_upt upt_conv_Cons)
  moreover have "ring_slot (ring_take r) j = ring_slot r (Suc j)" if "j < ?n - 1" for j
    using that n assms by (auto simp: ring_take_slot)
  ultimately show ?thesis
    using assms(2) by (simp add: ring_list_def ring_take_len)
qed

lemma try_recv_loop_nonempty:
  assumes "ring_inv r" "0 < unat (ring_len r)" "True \<in> set gos"
  shows "try_recv_loop gos r (rhead r) = Some (ring_take r, sval (ring_slot r 0))"
  using assms(3)
proof (induction gos)
  case Nil
  then show ?case by simp
next
  case (Cons g gos)
  have i: "unat (rhead r AND cap_mask r) = unat (rhead r) mod length (slots r)"
    using ring_inv_index [OF assms(1), of 0] by simp
  have "seq (slots r ! (unat (rhead r) mod length (slots r))) = rhead r + 1"
    using ring_inv_full_slot(1) [OF assms(1,2)] by (simp add: ring_slot_def)
  then show ?case
    using Cons by (auto simp: Let_def ring_take_def ring_slot_def i)
qed

lemma try_recv_loop_empty:
  assumes "ring_inv r" "unat (ring_len r) = 0" "gos \<noteq> []"
  shows "try_recv_loop gos r (rhead r) = Some (r, None)"
proof -
  have i: "unat (rhead r AND cap_mask r) = unat (rhead r) mod length (slots r)"
    using ring_inv_index [OF assms(1), of 0] by simp
  have "seq (slots r ! (unat (rhead r) mod length (slots r))) = rhead r"
    using ring_inv_free_slot [OF assms(1), of 0] assms(2) ring_inv_bounds(1) [OF assms(1)]
    by (simp add: ring_slot_def)
  then show ?thesis
    using assms(3) by (cases gos) (simp_all add: Let_def i)
qed

section \<open>Construction\<close>

lemma next_power_of_two_from_pow:
  "\<exists>k \<le> f. next_power_of_two_from f p n = p * 2 ^ k"
proof (induction f arbitrary: p)
  case 0
  then show ?case by simp
next
  case (Suc f)
  obtain k where "k \<le> f" "next_power_of_two_from f (2 * p) n = 2 * p * 2 ^ k"
    using Suc.IH by blast
  then have "Suc k \<le> Suc f" "next_power_of_two_from f (2 * p) n = p * 2 ^ Suc k"
    by simp_all
  then show ?case
    by (cases "n \<le> p") (auto intro: exI [of _ 0] exI [of _ "Suc k"])
qed

lemma next_power_of_two_from_ge:
  "n \<le> p * 2 ^ f \<Longrightarrow> n \<le> next_power_of_two_from f p n"
  by (induction f arbitrary: p) (auto simp: algebra_simps)

lemma next_power_of_two_from_least:
  "n \<le> p * 2 ^ j \<Longrightarrow> next_power_of_two_from f p n \<le> p * 2 ^ j"
proof (induction f arbitrary: p j)
  case 0
  then show ?case by simp
next
  case (Suc f)
  show ?case
  proof (cases "n \<le> p")
    case True
    then show ?thesis by simp
  next
    case False
    with Suc.prems obtain i where "j = Suc i" by (cases j) auto
    with Suc.IH [of "2 * p" i] Suc.prems False show ?thesis by (simp add: algebra_simps)
  qed
qed

lemma next_power_of_two_bounds:
  assumes "n \<le> 2 ^ 62"
  shows "\<exists>k \<le> 62. next_power_of_two n = 2 ^ k" "n \<le> next_power_of_two n"
proof -
  obtain k where k: "k \<le> 63" "next_power_of_two n = 2 ^ k"
    using next_power_of_two_from_pow [of 63 1 n] by (auto simp: next_power_of_two_def)
  moreover have "next_power_of_two n \<le> 2 ^ 62"
    using next_power_of_two_from_least [of n 1 62 63] assms by (simp add: next_power_of_two_def)
  ultimately have "k \<le> 62"
    by (metis one_less_numeral_iff power_increasing_iff semiring_norm(76))
  with k show "\<exists>k \<le> 62. next_power_of_two n = 2 ^ k" by blast
  have "n \<le> 1 * 2 ^ 63"
    using assms by simp
  then show "n \<le> next_power_of_two n"
    unfolding next_power_of_two_def by (rule next_power_of_two_from_ge)
qed

lemma slots_ring_new: "length (slots (ring_new n)) = next_power_of_two (max n 1)"
  by (simp add: ring_new_def Let_def)

lemma ring_new_inv [inv_intros]:
  assumes "n \<le> 2 ^ 62"
  shows "ring_inv (ring_new n)" "ring_list (ring_new n) = []"
proof -
  obtain k where k: "k \<le> 62" "next_power_of_two (max n 1) = 2 ^ k"
    using next_power_of_two_bounds(1) [of "max n 1"] assms by auto
  have "(of_nat (2 ^ k - 1) :: u64) = mask k"
    by (simp add: mask_eq_exp_minus_1 of_nat_diff)
  with k show "ring_inv (ring_new n)"
    by (auto simp: ring_inv_def ring_new_def Let_def ring_len_def ring_slot_def)
  show "ring_list (ring_new n) = []"
    by (simp add: ring_list_def ring_new_def Let_def ring_len_def)
qed

section \<open>The ring as a bounded queue\<close>

text \<open>
  What a client relies on: a send with room appends, a receive takes the oldest element, both
  whatever the pattern of spurious failures, as long as one attempt goes through.
\<close>

locale bounded_fifo =
  fixes invar :: "'q \<Rightarrow> bool"
    and elems :: "'q \<Rightarrow> 'a list"
    and room :: "'q \<Rightarrow> nat"
    and snd_op :: "bool list \<Rightarrow> 'q \<Rightarrow> 'a \<Rightarrow> ('q \<times> ('a + unit)) option"
    and rcv_op :: "bool list \<Rightarrow> 'q \<Rightarrow> ('q \<times> 'a option) option"
  assumes send_room:
    "invar q \<Longrightarrow> length (elems q) < room q \<Longrightarrow> True \<in> set gos \<Longrightarrow>
     \<exists>q'. snd_op gos q v = Some (q', Inr ()) \<and> invar q' \<and> elems q' = elems q @ [v] \<and> room q' = room q"
    and recv_elem:
    "invar q \<Longrightarrow> elems q = x # xs \<Longrightarrow> True \<in> set gos \<Longrightarrow>
     \<exists>q'. rcv_op gos q = Some (q', Some x) \<and> invar q' \<and> elems q' = xs \<and> room q' = room q"
    and recv_none:
    "invar q \<Longrightarrow> elems q = [] \<Longrightarrow> True \<in> set gos \<Longrightarrow> rcv_op gos q = Some (q, None)"
    and within: "invar q \<Longrightarrow> length (elems q) \<le> room q"
begin

text \<open>Taking the head and appending a value in its place, as a full channel does for a parked sender.\<close>

lemma rotate:
  assumes "invar q" "elems q = x # xs" "True \<in> set gos" "True \<in> set gos'"
  shows "\<exists>q1 q2. rcv_op gos q = Some (q1, Some x) \<and> snd_op gos' q1 v = Some (q2, Inr ()) \<and>
           invar q2 \<and> elems q2 = xs @ [v] \<and> room q2 = room q"
proof -
  obtain q1 where q1: "rcv_op gos q = Some (q1, Some x)" "invar q1" "elems q1 = xs" "room q1 = room q"
    using recv_elem [OF assms(1,2,3)] by blast
  moreover have "length (elems q1) < room q1"
    using within [OF assms(1)] assms(2) q1 by simp
  ultimately obtain q2 where
    "snd_op gos' q1 v = Some (q2, Inr ())" "invar q2" "elems q2 = xs @ [v]" "room q2 = room q"
    using send_room [OF q1(2) _ assms(4), of v] by auto
  with q1 show ?thesis by blast
qed

lemma recv_cases:
  assumes "invar q" "True \<in> set gos"
  shows "\<exists>q'. rcv_op gos q = Some (q', case elems q of [] \<Rightarrow> None | x # xs \<Rightarrow> Some x) \<and>
           invar q' \<and> elems q' = tl (elems q) \<and> room q' = room q"
  using recv_elem [OF assms(1) _ assms(2)] recv_none [OF assms(1) _ assms(2)] assms
  by (cases "elems q") auto

end

interpretation ring_q: bounded_fifo
  ring_inv ring_list "\<lambda>r. length (slots r)" ring_try_send ring_try_recv
proof unfold_locales
  fix q :: "'a ring" and gos v
  assume "ring_inv q" "length (ring_list q) < length (slots q)" "True \<in> set gos"
  then show "\<exists>q'. ring_try_send gos q v = Some (q', Inr ()) \<and> ring_inv q' \<and>
      ring_list q' = ring_list q @ [v] \<and> length (slots q') = length (slots q)"
    by (auto simp: ring_try_send_def try_send_loop_room ring_put_list intro: ring_put_inv)
       (simp add: ring_put_def)
next
  fix q :: "'a ring" and x xs gos
  assume a: "ring_inv q" "ring_list q = x # xs" "True \<in> set gos"
  then have n: "0 < unat (ring_len q)"
    by (metis length_ring_list length_greater_0_conv list.distinct(1))
  then have "ring_list (ring_take q) = xs" "the (sval (ring_slot q 0)) = x"
    using ring_list_Cons [OF a(1) n] a(2) by simp_all
  moreover have "sval (ring_slot q 0) \<noteq> None"
    by (rule ring_inv_full_slot(2) [OF a(1) n])
  ultimately show "\<exists>q'. ring_try_recv gos q = Some (q', Some x) \<and> ring_inv q' \<and>
      ring_list q' = xs \<and> length (slots q') = length (slots q)"
    using a n by (auto simp: ring_try_recv_def try_recv_loop_nonempty intro: ring_take_inv)
                 (simp add: ring_take_def)
next
  fix q :: "'a ring" and gos
  assume a: "ring_inv q" "ring_list q = []" "True \<in> set gos"
  then have "unat (ring_len q) = 0" "gos \<noteq> []"
    by (metis length_ring_list list.size(3), auto)
  with a show "ring_try_recv gos q = Some (q, None)"
    by (simp add: ring_try_recv_def try_recv_loop_empty)
next
  fix q :: "'a ring"
  assume "ring_inv q"
  then show "length (ring_list q) \<le> length (slots q)"
    by (simp add: ring_inv_bounds)
qed

section \<open>Whole runs of the ring\<close>

datatype 'a ring_op = RSend "bool list" 'a | RRecv "bool list"

text \<open>A run returns the ring, the accepted values and the received values, both in order.\<close>

fun ring_run :: "'a ring \<Rightarrow> 'a ring_op list \<Rightarrow> ('a ring \<times> 'a list \<times> 'a list) option" where
  "ring_run r [] = Some (r, [], [])"
| "ring_run r (RSend gos v # ops) =
     (case ring_try_send gos r v of
        None \<Rightarrow> None
      | Some (r', res) \<Rightarrow>
          map_option (\<lambda>(r'', acc, rcv). (r'', (case res of Inr _ \<Rightarrow> v # acc | Inl _ \<Rightarrow> acc), rcv))
            (ring_run r' ops))"
| "ring_run r (RRecv gos # ops) =
     (case ring_try_recv gos r of
        None \<Rightarrow> None
      | Some (r', res) \<Rightarrow>
          map_option (\<lambda>(r'', acc, rcv). (r'', acc, (case res of Some v \<Rightarrow> v # rcv | None \<Rightarrow> rcv)))
            (ring_run r' ops))"

fun op_attempts :: "'a ring_op \<Rightarrow> bool list" where
  "op_attempts (RSend gos v) = gos"
| "op_attempts (RRecv gos) = gos"

lemma ring_try_send_cases:
  assumes "ring_inv r" "2 \<le> length (slots r)" "True \<in> set gos"
  shows "\<exists>r' res. ring_try_send gos r v = Some (r', res) \<and> ring_inv r' \<and>
           length (slots r') = length (slots r) \<and>
           (res = Inr () \<and> ring_list r' = ring_list r @ [v] \<or> res = Inl v \<and> r' = r)"
proof (cases "length (ring_list r) < length (slots r)")
  case True
  then show ?thesis using ring_q.send_room [OF assms(1) _ assms(3)] by blast
next
  case False
  then have "unat (ring_len r) = length (slots r)"
    using ring_q.within [OF assms(1)] by simp
  moreover have "gos \<noteq> []" using assms(3) by auto
  ultimately show ?thesis
    using assms by (auto simp: ring_try_send_def try_send_loop_full)
qed

lemma ring_run_fifo:
  assumes "ring_inv r" "2 \<le> length (slots r)" "\<And>p. p \<in> set ops \<Longrightarrow> True \<in> set (op_attempts p)"
  shows "\<exists>r' acc rcv. ring_run r ops = Some (r', acc, rcv) \<and> ring_inv r' \<and>
           ring_list r @ acc = rcv @ ring_list r'"
  using assms
proof (induction ops arbitrary: r)
  case Nil
  then show ?case by simp
next
  case (Cons p ops)
  have tl: "\<And>q. q \<in> set ops \<Longrightarrow> True \<in> set (op_attempts q)"
    using Cons.prems(3) by simp
  show ?case
  proof (cases p)
    case (RSend gos v)
    then have "True \<in> set gos" using Cons.prems(3) [of p] by simp
    then obtain r' res where r': "ring_try_send gos r v = Some (r', res)" "ring_inv r'"
      "length (slots r') = length (slots r)"
      "res = Inr () \<and> ring_list r' = ring_list r @ [v] \<or> res = Inl v \<and> r' = r"
      using ring_try_send_cases [OF Cons.prems(1,2)] by blast
    then have "2 \<le> length (slots r')" using Cons.prems(2) by simp
    then obtain r'' acc rcv where "ring_run r' ops = Some (r'', acc, rcv)" "ring_inv r''"
      "ring_list r' @ acc = rcv @ ring_list r''"
      using Cons.IH [OF r'(2) _ tl] by blast
    with r' RSend show ?thesis by auto
  next
    case (RRecv gos)
    then have "True \<in> set gos" using Cons.prems(3) [of p] by simp
    then obtain r' where r':
      "ring_try_recv gos r = Some (r', case ring_list r of [] \<Rightarrow> None | x # xs \<Rightarrow> Some x)"
      "ring_inv r'" "ring_list r' = tl (ring_list r)" "length (slots r') = length (slots r)"
      using ring_q.recv_cases [OF Cons.prems(1)] by blast
    then have "2 \<le> length (slots r')" using Cons.prems(2) by simp
    then obtain r'' acc rcv where "ring_run r' ops = Some (r'', acc, rcv)" "ring_inv r''"
      "ring_list r' @ acc = rcv @ ring_list r''"
      using Cons.IH [OF r'(2) _ tl] by blast
    with r' RRecv show ?thesis by (cases "ring_list r") auto
  qed
qed

section \<open>Capacity one\<close>

text \<open>
  With one slot, \<open>seq = tail\<close> (free for the producer at \<open>tail\<close>) and
  \<open>seq = head + 1\<close> (full for the consumer at \<open>head\<close>) are the same test, so a full ring
  looks free to \<^verbatim>\<open>try_send\<close>.
\<close>

lemma try_send_loop_slots:
  "try_send_loop gos r pos v = Some (r', res) \<Longrightarrow> length (slots r') = length (slots r)"
  by (induction gos r pos v rule: try_send_loop.induct) (auto simp: Let_def split: if_splits)

lemma try_recv_loop_slots:
  "try_recv_loop gos r pos = Some (r', res) \<Longrightarrow> length (slots r') = length (slots r)"
  by (induction gos r pos rule: try_recv_loop.induct) (auto simp: Let_def split: if_splits)

lemma ring_run_slots:
  "ring_run r ops = Some (r', acc, rcv) \<Longrightarrow> length (slots r') = length (slots r)"
  by (induction r ops arbitrary: acc rcv rule: ring_run.induct)
    (auto simp: ring_try_send_def ring_try_recv_def split: option.splits
      dest: try_send_loop_slots try_recv_loop_slots)

lemma try_recv_stuck:
  assumes "slots r = [\<lparr>seq = 2, sval = x\<rparr>]" "cap_mask r = 0" "rhead r = 0"
  shows "try_recv_loop gos r (rhead r) = None"
  using assms by (induction gos) (simp_all add: Let_def)

section \<open>Properties\<close>




end
