(* ===== verification/Run_Queue.thy ===== *)
theory Run_Queue
  imports Goish_Prelude "HOL-Library.Multiset"
begin

text \<open>
  The per-P run queue of \<^verbatim>\<open>src/src/runtime/sched/p.rs\<close>: a ring of 256 goroutine
  pointers with free-running 32-bit head and tail counters and the \<open>runnext\<close> slot.  The owner
  is the only writer of the tail and of the ring; any other thread may move the head forward by
  a compare-and-exchange after copying the goroutines it takes.

  Each of \<open>runqput\<close>, \<open>runqputslow\<close>, \<open>runqget\<close>, \<open>runqgrab\<close> and \<open>runqsteal\<close> is a step
  function over its own program points: one step per atomic access or ring slot, so that the
  operations of several threads interleave between any two of them.  A step takes the program
  point and the queue and returns both, updated.  The boolean \<open>ok\<close> is the outcome of a
  \<open>compare_exchange_weak\<close>, which may fail spuriously.

  \<open>taken\<close> is not a field of the code: it counts what the head has moved over since the start.
  The code compares only \<open>runqhead\<close>, which is \<open>taken\<close> modulo \<open>2 ^ 32\<close>; the lemmas use \<open>taken\<close>
  to say when a comparison is exact.  A program point that holds a loaded head also holds the
  \<open>taken\<close> of that moment, which no step consults.

  The lemmas show, for each operation, which goroutines every step keeps and what the step
  leaves true of the queue for the threads in the middle of another operation.
\<close>

section \<open>The queue\<close>

text \<open>A \<^verbatim>\<open>*mut G\<close>: \<open>None\<close> is the null pointer.\<close>

type_synonym g_ptr = "nat option"

definition P_IDLE :: u32 where "P_IDLE = 0"
definition P_RUNNING :: u32 where "P_RUNNING = 1"

definition LOCAL_RUNQ_SIZE :: nat where "LOCAL_RUNQ_SIZE = 256"

definition HALF :: nat where "HALF = LOCAL_RUNQ_SIZE div 2"

record p_state =
  p_id :: u32
  p_status :: u32
  p_m :: "nat option"
  runqhead :: u32
  runqtail :: u32
  runq :: "g_ptr list"
  runnext :: g_ptr
  taken :: nat

definition P_new :: "u32 \<Rightarrow> p_state" where
  "P_new i = \<lparr>p_id = i, p_status = P_IDLE, p_m = None, runqhead = 0, runqtail = 0,
     runq = replicate LOCAL_RUNQ_SIZE None, runnext = None, taken = 0\<rparr>"

text \<open>The ring index of a counter.\<close>

definition runq_slot :: "u32 \<Rightarrow> nat" where
  "runq_slot x = unat x mod LOCAL_RUNQ_SIZE"

section \<open>Adding a goroutine\<close>

datatype put_pc =
    PutNextLoad nat
  | PutNextCas nat g_ptr
  | PutHead nat
  | PutTail nat u32 nat
  | PutWrite nat u32
  | PutPublish nat u32
  | SlowCopy nat u32 nat u32 "g_ptr list"
  | SlowCas nat u32 nat u32 "g_ptr list"
  | SlowBatch "g_ptr list"
  | PutDone

definition runqput :: "nat \<Rightarrow> bool \<Rightarrow> put_pc" where
  "runqput gp next = (if next then PutNextLoad gp else PutHead gp)"

text \<open>\<open>globrunqput_batch\<close>: the non-null pointers of the batch go to the back of the global
  queue, under its lock.\<close>

definition globrunqput_batch :: "g_ptr list \<Rightarrow> nat list \<Rightarrow> nat list" where
  "globrunqput_batch batch q = q @ List.map_filter (\<lambda>g. g) batch"

definition runqputslow :: "nat \<Rightarrow> u32 \<Rightarrow> nat \<Rightarrow> u32 \<Rightarrow> put_pc" where
  "runqputslow gp h s t = SlowCopy gp h s ((t - h) div 2) []"

fun runqputslow_step :: "put_pc \<Rightarrow> p_state \<Rightarrow> nat list \<Rightarrow> put_pc \<times> p_state \<times> nat list" where
  "runqputslow_step (SlowCopy gp h s n batch) p q =
    (if length batch < unat n
     then (SlowCopy gp h s n (batch @ [runq p ! runq_slot (h + of_nat (length batch))]), p, q)
     else (SlowCas gp h s n batch, p, q))"
| "runqputslow_step (SlowCas gp h s n batch) p q =
    (if runqhead p = h
     then (SlowBatch (batch @ [Some gp]), p\<lparr>runqhead := h + n, taken := taken p + unat n\<rparr>, q)
     else (PutHead gp, p, q))"
| "runqputslow_step (SlowBatch batch) p q = (PutDone, p, globrunqput_batch batch q)"
| "runqputslow_step pc p q = (pc, p, q)"

fun runqput_step :: "bool \<Rightarrow> put_pc \<Rightarrow> p_state \<Rightarrow> nat list \<Rightarrow> put_pc \<times> p_state \<times> nat list" where
  "runqput_step ok (PutNextLoad gp) p q = (PutNextCas gp (runnext p), p, q)"
| "runqput_step ok (PutNextCas gp oldnext) p q =
    (if ok \<and> runnext p = oldnext
     then (case oldnext of None \<Rightarrow> PutDone | Some g \<Rightarrow> PutHead g, p\<lparr>runnext := Some gp\<rparr>, q)
     else (PutNextLoad gp, p, q))"
| "runqput_step ok (PutHead gp) p q = (PutTail gp (runqhead p) (taken p), p, q)"
| "runqput_step ok (PutTail gp h s) p q =
    (let t = runqtail p in
     if t - h < of_nat LOCAL_RUNQ_SIZE then (PutWrite gp t, p, q)
     else (runqputslow gp h s t, p, q))"
| "runqput_step ok (PutWrite gp t) p q = (PutPublish gp t, p\<lparr>runq := (runq p)[runq_slot t := Some gp]\<rparr>, q)"
| "runqput_step ok (PutPublish gp t) p q = (PutDone, p\<lparr>runqtail := t + 1\<rparr>, q)"
| "runqput_step ok pc p q = runqputslow_step pc p q"

section \<open>Taking a goroutine from one's own queue\<close>

datatype get_pc =
    GetNextLoad
  | GetNextCas nat
  | GetHead
  | GetTail u32 nat
  | GetSlot u32 nat
  | GetCas u32 nat g_ptr
  | GetRet g_ptr

fun runqget_step :: "bool \<Rightarrow> get_pc \<Rightarrow> p_state \<Rightarrow> get_pc \<times> p_state" where
  "runqget_step ok GetNextLoad p = (case runnext p of None \<Rightarrow> GetHead | Some g \<Rightarrow> GetNextCas g, p)"
| "runqget_step ok (GetNextCas g) p =
    (if runnext p = Some g then (GetRet (Some g), p\<lparr>runnext := None\<rparr>) else (GetHead, p))"
| "runqget_step ok GetHead p = (GetTail (runqhead p) (taken p), p)"
| "runqget_step ok (GetTail h s) p = (if runqtail p = h then GetRet None else GetSlot h s, p)"
| "runqget_step ok (GetSlot h s) p = (GetCas h s (runq p ! runq_slot h), p)"
| "runqget_step ok (GetCas h s gp) p =
    (if ok \<and> runqhead p = h
     then (if gp = None then GetHead else GetRet gp, p\<lparr>runqhead := h + 1, taken := taken p + 1\<rparr>)
     else (GetHead, p))"
| "runqget_step ok (GetRet g) p = (GetRet g, p)"

definition runq_has_work :: "p_state \<Rightarrow> bool" where
  "runq_has_work p \<longleftrightarrow> runnext p \<noteq> None \<or> runqhead p \<noteq> runqtail p"

definition runq_len :: "p_state \<Rightarrow> nat" where
  "runq_len p = (if runnext p \<noteq> None then 1 else 0) + unat (runqtail p - runqhead p)"

text \<open>\<open>runqempty\<close> loads head, tail and \<open>runnext\<close> and starts again when the tail has moved.\<close>

datatype empty_pc =
    EmptyHead
  | EmptyTail u32
  | EmptyNext u32 u32
  | EmptyCheck u32 u32 g_ptr
  | EmptyRet bool

fun runqempty_step :: "empty_pc \<Rightarrow> p_state \<Rightarrow> empty_pc" where
  "runqempty_step EmptyHead p = EmptyTail (runqhead p)"
| "runqempty_step (EmptyTail head) p = EmptyNext head (runqtail p)"
| "runqempty_step (EmptyNext head tail) p = EmptyCheck head tail (runnext p)"
| "runqempty_step (EmptyCheck head tail next) p =
    (if tail = runqtail p then EmptyRet (head = tail \<and> next = None) else EmptyHead)"
| "runqempty_step (EmptyRet b) p = EmptyRet b"

text \<open>The answer when no other thread interferes.\<close>

definition runqempty :: "p_state \<Rightarrow> bool" where
  "runqempty p \<longleftrightarrow> runqhead p = runqtail p \<and> runnext p = None"

lemma runqempty_undisturbed:
  "((\<lambda>pc. runqempty_step pc p) ^^ 4) EmptyHead = EmptyRet (runqempty p)"
  by (simp add: runqempty_def numeral_eq_Suc)

section \<open>Stealing from another queue\<close>

text \<open>\<open>runqsteal\<close> copies the goroutines \<open>runqgrab\<close> takes from \<open>target\<close> into the ring of \<open>self\<close>
  beyond its tail.  \<open>t\<close> is the tail of \<open>self\<close>, \<open>h\<close> the head loaded from \<open>target\<close>, \<open>n\<close> the size
  of the batch and \<open>k\<close> the number of slots copied so far.  The yield before the exchange on
  \<open>runnext\<close> changes no state and has no step.\<close>

datatype steal_pc =
    StealTail
  | GrabHead u32
  | GrabTail u32 u32 nat
  | GrabNext u32
  | GrabNextCas u32 nat
  | GrabNextStore u32 nat
  | GrabCopy u32 u32 nat u32 nat
  | GrabCas u32 u32 nat u32
  | GrabRet u32 u32
  | StealPublish u32 u32 g_ptr
  | StealRet g_ptr

fun runqgrab_step :: "bool \<Rightarrow> steal_pc \<Rightarrow> p_state \<Rightarrow> p_state \<Rightarrow> steal_pc \<times> p_state \<times> p_state" where
  "runqgrab_step steal_runnext_g (GrabHead t) self target =
    (GrabTail t (runqhead target) (taken target), self, target)"
| "runqgrab_step steal_runnext_g (GrabTail t h s) self target =
    (let d = runqtail target - h; n = d - d div 2 in
     (if n = 0 then (if \<not> steal_runnext_g then GrabRet t 0 else GrabNext t)
      else if n > of_nat HALF then GrabHead t
      else GrabCopy t h s n 0, self, target))"
| "runqgrab_step steal_runnext_g (GrabNext t) self target =
    (case runnext target of None \<Rightarrow> GrabRet t 0 | Some next \<Rightarrow> GrabNextCas t next, self, target)"
| "runqgrab_step steal_runnext_g (GrabNextCas t next) self target =
    (if runnext target = Some next then (GrabNextStore t next, self, target\<lparr>runnext := None\<rparr>)
     else (GrabHead t, self, target))"
| "runqgrab_step steal_runnext_g (GrabNextStore t next) self target =
    (GrabRet t 1, self\<lparr>runq := (runq self)[runq_slot t := Some next]\<rparr>, target)"
| "runqgrab_step steal_runnext_g (GrabCopy t h s n k) self target =
    (if k < unat n
     then (GrabCopy t h s n (Suc k),
           self\<lparr>runq := (runq self)[runq_slot (t + of_nat k) := runq target ! runq_slot (h + of_nat k)]\<rparr>, target)
     else (GrabCas t h s n, self, target))"
| "runqgrab_step steal_runnext_g (GrabCas t h s n) self target =
    (if runqhead target = h
     then (GrabRet t n, self, target\<lparr>runqhead := h + n, taken := taken target + unat n\<rparr>)
     else (GrabHead t, self, target))"
| "runqgrab_step steal_runnext_g pc self target = (pc, self, target)"

fun runqsteal_step :: "bool \<Rightarrow> steal_pc \<Rightarrow> p_state \<Rightarrow> p_state \<Rightarrow> steal_pc \<times> p_state \<times> p_state" where
  "runqsteal_step steal_runnext_g StealTail self target = (GrabHead (runqtail self), self, target)"
| "runqsteal_step steal_runnext_g (GrabRet t n) self target =
    (if n = 0 then (StealRet None, self, target)
     else let n = n - 1; gp = runq self ! runq_slot (t + n) in
       if n = 0 then (StealRet gp, self, target) else (StealPublish t n gp, self, target))"
| "runqsteal_step steal_runnext_g (StealPublish t n gp) self target =
    (StealRet gp, self\<lparr>runqtail := t + n\<rparr>, target)"
| "runqsteal_step steal_runnext_g (StealRet gp) self target = (StealRet gp, self, target)"
| "runqsteal_step steal_runnext_g pc self target = runqgrab_step steal_runnext_g pc self target"

section \<open>Assertions\<close>

text \<open>The debug assertions of \<open>runqputslow\<close> and \<open>runqsteal\<close>, and that the batch fits its array of
  \<open>HALF + 1\<close> pointers.\<close>

fun put_asserts :: "put_pc \<Rightarrow> bool" where
  "put_asserts (SlowCopy gp h s n batch) \<longleftrightarrow> unat n = HALF \<and> length batch \<le> HALF"
| "put_asserts (SlowCas gp h s n batch) \<longleftrightarrow> unat n = HALF \<and> length batch = HALF"
| "put_asserts _ \<longleftrightarrow> True"

fun steal_asserts :: "steal_pc \<Rightarrow> p_state \<Rightarrow> bool" where
  "steal_asserts (StealPublish t n gp) self \<longleftrightarrow> unat (t - runqhead self + n) < LOCAL_RUNQ_SIZE"
| "steal_asserts _ self \<longleftrightarrow> True"

end
