(* ===== verification/Run_Queue_Inv.thy ===== *)
theory Run_Queue_Inv
  imports Run_Queue
begin

text \<open>
  What every step of a run queue operation keeps.  \<open>p_ok\<close> is the shape of a queue, \<open>put_ok\<close>,
  \<open>get_ok\<close> and \<open>steal_ok\<close> relate a program point to the queues it works on, and the bags count
  the goroutines a queue and a program point hold.  Each operation has three lemmas: its step
  keeps the invariants, keeps the bag, and moves the queue along \<open>p_adv\<close> (what a thief may do to
  the owner) or \<open>p_le\<close> (what the owner may do to a thief), the two relations under which the
  conditions of the other threads are stable.
\<close>

section \<open>Stretches of the ring\<close>

definition seg :: "g_ptr list \<Rightarrow> u32 \<Rightarrow> nat \<Rightarrow> g_ptr list" where
  "seg q h n = map (\<lambda>k. q ! runq_slot (h + of_nat k)) [0..<n]"

lemma length_seg [simp]: "length (seg q h n) = n"
  by (simp add: seg_def)

lemma seg_0 [simp]: "seg q h 0 = []"
  by (simp add: seg_def)

lemma seg_Suc: "seg q h (Suc n) = seg q h n @ [q ! runq_slot (h + of_nat n)]"
  by (simp add: seg_def)

lemma seg_add: "seg q h (m + n) = seg q h m @ seg q (h + of_nat m) n"
  by (induction n) (simp_all add: seg_Suc algebra_simps)

lemma seg_split: "m \<le> n \<Longrightarrow> seg q h n = seg q h m @ seg q (h + of_nat m) (n - m)"
  using seg_add [of q h m "n - m"] by simp

lemma seg_take: "m \<le> n \<Longrightarrow> take m (seg q h n) = seg q h m"
  by (simp add: seg_split)

lemma runq_slot_less [simp]: "runq_slot x < 256"
  by (simp add: runq_slot_def LOCAL_RUNQ_SIZE_def)

lemma runq_slot_add: "runq_slot (h + of_nat k) = (unat h + k) mod 256"
proof -
  have "unat (h + of_nat k) = (unat h + k) mod 2 ^ 32"
    by (simp add: unat_word_ariths unat_of_nat mod_add_right_eq)
  then show ?thesis
    using mod_pow2_mod [of 8 32 "unat h + k"] by (simp add: runq_slot_def LOCAL_RUNQ_SIZE_def)
qed

lemma runq_slot_inj: "j < 256 \<Longrightarrow> k < 256 \<Longrightarrow> runq_slot (h + of_nat j) = runq_slot (h + of_nat k) \<Longrightarrow> j = k"
  unfolding runq_slot_add by (rule circ_index_inj)

lemma seg_update_out:
  assumes "n \<le> m" "m < 256"
  shows "seg (q[runq_slot (h + of_nat m) := x]) h n = seg q h n"
proof -
  have "runq_slot (h + of_nat m) \<noteq> runq_slot (h + of_nat k)" if "k < n" for k
    using runq_slot_inj [of m k h] that assms by fastforce
  then show ?thesis
    by (simp add: seg_def)
qed

lemma seg_snoc:
  assumes "length q = 256" "n < 256"
  shows "seg (q[runq_slot (h + of_nat n) := x]) h (Suc n) = seg q h n @ [x]"
  using assms by (simp add: seg_Suc seg_update_out)

section \<open>Shape and contents of a queue\<close>

definition qlen :: "p_state \<Rightarrow> nat" where
  "qlen p = unat (runqtail p - runqhead p)"

definition items :: "p_state \<Rightarrow> g_ptr list" where
  "items p = seg (runq p) (runqhead p) (qlen p)"

definition p_ok :: "p_state \<Rightarrow> bool" where
  "p_ok p \<longleftrightarrow> length (runq p) = 256 \<and> qlen p \<le> 256 \<and> runqhead p = of_nat (taken p)
     \<and> None \<notin> set (items p)"

definition gs :: "g_ptr list \<Rightarrow> nat multiset" where
  "gs xs = mset (List.map_filter (\<lambda>g. g) xs)"

lemma gs_simps [simp]:
  "gs [] = {#}"
  "gs (x # xs) = (case x of None \<Rightarrow> {#} | Some g \<Rightarrow> {#g#}) + gs xs"
  "gs (xs @ ys) = gs xs + gs ys"
  by (simp_all add: gs_def List.map_filter_def split: option.splits)

lemma tail_eq: "runqtail p = runqhead p + of_nat (qlen p)"
  by (simp add: qlen_def)

lemma new_empty [simp]: "qlen (P_new i) = 0" "items (P_new i) = []" "runnext (P_new i) = None"
  by (simp_all add: items_def qlen_def P_new_def)

lemma p_ok_new [simp]: "p_ok (P_new i)"
  by (simp add: p_ok_def) (simp add: P_new_def LOCAL_RUNQ_SIZE_def)

text \<open>Moving the head over \<open>n\<close> goroutines.\<close>

lemma unat_sub_of_nat: "n \<le> unat (d :: u32) \<Longrightarrow> unat (d - of_nat n) = unat d - n"
proof -
  assume n: "n \<le> unat d"
  then have "n < 2 ^ 32"
    using unat_less_exp [of d] by simp
  then have "unat (of_nat n :: u32) = n"
    by (simp add: unat_of_nat)
  then show ?thesis
    using n by (simp add: unat_sub word_le_nat_alt)
qed

lemma qlen_advance:
  assumes "unat n \<le> qlen p"
  shows "qlen (p\<lparr>runqhead := runqhead p + n, taken := k\<rparr>) = qlen p - unat n"
proof -
  have "unat (runqtail p - (runqhead p + n)) = unat (runqtail p - runqhead p - of_nat (unat n))"
    by (simp add: diff_diff_eq)
  also have "\<dots> = qlen p - unat n"
    using unat_sub_of_nat assms unfolding qlen_def by blast
  finally show ?thesis
    by (simp add: qlen_def)
qed

lemma items_advance:
  assumes "unat n \<le> qlen p"
  shows "items p = seg (runq p) (runqhead p) (unat n)
    @ items (p\<lparr>runqhead := runqhead p + n, taken := k\<rparr>)"
  using seg_split [OF assms, of "runq p" "runqhead p"]
  unfolding items_def qlen_advance [OF assms] by simp

lemma p_ok_advance:
  assumes "p_ok p" "unat n \<le> qlen p"
  shows "p_ok (p\<lparr>runqhead := runqhead p + n, taken := taken p + unat n\<rparr>)"
proof -
  let ?p = "p\<lparr>runqhead := runqhead p + n, taken := taken p + unat n\<rparr>"
  have "set (items ?p) \<subseteq> set (items p)"
    by (subst items_advance [OF assms(2), of "taken p + unat n"]) simp
  then have "None \<notin> set (items ?p)"
    using assms(1) unfolding p_ok_def by blast
  then show ?thesis
    using assms(1) unfolding p_ok_def qlen_advance [OF assms(2)] by (simp add: le_diff_conv)
qed

text \<open>Moving the tail over goroutines already in the ring.\<close>

lemma qlen_extend:
  assumes "qlen p + n < 2 ^ 32"
  shows "qlen (p\<lparr>runqtail := runqtail p + of_nat n\<rparr>) = qlen p + n"
proof -
  have n: "unat (of_nat n :: u32) = n"
    using assms by (simp add: unat_of_nat)
  have "unat (runqtail p + of_nat n - runqhead p) = unat ((runqtail p - runqhead p) + of_nat n)"
    by (simp add: algebra_simps)
  also have "\<dots> = qlen p + n"
    using assms unat_add_small [of "runqtail p - runqhead p" "of_nat n"] n
    by (simp add: qlen_def)
  finally show ?thesis
    by (simp add: qlen_def)
qed

lemma items_extend:
  assumes "qlen p + n < 2 ^ 32"
  shows "items (p\<lparr>runqtail := runqtail p + of_nat n\<rparr>) = items p @ seg (runq p) (runqtail p) n"
  unfolding items_def qlen_extend [OF assms] by (simp add: seg_add flip: tail_eq)

section \<open>What other threads may do to a queue\<close>

text \<open>Thieves only move the head forward; the owner also fills the ring beyond the tail.\<close>

definition p_adv :: "p_state \<Rightarrow> p_state \<Rightarrow> bool" where
  "p_adv p p' \<longleftrightarrow> runq p' = runq p \<and> runqtail p' = runqtail p \<and> taken p \<le> taken p'
     \<and> taken p' + qlen p' = taken p + qlen p"

definition p_le :: "p_state \<Rightarrow> p_state \<Rightarrow> bool" where
  "p_le p p' \<longleftrightarrow> taken p \<le> taken p' \<and>
     (taken p = taken p' \<longrightarrow> qlen p \<le> qlen p' \<and> seg (runq p') (runqhead p) (qlen p) = items p)"

lemma p_adv_refl [simp]: "p_adv p p"
  by (simp add: p_adv_def)

lemma p_le_refl [simp]: "p_le p p"
  by (simp add: p_le_def items_def)

lemma p_adv_imp_le: "p_adv p p' \<Longrightarrow> p_le p p'"
  by (simp add: p_adv_def p_le_def items_def)

lemma p_adv_advance:
  "unat n \<le> qlen p \<Longrightarrow> p_adv p (p\<lparr>runqhead := runqhead p + n, taken := taken p + unat n\<rparr>)"
  using qlen_advance [of n p "taken p + unat n"] by (simp add: p_adv_def)

lemma p_le_seg: "p_le p p' \<Longrightarrow> taken p = taken p' \<Longrightarrow> n \<le> qlen p \<Longrightarrow> seg (runq p') (runqhead p) n = seg (runq p) (runqhead p) n"
  unfolding p_le_def items_def by (metis seg_take)

lemma runnext_update [simp]:
  "qlen (p\<lparr>runnext := x\<rparr>) = qlen p" "items (p\<lparr>runnext := x\<rparr>) = items p"
  "p_ok (p\<lparr>runnext := x\<rparr>) = p_ok p" "p_adv p (p\<lparr>runnext := x\<rparr>)" "p_le p (p\<lparr>runnext := x\<rparr>)"
proof -
  show *: "qlen (p\<lparr>runnext := x\<rparr>) = qlen p" "items (p\<lparr>runnext := x\<rparr>) = items p"
    by (simp_all add: items_def qlen_def)
  show "p_ok (p\<lparr>runnext := x\<rparr>) = p_ok p" "p_adv p (p\<lparr>runnext := x\<rparr>)" "p_le p (p\<lparr>runnext := x\<rparr>)"
    by (simp_all add: p_ok_def p_adv_def p_le_def *) (simp add: items_def)
qed

text \<open>A head loaded earlier, with \<open>s\<close> the \<open>taken\<close> of that moment.  The owner adds nothing between
  the load and the exchange, so at most 256 goroutines have left meanwhile.\<close>

definition snap :: "u32 \<Rightarrow> nat \<Rightarrow> p_state \<Rightarrow> bool" where
  "snap h s p \<longleftrightarrow> h = of_nat s \<and> s \<le> taken p \<and> taken p + qlen p \<le> s + 256"

lemma of_nat_eq_close:
  assumes "s \<le> t" "t - s < 2 ^ 32" "of_nat t = (of_nat s :: u32)"
  shows "t = s"
proof -
  have "(of_nat (t - s) :: u32) = 0"
    using assms by (simp add: of_nat_diff)
  then have "unat (of_nat (t - s) :: u32) = 0"
    by (simp only: unat_0)
  then have "(t - s) mod 2 ^ 32 = 0"
    by (simp only: unat_of_nat) simp
  then show ?thesis
    using assms(1, 2) by simp
qed

lemma snap_eq: "p_ok p \<Longrightarrow> snap h s p \<Longrightarrow> runqhead p = h \<Longrightarrow> taken p = s"
  by (rule of_nat_eq_close) (auto simp: p_ok_def snap_def)

lemma snap_now: "p_ok p \<Longrightarrow> snap (runqhead p) (taken p) p"
  by (simp add: p_ok_def snap_def)

lemma snap_adv: "snap h s p \<Longrightarrow> p_adv p p' \<Longrightarrow> snap h s p'"
  by (simp add: snap_def p_adv_def)

lemma snap_dist:
  assumes "p_ok p" "snap h s p"
  shows "unat (runqtail p - h) = taken p - s + qlen p"
proof -
  have "runqtail p - h = of_nat (taken p - s + qlen p)"
    using assms tail_eq [of p] by (simp add: p_ok_def snap_def of_nat_diff)
  then have "unat (runqtail p - h) = (taken p - s + qlen p) mod 2 ^ 32"
    by (simp only: unat_of_nat) simp
  moreover have "taken p - s + qlen p \<le> 256"
    using assms by (auto simp: snap_def)
  ultimately show ?thesis
    by (simp only:) simp
qed

section \<open>\<open>runqput\<close>\<close>

definition p_bag :: "p_state \<Rightarrow> nat multiset" where
  "p_bag p = gs (items p) + gs [runnext p]"

fun put_bag :: "put_pc \<Rightarrow> nat multiset" where
  "put_bag (PutNextLoad g) = {#g#}"
| "put_bag (PutNextCas g old) = {#g#}"
| "put_bag (PutHead g) = {#g#}"
| "put_bag (PutTail g h s) = {#g#}"
| "put_bag (PutWrite g t) = {#g#}"
| "put_bag (PutPublish g t) = {#g#}"
| "put_bag (SlowCopy g h s n b) = {#g#}"
| "put_bag (SlowCas g h s n b) = {#g#}"
| "put_bag (SlowBatch b) = gs b"
| "put_bag PutDone = {#}"

fun put_ok :: "put_pc \<Rightarrow> p_state \<Rightarrow> bool" where
  "put_ok (PutTail g h s) p \<longleftrightarrow> snap h s p"
| "put_ok (PutWrite g t) p \<longleftrightarrow> t = runqtail p \<and> qlen p < 256"
| "put_ok (PutPublish g t) p \<longleftrightarrow> t = runqtail p \<and> qlen p < 256 \<and> runq p ! runq_slot t = Some g"
| "put_ok (SlowCopy g h s n b) p \<longleftrightarrow> snap h s p \<and> unat n = HALF \<and> length b \<le> HALF
     \<and> (taken p = s \<longrightarrow> qlen p = 256 \<and> b = seg (runq p) h (length b))"
| "put_ok (SlowCas g h s n b) p \<longleftrightarrow> snap h s p \<and> unat n = HALF \<and> length b = HALF
     \<and> (taken p = s \<longrightarrow> qlen p = 256 \<and> b = seg (runq p) h HALF)"
| "put_ok _ p \<longleftrightarrow> True"

lemma put_ok_start [simp]: "put_ok (runqput g next) p" "put_bag (runqput g next) = {#g#}"
  by (simp_all add: runqput_def)

lemma put_ok_adv: "put_ok pc p \<Longrightarrow> p_adv p p' \<Longrightarrow> put_ok pc p'"
  by (cases pc) (auto simp: snap_adv p_adv_def snap_def)

text \<open>The owner's writes: the slot at the tail, then the tail itself.\<close>

lemma write_slot:
  fixes x :: g_ptr
  assumes "p_ok p" "qlen p < 256"
  defines "p' \<equiv> p\<lparr>runq := (runq p)[runq_slot (runqtail p) := x]\<rparr>"
  shows "items p' = items p" "p_ok p'" "p_le p p'" "runq p' ! runq_slot (runqtail p) = x"
proof -
  have q: "qlen p' = qlen p"
    by (simp add: p'_def qlen_def)
  show i: "items p' = items p"
    unfolding items_def q using assms(2) tail_eq [of p]
    by (simp add: p'_def seg_update_out)
  show "p_ok p'" "p_le p p'"
    using assms(1) i q by (simp_all add: p_ok_def p_le_def) (simp_all add: p'_def items_def)
  show "runq p' ! runq_slot (runqtail p) = x"
    using assms(1) by (simp add: p'_def p_ok_def)
qed

lemma publish:
  fixes n :: nat
  assumes "p_ok p" "qlen p + n \<le> 256" "None \<notin> set (seg (runq p) (runqtail p) n)"
  defines "p' \<equiv> p\<lparr>runqtail := runqtail p + of_nat n\<rparr>"
  shows "items p' = items p @ seg (runq p) (runqtail p) n" "p_ok p'" "p_le p p'"
proof -
  have n: "qlen p + n < 2 ^ 32"
    using assms by simp
  show i: "items p' = items p @ seg (runq p) (runqtail p) n"
    unfolding p'_def by (rule items_extend [OF n])
  have q: "qlen p' = qlen p + n"
    unfolding p'_def by (rule qlen_extend [OF n])
  show "p_ok p'" "p_le p p'"
    using assms(1-3) i q by (simp_all add: p_ok_def p_le_def) (simp_all add: p'_def items_def)
qed

lemma runqput_tail_step:
  assumes "p_ok p" "snap h s p" "runqput_step ok (PutTail g h s) p q = (pc', p', q')"
  shows "p' = p \<and> q' = q \<and> put_ok pc' p \<and> put_bag pc' = {#g#}"
proof -
  have d: "unat (runqtail p - h) = taken p - s + qlen p" "taken p - s + qlen p \<le> 256"
    using snap_dist [OF assms(1, 2)] assms(2) by (auto simp: snap_def)
  show ?thesis
  proof (cases "runqtail p - h < of_nat LOCAL_RUNQ_SIZE")
    case True
    then have "unat (runqtail p - h) < 256"
      by (simp add: LOCAL_RUNQ_SIZE_def word_less_nat_alt)
    then show ?thesis
      using assms(3) True d by auto
  next
    case False
    then have "unat (runqtail p - h) = 256"
      using d by (simp add: LOCAL_RUNQ_SIZE_def word_less_nat_alt)
    then have "unat ((runqtail p - h) div 2) = HALF" and "taken p = s \<longrightarrow> qlen p = 256"
      using d by (simp add: unat_div HALF_def LOCAL_RUNQ_SIZE_def, linarith)
    then show ?thesis
      using assms False by (auto simp: runqputslow_def Let_def)
  qed
qed

text \<open>The spill of half the queue: the head moves over the batch only when the batch is the front
  of the queue.\<close>

lemma runqputslow_cas_step:
  assumes "p_ok p" "put_ok (SlowCas g h s n b) p"
    "runqputslow_step (SlowCas g h s n b) p q = (pc', p', q')"
  shows "p_ok p' \<and> put_ok pc' p' \<and> p_le p p' \<and> q' = q
    \<and> p_bag p' + put_bag pc' = p_bag p + {#g#}"
proof (cases "runqhead p = h")
  case True
  then have s: "taken p = s"
    using assms snap_eq by auto
  have n: "unat n \<le> qlen p" and b: "b = seg (runq p) (runqhead p) (unat n)"
    using assms(2) s True by (simp_all add: HALF_def LOCAL_RUNQ_SIZE_def)
  have p': "p' = p\<lparr>runqhead := runqhead p + n, taken := taken p + unat n\<rparr>"
    "pc' = SlowBatch (b @ [Some g])" "q' = q"
    using assms(3) True by auto
  show ?thesis
    using p_ok_advance [OF assms(1) n] p_adv_imp_le [OF p_adv_advance [OF n]]
      items_advance [OF n, of "taken p + unat n"] b
    unfolding p' by (simp add: p_bag_def)
qed (use assms in auto)

lemma runqputslow_step_ok:
  assumes "p_ok p" "put_ok pc p" "runqputslow_step pc p q = (pc', p', q')"
  shows "p_ok p' \<and> put_ok pc' p' \<and> p_le p p'
    \<and> p_bag p' + put_bag pc' + mset q' = p_bag p + put_bag pc + mset q"
proof (cases pc)
  case (SlowCopy g h s n b)
  then show ?thesis
    using assms by (auto simp: seg_Suc split: if_splits)
next
  case (SlowCas g h s n b)
  then show ?thesis
    using runqputslow_cas_step [of p g h s n b q] assms by auto
next
  case (SlowBatch b)
  then show ?thesis
    using assms by (auto simp: globrunqput_batch_def gs_def)
qed (use assms in auto)

lemma runqput_step_ok:
  assumes "p_ok p" "put_ok pc p" "runqput_step ok pc p q = (pc', p', q')"
  shows "p_ok p' \<and> put_ok pc' p' \<and> p_le p p'
    \<and> p_bag p' + put_bag pc' + mset q' = p_bag p + put_bag pc + mset q"
proof -
  have slow: ?thesis if "runqput_step ok pc p q = runqputslow_step pc p q"
    using runqputslow_step_ok [OF assms(1, 2), of q pc' p' q'] assms(3) that by simp
  show ?thesis
  proof (cases pc)
    case (PutNextCas g old)
    then show ?thesis
      using assms by (auto simp: p_bag_def split: if_splits option.splits)
  next
    case (PutTail g h s)
    then show ?thesis
      using runqput_tail_step [of p h s ok g q pc' p' q'] assms by auto
  next
    case (PutWrite g t)
    then show ?thesis
      using write_slot [of p "Some g"] assms by (auto simp: p_bag_def qlen_def)
  next
    case (PutPublish g t)
    then show ?thesis
      using publish [of p 1] assms by (auto simp: p_bag_def seg_Suc [of _ _ 0, simplified])
  next
    case (SlowCopy g h s n b)
    then show ?thesis by (intro slow) simp
  next
    case (SlowCas g h s n b)
    then show ?thesis by (intro slow) simp
  next
    case (SlowBatch b)
    then show ?thesis by (intro slow) simp
  qed (use assms snap_now in auto)
qed

section \<open>\<open>runqget\<close>\<close>

fun get_bag :: "get_pc \<Rightarrow> nat multiset" where
  "get_bag (GetRet g) = gs [g]"
| "get_bag _ = {#}"

fun get_ok :: "get_pc \<Rightarrow> p_state \<Rightarrow> bool" where
  "get_ok (GetTail h s) p \<longleftrightarrow> snap h s p"
| "get_ok (GetSlot h s) p \<longleftrightarrow> snap h s p \<and> (taken p = s \<longrightarrow> 0 < qlen p)"
| "get_ok (GetCas h s gp) p \<longleftrightarrow> snap h s p \<and> (taken p = s \<longrightarrow> 0 < qlen p \<and> gp = runq p ! runq_slot h)"
| "get_ok (GetRet gp) p \<longleftrightarrow> (gp = None \<longrightarrow> qlen p = 0)"
| "get_ok _ p \<longleftrightarrow> True"

lemma get_ok_adv: "get_ok pc p \<Longrightarrow> p_adv p p' \<Longrightarrow> get_ok pc p'"
  by (cases pc) (auto simp: snap_adv p_adv_def snap_def)

lemma runqget_cas_step:
  assumes "p_ok p" "get_ok (GetCas h s gp) p" "runqget_step ok (GetCas h s gp) p = (pc', p')"
  shows "p_ok p' \<and> get_ok pc' p' \<and> p_le p p' \<and> p_bag p' + get_bag pc' = p_bag p"
proof (cases "ok \<and> runqhead p = h")
  case True
  then have s: "taken p = s"
    using assms snap_eq by auto
  have n: "unat (1 :: u32) \<le> qlen p" and gp: "[gp] = seg (runq p) (runqhead p) (unat (1 :: u32))"
    using assms(2) s True by (simp_all add: seg_Suc [of _ _ 0, simplified])
  have i: "items p = gp # items (p\<lparr>runqhead := runqhead p + 1, taken := taken p + 1\<rparr>)"
    using items_advance [OF n, of "taken p + 1"] gp by simp
  then have "gp \<noteq> None"
    using assms(1) by (cases gp) (auto simp: p_ok_def)
  then have p': "p' = p\<lparr>runqhead := runqhead p + 1, taken := taken p + 1\<rparr>" "pc' = GetRet gp"
    using assms(3) True by auto
  show ?thesis
    using p_ok_advance [OF assms(1) n] p_adv_imp_le [OF p_adv_advance [OF n]] i \<open>gp \<noteq> None\<close>
    unfolding p' by (auto simp: p_bag_def)
qed (use assms in auto)

lemma runqget_step_ok:
  assumes "p_ok p" "get_ok pc p" "runqget_step ok pc p = (pc', p')"
  shows "p_ok p' \<and> get_ok pc' p' \<and> p_le p p' \<and> p_bag p' + get_bag pc' = p_bag p + get_bag pc"
proof (cases pc)
  case (GetNextCas g)
  then show ?thesis
    using assms by (auto simp: p_bag_def split: if_splits)
next
  case (GetTail h s)
  have "unat (runqtail p - h) = taken p - s + qlen p"
    using snap_dist [OF assms(1)] assms(2) GetTail by simp
  moreover have "runqtail p = h \<longleftrightarrow> unat (runqtail p - h) = 0"
    by (simp add: unat_eq_zero)
  ultimately have "runqtail p = h \<longrightarrow> qlen p = 0" "runqtail p \<noteq> h \<longrightarrow> taken p = s \<longrightarrow> 0 < qlen p"
    by linarith+
  then show ?thesis
    using GetTail assms by (auto split: if_splits)
next
  case (GetCas h s gp)
  then show ?thesis
    using runqget_cas_step [of p h s gp ok pc' p'] assms by simp
qed (use assms snap_now in \<open>auto split: option.splits\<close>)

end
