(* ===== verification/Run_Queue_Steal.thy ===== *)
theory Run_Queue_Steal
  imports Run_Queue_Inv
begin

text \<open>
  What a step of \<open>runqsteal\<close> keeps, on the thief's queue and on its target.  The thief's own
  queue is empty until it publishes the batch, so the slots beyond its tail are free to hold the
  copy.  The copy is the front of the target's queue as long as nobody has moved the head since
  the thief loaded it; that is what the exchange on the head tests, unless exactly a multiple of
  \<open>2 ^ 32\<close> goroutines have left the target in between.  \<open>steal_fresh\<close> excludes that case.
\<close>

definition own :: "u32 \<Rightarrow> p_state \<Rightarrow> bool" where
  "own t self \<longleftrightarrow> t = runqtail self \<and> qlen self = 0"

definition seen :: "u32 \<Rightarrow> nat \<Rightarrow> p_state \<Rightarrow> bool" where
  "seen h s target \<longleftrightarrow> h = of_nat s \<and> s \<le> taken target"

fun steal_ok :: "steal_pc \<Rightarrow> p_state \<Rightarrow> p_state \<Rightarrow> bool" where
  "steal_ok StealTail self target \<longleftrightarrow> qlen self = 0"
| "steal_ok (GrabHead t) self target \<longleftrightarrow> own t self"
| "steal_ok (GrabTail t h s) self target \<longleftrightarrow> own t self \<and> seen h s target"
| "steal_ok (GrabNext t) self target \<longleftrightarrow> own t self"
| "steal_ok (GrabNextCas t g) self target \<longleftrightarrow> own t self"
| "steal_ok (GrabNextStore t g) self target \<longleftrightarrow> own t self"
| "steal_ok (GrabCopy t h s n k) self target \<longleftrightarrow> own t self \<and> seen h s target
     \<and> k \<le> unat n \<and> n \<noteq> 0 \<and> unat n \<le> HALF
     \<and> (taken target = s \<longrightarrow> unat n \<le> qlen target \<and> seg (runq self) t k = seg (runq target) h k)"
| "steal_ok (GrabCas t h s n) self target \<longleftrightarrow> own t self \<and> seen h s target
     \<and> n \<noteq> 0 \<and> unat n \<le> HALF
     \<and> (taken target = s \<longrightarrow> unat n \<le> qlen target
        \<and> seg (runq self) t (unat n) = seg (runq target) h (unat n))"
| "steal_ok (GrabRet t n) self target \<longleftrightarrow> own t self \<and> unat n \<le> HALF
     \<and> None \<notin> set (seg (runq self) t (unat n))"
| "steal_ok (StealPublish t n g) self target \<longleftrightarrow> own t self \<and> unat n \<le> HALF
     \<and> None \<notin> set (seg (runq self) t (unat n)) \<and> g \<noteq> None"
| "steal_ok (StealRet g) self target \<longleftrightarrow> (g = None \<longrightarrow> qlen self = 0)"

fun steal_fresh :: "steal_pc \<Rightarrow> p_state \<Rightarrow> bool" where
  "steal_fresh (GrabCas t h s n) target \<longleftrightarrow> taken target - s < 2 ^ 32"
| "steal_fresh _ target \<longleftrightarrow> True"

fun steal_bag :: "steal_pc \<Rightarrow> p_state \<Rightarrow> nat multiset" where
  "steal_bag (GrabNextStore t g) self = {#g#}"
| "steal_bag (GrabRet t n) self = gs (seg (runq self) t (unat n))"
| "steal_bag (StealPublish t n g) self = gs (seg (runq self) t (unat n)) + gs [g]"
| "steal_bag (StealRet g) self = gs [g]"
| "steal_bag _ self = {#}"

section \<open>Stability\<close>

lemma p_adv_empty: "p_adv p p' \<Longrightarrow> qlen p = 0 \<Longrightarrow> qlen p' = 0"
  by (simp add: p_adv_def)

lemma p_adv_runq: "p_adv p p' \<Longrightarrow> runq p' = runq p"
  by (simp add: p_adv_def)

lemma own_adv: "p_adv self self' \<Longrightarrow> own t self \<Longrightarrow> own t self'"
  by (simp add: own_def p_adv_def)

lemma steal_ok_adv:
  assumes "steal_ok pc self target" "p_adv self self'"
  shows "steal_ok pc self' target" "steal_bag pc self' = steal_bag pc self"
  using assms(1) own_adv [OF assms(2)] p_adv_runq [OF assms(2)] p_adv_empty [OF assms(2)]
  by (cases pc; simp)+

lemma steal_ok_le:
  assumes "steal_ok pc self target" "p_le target target'" "p_ok target" "p_ok target'"
  shows "steal_ok pc self target'"
proof -
  have seen': "seen h s target'" if "seen h s target" for h s
    using that assms(2) by (auto simp: seen_def p_le_def)
  have key: "n \<le> qlen target' \<and> seg (runq self) t k = seg (runq target') h k"
    if "taken target' = s" "seen h s target" "k \<le> n"
      "taken target = s \<longrightarrow> n \<le> qlen target \<and> seg (runq self) t k = seg (runq target) h k"
    for h s n k t
  proof -
    have eq: "taken target = taken target'" "h = runqhead target" and n: "n \<le> qlen target"
      using that assms by (auto simp: seen_def p_le_def p_ok_def)
    then show ?thesis
      using that assms(2) p_le_seg [OF assms(2), of k] by (simp add: p_le_def)
  qed
  show ?thesis
  proof (cases pc)
    case (GrabCopy t h s n k)
    then show ?thesis
      using assms(1) seen' key [of s h k "unat n" t] by simp
  next
    case (GrabCas t h s n)
    then show ?thesis
      using assms(1) seen' key [of s h "unat n" "unat n" t] by simp
  qed (use assms(1) seen' in auto)
qed

section \<open>The steps\<close>

lemma own_write:
  fixes x :: g_ptr and k :: nat
  assumes "p_ok self" "own t self" "k < 256"
  defines "self' \<equiv> self\<lparr>runq := (runq self)[runq_slot (t + of_nat k) := x]\<rparr>"
  shows "p_ok self'" "p_le self self'" "p_bag self' = p_bag self" "own t self'"
    "seg (runq self') t (Suc k) = seg (runq self) t k @ [x]"
proof -
  have q: "qlen self' = 0" "qlen self = 0" and t: "t = runqtail self"
    using assms(2) by (simp_all add: self'_def qlen_def own_def)
  show "p_ok self'" "p_le self self'" "p_bag self' = p_bag self"
    using assms(1) q by (simp_all add: p_ok_def p_le_def items_def p_bag_def) (simp_all add: self'_def)
  show "own t self'"
    using q t by (simp add: own_def) (simp add: self'_def)
  show "seg (runq self') t (Suc k) = seg (runq self) t k @ [x]"
    using assms(1, 3) by (simp add: self'_def seg_snoc p_ok_def)
qed

lemma grab_tail_step:
  assumes "p_ok self" "p_ok target" "steal_ok (GrabTail t h s) self target"
    "runqgrab_step b (GrabTail t h s) self target = (pc', self', target')"
  shows "self' = self \<and> target' = target \<and> steal_ok pc' self target \<and> steal_bag pc' self = {#}"
proof -
  define d where "d = runqtail target - h"
  define n where "n = d - d div 2"
  have n: "unat n = unat d - unat d div 2"
    unfolding n_def by (subst unat_sub) (simp_all add: unat_div div_le_dividend word_le_nat_alt)
  have "unat n \<le> HALF" if "\<not> n > of_nat HALF"
    using that by (simp add: word_less_nat_alt HALF_def LOCAL_RUNQ_SIZE_def)
  moreover have "unat n \<le> qlen target" if "taken target = s"
    using that assms(2, 3) n by (simp add: seen_def p_ok_def d_def qlen_def)
  ultimately show ?thesis
    using assms(3, 4) unfolding runqgrab_step.simps Let_def d_def [symmetric] n_def [symmetric]
    by (auto split: if_splits)
qed

lemma grab_cas_step:
  assumes "p_ok self" "p_ok target" "steal_ok (GrabCas t h s n) self target"
    "steal_fresh (GrabCas t h s n) target"
    "runqgrab_step b (GrabCas t h s n) self target = (pc', self', target')"
  shows "self' = self \<and> p_ok target' \<and> p_adv target target' \<and> steal_ok pc' self target'
    \<and> p_bag target' + steal_bag pc' self = p_bag target"
proof (cases "runqhead target = h")
  case True
  have s: "taken target = s"
    using assms(2-4) True by (intro of_nat_eq_close) (auto simp: p_ok_def seen_def)
  have n: "unat n \<le> qlen target"
    and c: "seg (runq self) t (unat n) = seg (runq target) (runqhead target) (unat n)"
    using assms(3) s True by auto
  have i: "items target = seg (runq self) t (unat n)
      @ items (target\<lparr>runqhead := runqhead target + n, taken := taken target + unat n\<rparr>)"
    using items_advance [OF n] c by simp
  have new: "self' = self" "pc' = GrabRet t n"
    "target' = target\<lparr>runqhead := runqhead target + n, taken := taken target + unat n\<rparr>"
    using assms(5) True by auto
  have "None \<notin> set (seg (runq self) t (unat n))"
    using assms(2) i unfolding p_ok_def by (metis Un_iff set_append)
  then show ?thesis
    using p_ok_advance [OF assms(2) n] p_adv_advance [OF n] assms(3) i
    unfolding new by (simp add: p_bag_def)
qed (use assms in auto)

lemma runqgrab_step_ok:
  assumes "p_ok self" "p_ok target" "steal_ok pc self target" "steal_fresh pc target"
    "runqgrab_step b pc self target = (pc', self', target')"
  shows "p_ok self' \<and> p_ok target' \<and> p_le self self' \<and> p_adv target target'
    \<and> steal_ok pc' self' target'
    \<and> p_bag self' + p_bag target' + steal_bag pc' self' = p_bag self + p_bag target + steal_bag pc self"
proof (cases pc)
  case (GrabHead t)
  then show ?thesis
    using assms by (auto simp: seen_def p_ok_def)
next
  case (GrabTail t h s)
  then show ?thesis
    using grab_tail_step [of self target t h s b] assms by auto
next
  case (GrabNextCas t g)
  then show ?thesis
    using assms by (auto simp: p_bag_def split: if_splits)
next
  case (GrabNextStore t g)
  then show ?thesis
    using own_write [of self t 0 "Some g"] assms by (auto simp: HALF_def LOCAL_RUNQ_SIZE_def)
next
  case (GrabCopy t h s n k)
  then show ?thesis
    using own_write [of self t k "runq target ! runq_slot (h + of_nat k)"] assms
    by (auto simp: seg_Suc HALF_def LOCAL_RUNQ_SIZE_def split: if_splits)
next
  case (GrabCas t h s n)
  then show ?thesis
    using grab_cas_step [of self target t h s n b] assms by auto
qed (use assms in \<open>auto split: option.splits\<close>)

lemma steal_ret_step:
  assumes "p_ok self" "steal_ok (GrabRet t n) self target"
    "runqsteal_step b (GrabRet t n) self target = (pc', self', target')"
  shows "self' = self \<and> target' = target \<and> steal_ok pc' self target
    \<and> steal_bag pc' self = gs (seg (runq self) t (unat n))"
proof (cases "n = 0")
  case False
  then have n: "unat n = Suc (unat (n - 1))"
    by (simp add: unat_minus_one unat_gt_0)
  have seg: "seg (runq self) t (unat n) = seg (runq self) t (unat (n - 1)) @ [runq self ! runq_slot (t + (n - 1))]"
    unfolding n seg_Suc by simp
  then show ?thesis
    using assms False n by (auto simp: Let_def split: if_splits)
qed (use assms in \<open>auto simp: own_def\<close>)

lemma steal_publish_step:
  assumes "p_ok self" "steal_ok (StealPublish t n g) self target"
    "runqsteal_step b (StealPublish t n g) self target = (pc', self', target')"
  shows "p_ok self' \<and> target' = target \<and> p_le self self' \<and> pc' = StealRet g
    \<and> p_bag self' = p_bag self + gs (seg (runq self) t (unat n))"
  using publish [of self "unat n"] assms
  by (auto simp: own_def p_bag_def HALF_def LOCAL_RUNQ_SIZE_def)

lemma runqsteal_step_ok:
  assumes "p_ok self" "p_ok target" "steal_ok pc self target" "steal_fresh pc target"
    "runqsteal_step b pc self target = (pc', self', target')"
  shows "p_ok self' \<and> p_ok target' \<and> p_le self self' \<and> p_adv target target'
    \<and> steal_ok pc' self' target'
    \<and> p_bag self' + p_bag target' + steal_bag pc' self' = p_bag self + p_bag target + steal_bag pc self"
proof (cases "runqsteal_step b pc self target = runqgrab_step b pc self target")
  case True
  then show ?thesis
    using runqgrab_step_ok [OF assms(1-4), of b pc' self' target'] assms(5) by simp
next
  case False
  then consider "pc = StealTail" | t n where "pc = GrabRet t n" | t n g where "pc = StealPublish t n g"
    | g where "pc = StealRet g"
    by (cases pc) auto
  then show ?thesis
  proof cases
    case 2
    then show ?thesis
      using steal_ret_step [of self t n target b] assms by auto
  next
    case 3
    then show ?thesis
      using steal_publish_step [of self t n g target b] assms by auto
  qed (use assms in \<open>auto simp: own_def\<close>)
qed

end
