(* ===== verification/Steal_Order.thy ===== *)
theory Steal_Order
  imports Goish_Prelude "HOL-Library.Monad_Syntax"
begin

text \<open>
  The randomised order in which a worker visits the other Ps when it looks for work:
  \<open>RandomOrder\<close>, \<open>RandomEnum\<close> and \<open>gcd\<close> of \<^verbatim>\<open>src/src/runtime/sched/p.rs\<close>.  \<open>reset\<close> collects
  the numbers coprime to the number of Ps, \<open>start\<close> picks a first position and one of these
  numbers as increment, and the enumeration adds the increment modulo the number of Ps.  The
  loops are partial functions over the words of the code, so that their termination is a
  theorem.
\<close>

definition MAX_PS :: nat where "MAX_PS = 256"

section \<open>\<open>gcd\<close>\<close>

partial_function (option) gcd_u32 :: "u32 \<Rightarrow> u32 \<Rightarrow> u32 option" where
  [code]: "gcd_u32 a b = (if b \<noteq> 0 then gcd_u32 b (a mod b) else Some a)"

section \<open>\<open>RandomOrder\<close>\<close>

record random_order =
  ro_count :: u32
  coprime_count :: u32
  coprimes :: "u32 list"

definition random_order_new :: random_order where
  "random_order_new = \<lparr>ro_count = 0, coprime_count = 0, coprimes = replicate MAX_PS 0\<rparr>"

partial_function (option) reset_loop :: "u32 \<Rightarrow> u32 \<Rightarrow> u32 \<Rightarrow> u32 list \<Rightarrow> (u32 \<times> u32 list) option" where
  [code]: "reset_loop count i k buf =
    (if i \<le> count \<and> unat k < MAX_PS
     then Option.bind (gcd_u32 i count) (\<lambda>g.
       if g = 1 then reset_loop count (i + 1) (k + 1) (buf[unat k := i])
       else reset_loop count (i + 1) k buf)
     else Some (k, buf))"

definition ro_reset :: "u32 \<Rightarrow> random_order \<Rightarrow> random_order option" where
  "ro_reset count r =
    (let count = min count (of_nat MAX_PS) in
     Option.bind (reset_loop count 1 0 (coprimes r))
       (\<lambda>(k, buf). Some \<lparr>ro_count = count, coprime_count = k, coprimes = buf\<rparr>))"

record random_enum =
  en_i :: u32
  en_count :: u32
  en_pos :: u32
  en_inc :: u32

definition ro_start :: "u32 \<Rightarrow> random_order \<Rightarrow> random_enum" where
  "ro_start seed r =
    (if ro_count r = 0 \<or> coprime_count r = 0 then \<lparr>en_i = 0, en_count = 0, en_pos = 0, en_inc = 1\<rparr>
     else
       let pos = seed mod ro_count r;
           coprime_idx = (seed div ro_count r) mod coprime_count r;
           inc = coprimes r ! unat coprime_idx
       in \<lparr>en_i = 0, en_count = ro_count r, en_pos = pos, en_inc = inc\<rparr>)"

definition en_done :: "random_enum \<Rightarrow> bool" where
  "en_done e \<longleftrightarrow> en_i e = en_count e"

definition en_next :: "random_enum \<Rightarrow> random_enum" where
  "en_next e = e\<lparr>en_i := en_i e + 1, en_pos := (en_pos e + en_inc e) mod en_count e\<rparr>"

definition en_position :: "random_enum \<Rightarrow> u32" where
  "en_position e = en_pos e"

text \<open>The positions the loop \<^verbatim>\<open>while !e.done() { .. e.position() ..; e.next() }\<close> of
  \<open>steal_work\<close> visits.\<close>

partial_function (option) en_positions :: "random_enum \<Rightarrow> u32 list option" where
  [code]: "en_positions e =
    (if en_done e then Some []
     else Option.bind (en_positions (en_next e)) (\<lambda>ps. Some (en_position e # ps)))"

section \<open>\<open>gcd\<close> terminates with the greatest common divisor\<close>

lemma gcd_u32_eq: "gcd_u32 a b = Some (of_nat (gcd (unat a) (unat b)))"
proof (induction "unat b" arbitrary: a b rule: less_induct)
  case less
  show ?case
  proof (cases "b = 0")
    case False
    then have "unat (a mod b) < unat b"
      by (simp add: unat_mod unat_gt_0)
    then have "gcd_u32 b (a mod b) = Some (of_nat (gcd (unat b) (unat (a mod b))))"
      by (rule less)
    then show ?thesis
      using False by (subst gcd_u32.simps) (simp add: unat_mod gcd_red_nat [of "unat a"])
  qed (simp add: gcd_u32.simps)
qed

lemma gcd_u32_1: "b \<noteq> 0 \<Longrightarrow> (\<exists>g. gcd_u32 a b = Some g \<and> (g = 1 \<longleftrightarrow> coprime (unat a) (unat b)))"
proof -
  assume b: "b \<noteq> 0"
  then have "gcd (unat a) (unat b) \<le> unat b"
    by (simp add: unat_gt_0 gcd_le2_nat)
  then have "gcd (unat a) (unat b) < 2 ^ 32"
    using unat_less_exp [of b] by simp
  then have u: "unat (of_nat (gcd (unat a) (unat b)) :: u32) = gcd (unat a) (unat b)"
    by (simp add: unat_of_nat)
  have "(of_nat (gcd (unat a) (unat b)) :: u32) = 1 \<longleftrightarrow> gcd (unat a) (unat b) = 1"
    using u by (metis of_nat_1 unat_1)
  then show ?thesis
    by (simp add: gcd_u32_eq coprime_iff_gcd_eq_1)
qed

section \<open>The table of increments\<close>

definition coprime_table :: "u32 \<Rightarrow> u32 \<Rightarrow> u32 list \<Rightarrow> bool" where
  "coprime_table count k buf \<longleftrightarrow> length buf = MAX_PS \<and> unat k \<le> MAX_PS \<and>
     (\<forall>j < unat k. coprime (unat (buf ! j)) (unat count) \<and> unat (buf ! j) \<le> unat count)"

lemma coprime_table_snoc:
  assumes "coprime_table count k buf" "unat k < MAX_PS" "coprime (unat i) (unat count)" "i \<le> count"
  shows "unat (k + 1) = Suc (unat k)" "coprime_table count (k + 1) (buf[unat k := i])"
proof -
  show k: "unat (k + 1) = Suc (unat k)"
    using assms(2) unat_add_small [of k 1] by (simp add: MAX_PS_def)
  show "coprime_table count (k + 1) (buf[unat k := i])"
    using assms unfolding coprime_table_def k
    by (auto simp: nth_list_update less_Suc_eq word_le_nat_alt)
qed

lemma reset_loop_ok:
  assumes "0 < unat count" "unat count \<le> MAX_PS" "coprime_table count k buf"
    "unat k < unat i" "unat i \<le> Suc (unat count)" "i = 1 \<or> 0 < unat k"
  shows "\<exists>k' buf'. reset_loop count i k buf = Some (k', buf') \<and> coprime_table count k' buf' \<and> 0 < unat k'"
  using assms
proof (induction "Suc (unat count) - unat i" arbitrary: i k buf rule: less_induct)
  case less
  show ?case
  proof (cases "i \<le> count")
    case True
    then have k: "unat k < MAX_PS" and lt: "unat i \<le> unat count"
      using less.prems by (simp_all add: word_le_nat_alt)
    have i: "unat (i + 1) = Suc (unat i)"
      using lt less.prems(2) unat_add_small [of i 1] by (simp add: MAX_PS_def)
    obtain g where g: "gcd_u32 i count = Some g" "g = 1 \<longleftrightarrow> coprime (unat i) (unat count)"
      using gcd_u32_1 [of count i] less.prems(1) by (auto simp: unat_gt_0)
    show ?thesis
    proof (cases "g = 1")
      case coprime: True
      note new = coprime_table_snoc [OF less.prems(3) k, of i]
      have "\<exists>k' buf'. reset_loop count (i + 1) (k + 1) (buf[unat k := i]) = Some (k', buf')
          \<and> coprime_table count k' buf' \<and> 0 < unat k'"
        using less.prems lt i g coprime True new by (intro less.hyps) auto
      then show ?thesis
        using True k g coprime by (subst reset_loop.simps) simp
    next
      case False
      then have "i \<noteq> 1"
        using g by auto
      then have "\<exists>k' buf'. reset_loop count (i + 1) k buf = Some (k', buf')
          \<and> coprime_table count k' buf' \<and> 0 < unat k'"
        using less.prems lt i by (intro less.hyps) auto
      then show ?thesis
        using True k g False by (subst reset_loop.simps) simp
    qed
  next
    case False
    then have "0 < unat k"
      using less.prems by (auto simp: word_le_nat_alt)
    then show ?thesis
      using False less.prems by (subst reset_loop.simps) simp
  qed
qed

definition ro_ok :: "random_order \<Rightarrow> bool" where
  "ro_ok r \<longleftrightarrow> unat (ro_count r) \<le> MAX_PS \<and> 0 < unat (coprime_count r)
     \<and> coprime_table (ro_count r) (coprime_count r) (coprimes r)"

lemma ro_reset_ok:
  assumes "0 < unat count" "length (coprimes r) = MAX_PS"
  shows "\<exists>r'. ro_reset count r = Some r' \<and> ro_ok r' \<and> unat (ro_count r') = min (unat count) MAX_PS"
proof -
  define c where "c = min count (of_nat MAX_PS)"
  have c: "unat c = min (unat count) MAX_PS"
    by (simp add: c_def min_def MAX_PS_def word_le_nat_alt)
  have "coprime_table c 0 (coprimes r)"
    using assms by (simp add: coprime_table_def)
  then obtain k' buf' where
    "reset_loop c 1 0 (coprimes r) = Some (k', buf')" "coprime_table c k' buf'" "0 < unat k'"
    using reset_loop_ok [of c 0 "coprimes r" 1] c assms by (auto simp: MAX_PS_def)
  then show ?thesis
    using c by (simp add: ro_reset_def ro_ok_def Let_def flip: c_def)
qed

section \<open>The enumeration\<close>

definition en_ok :: "random_enum \<Rightarrow> bool" where
  "en_ok e \<longleftrightarrow> unat (en_i e) \<le> unat (en_count e) \<and> unat (en_count e) \<le> MAX_PS
     \<and> coprime (unat (en_inc e)) (unat (en_count e)) \<and> unat (en_inc e) \<le> unat (en_count e)
     \<and> (0 < unat (en_count e) \<longrightarrow> unat (en_pos e) < unat (en_count e))"

lemma ro_start_ok:
  assumes "ro_ok r" "0 < unat (ro_count r)"
  shows "en_ok (ro_start seed r) \<and> en_i (ro_start seed r) = 0 \<and> en_count (ro_start seed r) = ro_count r"
proof -
  have nz: "ro_count r \<noteq> 0" "coprime_count r \<noteq> 0"
    using assms by (auto simp: ro_ok_def)
  have "unat ((seed div ro_count r) mod coprime_count r) < unat (coprime_count r)"
    using nz by (simp add: unat_mod unat_gt_0)
  moreover have "unat (seed mod ro_count r) < unat (ro_count r)"
    using nz by (simp add: unat_mod unat_gt_0)
  ultimately show ?thesis
    using assms nz by (simp add: ro_start_def en_ok_def ro_ok_def coprime_table_def Let_def)
qed

lemma en_next_ok:
  assumes "en_ok e" "\<not> en_done e"
  shows "en_ok (en_next e)" "en_count (en_next e) = en_count e" "en_inc (en_next e) = en_inc e"
    "unat (en_i (en_next e)) = Suc (unat (en_i e))"
    "unat (en_pos (en_next e)) = (unat (en_pos e) + unat (en_inc e)) mod unat (en_count e)"
proof -
  have lt: "unat (en_i e) < unat (en_count e)"
    using assms by (simp add: en_ok_def en_done_def word_unat_eq_iff)
  show i: "unat (en_i (en_next e)) = Suc (unat (en_i e))"
    using lt assms(1) unat_add_small [of "en_i e" 1] by (simp add: en_next_def en_ok_def MAX_PS_def)
  show p: "unat (en_pos (en_next e)) = (unat (en_pos e) + unat (en_inc e)) mod unat (en_count e)"
    using lt assms(1) unat_add_small [of "en_pos e" "en_inc e"]
    by (simp add: en_next_def en_ok_def MAX_PS_def unat_mod)
  show "en_count (en_next e) = en_count e" "en_inc (en_next e) = en_inc e"
    by (simp_all add: en_next_def)
  then show "en_ok (en_next e)"
    using assms(1) lt i p by (simp add: en_ok_def)
qed

lemma en_positions_eq:
  assumes "en_ok e" "0 < unat (en_count e)"
  shows "\<exists>ps. en_positions e = Some ps \<and> map unat ps =
    map (\<lambda>k. (unat (en_pos e) + k * unat (en_inc e)) mod unat (en_count e)) [0..<unat (en_count e) - unat (en_i e)]"
  using assms
proof (induction "unat (en_count e) - unat (en_i e)" arbitrary: e)
  case 0
  then have "en_done e"
    by (simp add: en_done_def en_ok_def word_unat_eq_iff)
  then show ?case
    using 0 by (subst en_positions.simps) simp
next
  case (Suc n)
  then have nd: "\<not> en_done e"
    by (auto simp: en_done_def)
  note nx = en_next_ok [OF Suc.prems(1) nd]
  have n: "n = unat (en_count (en_next e)) - unat (en_i (en_next e))"
    using nx Suc.hyps(2) by simp
  obtain ps where ps: "en_positions (en_next e) = Some ps" "map unat ps =
      map (\<lambda>k. (unat (en_pos (en_next e)) + k * unat (en_inc e)) mod unat (en_count e)) [0..<n]"
    using Suc.hyps(1) [OF n nx(1)] Suc.prems(2) nx(2,3) n by auto
  have upt: "[0..<unat (en_count e) - unat (en_i e)] = 0 # map Suc [0..<n]"
    using Suc.hyps(2) by (simp add: map_Suc_upt upt_conv_Cons)
  have "map unat (en_position e # ps) =
      map (\<lambda>k. (unat (en_pos e) + k * unat (en_inc e)) mod unat (en_count e)) (0 # map Suc [0..<n])"
    using ps(2) Suc.prems nx(5) by (simp add: en_position_def en_ok_def mod_add_left_eq mod_add_right_eq algebra_simps)
  then show ?case
    using ps(1) nd by (subst en_positions.simps) (simp add: upt)
qed

lemma stride_inj:
  fixes c d n p :: nat
  assumes "coprime d n" "j < n" "k < n" "(p + j * d) mod n = (p + k * d) mod n"
  shows "j = k"
proof -
  have *: "j = k" if "j \<le> k" "k < n" "(p + j * d) mod n = (p + k * d) mod n" for j k
  proof -
    have "n dvd (p + k * d) - (p + j * d)"
      using that mod_eq_dvd_iff_nat [of "p + j * d" "p + k * d" n] by simp
    then have "n dvd (k - j) * d"
      by (simp add: diff_mult_distrib)
    then have "n dvd k - j"
      using assms(1) by (simp add: coprime_commute coprime_dvd_mult_left_iff)
    then show ?thesis
      using that dvd_imp_le [of n "k - j"] by (cases "j = k") auto
  qed
  show ?thesis
  proof (cases "j \<le> k")
    case True
    then show ?thesis
      by (rule * [OF _ assms(3, 4)])
  next
    case False
    then have "k \<le> j"
      by simp
    then show ?thesis
      by (rule * [OF _ assms(2) assms(4) [symmetric], symmetric])
  qed
qed

lemma stride_visits_all:
  fixes d n p :: nat
  assumes "coprime d n" "0 < n"
  defines "xs \<equiv> map (\<lambda>k. (p + k * d) mod n) [0..<n]"
  shows "distinct xs" "set xs = {..<n}"
proof -
  show d: "distinct xs"
    unfolding xs_def distinct_map by (auto intro!: inj_onI dest: stride_inj [OF assms(1), rotated 2])
  have "set xs \<subseteq> {..<n}"
    using assms(2) by (auto simp: xs_def)
  moreover have "card (set xs) = n"
    using d by (simp add: distinct_card) (simp add: xs_def)
  ultimately show "set xs = {..<n}"
    by (metis card_lessThan card_subset_eq finite_lessThan)
qed

text \<open>
  C22: The work-stealing scan visits every P exactly once.  For \<open>n\<close> Ps (at least one, capped at
  256 as in \<open>bootstrap_ps\<close>), resetting the order terminates, and for every random seed the
  loop over the enumeration that \<open>start\<close> returns terminates after visiting each index below
  \<open>n\<close> once and no other; in particular the table access of \<open>start\<close> stays within the coprimes
  collected.
\<close>

theorem steal_order_visits_each_P_once:
  assumes "0 < unat count"
  shows "\<exists>r. ro_reset count random_order_new = Some r
    \<and> (\<forall>seed. \<exists>ps. en_positions (ro_start seed r) = Some ps
         \<and> distinct ps \<and> unat ` set ps = {..<min (unat count) MAX_PS})"
proof -
  obtain r where r: "ro_reset count random_order_new = Some r" "ro_ok r"
      "unat (ro_count r) = min (unat count) MAX_PS"
    using ro_reset_ok [OF assms, of random_order_new] by (auto simp: random_order_new_def)
  have "\<exists>ps. en_positions (ro_start seed r) = Some ps
      \<and> distinct ps \<and> unat ` set ps = {..<min (unat count) MAX_PS}" for seed
  proof -
    let ?e = "ro_start seed r"
    have n: "0 < unat (ro_count r)"
      using r(3) assms by (simp add: MAX_PS_def)
    note e = ro_start_ok [OF r(2) n, of seed]
    obtain ps where ps: "en_positions ?e = Some ps" "map unat ps =
        map (\<lambda>k. (unat (en_pos ?e) + k * unat (en_inc ?e)) mod unat (ro_count r)) [0..<unat (ro_count r)]"
      using en_positions_eq [of ?e] e n by auto
    have "coprime (unat (en_inc ?e)) (unat (ro_count r))"
      using e unfolding en_ok_def by metis
    then have "distinct (map unat ps)" "set (map unat ps) = {..<unat (ro_count r)}"
      unfolding ps(2) by (rule stride_visits_all [OF _ n])+
    then show ?thesis
      using ps(1) r(3) by (auto simp: distinct_map)
  qed
  then show ?thesis
    using r(1) by blast
qed

theorem steal_order_visits_each_P_once_witness:
  "0 < unat (6 :: u32) \<and>
   (\<exists>r. ro_reset 6 random_order_new = Some r
    \<and> (\<forall>seed. \<exists>ps. en_positions (ro_start seed r) = Some ps
         \<and> distinct ps \<and> unat ` set ps = {..<min (unat (6 :: u32)) MAX_PS}))"
  using steal_order_visits_each_P_once [of 6] by simp

end
