(* ===== verification/Scheduler.thy ===== *)
theory Scheduler
  imports Run_Queue_Steal Steal_Order
begin

text \<open>
  The scheduler of \<^verbatim>\<open>src/src/runtime/sched/scheduler.rs\<close> over the run queues: worker
  threads (Ms), each bound to the P of the same index, which look for a runnable goroutine
  (\<open>find_runnable\<close>: goroutines pinned to this thread, own queue, global queue, stealing), run
  it, and while it runs create, wake, yield, park and finish goroutines.  \<open>find_step\<close> makes one
  atomic step of \<open>find_runnable\<close>; \<open>sched_step\<close> interleaves the threads.  The global queue is
  a list behind a lock, so that its operations are single steps.  What the network poller
  returns is not modelled: \<open>poll_netpoll_take_one\<close> finds nothing.  Parking of idle threads
  and their wake-up do not move goroutines and are not modelled either.
\<close>

section \<open>State\<close>

datatype g_status = Idle | Runnable | Running | Waiting | Dead

datatype m_pc =
    MFind
  | MGet get_pc
  | MGlob
  | MSteal nat random_enum
  | MEmpty nat random_enum empty_pc
  | MNext nat random_enum
  | MGrab nat random_enum steal_pc
  | MPoll
  | MRun nat
  | MPut g_ptr put_pc

record sched =
  all_ps :: "p_state list"
  sched_runq :: "nat list"
  ms :: "m_pc list"
  steal_order :: random_order
  work_stealing :: bool
  steal_runnext :: bool
  g_status_of :: "nat \<Rightarrow> g_status"
  locked_m :: "nat \<Rightarrow> nat"
  locked_m_count :: "nat \<Rightarrow> nat"
  live_g_count :: nat

text \<open>\<open>locked_m\<close> holds the address of the thread's storage, zero for none; thread \<open>i\<close> has the
  address \<open>Suc i\<close>.\<close>

definition owner :: "nat \<Rightarrow> nat" where
  "owner i = Suc i"

definition STEAL_TRIES :: nat where "STEAL_TRIES = 4"

section \<open>The global queue\<close>

fun globrunqget_loop :: "(nat \<Rightarrow> bool) \<Rightarrow> nat \<Rightarrow> nat list \<Rightarrow> g_ptr \<times> nat list" where
  "globrunqget_loop mine 0 q = (None, q)"
| "globrunqget_loop mine (Suc n) [] = (None, [])"
| "globrunqget_loop mine (Suc n) (g # q) =
    (if mine g then (Some g, q) else globrunqget_loop mine n (q @ [g]))"

definition globrunqget_one :: "(nat \<Rightarrow> nat) \<Rightarrow> nat \<Rightarrow> nat list \<Rightarrow> g_ptr \<times> nat list" where
  "globrunqget_one lk me q = globrunqget_loop (\<lambda>g. lk g = 0 \<or> lk g = me) (length q) q"

definition globrunqget_locked_for_owner :: "(nat \<Rightarrow> nat) \<Rightarrow> nat \<Rightarrow> nat list \<Rightarrow> g_ptr \<times> nat list" where
  "globrunqget_locked_for_owner lk me q = globrunqget_loop (\<lambda>g. lk g = me) (length q) q"

definition globrunqput :: "nat \<Rightarrow> sched \<Rightarrow> sched" where
  "globrunqput g s = s\<lparr>sched_runq := sched_runq s @ [g]\<rparr>"

section \<open>\<open>find_runnable\<close>\<close>

definition set_m :: "nat \<Rightarrow> m_pc \<Rightarrow> sched \<Rightarrow> sched" where
  "set_m i pc s = s\<lparr>ms := (ms s)[i := pc]\<rparr>"

definition execute :: "nat \<Rightarrow> nat \<Rightarrow> sched \<Rightarrow> sched" where
  "execute i g s = set_m i (MRun g) (s\<lparr>g_status_of := (g_status_of s)(g := Running)\<rparr>)"

text \<open>The \<open>k\<close>-th pass over the other Ps may also take a goroutine from \<open>runnext\<close> if it is the
  last one.\<close>

definition steal_runnext_g :: "sched \<Rightarrow> nat \<Rightarrow> bool" where
  "steal_runnext_g s k \<longleftrightarrow> steal_runnext s \<and> k = STEAL_TRIES - 1"

fun steal_work_step :: "u32 \<Rightarrow> nat \<Rightarrow> m_pc \<Rightarrow> sched \<Rightarrow> sched" where
  "steal_work_step seed i (MSteal k e) s =
    (if en_done e
     then (if Suc k < STEAL_TRIES then set_m i (MSteal (Suc k) (ro_start seed (steal_order s))) s
           else set_m i MPoll s)
     else let pos = unat (en_position e) in
       if pos < length (all_ps s) \<and> pos \<noteq> i then set_m i (MEmpty k e EmptyHead) s
       else set_m i (MSteal k (en_next e)) s)"
| "steal_work_step seed i (MEmpty k e (EmptyRet idle)) s =
    (if \<not> idle then set_m i (MGrab k e StealTail) s
     else if steal_runnext_g s k then set_m i (MNext k e) s
     else set_m i (MSteal k (en_next e)) s)"
| "steal_work_step seed i (MEmpty k e pc) s =
    set_m i (MEmpty k e (runqempty_step pc (all_ps s ! unat (en_position e)))) s"
| "steal_work_step seed i (MNext k e) s =
    (if runnext (all_ps s ! unat (en_position e)) \<noteq> None then set_m i (MGrab k e StealTail) s
     else set_m i (MSteal k (en_next e)) s)"
| "steal_work_step seed i (MGrab k e (StealRet (Some g))) s = execute i g s"
| "steal_work_step seed i (MGrab k e (StealRet None)) s = set_m i (MSteal k (en_next e)) s"
| "steal_work_step seed i (MGrab k e pc) s =
    (let j = unat (en_position e);
         (pc', self, target) = runqsteal_step (steal_runnext_g s k) pc (all_ps s ! i) (all_ps s ! j)
     in set_m i (MGrab k e pc') (s\<lparr>all_ps := (all_ps s)[i := self, j := target]\<rparr>))"
| "steal_work_step seed i _ s = s"

fun find_step :: "bool \<Rightarrow> u32 \<Rightarrow> nat \<Rightarrow> m_pc \<Rightarrow> sched \<Rightarrow> sched" where
  "find_step ok seed i MFind s =
    (case globrunqget_locked_for_owner (locked_m s) (owner i) (sched_runq s) of
       (Some g, q) \<Rightarrow> execute i g (s\<lparr>sched_runq := q\<rparr>)
     | (None, q) \<Rightarrow> set_m i (MGet GetNextLoad) (s\<lparr>sched_runq := q\<rparr>))"
| "find_step ok seed i (MGet (GetRet (Some g))) s = execute i g s"
| "find_step ok seed i (MGet (GetRet None)) s = set_m i MGlob s"
| "find_step ok seed i (MGet pc) s =
    (let (pc', p) = runqget_step ok pc (all_ps s ! i)
     in set_m i (MGet pc') (s\<lparr>all_ps := (all_ps s)[i := p]\<rparr>))"
| "find_step ok seed i MGlob s =
    (case globrunqget_one (locked_m s) (owner i) (sched_runq s) of
       (Some g, q) \<Rightarrow> execute i g (s\<lparr>sched_runq := q\<rparr>)
     | (None, q) \<Rightarrow> set_m i (if work_stealing s then MSteal 0 (ro_start seed (steal_order s)) else MPoll)
                      (s\<lparr>sched_runq := q\<rparr>))"
| "find_step ok seed i MPoll s = set_m i MFind s"
| "find_step ok seed i pc s = steal_work_step seed i pc s"

text \<open>The check a worker makes before it parks.\<close>

definition has_local_or_global_work :: "nat \<Rightarrow> sched \<Rightarrow> bool" where
  "has_local_or_global_work i s \<longleftrightarrow> runq_has_work (all_ps s ! i) \<or> sched_runq s \<noteq> []
     \<or> list_ex (\<lambda>j. j \<noteq> i \<and> \<not> runqempty (all_ps s ! j)) [0..<length (all_ps s)]"

section \<open>What a running goroutine does to the scheduler\<close>

text \<open>\<open>r\<close> is the goroutine that runs on thread \<open>i\<close>, or none on the thread's own stack.\<close>

definition enqueue_runnable :: "nat \<Rightarrow> g_ptr \<Rightarrow> nat \<Rightarrow> bool \<Rightarrow> sched \<Rightarrow> sched" where
  "enqueue_runnable i r g next s =
    (if locked_m s g \<noteq> 0 then globrunqput g s else set_m i (MPut r (runqput g next)) s)"

definition newproc :: "nat \<Rightarrow> g_ptr \<Rightarrow> nat \<Rightarrow> sched \<Rightarrow> sched" where
  "newproc i r g s = enqueue_runnable i r g False
     (s\<lparr>g_status_of := (g_status_of s)(g := Idle), locked_m := (locked_m s)(g := 0),
        locked_m_count := (locked_m_count s)(g := 0), live_g_count := live_g_count s + 1\<rparr>)"

definition goready :: "nat \<Rightarrow> g_ptr \<Rightarrow> nat \<Rightarrow> bool \<Rightarrow> sched \<Rightarrow> sched" where
  "goready i r g next s = enqueue_runnable i r g next (s\<lparr>g_status_of := (g_status_of s)(g := Runnable)\<rparr>)"

text \<open>Without a P (the timer thread) the goroutine goes to the global queue.\<close>

definition goready_no_p :: "nat \<Rightarrow> sched \<Rightarrow> sched" where
  "goready_no_p g s = globrunqput g (s\<lparr>g_status_of := (g_status_of s)(g := Runnable)\<rparr>)"

definition gosched_m :: "nat \<Rightarrow> nat \<Rightarrow> sched \<Rightarrow> sched" where
  "gosched_m i g s =
    (let s' = set_m i MFind (s\<lparr>g_status_of := (g_status_of s)(g := Runnable)\<rparr>) in
     if locked_m s g \<noteq> 0 then enqueue_runnable i None g False s' else globrunqput g s')"

definition park_m :: "nat \<Rightarrow> nat \<Rightarrow> sched \<Rightarrow> sched" where
  "park_m i g s = set_m i MFind (s\<lparr>g_status_of := (g_status_of s)(g := Waiting)\<rparr>)"

definition goexit0 :: "nat \<Rightarrow> nat \<Rightarrow> sched \<Rightarrow> sched" where
  "goexit0 i g s = set_m i MFind
     (s\<lparr>g_status_of := (g_status_of s)(g := Dead), live_g_count := live_g_count s - 1\<rparr>)"

definition lock_os_thread :: "nat \<Rightarrow> nat \<Rightarrow> sched \<Rightarrow> sched" where
  "lock_os_thread i g s =
    (let current = locked_m s g in
     if current = 0 then s\<lparr>locked_m := (locked_m s)(g := owner i),
         locked_m_count := (locked_m_count s)(g := locked_m_count s g + 1)\<rparr>
     else if current \<noteq> owner i then s
     else s\<lparr>locked_m_count := (locked_m_count s)(g := locked_m_count s g + 1)\<rparr>)"

definition unlock_os_thread :: "nat \<Rightarrow> nat \<Rightarrow> sched \<Rightarrow> sched" where
  "unlock_os_thread i g s =
    (if locked_m s g \<noteq> owner i then s
     else if locked_m_count s g = 0 then s
     else let s' = s\<lparr>locked_m_count := (locked_m_count s)(g := locked_m_count s g - 1)\<rparr> in
       if locked_m_count s g = 1 then s'\<lparr>locked_m := (locked_m s)(g := 0)\<rparr> else s')"

fun put_step :: "bool \<Rightarrow> nat \<Rightarrow> g_ptr \<Rightarrow> put_pc \<Rightarrow> sched \<Rightarrow> sched" where
  "put_step ok i r PutDone s = set_m i (case r of None \<Rightarrow> MFind | Some g \<Rightarrow> MRun g) s"
| "put_step ok i r pc s =
    (let (pc', p, q) = runqput_step ok pc (all_ps s ! i) (sched_runq s)
     in set_m i (MPut r pc') (s\<lparr>all_ps := (all_ps s)[i := p], sched_runq := q\<rparr>))"

section \<open>Interleaving\<close>

definition finding :: "m_pc \<Rightarrow> bool" where
  "finding pc \<longleftrightarrow> (case pc of MRun g \<Rightarrow> False | MPut r q \<Rightarrow> False | _ \<Rightarrow> True)"

definition fresh :: "sched \<Rightarrow> m_pc \<Rightarrow> bool" where
  "fresh s pc \<longleftrightarrow> (case pc of MGrab k e q \<Rightarrow> steal_fresh q (all_ps s ! unat (en_position e)) | _ \<Rightarrow> True)"

inductive sched_step :: "sched \<Rightarrow> sched \<Rightarrow> bool" where
  find: "i < length (ms s) \<Longrightarrow> finding (ms s ! i) \<Longrightarrow> fresh s (ms s ! i) \<Longrightarrow>
    sched_step s (find_step ok seed i (ms s ! i) s)"
| put: "i < length (ms s) \<Longrightarrow> ms s ! i = MPut r pc \<Longrightarrow> sched_step s (put_step ok i r pc s)"
| newproc: "i < length (ms s) \<Longrightarrow> ms s ! i = MRun r \<Longrightarrow> g_status_of s g = Dead \<Longrightarrow>
    sched_step s (newproc i (Some r) g s)"
| goready: "i < length (ms s) \<Longrightarrow> ms s ! i = MRun r \<Longrightarrow> g_status_of s g = Waiting \<Longrightarrow>
    sched_step s (goready i (Some r) g next s)"
| goready_no_p: "g_status_of s g = Waiting \<Longrightarrow> sched_step s (goready_no_p g s)"
| gosched: "i < length (ms s) \<Longrightarrow> ms s ! i = MRun g \<Longrightarrow> sched_step s (gosched_m i g s)"
| park: "i < length (ms s) \<Longrightarrow> ms s ! i = MRun g \<Longrightarrow> sched_step s (park_m i g s)"
| goexit: "i < length (ms s) \<Longrightarrow> ms s ! i = MRun g \<Longrightarrow> sched_step s (goexit0 i g s)"
| lock: "i < length (ms s) \<Longrightarrow> ms s ! i = MRun g \<Longrightarrow> sched_step s (lock_os_thread i g s)"
| unlock: "i < length (ms s) \<Longrightarrow> ms s ! i = MRun g \<Longrightarrow> sched_step s (unlock_os_thread i g s)"

text \<open>Boot: \<open>bootstrap_ps\<close> allocates the Ps and primes the steal order, every worker binds its P and
  looks for work, and the main thread creates the goroutine \<open>g0\<close> for \<open>main\<close> before it does the
  same.\<close>

definition acquirep :: "nat \<Rightarrow> p_state \<Rightarrow> p_state" where
  "acquirep i p = p\<lparr>p_status := P_RUNNING, p_m := Some i\<rparr>"

definition bootstrap_ps :: "nat \<Rightarrow> p_state list" where
  "bootstrap_ps n = map (\<lambda>i. P_new (of_nat i)) [0..<min n MAX_PS]"

definition sched_boot :: "nat \<Rightarrow> random_order \<Rightarrow> bool \<Rightarrow> bool \<Rightarrow> nat \<Rightarrow> sched" where
  "sched_boot n ord ws srn g0 = newproc 0 None g0
     \<lparr>all_ps = map (\<lambda>i. acquirep i (bootstrap_ps n ! i)) [0..<min n MAX_PS], sched_runq = [],
      ms = replicate (min n MAX_PS) MFind, steal_order = ord, work_stealing = ws, steal_runnext = srn,
      g_status_of = (\<lambda>_. Dead), locked_m = (\<lambda>_. 0), locked_m_count = (\<lambda>_. 0), live_g_count = 0\<rparr>"

inductive sched_reachable :: "sched \<Rightarrow> bool" where
  boot: "0 < n \<Longrightarrow> sched_reachable (sched_boot n ord ws srn g0)"
| step: "sched_reachable s \<Longrightarrow> sched_step s s' \<Longrightarrow> sched_reachable s'"

end
