(* ===== verification/Scheduler_Inv.thy ===== *)
theory Scheduler_Inv
  imports Scheduler
begin

text \<open>
  The invariant of the scheduler.  \<open>sched_ok\<close> says that every P is well formed and that every
  thread's program point agrees with the queues it works on; \<open>total\<close> counts the goroutines in
  the queues and in the hands of the threads.  A step of one thread leaves the conditions of the
  others true because it moves their own P along \<open>p_adv\<close> and any other along \<open>p_le\<close>.
\<close>

fun pc_ok :: "p_state list \<Rightarrow> nat \<Rightarrow> m_pc \<Rightarrow> bool" where
  "pc_ok ps i (MGet pc) \<longleftrightarrow> get_ok pc (ps ! i)"
| "pc_ok ps i MGlob \<longleftrightarrow> qlen (ps ! i) = 0"
| "pc_ok ps i (MSteal k e) \<longleftrightarrow> qlen (ps ! i) = 0"
| "pc_ok ps i (MEmpty k e pc) \<longleftrightarrow> qlen (ps ! i) = 0
     \<and> unat (en_position e) < length ps \<and> unat (en_position e) \<noteq> i"
| "pc_ok ps i (MNext k e) \<longleftrightarrow> qlen (ps ! i) = 0
     \<and> unat (en_position e) < length ps \<and> unat (en_position e) \<noteq> i"
| "pc_ok ps i (MGrab k e pc) \<longleftrightarrow> steal_ok pc (ps ! i) (ps ! unat (en_position e))
     \<and> unat (en_position e) < length ps \<and> unat (en_position e) \<noteq> i"
| "pc_ok ps i (MPut r pc) \<longleftrightarrow> put_ok pc (ps ! i)"
| "pc_ok ps i _ \<longleftrightarrow> True"

definition sched_ok :: "sched \<Rightarrow> bool" where
  "sched_ok s \<longleftrightarrow> length (ms s) = length (all_ps s) \<and> (\<forall>i < length (all_ps s). p_ok (all_ps s ! i))
     \<and> (\<forall>i < length (all_ps s). pc_ok (all_ps s) i (ms s ! i))"

text \<open>What a thread holds besides its P: \<open>m_run\<close> is the goroutine that runs on it.\<close>

fun m_run :: "m_pc \<Rightarrow> nat multiset" where
  "m_run (MRun g) = {#g#}"
| "m_run (MPut r pc) = gs [r]"
| "m_run _ = {#}"

fun m_hold :: "m_pc \<Rightarrow> p_state \<Rightarrow> nat multiset" where
  "m_hold (MGet pc) p = get_bag pc"
| "m_hold (MGrab k e pc) p = steal_bag pc p"
| "m_hold (MPut r pc) p = put_bag pc"
| "m_hold _ p = {#}"

text \<open>The goroutines the Ps and their threads hold, those that run, and those that wait in some
  queue.\<close>

definition local_bag :: "sched \<Rightarrow> nat multiset" where
  "local_bag s = (\<Sum>i < length (all_ps s). p_bag (all_ps s ! i))
     + (\<Sum>i < length (all_ps s). m_hold (ms s ! i) (all_ps s ! i))"

definition running_bag :: "sched \<Rightarrow> nat multiset" where
  "running_bag s = (\<Sum>i < length (all_ps s). m_run (ms s ! i))"

definition queued :: "sched \<Rightarrow> nat multiset" where
  "queued s = mset (sched_runq s) + local_bag s"

definition runnable :: "sched \<Rightarrow> nat set" where
  "runnable s = {g. g_status_of s g = Idle \<or> g_status_of s g = Runnable}"

definition running :: "sched \<Rightarrow> nat set" where
  "running s = {g. g_status_of s g = Running}"

definition existing :: "sched \<Rightarrow> nat set" where
  "existing s = {g. g_status_of s g \<noteq> Dead}"

text \<open>A goroutine pinned to a thread is not in any local queue, and runs on its thread only.\<close>

definition pinned_ok :: "sched \<Rightarrow> bool" where
  "pinned_ok s \<longleftrightarrow> (\<forall>g. g \<in># local_bag s \<longrightarrow> locked_m s g = 0)
     \<and> (\<forall>i < length (all_ps s). \<forall>g. g \<in># m_run (ms s ! i) \<longrightarrow> locked_m s g = 0 \<or> locked_m s g = owner i)
     \<and> (\<forall>g. locked_m_count s g = 0 \<longleftrightarrow> locked_m s g = 0)"

text \<open>The invariant, with \<open>X\<close> the goroutines that are marked runnable but on their way between two
  places inside a step.\<close>

definition sched_inv :: "nat multiset \<Rightarrow> sched \<Rightarrow> bool" where
  "sched_inv X s \<longleftrightarrow> sched_ok s \<and> queued s + X = mset_set (runnable s)
     \<and> running_bag s = mset_set (running s)
     \<and> finite (existing s) \<and> live_g_count s = card (existing s) \<and> pinned_ok s"

section \<open>Interference\<close>

lemma pc_ok_stable:
  assumes "pc_ok ps k pc" "k < length ps" "length ps' = length ps"
    "p_adv (ps ! k) (ps' ! k)" "\<And>j. j < length ps \<Longrightarrow> p_le (ps ! j) (ps' ! j)"
    "\<And>j. j < length ps \<Longrightarrow> p_ok (ps ! j) \<and> p_ok (ps' ! j)"
  shows "pc_ok ps' k pc" "m_hold pc (ps' ! k) = m_hold pc (ps ! k)"
proof -
  show "pc_ok ps' k pc"
  proof (cases pc)
    case (MGrab n e q)
    let ?j = "unat (en_position e)"
    have "steal_ok q (ps' ! k) (ps ! ?j)"
      using MGrab assms(1) by (intro steal_ok_adv(1) [OF _ assms(4)]) simp
    then have "steal_ok q (ps' ! k) (ps' ! ?j)"
      using MGrab assms(1, 5, 6) by - (rule steal_ok_le [of q _ "ps ! ?j"], simp_all)
    then show ?thesis
      using MGrab assms(1, 3) by simp
  qed (use assms(1, 3) get_ok_adv [OF _ assms(4)] put_ok_adv [OF _ assms(4)]
        p_adv_empty [OF assms(4)] in simp_all)
  show "m_hold pc (ps' ! k) = m_hold pc (ps ! k)"
    using assms(1) steal_ok_adv(2) [OF _ assms(4)] by (cases pc) auto
qed

text \<open>A step of thread \<open>i\<close>: the other Ps move along \<open>p_adv\<close>, its own along \<open>p_le\<close>.\<close>

lemma sched_ok_step:
  assumes "sched_ok s" "i < length (all_ps s)" "length ps' = length (all_ps s)"
    "\<And>j. j < length (all_ps s) \<Longrightarrow> p_ok (ps' ! j)"
    "\<And>j. j < length (all_ps s) \<Longrightarrow> j \<noteq> i \<Longrightarrow> p_adv (all_ps s ! j) (ps' ! j)"
    "p_le (all_ps s ! i) (ps' ! i)" "pc_ok ps' i pc'"
    "all_ps s' = ps'" "ms s' = (ms s)[i := pc']"
  shows "sched_ok s'"
    "\<And>j. j < length (all_ps s) \<Longrightarrow> j \<noteq> i \<Longrightarrow>
       m_hold (ms s' ! j) (all_ps s' ! j) = m_hold (ms s ! j) (all_ps s ! j)"
proof -
  have le: "p_le (all_ps s ! j) (ps' ! j)" if "j < length (all_ps s)" for j
    using assms(5, 6) that p_adv_imp_le by (cases "j = i") auto
  have ok: "p_ok (all_ps s ! j) \<and> p_ok (ps' ! j)" if "j < length (all_ps s)" for j
    using assms(1, 4) that by (simp add: sched_ok_def)
  have other: "pc_ok ps' j (ms s ! j)" "m_hold (ms s ! j) (ps' ! j) = m_hold (ms s ! j) (all_ps s ! j)"
    if "j < length (all_ps s)" "j \<noteq> i" for j
    using pc_ok_stable [of "all_ps s" j "ms s ! j" ps'] assms(1, 3, 5) le ok that
    by (auto simp: sched_ok_def)
  have "pc_ok ps' j (ms s' ! j)" if "j < length (all_ps s)" for j
    using other(1) [of j] that assms(1, 7, 9) by (cases "j = i") (simp_all add: sched_ok_def)
  then show "sched_ok s'"
    using assms(1, 3, 4, 8, 9) by (simp add: sched_ok_def)
  show "m_hold (ms s' ! j) (all_ps s' ! j) = m_hold (ms s ! j) (all_ps s ! j)"
    if "j < length (all_ps s)" "j \<noteq> i" for j
    using other(2) [OF that] that(2) assms(8, 9) by simp
qed

section \<open>Counting\<close>

lemma sum_change_one:
  fixes f f' :: "nat \<Rightarrow> 'a::cancel_comm_monoid_add"
  assumes "i < n" "\<And>j. j < n \<Longrightarrow> j \<noteq> i \<Longrightarrow> f' j = f j" "a + f' i = b + f i"
  shows "a + (\<Sum>j<n. f' j) = b + (\<Sum>j<n. f j)"
proof -
  have *: "(\<Sum>j<n. h j) = h i + (\<Sum>j\<in>{..<n} - {i}. h j)" for h :: "nat \<Rightarrow> 'a"
    using assms(1) by (intro sum.remove) auto
  have "(\<Sum>j\<in>{..<n} - {i}. f' j) = (\<Sum>j\<in>{..<n} - {i}. f j)"
    using assms(2) by (intro sum.cong) auto
  then show ?thesis
    using assms(3) unfolding * by (simp flip: add.assoc)
qed

lemma sum_change_two:
  fixes f f' :: "nat \<Rightarrow> 'a::cancel_comm_monoid_add"
  assumes "i < n" "j < n" "i \<noteq> j" "\<And>k. k < n \<Longrightarrow> k \<noteq> i \<Longrightarrow> k \<noteq> j \<Longrightarrow> f' k = f k"
    "f' i + f' j = f i + f j"
  shows "(\<Sum>k<n. f' k) = (\<Sum>k<n. f k)"
proof -
  have 1: "(\<Sum>k<n. h k) = h i + (\<Sum>k\<in>{..<n} - {i}. h k)" for h :: "nat \<Rightarrow> 'a"
    using assms(1) by (intro sum.remove) auto
  have 2: "(\<Sum>k\<in>{..<n} - {i}. h k) = h j + (\<Sum>k\<in>{..<n} - {i} - {j}. h k)" for h :: "nat \<Rightarrow> 'a"
    using assms(2, 3) by (intro sum.remove) auto
  have "(\<Sum>k\<in>{..<n} - {i} - {j}. f' k) = (\<Sum>k\<in>{..<n} - {i} - {j}. f k)"
    using assms(4) by (intro sum.cong) auto
  then show ?thesis
    using assms(5) unfolding 1 2 by (simp flip: add.assoc)
qed

lemma sum_update_one:
  fixes F :: "nat \<Rightarrow> m_pc \<Rightarrow> nat multiset"
  assumes "i < length xs" "n = length xs"
  shows "(\<Sum>j<n. F j (xs[i := x] ! j)) + F i (xs ! i) = (\<Sum>j<n. F j (xs ! j)) + F i x"
  using sum_change_one [of i n "\<lambda>j. F j (xs[i := x] ! j)" "\<lambda>j. F j (xs ! j)" "F i (xs ! i)" "F i x"] assms
  by (simp add: add.commute)

section \<open>A step of one thread that runs no other goroutine\<close>

text \<open>The multiset arithmetic of a step, pointwise.\<close>

lemma mset_step_eq:
  fixes q q' :: "'a multiset"
  assumes "q' + P' + h' + Y = q + P + h + X" "h + H' = h' + H"
  shows "q' + (P' + H') + Y = q + (P + H) + X"
proof (rule multiset_eqI)
  fix x
  show "count (q' + (P' + H') + Y) x = count (q + (P + H) + X) x"
    using arg_cong [OF assms(1), of "\<lambda>m. count m x"] arg_cong [OF assms(2), of "\<lambda>m. count m x"]
    by (simp only: count_union)
qed

lemma mset_step_le:
  fixes q q' :: "'a multiset"
  assumes "q' + L' + Y = q + L + X" "q + X \<subseteq># q' + Y"
  shows "L' \<subseteq># L"
proof (rule mset_subset_eqI)
  fix x
  have "count (q + X) x \<le> count (q' + Y) x"
    using assms(2) by (rule mset_subset_eq_count)
  then show "count L' x \<le> count L x"
    using arg_cong [OF assms(1), of "\<lambda>m. count m x"] by (simp only: count_union)
qed

lemma sched_inv_D:
  assumes "sched_inv X s"
  shows "sched_ok s" "queued s + X = mset_set (runnable s)" "running_bag s = mset_set (running s)"
    "finite (existing s)" "live_g_count s = card (existing s)" "pinned_ok s"
  using assms by (auto simp: sched_inv_def)

lemma finite_runnable:
  "finite (existing s) \<Longrightarrow> finite (runnable s)" "finite (existing s) \<Longrightarrow> finite (running s)"
  by (erule rev_finite_subset, auto simp: existing_def runnable_def running_def)+

lemma m_run_update:
  assumes "i < length (all_ps s)" "length (ms s) = length (all_ps s)"
    "all_ps s' = ps'" "length ps' = length (all_ps s)" "ms s' = (ms s)[i := pc']"
  shows "running_bag s' + m_run (ms s ! i) = running_bag s + m_run pc'"
  using sum_update_one [OF _ assms(2) [symmetric], of i "\<lambda>j. m_run" pc'] assms(1, 3-5)
  by (simp add: running_bag_def assms(2))

lemma thread_step:
  assumes inv: "sched_inv X s" and i: "i < length (all_ps s)"
    and ps: "length ps' = length (all_ps s)" "\<And>j. j < length (all_ps s) \<Longrightarrow> p_ok (ps' ! j)"
      "\<And>j. j < length (all_ps s) \<Longrightarrow> j \<noteq> i \<Longrightarrow> p_adv (all_ps s ! j) (ps' ! j)"
      "p_le (all_ps s ! i) (ps' ! i)" "pc_ok ps' i pc'"
    and run: "m_run pc' = m_run (ms s ! i)"
    and bag: "mset q' + (\<Sum>j < length (all_ps s). p_bag (ps' ! j)) + m_hold pc' (ps' ! i) + Y
      = mset (sched_runq s) + (\<Sum>j < length (all_ps s). p_bag (all_ps s ! j)) + m_hold (ms s ! i) (all_ps s ! i) + X"
    and glob: "mset (sched_runq s) + X \<subseteq># mset q' + Y"
  shows "sched_inv Y (s\<lparr>all_ps := ps', ms := (ms s)[i := pc'], sched_runq := q'\<rparr>)"
proof -
  let ?s = "s\<lparr>all_ps := ps', ms := (ms s)[i := pc'], sched_runq := q'\<rparr>"
  note s = sched_inv_D [OF inv]
  have len: "length (ms s) = length (all_ps s)"
    using s(1) by (simp add: sched_ok_def)
  have ok: "sched_ok ?s" and hold: "\<And>j. j < length (all_ps s) \<Longrightarrow> j \<noteq> i \<Longrightarrow>
      m_hold (ms ?s ! j) (all_ps ?s ! j) = m_hold (ms s ! j) (all_ps s ! j)"
    using sched_ok_step [OF s(1) i ps, of ?s] by simp_all
  have h: "m_hold (ms s ! i) (all_ps s ! i) + (\<Sum>j < length (all_ps s). m_hold (ms ?s ! j) (all_ps ?s ! j))
      = m_hold pc' (ps' ! i) + (\<Sum>j < length (all_ps s). m_hold (ms s ! j) (all_ps s ! j))"
    using hold i len by - (rule sum_change_one [of i], simp_all add: add.commute)
  have q': "queued ?s = mset q' + ((\<Sum>j < length (all_ps s). p_bag (ps' ! j))
      + (\<Sum>j < length (all_ps s). m_hold (ms ?s ! j) (all_ps ?s ! j)))"
    by (simp add: queued_def local_bag_def ps(1))
  have q: "queued ?s + Y = queued s + X"
    unfolding q' using mset_step_eq [OF bag h] by (simp only: queued_def local_bag_def)
  have "local_bag ?s \<subseteq># local_bag s"
    using q glob unfolding queued_def by - (rule mset_step_le [of "mset q'" _ Y "mset (sched_runq s)" _ X], simp_all)
  then have "g \<in># local_bag s" if "g \<in># local_bag ?s" for g
    using that by (rule mset_subset_eqD)
  moreover have "m_run (ms ?s ! j) = m_run (ms s ! j)" if "j < length (all_ps s)" for j
    using run i len that by (cases "j = i") simp_all
  ultimately have "pinned_ok ?s"
    using s(6) ps(1) unfolding pinned_ok_def by simp
  moreover have "running_bag ?s = running_bag s"
    using m_run_update [OF i len, of ?s ps' pc'] ps(1) run by simp
  moreover have "runnable ?s = runnable s" "running ?s = running s" "existing ?s = existing s"
    by (simp_all add: runnable_def running_def existing_def)
  ultimately show ?thesis
    unfolding sched_inv_def using s(2-5) ok q by simp
qed

end
