(* ===== verification/Scheduler_Run.thy ===== *)
theory Scheduler_Run
  imports Scheduler_Inv
begin

text \<open>
  Every step of the scheduler keeps the invariant.  The small transitions come first (a
  goroutine enters a queue, leaves one, starts or stops running), then each operation as their
  composition.
\<close>

section \<open>Small transitions\<close>

lemma frame [simp]:
  "sched_ok (s\<lparr>sched_runq := q\<rparr>) = sched_ok s"
  "local_bag (s\<lparr>sched_runq := q\<rparr>) = local_bag s"
  "running_bag (s\<lparr>sched_runq := q\<rparr>) = running_bag s"
  "sched_ok (s\<lparr>g_status_of := f\<rparr>) = sched_ok s"
  "local_bag (s\<lparr>g_status_of := f\<rparr>) = local_bag s"
  "running_bag (s\<lparr>g_status_of := f\<rparr>) = running_bag s"
  "sched_ok (s\<lparr>locked_m := l\<rparr>) = sched_ok s"
  "local_bag (s\<lparr>locked_m := l\<rparr>) = local_bag s"
  "running_bag (s\<lparr>locked_m := l\<rparr>) = running_bag s"
  "sched_ok (s\<lparr>locked_m_count := c\<rparr>) = sched_ok s"
  "local_bag (s\<lparr>locked_m_count := c\<rparr>) = local_bag s"
  "running_bag (s\<lparr>locked_m_count := c\<rparr>) = running_bag s"
  "sched_ok (s\<lparr>live_g_count := n\<rparr>) = sched_ok s"
  "local_bag (s\<lparr>live_g_count := n\<rparr>) = local_bag s"
  "running_bag (s\<lparr>live_g_count := n\<rparr>) = running_bag s"
  by (simp_all add: sched_ok_def local_bag_def running_bag_def)

lemma set_m_simps [simp]:
  "all_ps (set_m i pc s) = all_ps s" "sched_runq (set_m i pc s) = sched_runq s"
  "g_status_of (set_m i pc s) = g_status_of s" "locked_m (set_m i pc s) = locked_m s"
  "locked_m_count (set_m i pc s) = locked_m_count s" "live_g_count (set_m i pc s) = live_g_count s"
  "ms (set_m i pc s) = (ms s)[i := pc]"
  by (simp_all add: set_m_def)

lemma set_m_set_m [simp]: "set_m i pc (set_m i pc' s) = set_m i pc s"
  by (simp add: set_m_def)

lemma sched_len: "sched_inv X s \<Longrightarrow> length (ms s) = length (all_ps s)"
  by (simp add: sched_inv_def sched_ok_def)

text \<open>A thread moves on; \<open>Y\<close> is what it lets go.\<close>

lemma inv_set_m:
  assumes "sched_inv {#} s" "i < length (all_ps s)" "pc_ok (all_ps s) i pc"
    "m_run pc = m_run (ms s ! i)" "m_hold pc (all_ps s ! i) + Y = m_hold (ms s ! i) (all_ps s ! i)"
  shows "sched_inv Y (set_m i pc s)"
proof -
  have "sched_inv Y (s\<lparr>all_ps := all_ps s, ms := (ms s)[i := pc], sched_runq := sched_runq s\<rparr>)"
    by (rule thread_step [OF assms(1, 2) refl])
      (use assms in \<open>simp_all add: sched_inv_def sched_ok_def add.assoc\<close>)
  then show ?thesis
    by (simp add: set_m_def)
qed

text \<open>A goroutine leaves the global queue, or enters it.\<close>

lemma inv_glob_pop:
  assumes "sched_inv {#} s" "mset (sched_runq s) = add_mset g (mset q)"
  shows "sched_inv {#g#} (s\<lparr>sched_runq := q\<rparr>)"
  using assms by (simp add: sched_inv_def queued_def pinned_ok_def runnable_def running_def existing_def)

lemma inv_glob_rotate:
  assumes "sched_inv {#} s" "mset q = mset (sched_runq s)"
  shows "sched_inv {#} (s\<lparr>sched_runq := q\<rparr>)"
  using assms by (simp add: sched_inv_def queued_def pinned_ok_def runnable_def running_def existing_def)

lemma inv_globrunqput:
  assumes "sched_inv {#g#} s"
  shows "sched_inv {#} (globrunqput g s)"
  using assms by (simp add: sched_inv_def queued_def pinned_ok_def runnable_def running_def
      existing_def globrunqput_def)

text \<open>A goroutine that is not pinned goes into the hands of \<open>runqput\<close>.\<close>

lemma local_bag_set_m:
  assumes "sched_ok s" "i < length (all_ps s)"
  shows "local_bag (set_m i pc s) + m_hold (ms s ! i) (all_ps s ! i) = local_bag s + m_hold pc (all_ps s ! i)"
  using sum_update_one [of i "ms s" "length (all_ps s)" "\<lambda>j c. m_hold c (all_ps s ! j)" pc] assms
  by (simp add: local_bag_def sched_ok_def add.assoc)

lemma running_bag_set_m:
  assumes "sched_ok s" "i < length (all_ps s)"
  shows "running_bag (set_m i pc s) + m_run (ms s ! i) = running_bag s + m_run pc"
  using m_run_update [of i s "set_m i pc s" "all_ps s" pc] assms by (simp add: sched_ok_def)

lemma sched_ok_set_m:
  assumes "sched_ok s" "i < length (all_ps s)" "pc_ok (all_ps s) i pc"
  shows "sched_ok (set_m i pc s)"
  using assms by (auto simp: sched_ok_def nth_list_update)

lemma inv_runqput:
  assumes inv: "sched_inv {#g#} s" and i: "i < length (all_ps s)" and lk: "locked_m s g = 0"
    and pc: "m_hold (ms s ! i) (all_ps s ! i) = {#}" "m_run (ms s ! i) = gs [r]"
  shows "sched_inv {#} (set_m i (MPut r (runqput g next)) s)"
proof -
  let ?s = "set_m i (MPut r (runqput g next)) s"
  note s = sched_inv_D [OF inv]
  have loc: "local_bag ?s = add_mset g (local_bag s)"
    using local_bag_set_m [OF s(1) i, of "MPut r (runqput g next)"] pc by simp
  have run: "running_bag ?s = running_bag s"
    using running_bag_set_m [OF s(1) i, of "MPut r (runqput g next)"] pc by simp
  have "m_run (ms ?s ! j) = m_run (ms s ! j)" for j
    using pc(2) i sched_len [OF inv] by (cases "j = i") simp_all
  then have "pinned_ok ?s"
    using s(6) lk loc unfolding pinned_ok_def by simp
  moreover have "sched_ok ?s"
    by (rule sched_ok_set_m [OF s(1) i]) simp
  ultimately show ?thesis
    unfolding sched_inv_def using s(2-5) loc run
    by (simp add: queued_def runnable_def running_def existing_def)
qed

text \<open>A goroutine starts to run.\<close>

lemma inv_execute:
  assumes inv: "sched_inv {#g#} s" and i: "i < length (all_ps s)"
    and lk: "locked_m s g = 0 \<or> locked_m s g = owner i"
    and pc: "m_hold (ms s ! i) (all_ps s ! i) = {#}" "m_run (ms s ! i) = {#}"
  shows "sched_inv {#} (execute i g s)"
proof -
  let ?s = "execute i g s"
  note s = sched_inv_D [OF inv]
  have fin: "finite (runnable s)" "finite (running s)"
    using finite_runnable s(4) by auto
  have g: "g \<in> runnable s"
    using s(2) fin by (metis add_mset_add_single elem_mset_set union_single_eq_member)
  have sets: "runnable ?s = runnable s - {g}" "running ?s = insert g (running s)" "g \<notin> running s"
    "existing ?s = existing s"
    using g by (auto simp: runnable_def running_def existing_def execute_def)
  have "queued s = mset_set (runnable ?s)"
    using s(2) g fin unfolding sets by (simp add: mset_set.remove)
  moreover have loc: "local_bag ?s = local_bag s" and run: "running_bag ?s = add_mset g (running_bag s)"
    using local_bag_set_m [of "s\<lparr>g_status_of := (g_status_of s)(g := Running)\<rparr>" i "MRun g"]
      running_bag_set_m [of "s\<lparr>g_status_of := (g_status_of s)(g := Running)\<rparr>" i "MRun g"] s(1) i pc
    by (simp_all add: execute_def)
  moreover have "running_bag ?s = mset_set (running ?s)"
    using s(3) fin unfolding sets run by (simp add: sets)
  moreover have "sched_ok ?s"
    unfolding execute_def using s(1) i by (intro sched_ok_set_m) simp_all
  moreover have "pinned_ok ?s"
    using s(6) lk i sched_len [OF inv] loc unfolding pinned_ok_def
    by (auto simp: execute_def nth_list_update)
  ultimately show ?thesis
    unfolding sched_inv_def using s(4, 5) sets(4) by (simp add: queued_def) (simp add: execute_def)
qed

text \<open>A goroutine stops to run.\<close>

lemma inv_stop:
  assumes inv: "sched_inv {#} s" and i: "i < length (all_ps s)" and pc: "ms s ! i = MRun g"
    and st: "st \<noteq> Running" "st \<noteq> Idle"
  defines "s' \<equiv> set_m i MFind (s\<lparr>g_status_of := (g_status_of s)(g := st),
      live_g_count := (if st = Dead then live_g_count s - 1 else live_g_count s)\<rparr>)"
  shows "sched_inv (if st = Runnable then {#g#} else {#}) s'"
proof -
  note s = sched_inv_D [OF inv]
  have fin: "finite (runnable s)" "finite (running s)"
    using finite_runnable s(4) by auto
  have loc: "local_bag s' = local_bag s" and run: "add_mset g (running_bag s') = running_bag s"
    using local_bag_set_m [of "s\<lparr>g_status_of := (g_status_of s)(g := st),
        live_g_count := (if st = Dead then live_g_count s - 1 else live_g_count s)\<rparr>" i MFind]
      running_bag_set_m [of "s\<lparr>g_status_of := (g_status_of s)(g := st),
        live_g_count := (if st = Dead then live_g_count s - 1 else live_g_count s)\<rparr>" i MFind] s(1) i pc
    by (simp_all add: s'_def)
  have g: "g \<in> running s"
    using s(3) run fin by (metis elem_mset_set union_single_eq_member)
  have sets: "runnable s' = (if st = Runnable then insert g (runnable s) else runnable s)"
    "g \<notin> runnable s" "running s' = running s - {g}" "g \<in> existing s"
    "existing s' = (if st = Dead then existing s - {g} else existing s)"
    using g st by (auto simp: runnable_def running_def existing_def s'_def)
  have "running_bag s' = mset_set (running s')"
    using s(3) run g fin unfolding sets by (simp add: mset_set.remove)
  moreover have "queued s' + (if st = Runnable then {#g#} else {#}) = mset_set (runnable s')"
    using s(2) fin loc sets(2) unfolding sets(1) by (simp add: queued_def) (simp add: s'_def)
  moreover have "live_g_count s' = card (existing s')" "finite (existing s')"
    using s(4, 5) sets(4) unfolding sets(5) by (simp_all add: s'_def)
  moreover have "sched_ok s'"
    unfolding s'_def using s(1) i by (intro sched_ok_set_m) simp_all
  moreover have "pinned_ok s'"
    using s(6) i sched_len [OF inv] loc unfolding pinned_ok_def
    by (auto simp: s'_def nth_list_update)
  ultimately show ?thesis
    unfolding sched_inv_def by simp
qed

text \<open>A goroutine becomes runnable.\<close>

lemma inv_wake:
  assumes inv: "sched_inv {#} s" and g: "g_status_of s g = Waiting"
  shows "sched_inv {#g#} (s\<lparr>g_status_of := (g_status_of s)(g := Runnable)\<rparr>)"
proof -
  let ?s = "s\<lparr>g_status_of := (g_status_of s)(g := Runnable)\<rparr>"
  note s = sched_inv_D [OF inv]
  have sets: "runnable ?s = insert g (runnable s)" "g \<notin> runnable s" "running ?s = running s"
    "existing ?s = existing s"
    using g by (auto simp: runnable_def running_def existing_def)
  show ?thesis
    using s finite_runnable(1) [OF s(4)] sets(2)
    unfolding sched_inv_def sets by (simp add: queued_def pinned_ok_def)
qed

lemma inv_create:
  assumes inv: "sched_inv {#} s" and g: "g_status_of s g = Dead"
  shows "sched_inv {#g#} (s\<lparr>g_status_of := (g_status_of s)(g := Idle), locked_m := (locked_m s)(g := 0),
    locked_m_count := (locked_m_count s)(g := 0), live_g_count := live_g_count s + 1\<rparr>)"
    (is "sched_inv _ ?s")
proof -
  note s = sched_inv_D [OF inv]
  have sets: "runnable ?s = insert g (runnable s)" "g \<notin> runnable s" "running ?s = running s"
    "existing ?s = insert g (existing s)" "g \<notin> existing s"
    using g by (auto simp: runnable_def running_def existing_def)
  have "pinned_ok ?s"
    using s(6) by (simp add: pinned_ok_def)
  then show ?thesis
    using s(1-5) finite_runnable(1) [OF s(4)] sets(2, 5)
    unfolding sched_inv_def sets by (simp add: queued_def)
qed

section \<open>Steps of the run queues\<close>

lemma inv_own_step:
  assumes inv: "sched_inv {#} s" and i: "i < length (all_ps s)"
    and p: "p_ok p'" "p_le (all_ps s ! i) p'" "pc_ok ((all_ps s)[i := p']) i pc'"
    and run: "m_run pc' = m_run (ms s ! i)"
    and bag: "mset q' + p_bag p' + m_hold pc' p'
      = mset (sched_runq s) + p_bag (all_ps s ! i) + m_hold (ms s ! i) (all_ps s ! i)"
    and glob: "mset (sched_runq s) \<subseteq># mset q'"
  shows "sched_inv {#} (s\<lparr>all_ps := (all_ps s)[i := p'], ms := (ms s)[i := pc'], sched_runq := q'\<rparr>)"
proof (rule thread_step [OF inv i])
  let ?h = "m_hold (ms s ! i) (all_ps s ! i)"
  have "mset q' + m_hold pc' p' + (\<Sum>j < length (all_ps s). p_bag ((all_ps s)[i := p'] ! j))
      = mset (sched_runq s) + ?h + (\<Sum>j < length (all_ps s). p_bag (all_ps s ! j))"
    using i bag by - (rule sum_change_one [of i], simp_all add: ac_simps)
  then show "mset q' + (\<Sum>j < length (all_ps s). p_bag ((all_ps s)[i := p'] ! j))
      + m_hold pc' ((all_ps s)[i := p'] ! i) + {#}
      = mset (sched_runq s) + (\<Sum>j < length (all_ps s). p_bag (all_ps s ! j)) + ?h + {#}"
    using i by (simp add: ac_simps)
  show "p_ok ((all_ps s)[i := p'] ! j)" if "j < length (all_ps s)" for j
    using that p(1) sched_inv_D(1) [OF inv] by (cases "j = i") (simp_all add: sched_ok_def)
qed (use i p run glob in simp_all)

lemma inv_steal_step:
  assumes inv: "sched_inv {#} s" and i: "i < length (all_ps s)"
    and j: "j < length (all_ps s)" "i \<noteq> j"
    and p: "p_ok self" "p_ok target" "p_le (all_ps s ! i) self" "p_adv (all_ps s ! j) target"
      "pc_ok ((all_ps s)[i := self, j := target]) i pc'"
    and run: "m_run pc' = m_run (ms s ! i)"
    and bag: "p_bag self + p_bag target + m_hold pc' self
      = p_bag (all_ps s ! i) + p_bag (all_ps s ! j) + m_hold (ms s ! i) (all_ps s ! i)"
  shows "sched_inv {#} (s\<lparr>all_ps := (all_ps s)[i := self, j := target], ms := (ms s)[i := pc'],
    sched_runq := sched_runq s\<rparr>)"
proof (rule thread_step [OF inv i])
  let ?h = "m_hold (ms s ! i) (all_ps s ! i)" and ?ps = "(all_ps s)[i := self, j := target]"
  define f where "f k = (if k = i then p_bag (?ps ! k) + m_hold pc' self else p_bag (?ps ! k))" for k
  define f0 where "f0 k = (if k = i then p_bag (all_ps s ! k) + ?h else p_bag (all_ps s ! k))" for k
  have "(\<Sum>k < length (all_ps s). f k) = (\<Sum>k < length (all_ps s). f0 k)"
    using i j bag by (intro sum_change_two [of i _ j]) (simp_all add: f_def f0_def ac_simps)
  moreover have "(\<Sum>k < length (all_ps s). f k) = m_hold pc' self + (\<Sum>k < length (all_ps s). p_bag (?ps ! k))"
    using i sum_change_one [of i "length (all_ps s)" f "\<lambda>k. p_bag (?ps ! k)" "{#}" "m_hold pc' self"]
    by (simp add: f_def add.commute)
  moreover have "(\<Sum>k < length (all_ps s). f0 k) = ?h + (\<Sum>k < length (all_ps s). p_bag (all_ps s ! k))"
    using i sum_change_one [of i "length (all_ps s)" f0 "\<lambda>k. p_bag (all_ps s ! k)" "{#}" ?h]
    by (simp add: f0_def add.commute)
  ultimately have "m_hold pc' self + (\<Sum>k < length (all_ps s). p_bag (?ps ! k))
      = ?h + (\<Sum>k < length (all_ps s). p_bag (all_ps s ! k))"
    by simp
  then show "mset (sched_runq s) + (\<Sum>k < length (all_ps s). p_bag (?ps ! k)) + m_hold pc' (?ps ! i) + {#}
      = mset (sched_runq s) + (\<Sum>k < length (all_ps s). p_bag (all_ps s ! k)) + ?h + {#}"
    using i j by (simp add: ac_simps)
  show "p_ok (?ps ! k)" if "k < length (all_ps s)" for k
    using that p(1, 2) sched_inv_D(1) [OF inv] by (cases "k = j"; cases "k = i") (simp_all add: sched_ok_def)
  show "p_adv (all_ps s ! k) (?ps ! k)" if "k < length (all_ps s)" "k \<noteq> i" for k
    using that p(4) by (cases "k = j") simp_all
qed (use i j p run in simp_all)

lemma runq_ms_swap: "s\<lparr>sched_runq := q, ms := m\<rparr> = s\<lparr>ms := m, sched_runq := q\<rparr>"
  by (cases s) simp

lemma put_step_glob:
  "runqput_step ok pc p q = (pc', p', q') \<Longrightarrow> mset q \<subseteq># mset q'"
  by (cases pc) (auto simp: Let_def globrunqput_batch_def runqputslow_def split: if_splits option.splits)

lemma inv_put_step:
  assumes inv: "sched_inv {#} s" and i: "i < length (all_ps s)" and pc: "ms s ! i = MPut r pc"
  shows "sched_inv {#} (put_step ok i r pc s)"
proof (cases "pc = PutDone")
  case True
  then show ?thesis
    using assms by (auto intro!: inv_set_m split: option.splits)
next
  case False
  obtain pc' p q where st: "runqput_step ok pc (all_ps s ! i) (sched_runq s) = (pc', p, q)"
    by (metis prod_cases3)
  have "p_ok (all_ps s ! i)" "put_ok pc (all_ps s ! i)"
    using sched_inv_D(1) [OF inv] i pc unfolding sched_ok_def by force+
  note step = runqput_step_ok [OF this st]
  have "sched_inv {#} (s\<lparr>all_ps := (all_ps s)[i := p], ms := (ms s)[i := MPut r pc'], sched_runq := q\<rparr>)"
    using step i pc put_step_glob [OF st]
    by (intro inv_own_step [OF inv i]) (simp_all add: ac_simps)
  moreover have "put_step ok i r pc s =
      (let (pc', p, q) = runqput_step ok pc (all_ps s ! i) (sched_runq s)
       in set_m i (MPut r pc') (s\<lparr>all_ps := (all_ps s)[i := p], sched_runq := q\<rparr>))"
    using False by (cases pc; simp)
  ultimately show ?thesis
    by (simp add: st set_m_def runq_ms_swap)
qed

lemma inv_get_step:
  assumes inv: "sched_inv {#} s" and i: "i < length (all_ps s)" and pc: "ms s ! i = MGet pc"
    and st: "runqget_step ok pc (all_ps s ! i) = (pc', p)"
  shows "sched_inv {#} (set_m i (MGet pc') (s\<lparr>all_ps := (all_ps s)[i := p]\<rparr>))"
proof -
  have "p_ok (all_ps s ! i)" "get_ok pc (all_ps s ! i)"
    using sched_inv_D(1) [OF inv] i pc unfolding sched_ok_def by force+
  note step = runqget_step_ok [OF this st]
  have "sched_inv {#} (s\<lparr>all_ps := (all_ps s)[i := p], ms := (ms s)[i := MGet pc'], sched_runq := sched_runq s\<rparr>)"
    using step i pc by (intro inv_own_step [OF inv i]) (simp_all add: ac_simps)
  then show ?thesis
    by (simp add: set_m_def)
qed

lemma inv_grab_step:
  assumes inv: "sched_inv {#} s" and i: "i < length (all_ps s)" and pc: "ms s ! i = MGrab k e pc"
    and fresh: "steal_fresh pc (all_ps s ! unat (en_position e))"
    and st: "runqsteal_step b pc (all_ps s ! i) (all_ps s ! unat (en_position e)) = (pc', self, target)"
  shows "sched_inv {#} (set_m i (MGrab k e pc')
    (s\<lparr>all_ps := (all_ps s)[i := self, unat (en_position e) := target]\<rparr>))"
proof -
  let ?j = "unat (en_position e)"
  have ok: "pc_ok (all_ps s) i (MGrab k e pc)" and j: "?j < length (all_ps s)" "i \<noteq> ?j"
    using sched_inv_D(1) [OF inv] i pc unfolding sched_ok_def by force+
  then have p: "p_ok (all_ps s ! i)" "p_ok (all_ps s ! ?j)" "steal_ok pc (all_ps s ! i) (all_ps s ! ?j)"
    using sched_inv_D(1) [OF inv] i by (simp_all add: sched_ok_def)
  note step = runqsteal_step_ok [OF p fresh st]
  have "sched_inv {#} (s\<lparr>all_ps := (all_ps s)[i := self, ?j := target], ms := (ms s)[i := MGrab k e pc'],
      sched_runq := sched_runq s\<rparr>)"
    using step i j pc by (intro inv_steal_step [OF inv i]) simp_all
  then show ?thesis
    by (simp add: set_m_def)
qed

section \<open>\<open>find_runnable\<close>\<close>

lemma globrunqget_loop_mset:
  "globrunqget_loop mine n q = (r, q') \<Longrightarrow> mset q = gs [r] + mset q' \<and> (\<forall>g. r = Some g \<longrightarrow> mine g)"
  by (induction mine n q rule: globrunqget_loop.induct) (auto split: if_splits)

lemma inv_execute_local:
  assumes inv: "sched_inv {#} s" and i: "i < length (all_ps s)"
    and pc: "m_hold (ms s ! i) (all_ps s ! i) = {#g#}" "m_run (ms s ! i) = {#}"
  shows "sched_inv {#} (execute i g s)"
proof -
  have "sched_inv {#g#} (set_m i MFind s)"
    using pc by (intro inv_set_m [OF inv i]) simp_all
  moreover have "locked_m s g = 0"
  proof -
    have "(\<Sum>j < length (all_ps s). m_hold (ms s ! j) (all_ps s ! j))
        = {#g#} + (\<Sum>j \<in> {..<length (all_ps s)} - {i}. m_hold (ms s ! j) (all_ps s ! j))"
      using i pc(1) by (subst sum.remove [of _ i]) simp_all
    then have "g \<in># local_bag s"
      by (simp add: local_bag_def)
    then show ?thesis
      using sched_inv_D(6) [OF inv] by (simp add: pinned_ok_def)
  qed
  ultimately have "sched_inv {#} (execute i g (set_m i MFind s))"
    using i sched_len [OF inv] by (intro inv_execute) simp_all
  then show ?thesis
    by (simp add: execute_def set_m_def)
qed

lemma inv_glob_get:
  assumes inv: "sched_inv {#} s" and i: "i < length (all_ps s)"
    and pc: "m_hold (ms s ! i) (all_ps s ! i) = {#}" "m_run (ms s ! i) = {#}"
    and get: "globrunqget_loop mine n (sched_runq s) = (r, q)"
    and mine: "\<And>g. mine g \<Longrightarrow> locked_m s g = 0 \<or> locked_m s g = owner i"
  shows "r = Some g \<Longrightarrow> sched_inv {#} (execute i g (s\<lparr>sched_runq := q\<rparr>))"
    "r = None \<Longrightarrow> sched_inv {#} (s\<lparr>sched_runq := q\<rparr>)"
proof -
  note g = globrunqget_loop_mset [OF get]
  show "sched_inv {#} (execute i g (s\<lparr>sched_runq := q\<rparr>))" if "r = Some g"
    using g that mine i pc by (intro inv_execute inv_glob_pop [OF inv]) simp_all
  show "sched_inv {#} (s\<lparr>sched_runq := q\<rparr>)" if "r = None"
    using g that by (intro inv_glob_rotate [OF inv]) simp
qed

lemma pc_ok_at: "sched_inv X s \<Longrightarrow> i < length (all_ps s) \<Longrightarrow> pc_ok (all_ps s) i (ms s ! i)"
  by (simp add: sched_inv_def sched_ok_def)

lemma inv_steal_work_step:
  assumes inv: "sched_inv {#} s" and i: "i < length (all_ps s)" and fresh: "fresh s (ms s ! i)"
    and pc: "finding (ms s ! i)" "ms s ! i \<noteq> MFind" "\<And>q. ms s ! i \<noteq> MGet q" "ms s ! i \<noteq> MGlob"
  shows "sched_inv {#} (steal_work_step seed i (ms s ! i) s)"
proof (cases "ms s ! i")
  case (MSteal k e)
  then show ?thesis
    using pc_ok_at [OF inv i] inv i by (auto simp: Let_def intro!: inv_set_m)
next
  case (MEmpty k e q)
  then show ?thesis
    using pc_ok_at [OF inv i] by (cases q) (auto intro!: inv_set_m [OF inv i])
next
  case (MNext k e)
  then show ?thesis
    using pc_ok_at [OF inv i] by (auto intro!: inv_set_m [OF inv i])
next
  case (MGrab k e q)
  show ?thesis
  proof (cases "\<exists>r. q = StealRet r")
    case True
    then obtain r where r: "q = StealRet r" ..
    then show ?thesis
    proof (cases r)
      case None
      then show ?thesis
        using MGrab r pc_ok_at [OF inv i] by (auto intro!: inv_set_m [OF inv i])
    next
      case (Some g)
      then show ?thesis
        using MGrab r by (auto intro!: inv_execute_local [OF inv i])
    qed
  next
    case False
    obtain pc' self target where st: "runqsteal_step (steal_runnext_g s k) q (all_ps s ! i)
        (all_ps s ! unat (en_position e)) = (pc', self, target)"
      by (metis prod_cases3)
    have "steal_work_step seed i (MGrab k e q) s =
        (let (pc', self, target) = runqsteal_step (steal_runnext_g s k) q (all_ps s ! i)
           (all_ps s ! unat (en_position e))
         in set_m i (MGrab k e pc') (s\<lparr>all_ps := (all_ps s)[i := self, unat (en_position e) := target]\<rparr>))"
      using False by (cases q) (simp_all add: Let_def)
    then show ?thesis
      using MGrab st fresh inv_grab_step [OF inv i MGrab _ st] by (simp add: fresh_def)
  qed
qed (use pc in \<open>simp_all add: finding_def inv\<close>)

lemma inv_find_step:
  assumes inv: "sched_inv {#} s" and i: "i < length (all_ps s)" and fresh: "fresh s (ms s ! i)"
    and pc: "finding (ms s ! i)"
  shows "sched_inv {#} (find_step ok seed i (ms s ! i) s)"
proof (cases "ms s ! i")
  case MFind
  obtain r q where get: "globrunqget_locked_for_owner (locked_m s) (owner i) (sched_runq s) = (r, q)"
    by fastforce
  note new = inv_glob_get [OF inv i _ _ get [unfolded globrunqget_locked_for_owner_def]]
  show ?thesis
    using new MFind get i by (cases r) (auto intro!: inv_set_m)
next
  case (MGet g)
  show ?thesis
  proof (cases "\<exists>r. g = GetRet r")
    case True
    then obtain r where "g = GetRet r" ..
    then show ?thesis
      using MGet pc_ok_at [OF inv i]
      by (cases r) (auto intro!: inv_set_m [OF inv i] inv_execute_local [OF inv i])
  next
    case False
    obtain pc' p where st: "runqget_step ok g (all_ps s ! i) = (pc', p)"
      by fastforce
    have "find_step ok seed i (MGet g) s =
        (let (pc', p) = runqget_step ok g (all_ps s ! i)
         in set_m i (MGet pc') (s\<lparr>all_ps := (all_ps s)[i := p]\<rparr>))"
      using False by (cases g) (simp_all add: Let_def)
    then show ?thesis
      using inv_get_step [OF inv i MGet st] MGet st by simp
  qed
next
  case MGlob
  obtain r q where get: "globrunqget_one (locked_m s) (owner i) (sched_runq s) = (r, q)"
    by fastforce
  note new = inv_glob_get [OF inv i _ _ get [unfolded globrunqget_one_def]]
  show ?thesis
    using new MGlob get i pc_ok_at [OF inv i] by (cases r) (auto intro!: inv_set_m)
next
  case MPoll
  then show ?thesis
    by (auto intro!: inv_set_m [OF inv i])
qed (use inv_steal_work_step [OF inv i fresh pc] pc in \<open>simp_all add: finding_def\<close>)

section \<open>Running goroutines\<close>

lemma inv_enqueue:
  assumes inv: "sched_inv {#g#} s" and i: "i < length (all_ps s)"
    and pc: "m_hold (ms s ! i) (all_ps s ! i) = {#}" "m_run (ms s ! i) = gs [r]"
  shows "sched_inv {#} (enqueue_runnable i r g next s)"
  unfolding enqueue_runnable_def
  using inv_globrunqput [OF inv] inv_runqput [OF inv i _ pc] by simp

lemma inv_gosched:
  assumes inv: "sched_inv {#} s" and i: "i < length (all_ps s)" and pc: "ms s ! i = MRun g"
  shows "sched_inv {#} (gosched_m i g s)"
proof -
  let ?s = "set_m i MFind (s\<lparr>g_status_of := (g_status_of s)(g := Runnable)\<rparr>)"
  have s': "sched_inv {#g#} ?s"
    using inv_stop [OF inv i pc, of Runnable] by simp
  have "sched_inv {#} (enqueue_runnable i None g False ?s)"
    using i sched_len [OF inv] by (intro inv_enqueue [OF s']) simp_all
  then show ?thesis
    using inv_globrunqput [OF s'] by (simp add: gosched_m_def Let_def)
qed

lemma pinned_ok_running:
  assumes "sched_inv {#} s" "i < length (all_ps s)" "ms s ! i = MRun g"
  shows "g \<notin># local_bag s" "\<And>j. j < length (all_ps s) \<Longrightarrow> g \<in># m_run (ms s ! j) \<Longrightarrow> j = i"
proof -
  note s = sched_inv_D [OF assms(1)]
  have fin: "finite (runnable s)" "finite (running s)"
    using finite_runnable s(4) by auto
  have 1: "running_bag s = {#g#} + (\<Sum>k \<in> {..<length (all_ps s)} - {i}. m_run (ms s ! k))"
    unfolding running_bag_def using assms(2, 3) by (subst sum.remove [of _ i]) simp_all
  then have "g \<in> running s"
    using s(3) fin by (metis add_mset_add_single elem_mset_set union_commute union_single_eq_member)
  then have "g \<notin> runnable s"
    by (auto simp: running_def runnable_def)
  then show "g \<notin># local_bag s"
    using s(2) fin by (metis elem_mset_set queued_def union_iff)
  show "j = i" if j: "j < length (all_ps s)" "g \<in># m_run (ms s ! j)" for j
  proof (rule ccontr)
    assume "j \<noteq> i"
    then have "(\<Sum>k \<in> {..<length (all_ps s)} - {i}. m_run (ms s ! k))
        = m_run (ms s ! j) + (\<Sum>k \<in> {..<length (all_ps s)} - {i} - {j}. m_run (ms s ! k))"
      using j(1) by (intro sum.remove) auto
    then have "2 \<le> count (running_bag s) g"
      using 1 j(2) by (simp add: Suc_le_eq)
    moreover have "count (running_bag s) g \<le> 1"
      unfolding s(3) by (simp add: count_mset_set')
    ultimately show False
      by simp
  qed
qed

lemma inv_pin:
  assumes inv: "sched_inv {#} s" and i: "i < length (all_ps s)" and pc: "ms s ! i = MRun g"
    and l: "l = 0 \<or> l = owner i" "c = 0 \<longleftrightarrow> l = 0"
  shows "sched_inv {#} (s\<lparr>locked_m := (locked_m s)(g := l), locked_m_count := (locked_m_count s)(g := c)\<rparr>)"
    (is "sched_inv _ ?s")
proof -
  note s = sched_inv_D [OF inv] and g = pinned_ok_running [OF inv i pc]
  have "pinned_ok ?s"
    using s(6) g l unfolding pinned_ok_def by auto
  then show ?thesis
    using s(1-5) unfolding sched_inv_def
    by (simp add: queued_def runnable_def running_def existing_def)
qed

lemma inv_lock_unlock:
  assumes inv: "sched_inv {#} s" and i: "i < length (all_ps s)" and pc: "ms s ! i = MRun g"
  shows "sched_inv {#} (lock_os_thread i g s)" "sched_inv {#} (unlock_os_thread i g s)"
proof -
  have swap: "s\<lparr>locked_m_count := c, locked_m := l\<rparr> = s\<lparr>locked_m := l, locked_m_count := c\<rparr>" for c l
    by (cases s) simp
  note pin = inv_pin [OF inv i pc]
  have count: "sched_inv {#} (s\<lparr>locked_m_count := (locked_m_count s)(g := c)\<rparr>)"
    if "locked_m s g = owner i" "0 < c" for c
    using pin [of "locked_m s g" c, unfolded fun_upd_triv] that by (simp add: owner_def)
  show "sched_inv {#} (lock_os_thread i g s)"
    using inv pin [of "owner i" "locked_m_count s g + 1"] count [of "locked_m_count s g + 1"]
    unfolding lock_os_thread_def Let_def by (simp add: owner_def)
  show "sched_inv {#} (unlock_os_thread i g s)"
    using inv pin [of 0 0] count [of "locked_m_count s g - 1"]
    unfolding unlock_os_thread_def Let_def by (simp add: swap)
qed

section \<open>Every reachable state\<close>

lemma sched_inv_step:
  assumes "sched_step s s'" "sched_inv {#} s"
  shows "sched_inv {#} s'"
  using assms
proof (induction rule: sched_step.induct)
  case (find i s ok seed)
  then show ?case
    using sched_len by (intro inv_find_step) simp_all
next
  case (put i s r pc ok)
  then show ?case
    using sched_len by (intro inv_put_step) simp_all
next
  case (newproc i s r g)
  show ?case
    unfolding newproc_def using newproc sched_len
    by (intro inv_enqueue inv_create) simp_all
next
  case (goready i s r g "next")
  show ?case
    unfolding goready_def using goready sched_len
    by (intro inv_enqueue inv_wake) simp_all
next
  case (goready_no_p s g)
  then show ?case
    unfolding goready_no_p_def by (intro inv_globrunqput inv_wake)
next
  case (gosched i s g)
  then show ?case
    using sched_len by (intro inv_gosched) simp_all
next
  case (park i s g)
  then show ?case
    using inv_stop [of s i g Waiting] sched_len by (simp add: park_m_def)
next
  case (goexit i s g)
  then show ?case
    using inv_stop [of s i g Dead] sched_len by (simp add: goexit0_def)
next
  case (lock i s g)
  then show ?case
    using sched_len by (intro inv_lock_unlock) simp_all
next
  case (unlock i s g)
  then show ?case
    using sched_len by (intro inv_lock_unlock) simp_all
qed

end
