(* ===== verification/Scheduler_Props.thy ===== *)
theory Scheduler_Props
  imports Scheduler_Run
begin

text \<open>
  The properties of the scheduler in every reachable state: no goroutine is lost or duplicated
  between the queues and the threads, a pinned goroutine runs on its own thread only, a worker
  that sees no work may sleep, and the assertions of the run queue hold.
\<close>

section \<open>Boot\<close>

lemma sched_inv_boot:
  assumes "0 < n"
  shows "sched_inv {#} (sched_boot n ord ws srn g0)"
proof -
  let ?ps = "map (\<lambda>i. acquirep i (bootstrap_ps n ! i)) [0..<min n MAX_PS]"
  let ?s = "\<lparr>all_ps = ?ps, sched_runq = [], ms = replicate (min n MAX_PS) MFind, steal_order = ord,
    work_stealing = ws, steal_runnext = srn, g_status_of = (\<lambda>_. Dead), locked_m = (\<lambda>_. 0),
    locked_m_count = (\<lambda>_. 0), live_g_count = 0\<rparr>"
  have n: "0 < min n MAX_PS"
    using assms by (simp add: MAX_PS_def)
  have p: "p_ok (acquirep i (P_new x))" "p_bag (acquirep i (P_new x)) = {#}" for i x
    using p_ok_new [of x] new_empty [of x]
    by (simp_all add: p_ok_def p_bag_def items_def qlen_def acquirep_def)
  have "sched_inv {#} ?s"
    using p by (simp add: sched_inv_def sched_ok_def queued_def local_bag_def running_bag_def
        runnable_def running_def existing_def pinned_ok_def bootstrap_ps_def)
  then show ?thesis
    unfolding sched_boot_def newproc_def using n
    by (intro inv_enqueue inv_create) simp_all
qed

lemma sched_reachable_inv: "sched_reachable s \<Longrightarrow> sched_inv {#} s"
  by (induction rule: sched_reachable.induct) (auto intro: sched_inv_boot sched_inv_step)

section \<open>Properties\<close>

text \<open>
  C2: Work stealing neither loses nor duplicates a goroutine.  In every state the scheduler can
  reach, under any interleaving of the threads' queue operations, the goroutines held by the
  global queue, the local rings, the \<open>runnext\<close> slots and the threads in the middle of a queue
  operation are exactly the runnable ones, each once; the goroutines on the threads are exactly
  the running ones, each on one thread; and \<open>LIVE_G_COUNT\<close> is the number of goroutines that
  exist.
\<close>

theorem sched_no_loss_no_duplicate:
  assumes "sched_reachable s"
  shows "queued s = mset_set (runnable s) \<and> running_bag s = mset_set (running s)
    \<and> live_g_count s = card (existing s)"
  using sched_reachable_inv [OF assms] by (simp add: sched_inv_def)

text \<open>A thread left alone: its next step, up to the moment it runs a goroutine.\<close>

definition solo_step :: "nat \<Rightarrow> sched \<Rightarrow> sched" where
  "solo_step i s = (if i < length (ms s) \<and> fresh s (ms s ! i) then
     (case ms s ! i of MRun g \<Rightarrow> s | MPut r pc \<Rightarrow> put_step True i r pc s
      | pc \<Rightarrow> find_step True 0 i pc s) else s)"

fun solo :: "nat \<Rightarrow> nat \<Rightarrow> sched \<Rightarrow> sched" where
  "solo i 0 s = s"
| "solo i (Suc k) s = solo i k (solo_step i s)"

lemma solo_step_reachable:
  assumes "sched_reachable s"
  shows "sched_reachable (solo_step i s)"
proof (cases "i < length (ms s) \<and> fresh s (ms s ! i)")
  case True
  have find: "sched_reachable (find_step True 0 i (ms s ! i) s)" if "finding (ms s ! i)"
    using True that by (intro sched_reachable.step [OF assms] sched_step.find) simp_all
  have put: "sched_reachable (put_step True i r pc s)" if "ms s ! i = MPut r pc" for r pc
    using True that by (intro sched_reachable.step [OF assms] sched_step.put) simp_all
  show ?thesis
    using True find put assms unfolding solo_step_def finding_def
    by (cases "ms s ! i") simp_all
qed (use assms in \<open>auto simp: solo_step_def\<close>)

lemma solo_reachable: "sched_reachable s \<Longrightarrow> sched_reachable (solo i k s)"
  by (induction k arbitrary: s) (simp_all add: solo_step_reachable)

abbreviation main_runs :: sched where
  "main_runs \<equiv> solo 0 12 (sched_boot 2 random_order_new True True 7)"

lemma main_runs_reachable: "sched_reachable main_runs"
  by (intro solo_reachable sched_reachable.boot) simp

lemma main_runs_at_0: "ms main_runs ! 0 = MRun 7 \<and> length (ms main_runs) = 2
    \<and> locked_m main_runs 7 = 0"
  by code_simp

theorem sched_no_loss_no_duplicate_witness:
  "ms main_runs ! 0 = MRun 7 \<and> queued main_runs = mset_set (runnable main_runs)
   \<and> running_bag main_runs = mset_set (running main_runs)
   \<and> live_g_count main_runs = card (existing main_runs)"
  using sched_no_loss_no_duplicate [OF main_runs_reachable] main_runs_at_0 by blast

text \<open>
  C19: A goroutine pinned to a thread by \<open>LockOSThread\<close> runs on that thread only.  In every
  reachable state a goroutine whose \<open>locked_m\<close> is set sits in no local queue, from which another
  thread could take it, and if it runs then on the thread it is pinned to.
\<close>

theorem pinned_goroutine_stays:
  assumes "sched_reachable s" "locked_m s g \<noteq> 0"
  shows "g \<notin># local_bag s \<and> (\<forall>i. i < length (all_ps s) \<and> ms s ! i = MRun g \<longrightarrow> locked_m s g = owner i)"
  using sched_reachable_inv [OF assms(1)] assms(2) by (auto simp: sched_inv_def pinned_ok_def)

lemma pinned_example:
  "sched_reachable (lock_os_thread 0 7 main_runs)" "locked_m (lock_os_thread 0 7 main_runs) 7 \<noteq> 0"
proof -
  show "sched_reachable (lock_os_thread 0 7 main_runs)"
    using main_runs_at_0 by (intro sched_reachable.step [OF main_runs_reachable] sched_step.lock) simp_all
  have "locked_m (lock_os_thread 0 g s) g \<noteq> 0" if "locked_m s g = 0" for g s
    using that by (simp add: lock_os_thread_def owner_def)
  then show "locked_m (lock_os_thread 0 7 main_runs) 7 \<noteq> 0"
    using main_runs_at_0 by blast
qed

lemma pinned_example_runs:
  "0 < length (all_ps (lock_os_thread 0 7 main_runs))" "ms (lock_os_thread 0 7 main_runs) ! 0 = MRun 7"
proof -
  have "all_ps (lock_os_thread i g s) = all_ps s" "ms (lock_os_thread i g s) = ms s" for i g s
    by (simp_all add: lock_os_thread_def Let_def)
  moreover have "length (all_ps main_runs) = 2"
    by code_simp
  ultimately show "0 < length (all_ps (lock_os_thread 0 7 main_runs))" "ms (lock_os_thread 0 7 main_runs) ! 0 = MRun 7"
    using main_runs_at_0 by simp_all
qed

theorem pinned_goroutine_stays_witness:
  "let s = lock_os_thread 0 7 main_runs in locked_m s 7 \<noteq> 0 \<and> 7 \<notin># local_bag s
     \<and> ms s ! 0 = MRun 7 \<and> locked_m s 7 = owner 0"
  unfolding Let_def using pinned_goroutine_stays [OF pinned_example] pinned_example(2) pinned_example_runs by blast

text \<open>
  C20: A worker that finds no work leaves none behind.  When no thread is in the middle of a
  queue operation and \<open>has_local_or_global_work\<close> answers no on some thread, then no goroutine is
  runnable: each one that exists is running on a thread or waiting to be woken.
\<close>

theorem no_work_no_runnable:
  assumes "sched_reachable s" "i < length (all_ps s)" "\<not> has_local_or_global_work i s"
    and "\<And>j. j < length (all_ps s) \<Longrightarrow> m_hold (ms s ! j) (all_ps s ! j) = {#}"
  shows "runnable s = {} \<and> (\<forall>g \<in> existing s. g_status_of s g = Running \<or> g_status_of s g = Waiting)"
proof -
  note s = sched_inv_D [OF sched_reachable_inv [OF assms(1)]]
  have "p_bag (all_ps s ! j) = {#}" if "j < length (all_ps s)" for j
    using assms(2, 3) that unfolding has_local_or_global_work_def
    by (cases "j = i") (auto simp: runq_has_work_def runqempty_def list_ex_iff p_bag_def items_def qlen_def)
  then have "local_bag s = {#}"
    using assms(4) by (simp add: local_bag_def)
  then have "mset_set (runnable s) = {#}"
    using s(2) assms(3) by (simp add: queued_def has_local_or_global_work_def)
  then have "runnable s = {}"
    using finite_runnable(1) [OF s(4)] by (simp add: mset_set_empty_iff)
  moreover from this have "g_status_of s g = Running \<or> g_status_of s g = Waiting" if "g \<in> existing s" for g
    using that by (cases "g_status_of s g") (auto simp: runnable_def existing_def)
  ultimately show ?thesis
    by blast
qed

lemma main_runs_idle:
  "length (all_ps main_runs) = 2 \<and> \<not> has_local_or_global_work 1 main_runs
   \<and> list_all (\<lambda>j. m_hold (ms main_runs ! j) (all_ps main_runs ! j) = {#}) [0..<2]"
  by code_simp

theorem no_work_no_runnable_witness:
  "\<not> has_local_or_global_work 1 main_runs \<and> runnable main_runs = {}
   \<and> existing main_runs \<subseteq> {g. g_status_of main_runs g = Running \<or> g_status_of main_runs g = Waiting}"
  using no_work_no_runnable [OF main_runs_reachable, of 1] main_runs_idle by (auto simp: list_all_iff)

text \<open>
  C21: The assertions of the run queue hold and its buffers are never overrun, in every reachable
  state.  No ring holds more than 256 goroutines; \<open>runqputslow\<close> starts only on a full ring, so
  that half the ring and the goroutine itself fit its array of 129 pointers; and the ring of a
  thief has room for the batch it publishes.
\<close>

theorem runq_asserts_hold:
  assumes "sched_reachable s" "i < length (all_ps s)"
  shows "qlen (all_ps s ! i) \<le> LOCAL_RUNQ_SIZE \<and>
    (case ms s ! i of MPut r pc \<Rightarrow> put_asserts pc | MGrab k e pc \<Rightarrow> steal_asserts pc (all_ps s ! i) | _ \<Rightarrow> True)"
proof -
  note inv = sched_reachable_inv [OF assms(1)]
  have "put_asserts pc" if "put_ok pc p" for pc p
    using that by (cases pc) auto
  moreover have "steal_asserts pc p" if "steal_ok pc p t" for pc p t
  proof (cases pc)
    case (StealPublish u n g)
    then have "u - runqhead p = 0" "unat n \<le> HALF"
      using that by (auto simp: own_def qlen_def unat_eq_zero)
    then show ?thesis
      using StealPublish by (simp add: HALF_def LOCAL_RUNQ_SIZE_def)
  qed simp_all
  moreover have "p_ok (all_ps s ! i)"
    using sched_inv_D(1) [OF inv] assms(2) by (simp add: sched_ok_def)
  ultimately show ?thesis
    using pc_ok_at [OF inv assms(2)] by (cases "ms s ! i") (auto simp: p_ok_def LOCAL_RUNQ_SIZE_def)
qed

theorem runq_asserts_hold_witness:
  "qlen (all_ps main_runs ! 1) \<le> LOCAL_RUNQ_SIZE \<and>
    (case ms main_runs ! 1 of MPut r pc \<Rightarrow> put_asserts pc
     | MGrab k e pc \<Rightarrow> steal_asserts pc (all_ps main_runs ! 1) | _ \<Rightarrow> True)"
  by (rule runq_asserts_hold [OF main_runs_reachable]) (simp add: main_runs_idle)

text \<open>
  C23: Taking from the global queue.  \<open>globrunqget_one\<close> returns the first goroutine of the queue
  that is not pinned to another thread, moving those it passes behind the rest; it returns
  nothing, and leaves the queue as it was, exactly when all of them are pinned to other threads.
\<close>

theorem globrunqget_one_first:
  "globrunqget_one lk me q =
    (let mine = (\<lambda>g. lk g = 0 \<or> lk g = me); pre = takeWhile (\<lambda>g. \<not> mine g) q;
         post = dropWhile (\<lambda>g. \<not> mine g) q
     in case post of [] \<Rightarrow> (None, q) | g # rest \<Rightarrow> (Some g, rest @ pre))"
proof -
  have "globrunqget_loop mine (length q) (q @ acc) =
      (case dropWhile (\<lambda>g. \<not> mine g) q of [] \<Rightarrow> (None, acc @ q)
       | g # rest \<Rightarrow> (Some g, rest @ acc @ takeWhile (\<lambda>g. \<not> mine g) q))" for mine acc
  proof (induction q arbitrary: acc)
    case (Cons g q)
    then show ?case
      using Cons.IH [of "acc @ [g]"] by (cases "dropWhile (\<lambda>g. \<not> mine g) q") (simp_all del: dropWhile_eq_Nil_conv)
  qed simp
  from this [of "\<lambda>g. lk g = 0 \<or> lk g = me" "[]"] show ?thesis
    unfolding globrunqget_one_def Let_def by (simp only: append_Nil append_Nil2)
qed

end
