(* ===== verification/Sudog_Queue.thy ===== *)
theory Sudog_Queue
  imports Goish_Prelude
begin

text \<open>
  The wait queues of \<^verbatim>\<open>src/src/gochan.rs\<close>: \<^verbatim>\<open>Sudog\<close> records that live on
  the stacks of parked goroutines and are threaded into a channel's \<^verbatim>\<open>sendq\<close> and
  \<^verbatim>\<open>recvq\<close> through their own \<^verbatim>\<open>next\<close>/\<^verbatim>\<open>prev\<close>
  pointers.  The store maps addresses to sudogs; a null pointer is \<^const>\<open>None\<close>.  Goroutines and
  \<^verbatim>\<open>SelectCoord\<close> structs are named by their addresses.  The queue operations are
  refined to operations on the list of queued addresses.
\<close>

type_synonym gid = nat
type_synonym sid = nat
type_synonym coord = nat

record 'v sudog =
  sg_g :: gid
  sg_value :: "'v option"
  sg_success :: bool
  sg_coord :: "coord option"
  sg_next :: "sid option"
  sg_prev :: "sid option"

type_synonym 'v sudogs = "sid \<Rightarrow> 'v sudog"

definition new_send :: "gid \<Rightarrow> 'v \<Rightarrow> 'v sudog" where
  "new_send g v = \<lparr>sg_g = g, sg_value = Some v, sg_success = False, sg_coord = None,
                   sg_next = None, sg_prev = None\<rparr>"

definition new_recv :: "gid \<Rightarrow> 'v sudog" where
  "new_recv g = \<lparr>sg_g = g, sg_value = None, sg_success = False, sg_coord = None,
                 sg_next = None, sg_prev = None\<rparr>"

definition new_send_select :: "gid \<Rightarrow> 'v \<Rightarrow> coord \<Rightarrow> 'v sudog" where
  "new_send_select g v c = \<lparr>sg_g = g, sg_value = Some v, sg_success = False, sg_coord = Some c,
                            sg_next = None, sg_prev = None\<rparr>"

definition new_recv_select :: "gid \<Rightarrow> coord \<Rightarrow> 'v sudog" where
  "new_recv_select g c = \<lparr>sg_g = g, sg_value = None, sg_success = False, sg_coord = Some c,
                          sg_next = None, sg_prev = None\<rparr>"

record sudog_queue =
  q_head :: "sid option"
  q_tail :: "sid option"

definition sq_new :: sudog_queue where
  "sq_new = \<lparr>q_head = None, q_tail = None\<rparr>"

definition sq_is_empty :: "sudog_queue \<Rightarrow> bool" where
  "sq_is_empty q \<longleftrightarrow> q_head q = None"

definition set_next :: "'v sudogs \<Rightarrow> sid \<Rightarrow> sid option \<Rightarrow> 'v sudogs" where
  "set_next h x n = h(x := (h x)\<lparr>sg_next := n\<rparr>)"

definition set_prev :: "'v sudogs \<Rightarrow> sid \<Rightarrow> sid option \<Rightarrow> 'v sudogs" where
  "set_prev h x p = h(x := (h x)\<lparr>sg_prev := p\<rparr>)"

definition push_back :: "'v sudogs \<Rightarrow> sudog_queue \<Rightarrow> sid \<Rightarrow> 'v sudogs \<times> sudog_queue" where
  "push_back h q sg =
     (let h1 = set_prev (set_next h sg None) sg (q_tail q)
      in case q_tail q of
           None \<Rightarrow> (h1, q\<lparr>q_head := Some sg, q_tail := Some sg\<rparr>)
         | Some t \<Rightarrow> (set_next h1 t (Some sg), q\<lparr>q_tail := Some sg\<rparr>))"

definition pop_front :: "'v sudogs \<Rightarrow> sudog_queue \<Rightarrow> 'v sudogs \<times> sudog_queue \<times> sid option" where
  "pop_front h q =
     (case q_head q of
        None \<Rightarrow> (h, q, None)
      | Some x \<Rightarrow>
          (case sg_next (h x) of
             None \<Rightarrow> (set_prev (set_next h x None) x None, \<lparr>q_head = None, q_tail = None\<rparr>, Some x)
           | Some y \<Rightarrow> (set_prev (set_next (set_prev h y None) x None) x None,
                        q\<lparr>q_head := Some y\<rparr>, Some x)))"

definition unlink :: "'v sudogs \<Rightarrow> sudog_queue \<Rightarrow> sid \<Rightarrow> 'v sudogs \<times> sudog_queue" where
  "unlink h q sg =
     (let p = sg_prev (h sg);
          n = sg_next (h sg);
          (h1, q1) = (case p of None \<Rightarrow> (h, q\<lparr>q_head := n\<rparr>) | Some x \<Rightarrow> (set_next h x n, q));
          (h2, q2) = (case n of None \<Rightarrow> (h1, q1\<lparr>q_tail := p\<rparr>) | Some y \<Rightarrow> (set_prev h1 y p, q1))
      in (set_prev (set_next h2 sg None) sg None, q2))"

text \<open>
  The walk of \<^verbatim>\<open>cancel\<close> follows \<^verbatim>\<open>next\<close> pointers; \<^const>\<open>None\<close> is a
  walk that does not end.
\<close>

partial_function (option) cancel_from ::
  "'v sudogs \<Rightarrow> sudog_queue \<Rightarrow> sid \<Rightarrow> sid option \<Rightarrow> ('v sudogs \<times> sudog_queue \<times> bool) option" where
  "cancel_from h q sg cur =
     (case cur of
        None \<Rightarrow> Some (h, q, False)
      | Some c \<Rightarrow>
          if c = sg then Some (case unlink h q c of (h', q') \<Rightarrow> (h', q', True))
          else cancel_from h q sg (sg_next (h c)))"

definition sq_cancel :: "'v sudogs \<Rightarrow> sudog_queue \<Rightarrow> sid \<Rightarrow> ('v sudogs \<times> sudog_queue \<times> bool) option" where
  "sq_cancel h q sg = cancel_from h q sg (q_head q)"

section \<open>Lists in the store\<close>

definition first_or :: "'a list \<Rightarrow> 'a option \<Rightarrow> 'a option" where
  "first_or xs d = (case xs of [] \<Rightarrow> d | x # _ \<Rightarrow> Some x)"

definition last_or :: "'a list \<Rightarrow> 'a option \<Rightarrow> 'a option" where
  "last_or xs d = (if xs = [] then d else Some (last xs))"

lemma first_or_simps [simp]: "first_or [] d = d" "first_or (x # xs) d = Some x"
  by (simp_all add: first_or_def)

lemma last_or_simps [simp]:
  "last_or [] d = d" "last_or (x # xs) d = last_or xs (Some x)" "last_or (xs @ [x]) d = Some x"
  by (simp_all add: last_or_def)

lemma first_or_append [simp]: "first_or (xs @ ys) d = first_or xs (first_or ys d)"
  by (cases xs) simp_all

lemma last_or_append [simp]: "last_or (xs @ ys) d = last_or ys (last_or xs d)"
  by (simp add: last_or_def)

lemma first_or_mem: "first_or xs None = Some x \<Longrightarrow> x \<in> set xs"
  by (cases xs) auto

lemma last_or_mem: "last_or xs None = Some x \<Longrightarrow> x \<in> set xs"
  by (auto simp: last_or_def split: if_splits)

text \<open>\<open>seg h p xs n\<close>: \<open>xs\<close> is a doubly linked segment between \<open>p\<close> and \<open>n\<close>.\<close>

fun seg :: "'v sudogs \<Rightarrow> sid option \<Rightarrow> sid list \<Rightarrow> sid option \<Rightarrow> bool" where
  "seg h p [] n \<longleftrightarrow> True"
| "seg h p (x # xs) n \<longleftrightarrow>
     sg_prev (h x) = p \<and> sg_next (h x) = first_or xs n \<and> seg h (Some x) xs n"

definition sq_rep :: "'v sudogs \<Rightarrow> sudog_queue \<Rightarrow> sid list \<Rightarrow> bool" where
  "sq_rep h q xs \<longleftrightarrow>
     distinct xs \<and> q_head q = first_or xs None \<and> q_tail q = last_or xs None \<and> seg h None xs None"

lemma seg_append:
  "seg h p (xs @ ys) n \<longleftrightarrow> seg h p xs (first_or ys n) \<and> seg h (last_or xs p) ys n"
  by (induction xs arbitrary: p) auto

lemma sq_rep_distinct: "sq_rep h q xs \<Longrightarrow> distinct xs"
  by (simp add: sq_rep_def)

text \<open>Only the links of the members matter.\<close>

lemma seg_cong:
  assumes "\<And>x. x \<in> set xs \<Longrightarrow> sg_next (h' x) = sg_next (h x) \<and> sg_prev (h' x) = sg_prev (h x)"
  shows "seg h' p xs n = seg h p xs n"
  using assms by (induction xs arbitrary: p) auto

lemma sq_rep_cong:
  assumes "\<And>x. x \<in> set xs \<Longrightarrow> sg_next (h' x) = sg_next (h x) \<and> sg_prev (h' x) = sg_prev (h x)"
  shows "sq_rep h' q xs = sq_rep h q xs"
  using seg_cong [OF assms] by (simp add: sq_rep_def)

lemma set_links_simps [simp]:
  "sg_next (set_next h x n y) = (if y = x then n else sg_next (h y))"
  "sg_prev (set_next h x n y) = sg_prev (h y)"
  "sg_next (set_prev h x n y) = sg_next (h y)"
  "sg_prev (set_prev h x n y) = (if y = x then n else sg_prev (h y))"
  by (simp_all add: set_next_def set_prev_def)

text \<open>Everything but the links of a sudog.\<close>

definition payload :: "'v sudog \<Rightarrow> gid \<times> 'v option \<times> bool \<times> coord option" where
  "payload s = (sg_g s, sg_value s, sg_success s, sg_coord s)"

lemma payload_links [simp]:
  "payload (set_next h x n y) = payload (h y)" "payload (set_prev h x n y) = payload (h y)"
  by (simp_all add: set_next_def set_prev_def payload_def)

lemma seg_frame [simp]:
  "x \<notin> set xs \<Longrightarrow> seg (set_next h x m) p xs n = seg h p xs n"
  "x \<notin> set xs \<Longrightarrow> seg (set_prev h x m) p xs n = seg h p xs n"
  by (rule seg_cong; auto)+

section \<open>The operations on the represented list\<close>

lemma sq_new_rep [rep_simps]: "sq_rep h sq_new []"
  by (simp add: sq_rep_def sq_new_def)

lemma sq_is_empty_rep [rep_simps]: "sq_rep h q xs \<Longrightarrow> sq_is_empty q \<longleftrightarrow> xs = []"
  by (cases xs) (simp_all add: sq_rep_def sq_is_empty_def)

lemma push_back_rep:
  assumes "sq_rep h q xs" "sg \<notin> set xs"
  shows "sq_rep (fst (push_back h q sg)) (snd (push_back h q sg)) (xs @ [sg])"
proof (cases xs rule: rev_cases)
  case Nil
  with assms show ?thesis by (simp add: sq_rep_def push_back_def Let_def)
next
  case (snoc ys y)
  with assms show ?thesis
    by (auto simp: sq_rep_def push_back_def Let_def seg_append)
qed

lemma push_back_frame:
  assumes "sq_rep h q xs" "y \<notin> insert sg (set xs)"
  shows "fst (push_back h q sg) y = h y"
  using assms last_or_mem [of xs]
  by (auto simp: sq_rep_def push_back_def Let_def set_next_def set_prev_def split: option.splits)

lemma push_back_payload: "payload (fst (push_back h q sg) y) = payload (h y)"
  by (simp add: push_back_def Let_def split: option.splits)

lemma unlink_rep:
  assumes "sq_rep h q (xs @ sg # ys)"
  shows "sq_rep (fst (unlink h q sg)) (snd (unlink h q sg)) (xs @ ys)"
proof (cases xs rule: rev_cases)
  case Nil
  with assms show ?thesis
    by (cases ys) (auto simp: sq_rep_def unlink_def Let_def seg_append)
next
  case (snoc us u)
  with assms show ?thesis
    by (cases ys) (auto simp: sq_rep_def unlink_def Let_def seg_append)
qed

lemma unlink_frame:
  assumes "sq_rep h q (xs @ sg # ys)" "y \<notin> set (xs @ sg # ys)"
  shows "fst (unlink h q sg) y = h y"
proof -
  have "sg_prev (h sg) = last_or xs None" "sg_next (h sg) = first_or ys None"
    using assms(1) by (simp_all add: sq_rep_def seg_append)
  then show ?thesis
    using assms(2) last_or_mem [of xs] first_or_mem [of ys]
    by (auto simp: unlink_def Let_def set_next_def set_prev_def split: option.splits)
qed

lemma unlink_payload: "payload (fst (unlink h q sg) y) = payload (h y)"
  by (simp add: unlink_def Let_def split: option.splits)

lemma pop_front_rep:
  assumes "sq_rep h q xs"
  shows "case pop_front h q of (h', q', r) \<Rightarrow>
           r = first_or xs None \<and> sq_rep h' q' (tl xs) \<and> (\<forall>y. payload (h' y) = payload (h y))"
proof (cases xs)
  case Nil
  with assms show ?thesis by (simp add: sq_rep_def pop_front_def)
next
  case (Cons x ys)
  with assms show ?thesis
    by (cases ys) (auto simp: sq_rep_def pop_front_def)
qed

text \<open>The walk of \<^verbatim>\<open>cancel\<close> ends on every represented queue.\<close>

lemma cancel_from_rep:
  assumes "sq_rep h q (us @ xs)" "sg \<notin> set us"
  shows "cancel_from h q sg (first_or xs None) =
         Some (if sg \<in> set xs then (fst (unlink h q sg), snd (unlink h q sg), True) else (h, q, False))"
  using assms
proof (induction xs arbitrary: us)
  case Nil
  then show ?case by (subst cancel_from.simps) simp
next
  case (Cons x xs)
  have next_x: "sg_next (h x) = first_or xs None"
    using Cons.prems(1) by (simp add: sq_rep_def seg_append)
  show ?case
  proof (cases "x = sg")
    case True
    then show ?thesis by (subst cancel_from.simps) (simp add: case_prod_unfold)
  next
    case False
    have "sq_rep h q ((us @ [x]) @ xs)" "sg \<notin> set (us @ [x])"
      using Cons.prems False by simp_all
    then have "cancel_from h q sg (first_or xs None) =
      Some (if sg \<in> set xs then (fst (unlink h q sg), snd (unlink h q sg), True) else (h, q, False))"
      by (rule Cons.IH)
    with False show ?thesis
      by (subst cancel_from.simps) (simp add: next_x)
  qed
qed

lemma sq_cancel_rep:
  assumes "sq_rep h q xs"
  shows "\<exists>h' q'. sq_cancel h q sg = Some (h', q', sg \<in> set xs) \<and> sq_rep h' q' (remove1 sg xs) \<and>
           (\<forall>y. payload (h' y) = payload (h y)) \<and> (\<forall>y. y \<notin> set xs \<longrightarrow> h' y = h y)"
proof (cases "sg \<in> set xs")
  case False
  then have "sq_cancel h q sg = Some (h, q, False)"
    using cancel_from_rep [of h q "[]" xs sg] assms by (simp add: sq_cancel_def sq_rep_def)
  with False assms show ?thesis by (simp add: remove1_idem)
next
  case True
  then obtain us ws where xs: "xs = us @ sg # ws" "sg \<notin> set us"
    by (meson split_list_first)
  have "sq_cancel h q sg = Some (fst (unlink h q sg), snd (unlink h q sg), True)"
    using cancel_from_rep [of h q "[]" xs sg] assms True by (simp add: sq_cancel_def sq_rep_def)
  moreover have "remove1 sg xs = us @ ws"
    using xs by (simp add: remove1_append)
  ultimately show ?thesis
    using unlink_rep [of h q us sg ws] unlink_frame [of h q us sg ws] assms xs True
    by (auto simp: unlink_payload)
qed

section \<open>The wait-queue interface\<close>

text \<open>
  What the channel operations rely on, whatever the representation: appending, removing a member,
  and cancelling, which reports whether the entry was still queued.
\<close>

locale wait_queue =
  fixes rep :: "'h \<Rightarrow> 'q \<Rightarrow> sid list \<Rightarrow> bool"
    and data :: "'h \<Rightarrow> sid \<Rightarrow> 'd"
    and push :: "'h \<Rightarrow> 'q \<Rightarrow> sid \<Rightarrow> 'h \<times> 'q"
    and del :: "'h \<Rightarrow> 'q \<Rightarrow> sid \<Rightarrow> 'h \<times> 'q"
    and cancel :: "'h \<Rightarrow> 'q \<Rightarrow> sid \<Rightarrow> ('h \<times> 'q \<times> bool) option"
  assumes rep_distinct: "rep h q xs \<Longrightarrow> distinct xs"
    and push_rep: "rep h q xs \<Longrightarrow> x \<notin> set xs \<Longrightarrow> rep (fst (push h q x)) (snd (push h q x)) (xs @ [x])"
    and push_data: "data (fst (push h q x)) y = data h y"
    and del_rep: "rep h q (xs @ x # ys) \<Longrightarrow> rep (fst (del h q x)) (snd (del h q x)) (xs @ ys)"
    and del_data: "data (fst (del h q x)) y = data h y"
    and cancel_rep: "rep h q xs \<Longrightarrow> \<exists>h' q'. cancel h q x = Some (h', q', x \<in> set xs) \<and>
           rep h' q' (remove1 x xs) \<and> (\<forall>y. data h' y = data h y)"
begin

text \<open>A registered entry that is cancelled leaves the queue as it was, and is reported as queued.\<close>

lemma push_cancel:
  assumes "rep h q xs" "x \<notin> set xs"
  shows "\<exists>h' q'. cancel (fst (push h q x)) (snd (push h q x)) x = Some (h', q', True) \<and> rep h' q' xs \<and>
           (\<forall>y. data h' y = data h y)"
proof -
  have "rep (fst (push h q x)) (snd (push h q x)) (xs @ [x])"
    using assms by (rule push_rep)
  from cancel_rep [OF this, of x] show ?thesis
    using assms(2) by (auto simp: remove1_append remove1_idem push_data)
qed

text \<open>An entry another goroutine has removed is reported as gone.\<close>

lemma del_cancel:
  assumes "rep h q (xs @ x # ys)"
  shows "\<exists>h' q'. cancel (fst (del h q x)) (snd (del h q x)) x = Some (h', q', False) \<and>
           rep h' q' (xs @ ys) \<and> (\<forall>y. data h' y = data h y)"
proof -
  have d: "x \<notin> set (xs @ ys)"
    using rep_distinct [OF assms] by simp
  have "rep (fst (del h q x)) (snd (del h q x)) (xs @ ys)"
    using assms by (rule del_rep)
  from cancel_rep [OF this, of x] show ?thesis
    using d by (auto simp: remove1_append remove1_idem del_data)
qed

end

interpretation sudog_q: wait_queue sq_rep "\<lambda>h x. payload (h x)" push_back unlink sq_cancel
proof unfold_locales
  fix h :: "'a sudogs" and q xs x
  assume "sq_rep h q xs"
  then show "\<exists>h' q'. sq_cancel h q x = Some (h', q', x \<in> set xs) \<and> sq_rep h' q' (remove1 x xs) \<and>
      (\<forall>y. payload (h' y) = payload (h y))"
    using sq_cancel_rep by blast
qed (simp_all add: push_back_payload unlink_payload push_back_rep unlink_rep sq_rep_distinct)

end
