(* ===== verification/Chan.thy ===== *)
theory Chan
  imports Ring Sudog_Queue
begin

text \<open>
  \<^verbatim>\<open>src/src/gochan.rs\<close>: the channel state guarded by the channel's lock, the helpers that
  run under that lock, and the blocking operations \<^verbatim>\<open>Send\<close>, \<^verbatim>\<open>Recv\<close>
  and \<^verbatim>\<open>Close\<close>.

  The world holds what the operations share with other channels: the sudogs, the
  \<^verbatim>\<open>done\<close> latches of the selects, and the goroutines made runnable by
  \<^verbatim>\<open>goready\<close>, in order.  A call of \<^verbatim>\<open>fatal\<close>, or an
  \<^verbatim>\<open>expect\<close> that fails, ends the process: \<open>Fatal\<close> with the message.  The outer option
  is \<^const>\<open>None\<close> for a walk or a ring loop that does not end.

  A channel operation holds the channel's lock from its first read to its last write; parking
  releases the lock only after the goroutine's context is saved.  One operation is therefore one
  step.  Other threads can interfere with a step only by claiming a select through another channel,
  which sets a \<^verbatim>\<open>done\<close> latch.
\<close>

record 'v world =
  sgs :: "'v sudogs"
  dones :: "coord \<Rightarrow> bool"
  readied :: "gid list"

record 'v hchan_state =
  closed :: bool
  cap :: nat
  buf :: "'v ring"
  sendq :: sudog_queue
  recvq :: sudog_queue

record 'v hchan =
  nil :: bool
  state :: "'v hchan_state"

datatype 'a exec = Done 'a | Fatal string

datatype register_status = Registered | Skip | Closed

text \<open>How a blocking operation ends its first phase: with a result, or parked on a sudog, or, on a
  nil channel, parked with no one to wake it.\<close>

datatype 'r blocking = Returned 'r | Parked sid | BlockedForever

definition new_buffered :: "nat \<Rightarrow> 'v hchan" where
  "new_buffered c =
     \<lparr>nil = False,
      state = \<lparr>closed = False, cap = c, buf = ring_new (max c 1), sendq = sq_new, recvq = sq_new\<rparr>\<rparr>"

definition new_unbuffered :: "'v hchan" where
  "new_unbuffered = new_buffered 0"

definition nil_chan :: "'v hchan" where
  "nil_chan =
     \<lparr>nil = True,
      state = \<lparr>closed = False, cap = 0, buf = ring_new 1, sendq = sq_new, recvq = sq_new\<rparr>\<rparr>"

definition chan_Len :: "'v hchan \<Rightarrow> u64" where
  "chan_Len c = (if nil c then 0 else ring_len (buf (state c)))"

definition chan_Cap :: "'v hchan \<Rightarrow> nat" where
  "chan_Cap c = (if nil c then 0 else cap (state c))"

definition goready :: "'v world \<Rightarrow> gid \<Rightarrow> 'v world" where
  "goready w g = w\<lparr>readied := readied w @ [g]\<rparr>"

definition try_claim_sudog :: "'v world \<Rightarrow> sid \<Rightarrow> 'v world \<times> bool" where
  "try_claim_sudog w x =
     (case sg_coord (sgs w x) of
        None \<Rightarrow> (w, True)
      | Some c \<Rightarrow> if dones w c then (w, False) else (w\<lparr>dones := (dones w)(c := True)\<rparr>, True))"

text \<open>The scan of a wait queue: skip the entries whose claim fails, stop at the first claimed one.\<close>

partial_function (option) claim_from :: "'v world \<Rightarrow> sid option \<Rightarrow> ('v world \<times> sid option) option" where
  "claim_from w cur =
     (case cur of
        None \<Rightarrow> Some (w, None)
      | Some c \<Rightarrow>
          (case try_claim_sudog w c of (w', claimed) \<Rightarrow>
             if \<not> claimed then claim_from w' (sg_next (sgs w c))
             else Some (w', Some c)))"

definition set_value :: "'v world \<Rightarrow> sid \<Rightarrow> 'v option \<Rightarrow> 'v world" where
  "set_value w x v = w\<lparr>sgs := (sgs w)(x := (sgs w x)\<lparr>sg_value := v\<rparr>)\<rparr>"

definition set_success :: "'v world \<Rightarrow> sid \<Rightarrow> bool \<Rightarrow> 'v world" where
  "set_success w x b = w\<lparr>sgs := (sgs w)(x := (sgs w x)\<lparr>sg_success := b\<rparr>)\<rparr>"

section \<open>Operations under the lock\<close>

text \<open>
  The body shared by \<^verbatim>\<open>__try_recv_locked\<close> and \<^verbatim>\<open>__try_recv\<close>; the two
  differ in the messages of their \<^verbatim>\<open>expect\<close> calls.
\<close>

definition recv_body ::
  "string \<Rightarrow> string \<Rightarrow> 'v \<Rightarrow> 'v world \<Rightarrow> 'v hchan_state \<Rightarrow>
   ('v world \<times> 'v hchan_state \<times> ('v \<times> bool) option) exec option" where
  "recv_body m_sudog m_buf dflt w s =
     (if closed s \<and> ring_len (buf s) = 0 then Some (Done (w, s, Some (dflt, False)))
      else case claim_from w (q_head (sendq s)) of
        None \<Rightarrow> None
      | Some (w1, Some cur) \<Rightarrow>
          (let (h2, q2) = unlink (sgs w1) (sendq s) cur;
               w2 = w1\<lparr>sgs := h2\<rparr>;
               s2 = s\<lparr>sendq := q2\<rparr>
           in case sg_value (h2 cur) of
                None \<Rightarrow> Some (Fatal m_sudog)
              | Some sender_v \<Rightarrow>
                  (let w3 = set_value w2 cur None;
                       fin = (\<lambda>s' v. Some (Done (goready (set_success w3 cur True) (sg_g (h2 cur)),
                                                 s', Some (v, True))))
                   in if cap s = 0 then fin s2 sender_v
                      else case ring_try_recv [True] (buf s) of
                        None \<Rightarrow> None
                      | Some (_, None) \<Rightarrow> Some (Fatal m_buf)
                      | Some (b1, Some hd_v) \<Rightarrow>
                          (case ring_try_send [True] b1 sender_v of
                             None \<Rightarrow> None
                           | Some (_, Inl _) \<Rightarrow>
                               Some (Fatal ''buf rotate: ring full though slot just freed'')
                           | Some (b2, Inr _) \<Rightarrow> fin (s2\<lparr>buf := b2\<rparr>) hd_v)))
      | Some (w1, None) \<Rightarrow>
          (case ring_try_recv [True] (buf s) of
             None \<Rightarrow> None
           | Some (b, Some v) \<Rightarrow> Some (Done (w1, s\<lparr>buf := b\<rparr>, Some (v, True)))
           | Some (b, None) \<Rightarrow> Some (Done (w1, s\<lparr>buf := b\<rparr>, None))))"

definition try_recv_locked ::
  "'v \<Rightarrow> 'v world \<Rightarrow> 'v hchan_state \<Rightarrow>
   ('v world \<times> 'v hchan_state \<times> ('v \<times> bool) option) exec option" where
  "try_recv_locked =
     recv_body ''recv-locked: sender sudog empty'' ''recv-locked: buf empty with parked sender''"

definition try_recv ::
  "'v \<Rightarrow> 'v world \<Rightarrow> 'v hchan_state \<Rightarrow>
   ('v world \<times> 'v hchan_state \<times> ('v \<times> bool) option) exec option" where
  "try_recv = recv_body ''recv: sender sudog empty'' ''recv: buf empty with parked sender''"

text \<open>\<^verbatim>\<open>__try_send_locked\<close>; \<open>Inr ()\<close> is \<^verbatim>\<open>Ok(())\<close>, \<open>Inl v\<close> is
  \<^verbatim>\<open>Err(v)\<close>.\<close>

definition try_send_locked ::
  "'v world \<Rightarrow> 'v hchan_state \<Rightarrow> 'v \<Rightarrow> ('v world \<times> 'v hchan_state \<times> ('v + unit)) exec option" where
  "try_send_locked w s v =
     (if closed s then Some (Fatal ''goish: chan: send on closed channel'')
      else case claim_from w (q_head (recvq s)) of
        None \<Rightarrow> None
      | Some (w1, Some cur) \<Rightarrow>
          (let (h2, q2) = unlink (sgs w1) (recvq s) cur;
               w2 = w1\<lparr>sgs := h2\<rparr>;
               w3 = set_success (set_value w2 cur (Some v)) cur True
           in Some (Done (goready w3 (sg_g (h2 cur)), s\<lparr>recvq := q2\<rparr>, Inr ())))
      | Some (w1, None) \<Rightarrow>
          if unat (ring_len (buf s)) < cap s then
            (case ring_try_send [True] (buf s) v of
               None \<Rightarrow> None
             | Some (_, Inl _) \<Rightarrow> Some (Fatal ''buf send: ring full though len < cap'')
             | Some (b, Inr _) \<Rightarrow> Some (Done (w1, s\<lparr>buf := b\<rparr>, Inr ())))
          else Some (Done (w1, s, Inl v)))"

text \<open>\<^verbatim>\<open>__try_send\<close> repeats that body statement by statement, under the lock it takes.\<close>

definition try_send ::
  "'v world \<Rightarrow> 'v hchan_state \<Rightarrow> 'v \<Rightarrow> ('v world \<times> 'v hchan_state \<times> ('v + unit)) exec option" where
  "try_send = try_send_locked"

definition register_recv_locked ::
  "'v world \<Rightarrow> 'v hchan_state \<Rightarrow> sid \<Rightarrow> 'v world \<times> 'v hchan_state \<times> register_status" where
  "register_recv_locked w s x =
     (if closed s \<and> ring_len (buf s) = 0 then (w, s, Closed)
      else case push_back (sgs w) (recvq s) x of
        (h, q) \<Rightarrow> (w\<lparr>sgs := h\<rparr>, s\<lparr>recvq := q\<rparr>, Registered))"

definition register_send_locked ::
  "'v world \<Rightarrow> 'v hchan_state \<Rightarrow> sid \<Rightarrow> 'v world \<times> 'v hchan_state \<times> register_status" where
  "register_send_locked w s x =
     (if closed s then (w, s, Closed)
      else case push_back (sgs w) (sendq s) x of
        (h, q) \<Rightarrow> (w\<lparr>sgs := h\<rparr>, s\<lparr>sendq := q\<rparr>, Registered))"

definition register_send :: "'v world \<Rightarrow> 'v hchan_state \<Rightarrow> sid \<Rightarrow> 'v world \<times> 'v hchan_state \<times> bool" where
  "register_send w s x =
     (if closed s then (w, s, False)
      else case push_back (sgs w) (sendq s) x of
        (h, q) \<Rightarrow> (w\<lparr>sgs := h\<rparr>, s\<lparr>sendq := q\<rparr>, True))"

definition register_recv ::
  "'v world \<Rightarrow> 'v hchan_state \<Rightarrow> sid \<Rightarrow> 'v world \<times> 'v hchan_state \<times> (unit + unit)" where
  "register_recv w s x =
     (if closed s \<and> ring_len (buf s) = 0 then (w, s, Inl ())
      else case push_back (sgs w) (recvq s) x of
        (h, q) \<Rightarrow> (w\<lparr>sgs := h\<rparr>, s\<lparr>recvq := q\<rparr>, Inr ()))"

definition cancel_send ::
  "'v world \<Rightarrow> 'v hchan_state \<Rightarrow> sid \<Rightarrow> ('v world \<times> 'v hchan_state \<times> bool) option" where
  "cancel_send w s x =
     map_option (\<lambda>(h, q, b). (w\<lparr>sgs := h\<rparr>, s\<lparr>sendq := q\<rparr>, b)) (sq_cancel (sgs w) (sendq s) x)"

definition cancel_recv ::
  "'v world \<Rightarrow> 'v hchan_state \<Rightarrow> sid \<Rightarrow> ('v world \<times> 'v hchan_state \<times> bool) option" where
  "cancel_recv w s x =
     map_option (\<lambda>(h, q, b). (w\<lparr>sgs := h\<rparr>, s\<lparr>recvq := q\<rparr>, b)) (sq_cancel (sgs w) (recvq s) x)"

section \<open>Blocking operations\<close>

text \<open>
  \<open>g\<close> is the result of \<^verbatim>\<open>current_g()\<close> and \<open>x\<close> the address of the sudog on the
  caller's stack.  What runs after \<^verbatim>\<open>gopark\<close> returns is a definition of its own.
\<close>

definition chan_Send ::
  "'v world \<Rightarrow> 'v hchan \<Rightarrow> gid option \<Rightarrow> sid \<Rightarrow> 'v \<Rightarrow>
   ('v world \<times> 'v hchan \<times> unit blocking) exec option" where
  "chan_Send w c g x v =
     (if nil c then Some (Done (w, c, BlockedForever))
      else case try_send_locked w (state c) v of
        None \<Rightarrow> None
      | Some (Fatal m) \<Rightarrow> Some (Fatal m)
      | Some (Done (w1, s1, Inr _)) \<Rightarrow> Some (Done (w1, c\<lparr>state := s1\<rparr>, Returned ()))
      | Some (Done (w1, s1, Inl v')) \<Rightarrow>
          (case g of
             None \<Rightarrow> Some (Fatal ''goish: chan: Send outside of any goroutine'')
           | Some gp \<Rightarrow>
               (case register_send_locked (w1\<lparr>sgs := (sgs w1)(x := new_send gp v')\<rparr>) s1 x of
                  (w2, s2, Registered) \<Rightarrow> Some (Done (w2, c\<lparr>state := s2\<rparr>, Parked x))
                | (w2, s2, _) \<Rightarrow> Some (Fatal ''goish: chan: send on closed channel''))))"

definition send_resume :: "'v world \<Rightarrow> sid \<Rightarrow> unit exec" where
  "send_resume w x =
     (if sg_success (sgs w x) then Done ()
      else Fatal ''goish: chan: send on closed channel (woken with !success)'')"

definition chan_Recv ::
  "'v \<Rightarrow> 'v world \<Rightarrow> 'v hchan \<Rightarrow> gid option \<Rightarrow> sid \<Rightarrow>
   ('v world \<times> 'v hchan \<times> ('v \<times> bool) blocking) exec option" where
  "chan_Recv dflt w c g x =
     (if nil c then Some (Done (w, c, BlockedForever))
      else case try_recv_locked dflt w (state c) of
        None \<Rightarrow> None
      | Some (Fatal m) \<Rightarrow> Some (Fatal m)
      | Some (Done (w1, s1, Some r)) \<Rightarrow> Some (Done (w1, c\<lparr>state := s1\<rparr>, Returned r))
      | Some (Done (w1, s1, None)) \<Rightarrow>
          (case g of
             None \<Rightarrow> Some (Fatal ''goish: chan: Recv outside of any goroutine'')
           | Some gp \<Rightarrow>
               (case register_recv_locked (w1\<lparr>sgs := (sgs w1)(x := new_recv gp)\<rparr>) s1 x of
                  (w2, s2, Registered) \<Rightarrow> Some (Done (w2, c\<lparr>state := s2\<rparr>, Parked x))
                | (w2, s2, _) \<Rightarrow> Some (Done (w2, c\<lparr>state := s2\<rparr>, Returned (dflt, False))))))"

definition recv_resume :: "'v \<Rightarrow> 'v world \<Rightarrow> sid \<Rightarrow> ('v world \<times> 'v \<times> bool) exec" where
  "recv_resume dflt w x =
     (if \<not> sg_success (sgs w x) then Done (w, dflt, False)
      else case sg_value (sgs w x) of
        None \<Rightarrow> Fatal ''recv: sudog empty after wake''
      | Some v \<Rightarrow> Done (set_value w x None, v, True))"

text \<open>
  The two loops of \<^verbatim>\<open>Close\<close>.  The receiver loop also clears the value slot
  (\<open>clear\<close>); the next pointer is read before the entry is unlinked.
\<close>

partial_function (option) close_from ::
  "bool \<Rightarrow> 'v world \<Rightarrow> sudog_queue \<Rightarrow> sid option \<Rightarrow> ('v world \<times> sudog_queue) option" where
  "close_from clear w q cur =
     (case cur of
        None \<Rightarrow> Some (w, q)
      | Some c \<Rightarrow>
          (case try_claim_sudog w c of (w1, claimed) \<Rightarrow>
             if \<not> claimed then close_from clear w1 q (sg_next (sgs w c))
             else
               close_from clear
                 (let w2 = set_success (w1\<lparr>sgs := fst (unlink (sgs w1) q c)\<rparr>) c False;
                      w3 = (if clear then set_value w2 c None else w2)
                  in goready w3 (sg_g (sgs w3 c)))
                 (snd (unlink (sgs w1) q c)) (sg_next (sgs w c))))"

definition chan_Close :: "'v world \<Rightarrow> 'v hchan \<Rightarrow> ('v world \<times> 'v hchan) exec option" where
  "chan_Close w c =
     (if nil c then Some (Fatal ''goish: chan: close of nil channel'')
      else if closed (state c) then Some (Fatal ''goish: chan: close of closed channel'')
      else case close_from True w (recvq (state c)) (q_head (recvq (state c))) of
        None \<Rightarrow> None
      | Some (w1, rq) \<Rightarrow>
          (case close_from False w1 (sendq (state c)) (q_head (sendq (state c))) of
             None \<Rightarrow> None
           | Some (w2, sq) \<Rightarrow>
               Some (Done (w2, c\<lparr>state := (state c)\<lparr>closed := True, recvq := rq, sendq := sq\<rparr>\<rparr>))))"

end
