(* ===== verification/Chan_Inv.thy ===== *)
theory Chan_Inv
  imports Chan
begin

text \<open>
  Correctness of the channel operations.  A channel state represents a buffer and two lists of
  parked sudogs; an entry is \<^emph>\<open>live\<close> while no waker has claimed it.  The theory describes what each
  operation does to the represented lists, proves the channel invariant, and derives that values are
  delivered in the order they were sent.
\<close>

section \<open>Live entries and claims\<close>

definition live :: "'v world \<Rightarrow> sid \<Rightarrow> bool" where
  "live w x \<longleftrightarrow> (case sg_coord (sgs w x) of None \<Rightarrow> True | Some c \<Rightarrow> \<not> dones w c)"

definition claim :: "'v world \<Rightarrow> sid \<Rightarrow> 'v world" where
  "claim w x = (case sg_coord (sgs w x) of None \<Rightarrow> w | Some c \<Rightarrow> w\<lparr>dones := (dones w)(c := True)\<rparr>)"

lemma try_claim_sudog_live:
  "try_claim_sudog w x = (if live w x then (claim w x, True) else (w, False))"
  by (auto simp: try_claim_sudog_def live_def claim_def split: option.splits)

lemma claim_simps [simp]: "sgs (claim w x) = sgs w" "readied (claim w x) = readied w"
  by (simp_all add: claim_def split: option.splits)

lemma world_upd_simps [simp]:
  "dones (goready w g) = dones w" "sgs (goready w g) = sgs w" "readied (goready w g) = readied w @ [g]"
  "dones (set_value w x v) = dones w" "readied (set_value w x v) = readied w"
  "dones (set_success w x b) = dones w" "readied (set_success w x b) = readied w"
  "sgs (set_value w x v) = (sgs w)(x := (sgs w x)\<lparr>sg_value := v\<rparr>)"
  "sgs (set_success w x b) = (sgs w)(x := (sgs w x)\<lparr>sg_success := b\<rparr>)"
  by (simp_all add: goready_def set_value_def set_success_def)

lemma payload_eq_iff:
  "payload a = payload b \<longleftrightarrow>
   sg_g a = sg_g b \<and> sg_value a = sg_value b \<and> sg_success a = sg_success b \<and> sg_coord a = sg_coord b"
  by (simp add: payload_def)

lemma payload_eq_tuple:
  "payload a = (g, v, b, c) \<longleftrightarrow> sg_g a = g \<and> sg_value a = v \<and> sg_success a = b \<and> sg_coord a = c"
  by (simp add: payload_def)

text \<open>The scan of a queue finds its first live entry, and claims nothing else.\<close>

lemma claim_from_rep:
  assumes "sq_rep (sgs w) q (us @ xs)"
  shows "claim_from w (first_or xs None) =
         Some (case find (live w) xs of None \<Rightarrow> (w, None) | Some x \<Rightarrow> (claim w x, Some x))"
  using assms
proof (induction xs arbitrary: us)
  case Nil
  then show ?case by (subst claim_from.simps) simp
next
  case (Cons x xs)
  have next_x: "sg_next (sgs w x) = first_or xs None"
    using Cons.prems by (simp add: sq_rep_def seg_append)
  show ?case
  proof (cases "live w x")
    case True
    then show ?thesis by (subst claim_from.simps) (simp add: try_claim_sudog_live)
  next
    case False
    have "sq_rep (sgs w) q ((us @ [x]) @ xs)" using Cons.prems by simp
    then have "claim_from w (first_or xs None) =
      Some (case find (live w) xs of None \<Rightarrow> (w, None) | Some x \<Rightarrow> (claim w x, Some x))"
      by (rule Cons.IH)
    with False show ?thesis
      by (subst claim_from.simps) (simp add: try_claim_sudog_live next_x)
  qed
qed

lemma claim_from_head:
  assumes "sq_rep (sgs w) q xs"
  shows "claim_from w (q_head q) =
         Some (case find (live w) xs of None \<Rightarrow> (w, None) | Some x \<Rightarrow> (claim w x, Some x))"
  using claim_from_rep [of w q "[]" xs] assms by (simp add: sq_rep_def)

lemma find_split:
  "find P xs = Some x \<Longrightarrow> \<exists>us vs. xs = us @ x # vs \<and> P x \<and> (\<forall>u \<in> set us. \<not> P u)"
proof (induction xs)
  case Nil
  then show ?case by simp
next
  case (Cons a xs)
  show ?case
  proof (cases "P a")
    case True
    with Cons.prems have "a # xs = [] @ x # xs \<and> P x \<and> (\<forall>u \<in> set []. \<not> P u)" by simp
    then show ?thesis by blast
  next
    case False
    with Cons obtain us vs where "xs = us @ x # vs \<and> P x \<and> (\<forall>u \<in> set us. \<not> P u)" by auto
    with False have "a # xs = (a # us) @ x # vs \<and> P x \<and> (\<forall>u \<in> set (a # us). \<not> P u)" by simp
    then show ?thesis by blast
  qed
qed

section \<open>What a channel state represents\<close>

definition chan_rep :: "'v world \<Rightarrow> 'v hchan_state \<Rightarrow> sid list \<Rightarrow> sid list \<Rightarrow> bool" where
  "chan_rep w s ss rs \<longleftrightarrow>
     sq_rep (sgs w) (sendq s) ss \<and> sq_rep (sgs w) (recvq s) rs \<and> set ss \<inter> set rs = {} \<and>
     ring_inv (buf s) \<and> cap s \<le> length (slots (buf s)) \<and> length (ring_list (buf s)) \<le> cap s"

definition same_links :: "'v sudogs \<Rightarrow> 'v sudogs \<Rightarrow> bool" where
  "same_links h h' \<longleftrightarrow> (\<forall>y. sg_next (h' y) = sg_next (h y) \<and> sg_prev (h' y) = sg_prev (h y))"

lemma same_links_refl [simp]: "same_links h h"
  by (simp add: same_links_def)

lemma same_links_set [simp]:
  "same_links h ((h'(x := (h' x)\<lparr>sg_value := v\<rparr>))) = same_links h h'"
  "same_links h ((h'(x := (h' x)\<lparr>sg_success := b\<rparr>))) = same_links h h'"
  by (auto simp: same_links_def)

lemma chan_rep_same_links:
  assumes "chan_rep w s ss rs" "same_links (sgs w) (sgs w')"
  shows "chan_rep w' s ss rs"
  using assms sq_rep_cong [of ss "sgs w'" "sgs w" "sendq s"] sq_rep_cong [of rs "sgs w'" "sgs w" "recvq s"]
  by (simp add: chan_rep_def same_links_def)

lemma chan_rep_unlink_send:
  assumes "chan_rep w s (us @ x # vs) rs" "same_links (fst (unlink (sgs w) (sendq s) x)) (sgs w')"
  shows "chan_rep w' (s\<lparr>sendq := snd (unlink (sgs w) (sendq s) x)\<rparr>) (us @ vs) rs"
proof -
  let ?h = "fst (unlink (sgs w) (sendq s) x)"
  have r: "sq_rep (sgs w) (sendq s) (us @ x # vs)" and d: "set (us @ x # vs) \<inter> set rs = {}"
    using assms(1) by (simp_all add: chan_rep_def)
  then have "sq_rep ?h (snd (unlink (sgs w) (sendq s) x)) (us @ vs)"
    by (simp add: unlink_rep)
  moreover have "sq_rep ?h (recvq s) rs"
  proof (subst sq_rep_cong)
    fix y assume "y \<in> set rs"
    with d have "y \<notin> set (us @ x # vs)" by auto
    then have "?h y = sgs w y"
      using unlink_frame [OF r] by blast
    then show "sg_next (?h y) = sg_next (sgs w y) \<and> sg_prev (?h y) = sg_prev (sgs w y)" by simp
  qed (use assms(1) in \<open>simp add: chan_rep_def\<close>)
  ultimately have "chan_rep (w\<lparr>sgs := ?h\<rparr>) (s\<lparr>sendq := snd (unlink (sgs w) (sendq s) x)\<rparr>) (us @ vs) rs"
    using assms(1) by (auto simp: chan_rep_def)
  then show ?thesis
    by (rule chan_rep_same_links) (use assms(2) in simp)
qed

lemma chan_rep_unlink_recv:
  assumes "chan_rep w s ss (us @ x # vs)" "same_links (fst (unlink (sgs w) (recvq s) x)) (sgs w')"
  shows "chan_rep w' (s\<lparr>recvq := snd (unlink (sgs w) (recvq s) x)\<rparr>) ss (us @ vs)"
proof -
  let ?h = "fst (unlink (sgs w) (recvq s) x)"
  have r: "sq_rep (sgs w) (recvq s) (us @ x # vs)" and d: "set ss \<inter> set (us @ x # vs) = {}"
    using assms(1) by (simp_all add: chan_rep_def)
  then have "sq_rep ?h (snd (unlink (sgs w) (recvq s) x)) (us @ vs)"
    by (simp add: unlink_rep)
  moreover have "sq_rep ?h (sendq s) ss"
  proof (subst sq_rep_cong)
    fix y assume "y \<in> set ss"
    with d have "y \<notin> set (us @ x # vs)" by auto
    then have "?h y = sgs w y"
      using unlink_frame [OF r] by blast
    then show "sg_next (?h y) = sg_next (sgs w y) \<and> sg_prev (?h y) = sg_prev (sgs w y)" by simp
  qed (use assms(1) in \<open>simp add: chan_rep_def\<close>)
  ultimately have "chan_rep (w\<lparr>sgs := ?h\<rparr>) (s\<lparr>recvq := snd (unlink (sgs w) (recvq s) x)\<rparr>) ss (us @ vs)"
    using assms(1) by (auto simp: chan_rep_def)
  then show ?thesis
    by (rule chan_rep_same_links) (use assms(2) in simp)
qed

lemma chan_rep_buf:
  assumes "chan_rep w s ss rs" "ring_inv b" "length (slots b) = length (slots (buf s))"
    "length (ring_list b) \<le> cap s"
  shows "chan_rep w (s\<lparr>buf := b\<rparr>) ss rs"
  using assms by (simp add: chan_rep_def)

section \<open>The effect of waking one parked goroutine\<close>

text \<open>
  Entry \<open>x\<close> is claimed, its value slot becomes \<open>v\<close>, its success flag \<open>b\<close>, and its goroutine is
  made runnable; no other entry changes.
\<close>

definition woke :: "'v world \<Rightarrow> 'v world \<Rightarrow> sid \<Rightarrow> 'v option \<Rightarrow> bool \<Rightarrow> bool" where
  "woke w w' x v b \<longleftrightarrow>
     dones w' = dones (claim w x) \<and> readied w' = readied w @ [sg_g (sgs w x)] \<and>
     (\<forall>y. payload (sgs w' y) =
            (if y = x then (sg_g (sgs w x), v, b, sg_coord (sgs w x)) else payload (sgs w y)))"

lemma woke_payload:
  assumes "woke w w' x v b"
  shows "sg_coord (sgs w' y) = sg_coord (sgs w y)" "sg_g (sgs w' y) = sg_g (sgs w y)"
    "y \<noteq> x \<Longrightarrow> sg_value (sgs w' y) = sg_value (sgs w y)"
    "y \<noteq> x \<Longrightarrow> sg_success (sgs w' y) = sg_success (sgs w y)"
    "sg_value (sgs w' x) = v" "sg_success (sgs w' x) = b"
proof -
  have "payload (sgs w' y) =
          (if y = x then (sg_g (sgs w x), v, b, sg_coord (sgs w x)) else payload (sgs w y))" for y
    using assms by (simp add: woke_def)
  from this [of y] this [of x] show
    "sg_coord (sgs w' y) = sg_coord (sgs w y)" "sg_g (sgs w' y) = sg_g (sgs w y)"
    "y \<noteq> x \<Longrightarrow> sg_value (sgs w' y) = sg_value (sgs w y)"
    "y \<noteq> x \<Longrightarrow> sg_success (sgs w' y) = sg_success (sgs w y)"
    "sg_value (sgs w' x) = v" "sg_success (sgs w' x) = b"
    by (auto simp: payload_def split: if_splits)
qed

lemma woke_live:
  assumes "woke w w' x v b"
  shows "live w' y \<longleftrightarrow> live w y \<and> (sg_coord (sgs w y) = None \<or> sg_coord (sgs w y) \<noteq> sg_coord (sgs w x))"
  using assms woke_payload(1) [OF assms, of y]
  by (auto simp: live_def woke_def claim_def split: option.splits)

lemma woke_live_imp: "woke w w' x v b \<Longrightarrow> live w' y \<Longrightarrow> live w y"
  by (simp add: woke_live)

lemma wokeI:
  assumes "dones w' = dones (claim w x)" "readied w' = readied w @ [sg_g (sgs w x)]"
    "\<And>y. y \<noteq> x \<Longrightarrow> sgs w' y = h y" "\<And>y. payload (h y) = payload (sgs w y)"
    "sgs w' x = (h x)\<lparr>sg_value := v, sg_success := b\<rparr>"
  shows "woke w w' x v b"
  using assms assms(4) [of x] by (auto simp: woke_def payload_def)

lemma find_remove1:
  assumes "sq_rep h q xs" "find P xs = Some x"
  obtains us vs where "xs = us @ x # vs" "remove1 x xs = us @ vs" "P x" "x \<in> set xs"
proof -
  obtain us vs where xs: "xs = us @ x # vs" "P x"
    using find_split [OF assms(2)] by blast
  moreover have "x \<notin> set us"
    using assms(1) xs by (simp add: sq_rep_def)
  ultimately show ?thesis
    using that [of us vs] by (simp add: remove1_append)
qed

section \<open>What the locked operations do\<close>

lemma try_send_locked_handoff:
  assumes "chan_rep w s ss rs" "\<not> closed s" "find (live w) rs = Some x"
  shows "\<exists>w' q. try_send_locked w s v = Some (Done (w', s\<lparr>recvq := q\<rparr>, Inr ())) \<and>
           chan_rep w' (s\<lparr>recvq := q\<rparr>) ss (remove1 x rs) \<and> woke w w' x (Some v) True"
proof -
  have r: "sq_rep (sgs w) (recvq s) rs"
    using assms(1) by (simp add: chan_rep_def)
  then obtain us vs where xs: "rs = us @ x # vs" "remove1 x rs = us @ vs"
    using assms(3) by (rule find_remove1)
  let ?h = "fst (unlink (sgs w) (recvq s) x)" and ?q = "snd (unlink (sgs w) (recvq s) x)"
  let ?w = "goready (set_success (set_value ((claim w x)\<lparr>sgs := ?h\<rparr>) x (Some v)) x True) (sg_g (?h x))"
  have op: "try_send_locked w s v = Some (Done (?w, s\<lparr>recvq := ?q\<rparr>, Inr ()))"
    using assms(2,3) claim_from_head [OF r]
    by (simp add: try_send_locked_def case_prod_unfold Let_def)
  have "chan_rep ?w (s\<lparr>recvq := ?q\<rparr>) ss (us @ vs)"
    using assms(1) unfolding xs(1) by (rule chan_rep_unlink_recv) (simp add: same_links_def)
  moreover have "woke w ?w x (Some v) True"
    by (rule wokeI [where h = ?h])
       (use unlink_payload [of "sgs w" "recvq s" x] in \<open>auto simp: payload_eq_iff\<close>)
  ultimately show ?thesis
    using op xs by auto
qed

lemma try_send_locked_no_receiver:
  assumes "chan_rep w s ss rs" "\<not> closed s" "find (live w) rs = None"
  shows "if length (ring_list (buf s)) < cap s
         then \<exists>b. try_send_locked w s v = Some (Done (w, s\<lparr>buf := b\<rparr>, Inr ())) \<and>
                chan_rep w (s\<lparr>buf := b\<rparr>) ss rs \<and> ring_list b = ring_list (buf s) @ [v]
         else try_send_locked w s v = Some (Done (w, s, Inl v))"
proof -
  have r: "sq_rep (sgs w) (recvq s) rs" and b: "ring_inv (buf s)" "cap s \<le> length (slots (buf s))"
    using assms(1) by (simp_all add: chan_rep_def)
  have c: "claim_from w (q_head (recvq s)) = Some (w, None)"
    using claim_from_head [OF r] assms(3) by simp
  show ?thesis
  proof (cases "length (ring_list (buf s)) < cap s")
    case True
    with b(2) have "length (ring_list (buf s)) < length (slots (buf s))" by simp
    then obtain b' where b': "ring_try_send [True] (buf s) v = Some (b', Inr ())" "ring_inv b'"
      "ring_list b' = ring_list (buf s) @ [v]" "length (slots b') = length (slots (buf s))"
      using ring_q.send_room [OF b(1), of "[True]" v] by auto
    then have "chan_rep w (s\<lparr>buf := b'\<rparr>) ss rs"
      using assms(1) True by (intro chan_rep_buf) (simp_all add: b'(3) del: length_ring_list)
    with True b' c assms(2) show ?thesis
      by (auto simp: try_send_locked_def)
  next
    case False
    with c assms(2) show ?thesis by (simp add: try_send_locked_def)
  qed
qed

lemma recv_body_closed:
  assumes "closed s" "ring_list (buf s) = []"
  shows "recv_body m1 m2 d w s = Some (Done (w, s, Some (d, False)))"
proof -
  have "unat (ring_len (buf s)) = 0"
    using assms(2) by (metis length_ring_list list.size(3))
  then show ?thesis
    using assms(1) by (simp add: recv_body_def unat_eq_0)
qed

lemma ring_len_zero: "ring_len r = 0 \<longleftrightarrow> ring_list r = []"
  by (metis length_0_conv length_ring_list unat_eq_zero)

lemma recv_body_sender:
  assumes "chan_rep w s ss rs" "\<not> (closed s \<and> ring_list (buf s) = [])"
    "find (live w) ss = Some x" "sg_value (sgs w x) = Some sv"
    "0 < cap s \<Longrightarrow> length (ring_list (buf s)) = cap s"
  shows "\<exists>w' q b. recv_body m1 m2 d w s =
             Some (Done (w', s\<lparr>sendq := q, buf := b\<rparr>, Some (hd (ring_list (buf s) @ [sv]), True))) \<and>
           chan_rep w' (s\<lparr>sendq := q, buf := b\<rparr>) (remove1 x ss) rs \<and> woke w w' x None True \<and>
           ring_list b = tl (ring_list (buf s) @ [sv])"
proof -
  have r: "sq_rep (sgs w) (sendq s) ss" and b: "ring_inv (buf s)"
    using assms(1) by (simp_all add: chan_rep_def)
  obtain us vs where xs: "ss = us @ x # vs" "remove1 x ss = us @ vs"
    using r assms(3) by (rule find_remove1)
  let ?h = "fst (unlink (sgs w) (sendq s) x)" and ?q = "snd (unlink (sgs w) (sendq s) x)"
  let ?w = "goready (set_success (set_value ((claim w x)\<lparr>sgs := ?h\<rparr>) x None) x True) (sg_g (?h x))"
  have pay: "payload (?h y) = payload (sgs w y)" for y
    by (rule unlink_payload)
  then have val: "sg_value (?h x) = Some sv"
    using assms(4) by (simp add: payload_eq_iff)
  have c: "claim_from w (q_head (sendq s)) = Some (claim w x, Some x)"
    using claim_from_head [OF r] assms(3) by simp
  have wk: "woke w ?w x None True"
    by (rule wokeI [where h = ?h]) (use pay in \<open>auto simp: payload_eq_iff\<close>)
  have rep: "chan_rep ?w (s\<lparr>sendq := ?q\<rparr>) (us @ vs) rs"
    using assms(1) unfolding xs(1) by (rule chan_rep_unlink_send) (simp add: same_links_def)
  show ?thesis
  proof (cases "cap s = 0")
    case True
    then have "length (ring_list (buf s)) = 0"
      using assms(1) by (simp add: chan_rep_def)
    then have "ring_list (buf s) = []" by (simp only: length_0_conv)
    moreover have "\<not> (closed s \<and> ring_len (buf s) = 0)"
      using assms(2) by (simp add: ring_len_zero)
    ultimately have "recv_body m1 m2 d w s = Some (Done (?w, s\<lparr>sendq := ?q, buf := buf s\<rparr>, Some (sv, True)))"
      using True c val by (simp add: recv_body_def case_prod_unfold Let_def)
    with rep wk xs \<open>ring_list (buf s) = []\<close> show ?thesis
      by (intro exI [of _ ?w] exI [of _ ?q] exI [of _ "buf s"]) simp
  next
    case False
    then have "ring_list (buf s) \<noteq> []"
      using assms(5) by (metis gr_zeroI list.size(3))
    then obtain y ys where y: "ring_list (buf s) = y # ys"
      by (meson list.exhaust)
    obtain b1 b2 where b12: "ring_try_recv [True] (buf s) = Some (b1, Some y)"
      "ring_try_send [True] b1 sv = Some (b2, Inr ())" "ring_inv b2" "ring_list b2 = ys @ [sv]"
      "length (slots b2) = length (slots (buf s))"
      using ring_q.rotate [OF b y, of "[True]" "[True]" sv] by auto
    have "\<not> (closed s \<and> ring_len (buf s) = 0)"
      using assms(2) by (simp add: ring_len_zero)
    then have "recv_body m1 m2 d w s = Some (Done (?w, s\<lparr>sendq := ?q, buf := b2\<rparr>, Some (y, True)))"
      using False c val b12 by (simp add: recv_body_def case_prod_unfold Let_def)
    moreover have "length (ring_list b2) \<le> cap s"
      using assms(1) y b12(4) by (simp add: chan_rep_def del: length_ring_list)
    then have "chan_rep ?w (s\<lparr>sendq := ?q, buf := b2\<rparr>) (us @ vs) rs"
      using chan_rep_buf [OF rep b12(3)] b12(5) by simp
    ultimately show ?thesis
      using wk xs y b12 by (intro exI [of _ ?w] exI [of _ ?q] exI [of _ b2]) simp
  qed
qed

lemma recv_body_no_sender:
  assumes "chan_rep w s ss rs" "\<not> (closed s \<and> ring_list (buf s) = [])" "find (live w) ss = None"
  shows "\<exists>b. recv_body m1 m2 d w s =
             Some (Done (w, s\<lparr>buf := b\<rparr>, case ring_list (buf s) of [] \<Rightarrow> None | y # ys \<Rightarrow> Some (y, True))) \<and>
           chan_rep w (s\<lparr>buf := b\<rparr>) ss rs \<and> ring_list b = tl (ring_list (buf s))"
proof -
  have r: "sq_rep (sgs w) (sendq s) ss" and b: "ring_inv (buf s)"
    using assms(1) by (simp_all add: chan_rep_def)
  have c: "claim_from w (q_head (sendq s)) = Some (w, None)"
    using claim_from_head [OF r] assms(3) by simp
  obtain b' where b': "ring_try_recv [True] (buf s) =
      Some (b', case ring_list (buf s) of [] \<Rightarrow> None | y # ys \<Rightarrow> Some y)"
    "ring_inv b'" "ring_list b' = tl (ring_list (buf s))" "length (slots b') = length (slots (buf s))"
    using ring_q.recv_cases [OF b, of "[True]"] by auto
  have "length (ring_list b') \<le> cap s"
    using assms(1) b'(3) by (auto simp: chan_rep_def)
  then have "chan_rep w (s\<lparr>buf := b'\<rparr>) ss rs"
    using chan_rep_buf [OF assms(1) b'(2,4)] by simp
  moreover have "\<not> (closed s \<and> ring_len (buf s) = 0)"
    using assms(2) by (simp add: ring_len_zero)
  ultimately show ?thesis
    using c b' by (intro exI [of _ b']) (simp add: recv_body_def split: list.splits)
qed

lemma chan_rep_push_send:
  assumes "chan_rep w s ss rs" "x \<notin> set ss \<union> set rs"
  shows "chan_rep (w\<lparr>sgs := fst (push_back (sgs w) (sendq s) x)\<rparr>)
           (s\<lparr>sendq := snd (push_back (sgs w) (sendq s) x)\<rparr>) (ss @ [x]) rs"
proof -
  let ?h = "fst (push_back (sgs w) (sendq s) x)"
  have r: "sq_rep (sgs w) (sendq s) ss" and d: "set ss \<inter> set rs = {}"
    using assms(1) by (simp_all add: chan_rep_def)
  have "sq_rep ?h (recvq s) rs"
  proof (subst sq_rep_cong)
    fix y assume "y \<in> set rs"
    with d assms(2) have "y \<notin> insert x (set ss)" by auto
    then show "sg_next (?h y) = sg_next (sgs w y) \<and> sg_prev (?h y) = sg_prev (sgs w y)"
      by (simp add: push_back_frame [OF r])
  qed (use assms(1) in \<open>simp add: chan_rep_def\<close>)
  moreover have "sq_rep ?h (snd (push_back (sgs w) (sendq s) x)) (ss @ [x])"
    using r assms(2) by (simp add: push_back_rep)
  ultimately show ?thesis
    using assms by (auto simp: chan_rep_def)
qed

lemma chan_rep_push_recv:
  assumes "chan_rep w s ss rs" "x \<notin> set ss \<union> set rs"
  shows "chan_rep (w\<lparr>sgs := fst (push_back (sgs w) (recvq s) x)\<rparr>)
           (s\<lparr>recvq := snd (push_back (sgs w) (recvq s) x)\<rparr>) ss (rs @ [x])"
proof -
  let ?h = "fst (push_back (sgs w) (recvq s) x)"
  have r: "sq_rep (sgs w) (recvq s) rs" and d: "set ss \<inter> set rs = {}"
    using assms(1) by (simp_all add: chan_rep_def)
  have "sq_rep ?h (sendq s) ss"
  proof (subst sq_rep_cong)
    fix y assume "y \<in> set ss"
    with d assms(2) have "y \<notin> insert x (set rs)" by auto
    then show "sg_next (?h y) = sg_next (sgs w y) \<and> sg_prev (?h y) = sg_prev (sgs w y)"
      by (simp add: push_back_frame [OF r])
  qed (use assms(1) in \<open>simp add: chan_rep_def\<close>)
  moreover have "sq_rep ?h (snd (push_back (sgs w) (recvq s) x)) (rs @ [x])"
    using r assms(2) by (simp add: push_back_rep)
  ultimately show ?thesis
    using assms by (auto simp: chan_rep_def)
qed

lemma register_send_locked_spec:
  assumes "chan_rep w s ss rs" "\<not> closed s" "x \<notin> set ss \<union> set rs"
  shows "\<exists>w' q. register_send_locked w s x = (w', s\<lparr>sendq := q\<rparr>, Registered) \<and>
           chan_rep w' (s\<lparr>sendq := q\<rparr>) (ss @ [x]) rs \<and>
           dones w' = dones w \<and> readied w' = readied w \<and> (\<forall>y. payload (sgs w' y) = payload (sgs w y))"
  using chan_rep_push_send [OF assms(1,3)] assms(2)
  by (auto simp: register_send_locked_def case_prod_unfold push_back_payload)

lemma register_recv_locked_spec:
  assumes "chan_rep w s ss rs" "\<not> (closed s \<and> ring_list (buf s) = [])" "x \<notin> set ss \<union> set rs"
  shows "\<exists>w' q. register_recv_locked w s x = (w', s\<lparr>recvq := q\<rparr>, Registered) \<and>
           chan_rep w' (s\<lparr>recvq := q\<rparr>) ss (rs @ [x]) \<and>
           dones w' = dones w \<and> readied w' = readied w \<and> (\<forall>y. payload (sgs w' y) = payload (sgs w y))"
  using chan_rep_push_recv [OF assms(1,3)] assms(2)
  by (auto simp: register_recv_locked_def case_prod_unfold push_back_payload ring_len_zero)

section \<open>The channel invariant\<close>

definition chan_inv :: "'v world \<Rightarrow> 'v hchan_state \<Rightarrow> sid list \<Rightarrow> sid list \<Rightarrow> bool" where
  "chan_inv w s ss rs \<longleftrightarrow>
     (\<forall>x \<in> set ss. live w x \<longrightarrow> sg_value (sgs w x) \<noteq> None) \<and>
     (0 < cap s \<and> (\<exists>x \<in> set ss. live w x) \<longrightarrow> length (ring_list (buf s)) = cap s) \<and>
     ((\<exists>x \<in> set rs. live w x) \<longrightarrow> ring_list (buf s) = []) \<and>
     (\<forall>x \<in> set ss. \<forall>y \<in> set rs. live w x \<and> live w y \<longrightarrow>
        sg_coord (sgs w x) = sg_coord (sgs w y) \<and> sg_coord (sgs w x) \<noteq> None) \<and>
     (closed s \<longrightarrow> (\<forall>x \<in> set ss \<union> set rs. \<not> live w x))"

text \<open>Fewer live entries with unchanged values, and no other change, keep the invariant.\<close>

lemma chan_inv_fewer:
  assumes "chan_inv w s ss rs"
    "set ss' \<subseteq> set ss" "set rs' \<subseteq> set rs"
    "\<And>x. x \<in> set ss' \<union> set rs' \<Longrightarrow> live w' x \<Longrightarrow> live w x"
    "\<And>x. x \<in> set ss' \<union> set rs' \<Longrightarrow> sg_coord (sgs w' x) = sg_coord (sgs w x)"
    "\<And>x. x \<in> set ss' \<Longrightarrow> live w' x \<Longrightarrow> sg_value (sgs w' x) = sg_value (sgs w x)"
    "cap s' = cap s" "closed s' = closed s"
    "length (ring_list (buf s')) = length (ring_list (buf s))"
  shows "chan_inv w' s' ss' rs'"
proof -
  note inv = assms(1) [unfolded chan_inv_def]
  have e: "ring_list (buf s') = [] \<longleftrightarrow> ring_list (buf s) = []"
    using assms(9) by (metis length_0_conv)
  have "\<forall>x \<in> set ss'. live w' x \<longrightarrow> sg_value (sgs w' x) \<noteq> None"
    using inv assms(2,4,6) by (metis UnI1 subsetD)
  moreover have "0 < cap s' \<and> (\<exists>x \<in> set ss'. live w' x) \<longrightarrow> length (ring_list (buf s')) = cap s'"
    using inv assms(2,4,7,9) by (metis UnI1 subsetD)
  moreover have "(\<exists>x \<in> set rs'. live w' x) \<longrightarrow> ring_list (buf s') = []"
    using inv assms(3,4) e by (metis UnI2 subsetD)
  moreover have "\<forall>x \<in> set ss'. \<forall>y \<in> set rs'. live w' x \<and> live w' y \<longrightarrow>
        sg_coord (sgs w' x) = sg_coord (sgs w' y) \<and> sg_coord (sgs w' x) \<noteq> None"
    using inv assms(2,3,4,5) by (metis UnI1 UnI2 subsetD)
  moreover have "closed s' \<longrightarrow> (\<forall>x \<in> set ss' \<union> set rs'. \<not> live w' x)"
    using inv assms(2,3,4,8) by (metis Un_iff subsetD)
  ultimately show ?thesis unfolding chan_inv_def by blast
qed

text \<open>An entry joins a queue when the operation it waits for is not ready.\<close>

lemma chan_inv_add_sender:
  assumes "chan_inv w s ss rs" "sg_value (sgs w x) \<noteq> None" "\<not> closed s"
    "length (ring_list (buf s)) = cap s"
    "\<And>y. y \<in> set rs \<Longrightarrow> live w y \<Longrightarrow> sg_coord (sgs w x) = sg_coord (sgs w y) \<and> sg_coord (sgs w x) \<noteq> None"
  shows "chan_inv w (s\<lparr>sendq := q\<rparr>) (ss @ [x]) rs"
proof -
  have *: "set (ss @ [x]) = insert x (set ss)" "cap (s\<lparr>sendq := q\<rparr>) = cap s"
    "closed (s\<lparr>sendq := q\<rparr>) = closed s" "buf (s\<lparr>sendq := q\<rparr>) = buf s" by simp_all
  show ?thesis
    using assms unfolding chan_inv_def * by blast
qed

lemma chan_inv_add_receiver:
  assumes "chan_inv w s ss rs" "\<not> closed s" "ring_list (buf s) = []"
    "\<And>y. y \<in> set ss \<Longrightarrow> live w y \<Longrightarrow> sg_coord (sgs w y) = sg_coord (sgs w x) \<and> sg_coord (sgs w y) \<noteq> None"
  shows "chan_inv w (s\<lparr>recvq := q\<rparr>) ss (rs @ [x])"
proof -
  have *: "set (rs @ [x]) = insert x (set rs)" "cap (s\<lparr>recvq := q\<rparr>) = cap s"
    "closed (s\<lparr>recvq := q\<rparr>) = closed s" "buf (s\<lparr>recvq := q\<rparr>) = buf s" by simp_all
  show ?thesis
    using assms unfolding chan_inv_def * by blast
qed

lemma chan_inv_dones:
  assumes "chan_inv w s ss rs" "\<And>c. dones w c \<Longrightarrow> dones w' c"
    "\<And>x. x \<in> set ss \<union> set rs \<Longrightarrow> payload (sgs w' x) = payload (sgs w x)"
  shows "chan_inv w' s ss rs"
  using assms(1)
proof (rule chan_inv_fewer)
  fix x assume "x \<in> set ss \<union> set rs" "live w' x"
  then show "live w x"
    using assms(2,3) by (auto simp: live_def payload_eq_iff split: option.splits)
qed (use assms(3) in \<open>auto simp: payload_eq_iff\<close>)

lemma chan_inv_values:
  assumes "chan_inv w s ss rs" "x \<in> set ss" "live w x"
  shows "\<exists>v. sg_value (sgs w x) = Some v" "0 < cap s \<Longrightarrow> length (ring_list (buf s)) = cap s" "\<not> closed s"
  using assms unfolding chan_inv_def by blast+

lemma find_live_None: "find (live w) xs = None \<longleftrightarrow> (\<forall>x \<in> set xs. \<not> live w x)"
  by (induction xs) auto

lemma find_mem: "find P xs = Some x \<Longrightarrow> x \<in> set xs \<and> P x"
  by (auto dest: find_split)

lemma chan_rep_other:
  assumes "chan_rep w s ss rs" "\<And>y. y \<in> set ss \<union> set rs \<Longrightarrow> sgs w' y = sgs w y"
  shows "chan_rep w' s ss rs"
  using assms sq_rep_cong [of ss "sgs w'" "sgs w" "sendq s"] sq_rep_cong [of rs "sgs w'" "sgs w" "recvq s"]
  by (simp add: chan_rep_def)

text \<open>Waking a receiver or a sender keeps the invariant.\<close>

lemma chan_inv_wake_recv:
  assumes "chan_inv w s ss rs" "woke w w' x v b" "x \<notin> set ss"
    "set rs' \<subseteq> set rs" "cap s' = cap s" "closed s' = closed s" "buf s' = buf s"
  shows "chan_inv w' s' ss rs'"
  using assms(1)
proof (rule chan_inv_fewer)
  fix y
  show "live w' y \<Longrightarrow> live w y" by (rule woke_live_imp [OF assms(2)])
  show "sg_coord (sgs w' y) = sg_coord (sgs w y)" by (rule woke_payload(1) [OF assms(2)])
  assume "y \<in> set ss"
  with assms(3) have "y \<noteq> x" by auto
  then show "sg_value (sgs w' y) = sg_value (sgs w y)" by (rule woke_payload(3) [OF assms(2)])
qed (simp_all add: assms)

lemma chan_inv_wake_send:
  assumes "chan_inv w s ss rs" "woke w w' x v b" "distinct ss"
    "cap s' = cap s" "closed s' = closed s"
    "length (ring_list (buf s')) = length (ring_list (buf s))"
  shows "chan_inv w' s' (remove1 x ss) rs"
  using assms(1)
proof (rule chan_inv_fewer)
  fix y
  show "live w' y \<Longrightarrow> live w y" by (rule woke_live_imp [OF assms(2)])
  show "sg_coord (sgs w' y) = sg_coord (sgs w y)" by (rule woke_payload(1) [OF assms(2)])
  assume "y \<in> set (remove1 x ss)"
  then have "y \<noteq> x" using assms(3) by auto
  then show "sg_value (sgs w' y) = sg_value (sgs w y)" by (rule woke_payload(3) [OF assms(2)])
qed (simp_all add: assms(4-6) set_remove1_subset del: length_ring_list)

section \<open>Sending\<close>

lemma chan_Send_closed:
  assumes "\<not> nil c" "closed (state c)"
  shows "chan_Send w c g x v = Some (Fatal ''goish: chan: send on closed channel'')"
  using assms by (simp add: chan_Send_def try_send_locked_def)

lemma chan_Send_handoff:
  assumes "\<not> nil c" "\<not> closed (state c)" "chan_rep w (state c) ss rs" "chan_inv w (state c) ss rs"
    "find (live w) rs = Some y"
  shows "\<exists>w' q. chan_Send w c g x v = Some (Done (w', c\<lparr>state := (state c)\<lparr>recvq := q\<rparr>\<rparr>, Returned ())) \<and>
           chan_rep w' ((state c)\<lparr>recvq := q\<rparr>) ss (remove1 y rs) \<and>
           chan_inv w' ((state c)\<lparr>recvq := q\<rparr>) ss (remove1 y rs) \<and> woke w w' y (Some v) True"
proof -
  obtain w' q where wq: "try_send_locked w (state c) v = Some (Done (w', (state c)\<lparr>recvq := q\<rparr>, Inr ()))"
    "chan_rep w' ((state c)\<lparr>recvq := q\<rparr>) ss (remove1 y rs)" "woke w w' y (Some v) True"
    using try_send_locked_handoff [OF assms(3,2,5)] by blast
  have "y \<notin> set ss"
    using assms(3) find_mem [OF assms(5)] by (auto simp: chan_rep_def)
  then have "chan_inv w' ((state c)\<lparr>recvq := q\<rparr>) ss (remove1 y rs)"
    using chan_inv_wake_recv [OF assms(4) wq(3), where rs' = "remove1 y rs"]
    by (simp add: set_remove1_subset)
  with wq assms(1) show ?thesis
    by (auto simp: chan_Send_def)
qed

lemma chan_Send_buffer:
  assumes "\<not> nil c" "\<not> closed (state c)" "chan_rep w (state c) ss rs" "chan_inv w (state c) ss rs"
    "find (live w) rs = None" "length (ring_list (buf (state c))) < cap (state c)"
  shows "\<exists>b. chan_Send w c g x v = Some (Done (w, c\<lparr>state := (state c)\<lparr>buf := b\<rparr>\<rparr>, Returned ())) \<and>
           chan_rep w ((state c)\<lparr>buf := b\<rparr>) ss rs \<and> chan_inv w ((state c)\<lparr>buf := b\<rparr>) ss rs \<and>
           ring_list b = ring_list (buf (state c)) @ [v] \<and> (\<forall>y \<in> set ss. \<not> live w y)"
proof -
  obtain b where b: "try_send_locked w (state c) v = Some (Done (w, (state c)\<lparr>buf := b\<rparr>, Inr ()))"
    "chan_rep w ((state c)\<lparr>buf := b\<rparr>) ss rs" "ring_list b = ring_list (buf (state c)) @ [v]"
    using try_send_locked_no_receiver [OF assms(3,2,5), of v] assms(6) by auto
  have ss: "\<forall>y \<in> set ss. \<not> live w y"
    using chan_inv_values(2) [OF assms(4)] assms(6) by (metis less_irrefl less_nat_zero_code neq0_conv)
  moreover have "\<forall>y \<in> set rs. \<not> live w y"
    using assms(5) by (simp add: find_live_None)
  ultimately have "chan_inv w ((state c)\<lparr>buf := b\<rparr>) ss rs"
    unfolding chan_inv_def by blast
  with b ss assms(1) show ?thesis
    by (auto simp: chan_Send_def)
qed

lemma chan_Send_park:
  assumes "\<not> nil c" "\<not> closed (state c)" "chan_rep w (state c) ss rs" "chan_inv w (state c) ss rs"
    "find (live w) rs = None" "\<not> length (ring_list (buf (state c))) < cap (state c)"
    "x \<notin> set ss \<union> set rs"
  shows "\<exists>w' q. chan_Send w c (Some g) x v = Some (Done (w', c\<lparr>state := (state c)\<lparr>sendq := q\<rparr>\<rparr>, Parked x)) \<and>
           chan_rep w' ((state c)\<lparr>sendq := q\<rparr>) (ss @ [x]) rs \<and>
           chan_inv w' ((state c)\<lparr>sendq := q\<rparr>) (ss @ [x]) rs \<and>
           dones w' = dones w \<and> readied w' = readied w \<and>
           (\<forall>y. payload (sgs w' y) = payload (if y = x then new_send g v else sgs w y))"
proof -
  let ?w = "w\<lparr>sgs := (sgs w)(x := new_send g v)\<rparr>"
  have t: "try_send_locked w (state c) v = Some (Done (w, state c, Inl v))"
    using try_send_locked_no_receiver [OF assms(3,2,5), of v] assms(6) by simp
  have "chan_rep ?w (state c) ss rs"
    using assms(3) by (rule chan_rep_other) (use assms(7) in auto)
  then obtain w' q where wq: "register_send_locked ?w (state c) x = (w', (state c)\<lparr>sendq := q\<rparr>, Registered)"
    "chan_rep w' ((state c)\<lparr>sendq := q\<rparr>) (ss @ [x]) rs" "dones w' = dones w" "readied w' = readied w"
    "\<And>y. payload (sgs w' y) = payload (if y = x then new_send g v else sgs w y)"
    using register_send_locked_spec [OF _ assms(2,7), of ?w] by auto
  have pay: "payload (sgs w' y) = payload (sgs w y)" if "y \<in> set ss \<union> set rs" for y
    using wq(5) [of y] assms(7) that by auto
  have old: "chan_inv w' (state c) ss rs"
    using assms(4) by (rule chan_inv_dones) (use wq(3) pay in auto)
  have "sg_value (sgs w' x) = Some v"
    using wq(5) [of x] by (simp add: payload_eq_iff new_send_def)
  moreover have "\<forall>y \<in> set rs. \<not> live w' y"
    using pay wq(3) assms(5) by (auto simp: find_live_None live_def payload_eq_iff split: option.splits)
  moreover have "length (ring_list (buf (state c))) = cap (state c)"
    using assms(3,6) by (simp add: chan_rep_def)
  ultimately have "chan_inv w' ((state c)\<lparr>sendq := q\<rparr>) (ss @ [x]) rs"
    using old assms(2) by (intro chan_inv_add_sender) simp_all
  with wq t assms(1) show ?thesis
    by (auto simp: chan_Send_def)
qed

section \<open>Receiving\<close>

text \<open>The values a receiver can still get, oldest first: the buffer, then the live parked senders.\<close>

definition pending :: "'v world \<Rightarrow> 'v hchan_state \<Rightarrow> sid list \<Rightarrow> 'v list" where
  "pending w s ss = ring_list (buf s) @ map (\<lambda>x. the (sg_value (sgs w x))) (filter (live w) ss)"

text \<open>No select waits on this queue with two of its cases.\<close>

definition one_case_each :: "'v world \<Rightarrow> sid list \<Rightarrow> bool" where
  "one_case_each w ss \<longleftrightarrow>
     (\<forall>x \<in> set ss. \<forall>y \<in> set ss. x \<noteq> y \<and> live w x \<and> live w y \<and> sg_coord (sgs w x) \<noteq> None \<longrightarrow>
        sg_coord (sgs w x) \<noteq> sg_coord (sgs w y))"

lemma filter_live_woke:
  assumes "woke w w' x v b" "distinct ss" "find (live w) ss = Some x" "one_case_each w ss"
  shows "filter (live w) ss = x # filter (live w') (remove1 x ss)"
proof -
  obtain us vs where xs: "ss = us @ x # vs" "live w x" "\<forall>u \<in> set us. \<not> live w u"
    using find_split [OF assms(3)] by blast
  have "live w' y = live w y" if "y \<in> set vs" for y
    using that assms(2,4) xs(1,2) woke_live [OF assms(1), of y]
    unfolding one_case_each_def by (metis UnCI distinct.simps(2) distinct_append in_set_conv_decomp list.set_intros(2) set_append)
  then have "filter (live w') vs = filter (live w) vs"
    by (rule filter_cong [OF refl])
  moreover have "filter (live w') us = []" "filter (live w) us = []"
    using xs(3) woke_live_imp [OF assms(1)] by (auto simp: filter_empty_conv)
  moreover have "x \<notin> set us" using assms(2) xs(1) by simp
  ultimately show ?thesis
    using xs by (simp add: remove1_append)
qed

lemma chan_Recv_closed:
  assumes "\<not> nil c" "closed (state c)" "ring_list (buf (state c)) = []"
  shows "chan_Recv d w c g x = Some (Done (w, c, Returned (d, False)))"
  using assms by (simp add: chan_Recv_def try_recv_locked_def recv_body_closed)

lemma chan_Recv_sender:
  assumes "\<not> nil c" "chan_rep w (state c) ss rs" "chan_inv w (state c) ss rs"
    "find (live w) ss = Some y"
  shows "\<exists>w' s'. chan_Recv d w c g x = Some (Done (w', c\<lparr>state := s'\<rparr>, Returned (hd (pending w (state c) ss), True))) \<and>
           chan_rep w' s' (remove1 y ss) rs \<and> chan_inv w' s' (remove1 y ss) rs \<and> woke w w' y None True \<and>
           cap s' = cap (state c) \<and> closed s' = closed (state c) \<and>
           (one_case_each w ss \<longrightarrow> pending w' s' (remove1 y ss) = tl (pending w (state c) ss))"
proof -
  have y: "y \<in> set ss" "live w y" using find_mem [OF assms(4)] by auto
  obtain sv where sv: "sg_value (sgs w y) = Some sv"
    using chan_inv_values(1) [OF assms(3) y] by blast
  let ?l = "ring_list (buf (state c))"
  have full: "0 < cap (state c) \<Longrightarrow> length ?l = cap (state c)" and nc: "\<not> closed (state c)"
    using chan_inv_values [OF assms(3) y] by blast+
  obtain w' q b where r: "try_recv_locked d w (state c) =
       Some (Done (w', (state c)\<lparr>sendq := q, buf := b\<rparr>, Some (hd (?l @ [sv]), True)))"
    "chan_rep w' ((state c)\<lparr>sendq := q, buf := b\<rparr>) (remove1 y ss) rs" "woke w w' y None True"
    "ring_list b = tl (?l @ [sv])"
    using recv_body_sender [OF assms(2) _ assms(4) sv full] nc unfolding try_recv_locked_def by blast
  let ?s = "(state c)\<lparr>sendq := q, buf := b\<rparr>"
  have d: "distinct ss" using assms(2) by (simp add: chan_rep_def sq_rep_def)
  have "length (ring_list (buf ?s)) = length ?l"
    by (simp add: r(4) del: length_ring_list)
  then have "chan_inv w' ?s (remove1 y ss) rs"
    by (intro chan_inv_wake_send [OF assms(3) r(3) d]) (simp_all del: length_ring_list)
  moreover obtain zs where zs: "filter (live w) ss = y # zs"
  proof -
    obtain us vs where "ss = us @ y # vs" "\<forall>u \<in> set us. \<not> live w u"
      using find_split [OF assms(4)] by blast
    then have "filter (live w) ss = y # filter (live w) vs"
      using y(2) by (auto simp: filter_empty_conv)
    then show ?thesis by (rule that)
  qed
  have hd: "hd (pending w (state c) ss) = hd (?l @ [sv])"
    by (cases ?l) (simp_all add: pending_def zs sv)
  have "pending w' ?s (remove1 y ss) = tl (pending w (state c) ss)" if "one_case_each w ss"
  proof -
    have zs': "filter (live w') (remove1 y ss) = zs"
      using filter_live_woke [OF r(3) d assms(4) that] zs by simp
    have "distinct (filter (live w) ss)" using d by simp
    then have "\<forall>z \<in> set zs. z \<noteq> y" by (auto simp: zs)
    then have "map (\<lambda>z. the (sg_value (sgs w' z))) zs = map (\<lambda>z. the (sg_value (sgs w z))) zs"
      using woke_payload(3) [OF r(3)] by (intro map_cong) simp_all
    then show ?thesis
      by (cases ?l) (simp_all add: pending_def zs zs' sv r(4))
  qed
  ultimately show ?thesis
    using assms(1) r hd by (intro exI [of _ w'] exI [of _ ?s]) (simp add: chan_Recv_def)
qed

lemma chan_Recv_buffer:
  assumes "\<not> nil c" "chan_rep w (state c) ss rs" "chan_inv w (state c) ss rs"
    "find (live w) ss = None" "ring_list (buf (state c)) \<noteq> []"
  shows "\<exists>b. chan_Recv d w c g x =
             Some (Done (w, c\<lparr>state := (state c)\<lparr>buf := b\<rparr>\<rparr>, Returned (hd (pending w (state c) ss), True))) \<and>
           chan_rep w ((state c)\<lparr>buf := b\<rparr>) ss rs \<and> chan_inv w ((state c)\<lparr>buf := b\<rparr>) ss rs \<and>
           pending w ((state c)\<lparr>buf := b\<rparr>) ss = tl (pending w (state c) ss)"
proof -
  obtain z zs where z: "ring_list (buf (state c)) = z # zs"
    using assms(5) by (meson list.exhaust)
  have ss: "\<forall>y \<in> set ss. \<not> live w y" using assms(4) by (simp add: find_live_None)
  have rs: "\<forall>y \<in> set rs. \<not> live w y"
    using assms(3,5) unfolding chan_inv_def by blast
  obtain b where b: "try_recv_locked d w (state c) = Some (Done (w, (state c)\<lparr>buf := b\<rparr>, Some (z, True)))"
    "chan_rep w ((state c)\<lparr>buf := b\<rparr>) ss rs" "ring_list b = zs"
    using recv_body_no_sender [OF assms(2) _ assms(4)] z unfolding try_recv_locked_def by fastforce
  have "chan_inv w ((state c)\<lparr>buf := b\<rparr>) ss rs"
    using ss rs unfolding chan_inv_def by blast
  with assms(1) b z ss show ?thesis
    by (intro exI [of _ b]) (simp add: chan_Recv_def pending_def filter_empty_conv)
qed

lemma chan_Recv_park:
  assumes "\<not> nil c" "chan_rep w (state c) ss rs" "chan_inv w (state c) ss rs" "\<not> closed (state c)"
    "find (live w) ss = None" "ring_list (buf (state c)) = []" "x \<notin> set ss \<union> set rs"
  shows "\<exists>w' s'. chan_Recv d w c (Some g) x = Some (Done (w', c\<lparr>state := s'\<rparr>, Parked x)) \<and>
           chan_rep w' s' ss (rs @ [x]) \<and> chan_inv w' s' ss (rs @ [x]) \<and>
           dones w' = dones w \<and> readied w' = readied w \<and> cap s' = cap (state c) \<and> \<not> closed s' \<and>
           ring_list (buf s') = [] \<and>
           (\<forall>y. payload (sgs w' y) = payload (if y = x then new_recv g else sgs w y))"
proof -
  obtain b where b: "try_recv_locked d w (state c) = Some (Done (w, (state c)\<lparr>buf := b\<rparr>, None))"
    "chan_rep w ((state c)\<lparr>buf := b\<rparr>) ss rs" "ring_list b = []"
    using recv_body_no_sender [OF assms(2) _ assms(5)] assms(4,6) unfolding try_recv_locked_def by fastforce
  let ?s = "(state c)\<lparr>buf := b\<rparr>" and ?w = "w\<lparr>sgs := (sgs w)(x := new_recv g)\<rparr>"
  have "chan_rep ?w ?s ss rs"
    using b(2) by (rule chan_rep_other) (use assms(7) in auto)
  moreover have "\<not> (closed ?s \<and> ring_list (buf ?s) = [])" using assms(4) by simp
  ultimately obtain w' q where wq: "register_recv_locked ?w ?s x = (w', ?s\<lparr>recvq := q\<rparr>, Registered)"
    "chan_rep w' (?s\<lparr>recvq := q\<rparr>) ss (rs @ [x])" "dones w' = dones w" "readied w' = readied w"
    "\<And>y. payload (sgs w' y) = payload (if y = x then new_recv g else sgs w y)"
    using register_recv_locked_spec [of ?w ?s ss rs x] assms(7) by auto
  have pay: "payload (sgs w' y) = payload (sgs w y)" if "y \<in> set ss \<union> set rs" for y
    using wq(5) [of y] assms(7) that by auto
  have "chan_inv w' (state c) ss rs"
    using assms(3) by (rule chan_inv_dones) (use wq(3) pay in auto)
  then have "chan_inv w' ?s ss rs"
    by (rule chan_inv_fewer) (simp_all add: b(3) assms(6) del: length_ring_list)
  moreover have "\<forall>y \<in> set ss. \<not> live w' y"
    using pay wq(3) assms(5) by (auto simp: find_live_None live_def payload_eq_iff split: option.splits)
  ultimately have "chan_inv w' (?s\<lparr>recvq := q\<rparr>) ss (rs @ [x])"
    using assms(4) b(3) by (intro chan_inv_add_receiver) simp_all
  with wq b assms(1,4) show ?thesis
    by (intro exI [of _ w'] exI [of _ "?s\<lparr>recvq := q\<rparr>"]) (simp add: chan_Recv_def)
qed

end
