(* ===== verification/Chan_Close.thy ===== *)
theory Chan_Close
  imports Chan_Inv
begin

text \<open>
  Closing a channel (\<^verbatim>\<open>Chan::Close\<close> of \<^verbatim>\<open>src/src/gochan.rs\<close>).  The two walks of
  \<^verbatim>\<open>Close\<close> end; they wake every receiver and every sender that is still waiting, tell it that the
  channel was closed, and leave behind only entries of selects that some other case already won.
\<close>

text \<open>
  What one walk has done: from the entries \<open>xs\<close> it kept \<open>ds\<close> (stale entries) and woke the
  others in order.
\<close>

definition closed_out :: "bool \<Rightarrow> 'v world \<Rightarrow> 'v world \<Rightarrow> sid list \<Rightarrow> sid list \<Rightarrow> bool" where
  "closed_out clear w w' xs ds \<longleftrightarrow>
     (\<forall>x \<in> set xs. \<not> live w' x \<or> sg_coord (sgs w x) = None) \<and>
     (\<forall>x \<in> set ds. sg_coord (sgs w x) \<noteq> None) \<and>
     (\<forall>x \<in> set xs - set ds. live w x) \<and>
     (\<forall>c. dones w' c \<longleftrightarrow> dones w c \<or> (\<exists>x \<in> set xs - set ds. sg_coord (sgs w x) = Some c)) \<and>
     distinct (filter (\<lambda>c. c \<noteq> None) (map (\<lambda>x. sg_coord (sgs w x)) (filter (\<lambda>x. x \<notin> set ds) xs))) \<and>
     readied w' = readied w @ map (\<lambda>x. sg_g (sgs w x)) (filter (\<lambda>x. x \<notin> set ds) xs) \<and>
     (\<forall>y. payload (sgs w' y) =
        (if y \<in> set xs \<and> y \<notin> set ds
         then (sg_g (sgs w y), if clear then None else sg_value (sgs w y), False, sg_coord (sgs w y))
         else payload (sgs w y)))"

lemma closed_out_Nil: "closed_out clear w w [] []"
  by (simp add: closed_out_def)

lemma closed_out_skip:
  assumes "closed_out clear w w' xs ds" "\<not> live w x" "x \<notin> set xs"
  shows "closed_out clear w w' (x # xs) (x # ds)"
proof -
  have x: "sg_coord (sgs w x) \<noteq> None" "\<not> live w' x"
  proof -
    obtain c where c: "sg_coord (sgs w x) = Some c" "dones w c"
      using assms(2) by (auto simp: live_def split: option.splits)
    then show "sg_coord (sgs w x) \<noteq> None" by simp
    have "payload (sgs w' x) = payload (sgs w x)"
      using assms(1,3) by (simp add: closed_out_def)
    then show "\<not> live w' x"
      using c assms(1) by (simp add: live_def payload_eq_iff closed_out_def)
  qed
  have f: "filter (\<lambda>z. z \<notin> set (x # ds)) (x # xs) = filter (\<lambda>z. z \<notin> set ds) xs"
    using assms(3) by (auto intro: filter_cong)
  have g: "set (x # xs) - set (x # ds) = set xs - set ds"
    using assms(3) by auto
  show ?thesis
    using assms x unfolding closed_out_def f g by auto
qed

lemma woke_dones:
  assumes "woke w w' x v b"
  shows "dones w' c \<longleftrightarrow> dones w c \<or> sg_coord (sgs w x) = Some c"
  using assms by (auto simp: woke_def claim_def split: option.splits)

lemma closed_out_wake_payload:
  assumes "woke w w1 x (if clear then None else sg_value (sgs w x)) False" "closed_out clear w1 w' xs ds"
    "x \<notin> set xs" "set ds \<subseteq> set xs"
  shows "payload (sgs w' y) =
       (if y \<in> set (x # xs) \<and> y \<notin> set ds
        then (sg_g (sgs w y), if clear then None else sg_value (sgs w y), False, sg_coord (sgs w y))
        else payload (sgs w y))"
proof (cases "y = x")
  case True
  then have "payload (sgs w' y) = payload (sgs w1 y)"
    using assms(2,3) by (simp add: closed_out_def)
  with True assms(1,3,4) show ?thesis by (auto simp: woke_def)
next
  case False
  then have p: "payload (sgs w1 y) = payload (sgs w y)" using assms(1) by (simp add: woke_def)
  then have "sg_value (sgs w1 y) = sg_value (sgs w y)" by (simp add: payload_eq_iff)
  with False assms(2) p woke_payload(1,2) [OF assms(1), of y] show ?thesis
    by (simp add: closed_out_def)
qed

lemma closed_out_wake:
  assumes "live w x" "woke w w1 x (if clear then None else sg_value (sgs w x)) False"
    "closed_out clear w1 w' xs ds" "x \<notin> set xs" "set ds \<subseteq> set xs"
  shows "closed_out clear w w' (x # xs) ds"
proof -
  have co: "sg_coord (sgs w1 y) = sg_coord (sgs w y)" "sg_g (sgs w1 y) = sg_g (sgs w y)" for y
    using woke_payload [OF assms(2)] by auto
  note pay = closed_out_wake_payload [OF assms(2-5)]
  have f: "filter (\<lambda>z. z \<notin> set ds) (x # xs) = x # filter (\<lambda>z. z \<notin> set ds) xs"
    and g: "set (x # xs) - set ds = insert x (set xs - set ds)"
    using assms(4,5) by auto
  have d: "dones w' c \<longleftrightarrow> dones w c \<or> (\<exists>z \<in> insert x (set xs - set ds). sg_coord (sgs w z) = Some c)" for c
  proof -
    have "dones w' c \<longleftrightarrow> dones w1 c \<or> (\<exists>z \<in> set xs - set ds. sg_coord (sgs w z) = Some c)"
      using assms(3) unfolding closed_out_def co by blast
    then show ?thesis unfolding woke_dones [OF assms(2)] by blast
  qed
  have x: "\<not> live w' x \<or> sg_coord (sgs w x) = None"
  proof (cases "sg_coord (sgs w x)")
    case (Some c)
    then have "dones w' c" using d by blast
    moreover have "sg_coord (sgs w' x) = Some c"
      using pay [of x] Some by (auto simp: payload_def split: if_splits)
    ultimately show ?thesis by (simp add: live_def)
  qed simp
  have l: "live w z" "sg_coord (sgs w z) = None \<or> sg_coord (sgs w z) \<noteq> sg_coord (sgs w x)"
    if "z \<in> set xs - set ds" for z
    using assms(3) that woke_live [OF assms(2), of z] unfolding closed_out_def by blast+
  have "distinct (filter (\<lambda>c. c \<noteq> None) (map (\<lambda>z. sg_coord (sgs w z)) (x # filter (\<lambda>z. z \<notin> set ds) xs)))"
    using assms(3) l(2) unfolding closed_out_def co by force
  moreover have "readied w1 = readied w @ [sg_g (sgs w x)]" using assms(2) by (simp add: woke_def)
  ultimately show ?thesis
    using assms(1,3) x l(1) d pay unfolding closed_out_def f g co by auto
qed

text \<open>One waking step of the walk, as a state change of the world.\<close>

lemma close_step_woke:
  assumes "try_claim_sudog w x = (w1, True)"
  shows "woke w (let w2 = set_success (w1\<lparr>sgs := fst (unlink (sgs w1) q x)\<rparr>) x False;
                     w3 = (if clear then set_value w2 x None else w2)
                 in goready w3 (sg_g (sgs w3 x))) x (if clear then None else sg_value (sgs w x)) False"
proof -
  have l: "live w x" and w1: "w1 = claim w x"
    using assms try_claim_sudog_live [of w x] by (auto split: if_splits)
  have s: "sgs w1 = sgs w" "readied w1 = readied w" by (simp_all add: w1 claim_def split: option.splits)
  have p: "payload (fst (unlink (sgs w) q x) y) = payload (sgs w y)" for y
    by (simp add: unlink_payload)
  have g: "sg_g (fst (unlink (sgs w) q x) x) = sg_g (sgs w x)"
    "sg_value (fst (unlink (sgs w) q x) x) = sg_value (sgs w x)"
    using p [of x] by (simp_all add: payload_eq_iff)
  show ?thesis
    by (rule wokeI [where h = "fst (unlink (sgs w) q x)"])
      (auto simp: Let_def set_success_def set_value_def goready_def s g p w1 claim_def split: option.splits)
qed

lemma close_step_rep:
  fixes clear :: bool
  assumes "sq_rep (sgs w) q (us @ x # xs)" "sgs w1 = sgs w"
  defines "w2 \<equiv> (let w2 = set_success (w1\<lparr>sgs := fst (unlink (sgs w1) q x)\<rparr>) x False;
                     w3 = (if clear then set_value w2 x None else w2)
                 in goready w3 (sg_g (sgs w3 x)))"
  shows "sq_rep (sgs w2) (snd (unlink (sgs w1) q x)) (us @ xs)"
    "y \<notin> set (us @ x # xs) \<Longrightarrow> sgs w2 y = sgs w y"
proof -
  let ?h = "fst (unlink (sgs w) q x)"
  have "sq_rep ?h (snd (unlink (sgs w) q x)) (us @ xs)"
    using assms(1) by (rule unlink_rep)
  moreover have "sg_next (sgs w2 z) = sg_next (?h z) \<and> sg_prev (sgs w2 z) = sg_prev (?h z)" for z
    by (simp add: w2_def Let_def set_success_def set_value_def goready_def assms(2))
  ultimately show "sq_rep (sgs w2) (snd (unlink (sgs w1) q x)) (us @ xs)"
    using sq_rep_cong [of "us @ xs" "sgs w2" ?h] by (simp add: assms(2))
  show "sgs w2 y = sgs w y" if "y \<notin> set (us @ x # xs)"
    using unlink_frame [OF assms(1) that] that
    by (simp add: w2_def Let_def set_success_def set_value_def goready_def assms(2))
qed

lemma close_from_rep:
  assumes "sq_rep (sgs w) q (us @ xs)"
  shows "\<exists>w' q' ds. close_from clear w q (first_or xs None) = Some (w', q') \<and>
           sq_rep (sgs w') q' (us @ ds) \<and> set ds \<subseteq> set xs \<and> closed_out clear w w' xs ds \<and>
           (\<forall>y. y \<notin> set (us @ xs) \<longrightarrow> sgs w' y = sgs w y)"
  using assms
proof (induction xs arbitrary: w q us)
  case Nil
  then show ?case
    by (subst close_from.simps) (auto simp: closed_out_Nil intro: exI [of _ "[]"])
next
  case (Cons x xs)
  have next_x: "sg_next (sgs w x) = first_or xs None" and x: "x \<notin> set xs"
    using Cons.prems by (simp_all add: sq_rep_def seg_append)
  show ?case
  proof (cases "live w x")
    case False
    have "sq_rep (sgs w) q ((us @ [x]) @ xs)" using Cons.prems by simp
    from Cons.IH [OF this] obtain w' q' ds where ih:
      "close_from clear w q (first_or xs None) = Some (w', q')" "sq_rep (sgs w') q' ((us @ [x]) @ ds)"
      "set ds \<subseteq> set xs" "closed_out clear w w' xs ds" "\<forall>y. y \<notin> set ((us @ [x]) @ xs) \<longrightarrow> sgs w' y = sgs w y"
      by blast
    have "close_from clear w q (first_or (x # xs) None) = Some (w', q')"
      using ih(1) False by (subst close_from.simps) (simp add: try_claim_sudog_live next_x)
    with ih closed_out_skip [OF ih(4) False x] show ?thesis
      by (intro exI [of _ w'] exI [of _ q'] exI [of _ "x # ds"]) auto
  next
    case True
    then have cl: "try_claim_sudog w x = (claim w x, True)" by (simp add: try_claim_sudog_live)
    let ?w = "let w2 = set_success (claim w x\<lparr>sgs := fst (unlink (sgs (claim w x)) q x)\<rparr>) x False;
                  w3 = (if clear then set_value w2 x None else w2)
              in goready w3 (sg_g (sgs w3 x))"
    let ?q = "snd (unlink (sgs (claim w x)) q x)"
    note st = close_step_rep [OF Cons.prems claim_simps(1), where clear = clear]
    obtain w' q' ds where ih:
      "close_from clear ?w ?q (first_or xs None) = Some (w', q')" "sq_rep (sgs w') q' (us @ ds)"
      "set ds \<subseteq> set xs" "closed_out clear ?w w' xs ds" "\<forall>y. y \<notin> set (us @ xs) \<longrightarrow> sgs w' y = sgs ?w y"
      using Cons.IH [OF st(1)] by blast
    have "close_from clear w q (first_or (x # xs) None) = Some (w', q')"
      using ih(1) by (subst close_from.simps) (simp only: first_or_simps option.case cl prod.case not_True_eq_False if_False next_x)
    moreover have "closed_out clear w w' (x # xs) ds"
      by (rule closed_out_wake [OF True close_step_woke [OF cl] ih(4) x ih(3)])
    moreover have "\<forall>y. y \<notin> set (us @ x # xs) \<longrightarrow> sgs w' y = sgs w y"
      using ih(5) st(2) by simp
    ultimately show ?thesis using ih(2,3) by auto
  qed
qed

lemma closed_out_dead:
  assumes "closed_out clear w w' xs ds" "x \<in> set ds" "set ds \<subseteq> set xs"
  shows "\<not> live w' x"
  using assms unfolding closed_out_def by blast

lemma closed_out_live_imp:
  assumes "closed_out clear w w' xs ds" "live w' x"
  shows "live w x"
proof -
  have "sg_coord (sgs w' x) = sg_coord (sgs w x)"
    using assms(1) by (auto simp: closed_out_def payload_def split: if_splits)
  with assms show ?thesis
    by (auto simp: live_def closed_out_def split: option.splits)
qed

lemma chan_Close_open:
  assumes "\<not> nil c" "\<not> closed (state c)" "chan_rep w (state c) ss rs"
  shows "\<exists>w1 w' sq rq es ds. chan_Close w c =
             Some (Done (w', c\<lparr>state := (state c)\<lparr>closed := True, recvq := rq, sendq := sq\<rparr>\<rparr>)) \<and>
           chan_rep w' ((state c)\<lparr>closed := True, recvq := rq, sendq := sq\<rparr>) es ds \<and>
           set es \<subseteq> set ss \<and> set ds \<subseteq> set rs \<and>
           closed_out True w w1 rs ds \<and> closed_out False w1 w' ss es"
proof -
  have r: "sq_rep (sgs w) (sendq (state c)) ss" "sq_rep (sgs w) (recvq (state c)) ([] @ rs)"
    "set ss \<inter> set rs = {}" "q_head (recvq (state c)) = first_or rs None"
    using assms(3) by (simp_all add: chan_rep_def sq_rep_def)
  obtain w1 rq ds where 1: "close_from True w (recvq (state c)) (first_or rs None) = Some (w1, rq)"
    "sq_rep (sgs w1) rq ds" "set ds \<subseteq> set rs" "closed_out True w w1 rs ds"
    "\<forall>y. y \<notin> set rs \<longrightarrow> sgs w1 y = sgs w y"
    using close_from_rep [OF r(2), of True] by auto
  have s1: "sq_rep (sgs w1) (sendq (state c)) ([] @ ss)"
    using r(1,3) 1(5) sq_rep_cong [of ss "sgs w1" "sgs w"] by (simp add: disjoint_iff)
  then obtain w' sq es where 2: "close_from False w1 (sendq (state c)) (first_or ss None) = Some (w', sq)"
    "sq_rep (sgs w') sq es" "set es \<subseteq> set ss" "closed_out False w1 w' ss es"
    "\<forall>y. y \<notin> set ss \<longrightarrow> sgs w' y = sgs w1 y"
    using close_from_rep [OF s1, of False] by auto
  have "sq_rep (sgs w') rq ds"
  proof -
    have "sgs w' y = sgs w1 y" if "y \<in> set ds" for y
      using that 1(3) 2(5) r(3) by blast
    then show ?thesis using 1(2) sq_rep_cong [of ds "sgs w'" "sgs w1"] by simp
  qed
  then have "chan_rep w' ((state c)\<lparr>closed := True, recvq := rq, sendq := sq\<rparr>) es ds"
    using assms(3) 1(3) 2(2,3) r(3) by (auto simp: chan_rep_def)
  moreover have "q_head (sendq (state c)) = first_or ss None"
    using r(1) by (simp add: sq_rep_def)
  ultimately show ?thesis
    using assms 1 2 r(4)
    by (intro exI [of _ w1] exI [of _ w'] exI [of _ sq] exI [of _ rq] exI [of _ es] exI [of _ ds])
      (simp add: chan_Close_def)
qed

lemma chan_inv_no_live:
  assumes "\<And>x. x \<in> set ss \<union> set rs \<Longrightarrow> \<not> live w x"
  shows "chan_inv w s ss rs"
  using assms unfolding chan_inv_def by blast

end
