(* ===== verification/Chan_Eff.thy ===== *)
theory Chan_Eff
  imports Chan_Close
begin

text \<open>
  The footprint of the operations of one channel on the shared heap of wait-queue entries
  (\<^verbatim>\<open>src/src/gochan.rs\<close>).  \<open>chan_eff\<close> says what every operation leaves behind: the
  invariant, the entries it took out of the queues (each was waiting, each goroutine is made runnable, no select
  twice), the coordinators it decided, and that it touches no entry outside its own queues.  The select model is
  built on this interface only.
\<close>

definition chan_eff ::
  "'v world \<Rightarrow> sid list \<Rightarrow> sid list \<Rightarrow> 'v world \<Rightarrow> 'v hchan_state \<Rightarrow> sid list \<Rightarrow> sid list \<Rightarrow> sid list \<Rightarrow> bool" where
  "chan_eff w ss rs w' s' ss' rs' ls \<longleftrightarrow>
     chan_rep w' s' ss' rs' \<and> chan_inv w' s' ss' rs' \<and>
     (\<forall>y. y \<notin> set ss \<union> set rs \<union> set ss' \<union> set rs' \<longrightarrow> sgs w' y = sgs w y) \<and>
     (\<forall>y \<in> set ss \<union> set rs. sg_coord (sgs w' y) = sg_coord (sgs w y) \<and> sg_g (sgs w' y) = sg_g (sgs w y)) \<and>
     set ss' \<inter> set rs = {} \<and> set rs' \<inter> set ss = {} \<and>
     set ls = (set ss \<union> set rs) - (set ss' \<union> set rs') \<and> (\<forall>x \<in> set ls. live w x) \<and>
     distinct (filter (\<lambda>c. c \<noteq> None) (map (\<lambda>x. sg_coord (sgs w x)) ls)) \<and>
     (\<forall>c. dones w' c \<longleftrightarrow> dones w c \<or> (\<exists>x \<in> set ls. sg_coord (sgs w x) = Some c)) \<and>
     readied w' = readied w @ map (\<lambda>x. sg_g (sgs w x)) ls"

lemma chan_eff_quiet:
  assumes "chan_rep w' s' ss' rs'" "chan_inv w' s' ss' rs'" "set ss \<union> set rs \<subseteq> set ss' \<union> set rs'"
    "\<And>y. y \<notin> set ss' \<union> set rs' \<Longrightarrow> sgs w' y = sgs w y"
    "\<And>y. y \<in> set ss \<union> set rs \<Longrightarrow> payload (sgs w' y) = payload (sgs w y)"
    "dones w' = dones w" "readied w' = readied w" "set ss' \<inter> set rs = {}" "set rs' \<inter> set ss = {}"
  shows "chan_eff w ss rs w' s' ss' rs' []"
  using assms unfolding chan_eff_def by (auto simp: payload_eq_iff)

lemma chan_eff_refl:
  assumes "chan_rep w s' ss rs" "chan_inv w s' ss rs"
  shows "chan_eff w ss rs w s' ss rs []"
  by (rule chan_eff_quiet [OF assms]) (use assms(1) in \<open>auto simp: chan_rep_def\<close>)

lemma chan_eff_woke:
  assumes "chan_rep w' s' ss' rs'" "chan_inv w' s' ss' rs'" "woke w w' x v b" "live w x"
    "set ss' \<union> set rs' = set ss \<union> set rs - {x}" "x \<in> set ss \<union> set rs"
    "\<And>y. y \<notin> set ss \<union> set rs \<Longrightarrow> sgs w' y = sgs w y" "set ss' \<inter> set rs = {}" "set rs' \<inter> set ss = {}"
  shows "chan_eff w ss rs w' s' ss' rs' [x]"
proof -
  have l: "set [x] = (set ss \<union> set rs) - (set ss' \<union> set rs')" using assms(5,6) by auto
  show ?thesis
    unfolding chan_eff_def
  proof (intro conjI)
    show "\<forall>y. y \<notin> set ss \<union> set rs \<union> set ss' \<union> set rs' \<longrightarrow> sgs w' y = sgs w y"
      using assms(7) by auto
    show "\<forall>y \<in> set ss \<union> set rs. sg_coord (sgs w' y) = sg_coord (sgs w y) \<and> sg_g (sgs w' y) = sg_g (sgs w y)"
      using woke_payload(1,2) [OF assms(3)] by blast
    show "readied w' = readied w @ map (\<lambda>x. sg_g (sgs w x)) [x]" using assms(3) by (simp add: woke_def)
  qed (use assms l woke_dones [OF assms(3)] in simp_all)
qed

text \<open>The heap outside the queues is untouched.\<close>

lemma try_send_locked_frame:
  assumes "chan_rep w s ss rs" "try_send_locked w s v = Some (Done (w', s', r))" "y \<notin> set rs"
  shows "sgs w' y = sgs w y"
proof -
  have r: "sq_rep (sgs w) (recvq s) rs" using assms(1) by (simp add: chan_rep_def)
  have nc: "\<not> closed s" using assms(2) by (auto simp: try_send_locked_def)
  show ?thesis
  proof (cases "find (live w) rs")
    case None
    then show ?thesis
      using claim_from_head [OF r] assms(2) nc
      by (auto simp: try_send_locked_def split: if_splits option.splits sum.splits)
  next
    case (Some x)
    obtain us vs where xs: "rs = us @ x # vs" using find_split [OF Some] by blast
    have "fst (unlink (sgs w) (recvq s) x) y = sgs w y" "y \<noteq> x"
      using unlink_frame [of "sgs w" "recvq s" us x vs y] r assms(3) xs by auto
    then show ?thesis
      using claim_from_head [OF r] assms(2) nc Some
      by (auto simp: try_send_locked_def case_prod_unfold Let_def set_success_def set_value_def goready_def)
  qed
qed

lemma recv_body_frame:
  assumes "chan_rep w s ss rs" "recv_body m1 m2 d w s = Some (Done (w', s', r))" "y \<notin> set ss"
  shows "sgs w' y = sgs w y"
proof -
  have r: "sq_rep (sgs w) (sendq s) ss" using assms(1) by (simp add: chan_rep_def)
  show ?thesis
  proof (cases "closed s \<and> ring_len (buf s) = 0")
    case True
    then show ?thesis using assms(2) by (simp add: recv_body_def)
  next
    case nc: False
    show ?thesis
    proof (cases "find (live w) ss")
      case None
      then show ?thesis
        using claim_from_head [OF r] assms(2) nc
        by (auto simp: recv_body_def split: if_splits option.splits)
    next
      case (Some x)
      obtain us vs where xs: "ss = us @ x # vs" using find_split [OF Some] by blast
      have "fst (unlink (sgs w) (sendq s) x) y = sgs w y" "y \<noteq> x"
        using unlink_frame [of "sgs w" "sendq s" us x vs y] r assms(3) xs by auto
      then show ?thesis
        using claim_from_head [OF r] assms(2) nc Some
        by (auto simp: recv_body_def case_prod_unfold Let_def set_success_def set_value_def goready_def
            split: if_splits option.splits sum.splits)
    qed
  qed
qed

section \<open>The locked operations\<close>

lemma try_send_locked_eff:
  assumes "chan_rep w s ss rs" "chan_inv w s ss rs" "\<not> closed s"
  shows "\<exists>w' s' r rs' ls. try_send_locked w s v = Some (Done (w', s', r)) \<and>
           chan_eff w ss rs w' s' ss rs' ls \<and> set rs' \<subseteq> set rs \<and>
           (r \<noteq> Inr () \<longrightarrow> r = Inl v \<and> w' = w \<and> s' = s \<and> rs' = rs \<and> (\<forall>y \<in> set rs. \<not> live w y) \<and>
             length (ring_list (buf s)) = cap s)"
proof (cases "find (live w) rs")
  case (Some x)
  obtain w' q where wq: "try_send_locked w s v = Some (Done (w', s\<lparr>recvq := q\<rparr>, Inr ()))"
    "chan_rep w' (s\<lparr>recvq := q\<rparr>) ss (remove1 x rs)" "woke w w' x (Some v) True"
    using try_send_locked_handoff [OF assms(1,3) Some] by blast
  have x: "x \<in> set rs" "live w x" using find_mem [OF Some] by auto
  have d: "x \<notin> set ss" "distinct rs" using assms(1) x(1) by (auto simp: chan_rep_def sq_rep_def)
  have dj: "set ss \<inter> set rs = {}" using assms(1) by (simp add: chan_rep_def)
  have "chan_inv w' (s\<lparr>recvq := q\<rparr>) ss (remove1 x rs)"
    by (rule chan_inv_wake_recv [OF assms(2) wq(3) d(1)]) (simp_all add: set_remove1_subset)
  then have "chan_eff w ss rs w' (s\<lparr>recvq := q\<rparr>) ss (remove1 x rs) [x]"
    by (rule chan_eff_woke [OF wq(2) _ wq(3) x(2)])
      (use d x dj in \<open>auto intro: try_send_locked_frame [OF assms(1) wq(1)]\<close>)
  moreover have "set (remove1 x rs) \<subseteq> set rs" by (rule set_remove1_subset)
  ultimately show ?thesis
    using wq(1) by (intro exI [of _ w'] exI [of _ "s\<lparr>recvq := q\<rparr>"] exI [of _ "Inr ()"]
        exI [of _ "remove1 x rs"] exI [of _ "[x]"]) simp
next
  case None
  then have n: "\<forall>y \<in> set rs. \<not> live w y" by (simp add: find_live_None)
  show ?thesis
  proof (cases "length (ring_list (buf s)) < cap s")
    case True
    then obtain b where b: "try_send_locked w s v = Some (Done (w, s\<lparr>buf := b\<rparr>, Inr ()))"
      "chan_rep w (s\<lparr>buf := b\<rparr>) ss rs" "ring_list b = ring_list (buf s) @ [v]"
      using try_send_locked_no_receiver [OF assms(1,3) None, of v] by auto
    have "\<forall>y \<in> set ss. \<not> live w y"
      using chan_inv_values(2) [OF assms(2)] True by (metis less_irrefl less_nat_zero_code neq0_conv)
    with n have "chan_inv w (s\<lparr>buf := b\<rparr>) ss rs"
      by (intro chan_inv_no_live) blast
    from chan_eff_refl [OF b(2) this] b(1) show ?thesis
      by (intro exI [of _ w] exI [of _ "s\<lparr>buf := b\<rparr>"] exI [of _ "Inr ()"] exI [of _ rs] exI [of _ "[]"]) simp
  next
    case False
    then have "try_send_locked w s v = Some (Done (w, s, Inl v))"
      using try_send_locked_no_receiver [OF assms(1,3) None, of v] by simp
    moreover have "length (ring_list (buf s)) = cap s"
      using False assms(1) by (simp add: chan_rep_def)
    ultimately show ?thesis
      using n chan_eff_refl [OF assms(1,2)]
      by (intro exI [of _ w] exI [of _ s] exI [of _ "Inl v"] exI [of _ rs] exI [of _ "[]"])
        (simp del: length_ring_list)
  qed
qed

lemma try_recv_locked_eff:
  assumes "chan_rep w s ss rs" "chan_inv w s ss rs"
  shows "\<exists>w' s' r ss' ls. try_recv_locked d w s = Some (Done (w', s', r)) \<and>
           chan_eff w ss rs w' s' ss' rs ls \<and> set ss' \<subseteq> set ss \<and> closed s' = closed s \<and> cap s' = cap s \<and>
           (r = None \<longrightarrow> w' = w \<and> ss' = ss \<and> ring_list (buf s) = [] \<and> ring_list (buf s') = [] \<and>
              \<not> closed s \<and> (\<forall>y \<in> set ss. \<not> live w y))"
proof (cases "closed s \<and> ring_list (buf s) = []")
  case True
  then have "try_recv_locked d w s = Some (Done (w, s, Some (d, False)))"
    by (simp add: try_recv_locked_def recv_body_closed)
  with chan_eff_refl [OF assms] show ?thesis
    by (intro exI [of _ w] exI [of _ s] exI [of _ "Some (d, False)"] exI [of _ ss] exI [of _ "[]"]) simp
next
  case nc: False
  show ?thesis
  proof (cases "find (live w) ss")
    case (Some x)
    have x: "x \<in> set ss" "live w x" using find_mem [OF Some] by auto
    obtain sv where sv: "sg_value (sgs w x) = Some sv"
      using chan_inv_values(1) [OF assms(2) x] by blast
    have full: "0 < cap s \<Longrightarrow> length (ring_list (buf s)) = cap s"
      using chan_inv_values [OF assms(2) x] by blast
    obtain w' q b where r: "try_recv_locked d w s =
         Some (Done (w', s\<lparr>sendq := q, buf := b\<rparr>, Some (hd (ring_list (buf s) @ [sv]), True)))"
      "chan_rep w' (s\<lparr>sendq := q, buf := b\<rparr>) (remove1 x ss) rs" "woke w w' x None True"
      "ring_list b = tl (ring_list (buf s) @ [sv])"
      using recv_body_sender [OF assms(1) nc Some sv full] unfolding try_recv_locked_def by blast
    let ?s = "s\<lparr>sendq := q, buf := b\<rparr>"
    have d: "distinct ss" "x \<notin> set rs" using assms(1) x(1) by (auto simp: chan_rep_def sq_rep_def)
    have dj: "set ss \<inter> set rs = {}" using assms(1) by (simp add: chan_rep_def)
    have "length (ring_list (buf ?s)) = length (ring_list (buf s))"
      by (simp add: r(4) del: length_ring_list)
    then have "chan_inv w' ?s (remove1 x ss) rs"
      by (intro chan_inv_wake_send [OF assms(2) r(3) d(1)]) (simp_all del: length_ring_list)
    then have "chan_eff w ss rs w' ?s (remove1 x ss) rs [x]"
      by (rule chan_eff_woke [OF r(2) _ r(3) x(2)])
        (use d x dj in \<open>auto intro: recv_body_frame [OF assms(1) r(1) [unfolded try_recv_locked_def]]\<close>)
    moreover have "set (remove1 x ss) \<subseteq> set ss" by (rule set_remove1_subset)
    ultimately show ?thesis
      using r(1) by (intro exI [of _ w'] exI [of _ ?s] exI [of _ "Some (hd (ring_list (buf s) @ [sv]), True)"]
          exI [of _ "remove1 x ss"] exI [of _ "[x]"]) simp
  next
    case None
    then have n: "\<forall>y \<in> set ss. \<not> live w y" by (simp add: find_live_None)
    let ?r = "case ring_list (buf s) of [] \<Rightarrow> None | y # ys \<Rightarrow> Some (y, True)"
    obtain b where b: "try_recv_locked d w s = Some (Done (w, s\<lparr>buf := b\<rparr>, ?r))"
      "chan_rep w (s\<lparr>buf := b\<rparr>) ss rs" "ring_list b = tl (ring_list (buf s))"
      using recv_body_no_sender [OF assms(1) nc None] unfolding try_recv_locked_def by blast
    have "chan_inv w (s\<lparr>buf := b\<rparr>) ss rs"
    proof (cases "ring_list (buf s)")
      case Nil
      show ?thesis
        by (rule chan_inv_fewer [OF assms(2)]) (simp_all add: Nil b(3) del: length_ring_list)
    next
      case (Cons y ys)
      then have "\<forall>y \<in> set rs. \<not> live w y" using assms(2) unfolding chan_inv_def by auto
      with n show ?thesis by (intro chan_inv_no_live) blast
    qed
    from chan_eff_refl [OF b(2) this] b(1,3) n nc show ?thesis
      by (intro exI [of _ w] exI [of _ "s\<lparr>buf := b\<rparr>"] exI [of _ ?r] exI [of _ ss] exI [of _ "[]"])
        (auto split: list.splits)
  qed
qed

lemma live_payload:
  "dones w' = dones w \<Longrightarrow> payload (sgs w' y) = payload (sgs w y) \<Longrightarrow> live w' y = live w y"
  by (auto simp: live_def payload_eq_iff split: option.splits)

lemma register_send_locked_eff:
  assumes "chan_rep w s ss rs" "chan_inv w s ss rs" "\<not> closed s" "x \<notin> set ss \<union> set rs"
    "length (ring_list (buf s)) = cap s" "sg_value (sgs w x) \<noteq> None"
    "\<And>y. y \<in> set rs \<Longrightarrow> live w y \<Longrightarrow> sg_coord (sgs w x) = sg_coord (sgs w y) \<and> sg_coord (sgs w x) \<noteq> None"
  shows "\<exists>w' s'. register_send_locked w s x = (w', s', Registered) \<and>
           chan_eff w ss rs w' s' (ss @ [x]) rs [] \<and> dones w' = dones w \<and>
           (\<forall>y. payload (sgs w' y) = payload (sgs w y)) \<and> closed s' = closed s \<and> cap s' = cap s \<and> buf s' = buf s"
proof -
  let ?w = "w\<lparr>sgs := fst (push_back (sgs w) (sendq s) x)\<rparr>"
    and ?s = "s\<lparr>sendq := snd (push_back (sgs w) (sendq s) x)\<rparr>"
  have r: "sq_rep (sgs w) (sendq s) ss" and dj: "set ss \<inter> set rs = {}"
    using assms(1) by (simp_all add: chan_rep_def)
  have p: "payload (sgs ?w y) = payload (sgs w y)" for y by (simp add: push_back_payload)
  have "chan_inv ?w s ss rs"
    by (rule chan_inv_dones [OF assms(2)]) (simp_all add: push_back_payload)
  then have "chan_inv ?w ?s (ss @ [x]) rs"
  proof (rule chan_inv_add_sender)
    fix y assume "y \<in> set rs" "live ?w y"
    then show "sg_coord (sgs ?w x) = sg_coord (sgs ?w y) \<and> sg_coord (sgs ?w x) \<noteq> None"
      using assms(7) [of y] p [of x] p [of y] live_payload [of ?w w y, OF _ p]
      unfolding payload_eq_iff by simp (metis option.exhaust)
  qed (use assms(3,5,6) p [of x] in \<open>simp_all add: payload_eq_iff\<close>)
  then have "chan_eff w ss rs ?w ?s (ss @ [x]) rs []"
    by (rule chan_eff_quiet [OF chan_rep_push_send [OF assms(1,4)]])
      (use dj assms(4) in \<open>auto simp: push_back_payload push_back_frame [OF r]\<close>)
  with p assms(3) show ?thesis
    by (intro exI [of _ ?w] exI [of _ ?s]) (simp add: register_send_locked_def case_prod_unfold)
qed

lemma register_recv_locked_eff:
  assumes "chan_rep w s ss rs" "chan_inv w s ss rs" "\<not> closed s" "x \<notin> set ss \<union> set rs"
    "ring_list (buf s) = []"
    "\<And>y. y \<in> set ss \<Longrightarrow> live w y \<Longrightarrow> sg_coord (sgs w y) = sg_coord (sgs w x) \<and> sg_coord (sgs w y) \<noteq> None"
  shows "\<exists>w' s'. register_recv_locked w s x = (w', s', Registered) \<and>
           chan_eff w ss rs w' s' ss (rs @ [x]) [] \<and> dones w' = dones w \<and>
           (\<forall>y. payload (sgs w' y) = payload (sgs w y)) \<and> closed s' = closed s \<and> cap s' = cap s \<and> buf s' = buf s"
proof -
  let ?w = "w\<lparr>sgs := fst (push_back (sgs w) (recvq s) x)\<rparr>"
    and ?s = "s\<lparr>recvq := snd (push_back (sgs w) (recvq s) x)\<rparr>"
  have r: "sq_rep (sgs w) (recvq s) rs" and dj: "set ss \<inter> set rs = {}"
    using assms(1) by (simp_all add: chan_rep_def)
  have p: "payload (sgs ?w y) = payload (sgs w y)" for y by (simp add: push_back_payload)
  have "chan_inv ?w s ss rs"
    by (rule chan_inv_dones [OF assms(2)]) (simp_all add: push_back_payload)
  then have "chan_inv ?w ?s ss (rs @ [x])"
  proof (rule chan_inv_add_receiver)
    fix y assume "y \<in> set ss" "live ?w y"
    then show "sg_coord (sgs ?w y) = sg_coord (sgs ?w x) \<and> sg_coord (sgs ?w y) \<noteq> None"
      using assms(6) [of y] p [of x] p [of y] live_payload [of ?w w y, OF _ p]
      unfolding payload_eq_iff by simp (metis option.exhaust)
  qed (use assms(3,5) in simp_all)
  then have "chan_eff w ss rs ?w ?s ss (rs @ [x]) []"
    by (rule chan_eff_quiet [OF chan_rep_push_recv [OF assms(1,4)]])
      (use dj assms(4) in \<open>auto simp: push_back_payload push_back_frame [OF r]\<close>)
  with p assms(3) show ?thesis
    by (intro exI [of _ ?w] exI [of _ ?s]) (simp add: register_recv_locked_def case_prod_unfold)
qed

section \<open>The blocking operations\<close>

text \<open>Placing a fresh sudog on the caller's stack before registering it changes nothing for the channel.\<close>

lemma chan_eff_alloc:
  assumes "chan_eff (w\<lparr>sgs := (sgs w)(x := sg)\<rparr>) ss rs w' s' ss' rs' []"
    "x \<notin> set ss \<union> set rs" "x \<in> set ss' \<union> set rs'"
  shows "chan_eff w ss rs w' s' ss' rs' []"
proof -
  note e = assms(1) [unfolded chan_eff_def]
  have f: "sgs w' y = sgs w y" if "y \<notin> set ss \<union> set rs \<union> set ss' \<union> set rs'" for y
  proof -
    have "sgs w' y = ((sgs w)(x := sg)) y" using e that by simp
    moreover have "y \<noteq> x" using that assms(3) by blast
    ultimately show ?thesis by simp
  qed
  have g: "sg_coord (sgs w' y) = sg_coord (sgs w y) \<and> sg_g (sgs w' y) = sg_g (sgs w y)"
    if "y \<in> set ss \<union> set rs" for y
  proof -
    have "y \<noteq> x" using that assms(2) by blast
    then show ?thesis using e that by simp
  qed
  show ?thesis
    unfolding chan_eff_def using e f g by simp
qed

lemma alloc_rep:
  fixes sg :: "'v sudog"
  assumes "chan_rep w s ss rs" "chan_inv w s ss rs" "x \<notin> set ss \<union> set rs"
  defines "w1 \<equiv> w\<lparr>sgs := (sgs w)(x := sg)\<rparr>"
  shows "chan_rep w1 s ss rs" "chan_inv w1 s ss rs" "y \<in> set ss \<union> set rs \<Longrightarrow> live w1 y = live w y"
    "sgs w1 x = sg" "dones w1 = dones w"
proof -
  have f: "sgs w1 y = sgs w y" if "y \<in> set ss \<union> set rs" for y
    using that assms(3) unfolding w1_def by auto
  show "chan_rep w1 s ss rs" using assms(1) by (rule chan_rep_other) (rule f)
  show "chan_inv w1 s ss rs" using assms(2)
  proof (rule chan_inv_dones)
    show "payload (sgs w1 y) = payload (sgs w y)" if "y \<in> set ss \<union> set rs" for y
      by (simp only: f [OF that])
  qed (simp add: w1_def)
  show "live w1 y = live w y" if "y \<in> set ss \<union> set rs"
    by (rule live_payload) (simp_all add: f [OF that], simp add: w1_def)
  show "sgs w1 x = sg" "dones w1 = dones w" by (simp_all add: w1_def)
qed

lemma chan_Send_eff:
  assumes "\<not> nil c" "chan_rep w (state c) ss rs" "chan_inv w (state c) ss rs" "\<not> closed (state c)"
    "x \<notin> set ss \<union> set rs"
  shows "\<exists>w' s' r ss' rs' ls. chan_Send w c (Some g) x v = Some (Done (w', c\<lparr>state := s'\<rparr>, r)) \<and>
           chan_eff w ss rs w' s' ss' rs' ls \<and> set ss' \<union> set rs' \<subseteq> insert x (set ss \<union> set rs) \<and>
           (x \<in> set ss' \<union> set rs' \<longrightarrow> sg_coord (sgs w' x) = None)"
proof -
  obtain w' s' r rs' ls where t: "try_send_locked w (state c) v = Some (Done (w', s', r))"
    "chan_eff w ss rs w' s' ss rs' ls" "set rs' \<subseteq> set rs"
    "r \<noteq> Inr () \<longrightarrow> r = Inl v \<and> w' = w \<and> s' = state c \<and> rs' = rs \<and> (\<forall>y \<in> set rs. \<not> live w y) \<and>
       length (ring_list (buf (state c))) = cap (state c)"
    using try_send_locked_eff [OF assms(2,3,4), of v] by blast
  show ?thesis
  proof (cases "r = Inr ()")
    case True
    then have "chan_Send w c (Some g) x v = Some (Done (w', c\<lparr>state := s'\<rparr>, Returned ()))"
      using t(1) assms(1) by (simp add: chan_Send_def)
    moreover have "set ss \<union> set rs' \<subseteq> insert x (set ss \<union> set rs)" "x \<notin> set ss \<union> set rs'"
      using t(3) assms(5) by auto
    ultimately show ?thesis using t(2) by blast
  next
    case False
    with t(4) have f: "r = Inl v" "w' = w" "s' = state c" "\<forall>y \<in> set rs. \<not> live w y"
      "length (ring_list (buf (state c))) = cap (state c)" by simp_all
    let ?w = "w\<lparr>sgs := (sgs w)(x := new_send g v)\<rparr>"
    note a = alloc_rep [OF assms(2,3,5), where sg = "new_send g v"]
    have nl: "\<not> live ?w y" if "y \<in> set rs" for y using a(3) [of y] that f(4) by auto
    have v: "sg_value (sgs ?w x) \<noteq> None" by (simp add: new_send_def)
    obtain w2 s2 where r: "register_send_locked ?w (state c) x = (w2, s2, Registered)"
      "chan_eff ?w ss rs w2 s2 (ss @ [x]) rs []" "\<forall>y. payload (sgs w2 y) = payload (sgs ?w y)"
      using register_send_locked_eff [OF a(1,2) assms(4,5) f(5) v] nl by blast
    have "chan_eff w ss rs w2 s2 (ss @ [x]) rs []"
      using r(2) assms(5) by (rule chan_eff_alloc) simp
    moreover have "chan_Send w c (Some g) x v = Some (Done (w2, c\<lparr>state := s2\<rparr>, Parked x))"
      using t(1) f r(1) assms(1) by (simp add: chan_Send_def)
    moreover have "sg_coord (sgs w2 x) = None"
      using r(3) [rule_format, of x] by (simp add: payload_eq_iff new_send_def)
    moreover have "set (ss @ [x]) \<union> set rs \<subseteq> insert x (set ss \<union> set rs)" by auto
    ultimately show ?thesis by blast
  qed
qed

lemma chan_Recv_eff:
  assumes "\<not> nil c" "chan_rep w (state c) ss rs" "chan_inv w (state c) ss rs" "x \<notin> set ss \<union> set rs"
  shows "\<exists>w' s' r ss' rs' ls. chan_Recv d w c (Some g) x = Some (Done (w', c\<lparr>state := s'\<rparr>, r)) \<and>
           chan_eff w ss rs w' s' ss' rs' ls \<and> set ss' \<union> set rs' \<subseteq> insert x (set ss \<union> set rs) \<and>
           (x \<in> set ss' \<union> set rs' \<longrightarrow> sg_coord (sgs w' x) = None)"
proof -
  obtain w' s' r ss' ls where t: "try_recv_locked d w (state c) = Some (Done (w', s', r))"
    "chan_eff w ss rs w' s' ss' rs ls" "set ss' \<subseteq> set ss" "closed s' = closed (state c)"
    "r = None \<longrightarrow> w' = w \<and> ss' = ss \<and> ring_list (buf (state c)) = [] \<and> ring_list (buf s') = [] \<and>
       \<not> closed (state c) \<and> (\<forall>y \<in> set ss. \<not> live w y)"
    using try_recv_locked_eff [OF assms(2,3), of d] by blast
  show ?thesis
  proof (cases r)
    case (Some p)
    then have "chan_Recv d w c (Some g) x = Some (Done (w', c\<lparr>state := s'\<rparr>, Returned p))"
      using t(1) assms(1) by (simp add: chan_Recv_def)
    moreover have "set ss' \<union> set rs \<subseteq> insert x (set ss \<union> set rs)" "x \<notin> set ss' \<union> set rs"
      using t(3) assms(4) by auto
    ultimately show ?thesis using t(2) by blast
  next
    case None
    with t(5) have f: "w' = w" "ss' = ss" "ring_list (buf s') = []" "\<not> closed s'" "\<forall>y \<in> set ss. \<not> live w y"
      using t(4) by simp_all
    have ri: "chan_rep w s' ss rs" "chan_inv w s' ss rs"
      using t(2) unfolding chan_eff_def f by blast+
    let ?w = "w\<lparr>sgs := (sgs w)(x := new_recv g)\<rparr>"
    note a = alloc_rep [OF ri assms(4), where sg = "new_recv g"]
    have nl: "\<not> live ?w y" if "y \<in> set ss" for y using a(3) [of y] that f(5) by auto
    obtain w2 s2 where r: "register_recv_locked ?w s' x = (w2, s2, Registered)"
      "chan_eff ?w ss rs w2 s2 ss (rs @ [x]) []" "\<forall>y. payload (sgs w2 y) = payload (sgs ?w y)"
      using register_recv_locked_eff [OF a(1,2) f(4) assms(4) f(3)] nl by blast
    have "chan_eff w ss rs w2 s2 ss (rs @ [x]) []"
      using r(2) assms(4) by (rule chan_eff_alloc) simp
    moreover have "chan_Recv d w c (Some g) x = Some (Done (w2, c\<lparr>state := s2\<rparr>, Parked x))"
      using t(1) None f r(1) assms(1) by (simp add: chan_Recv_def)
    moreover have "sg_coord (sgs w2 x) = None"
      using r(3) [rule_format, of x] by (simp add: payload_eq_iff new_recv_def)
    moreover have "set ss \<union> set (rs @ [x]) \<subseteq> insert x (set ss \<union> set rs)" by auto
    ultimately show ?thesis by blast
  qed
qed

section \<open>Closing and cancelling\<close>

lemma close_from_frame_eff:
  assumes "\<not> nil c" "\<not> closed (state c)" "chan_rep w (state c) ss rs"
    "chan_Close w c = Some (Done (w', c'))" "y \<notin> set ss \<union> set rs"
  shows "sgs w' y = sgs w y"
proof -
  have r: "sq_rep (sgs w) (sendq (state c)) ss" "sq_rep (sgs w) (recvq (state c)) ([] @ rs)"
    "set ss \<inter> set rs = {}" "q_head (recvq (state c)) = first_or rs None" "q_head (sendq (state c)) = first_or ss None"
    using assms(3) by (simp_all add: chan_rep_def sq_rep_def)
  obtain w1 rq where 1: "close_from True w (recvq (state c)) (first_or rs None) = Some (w1, rq)"
    "\<forall>y. y \<notin> set rs \<longrightarrow> sgs w1 y = sgs w y"
    using close_from_rep [OF r(2), of True] by auto
  have s1: "sq_rep (sgs w1) (sendq (state c)) ([] @ ss)"
    using r(1,3) 1(2) sq_rep_cong [of ss "sgs w1" "sgs w"] by (simp add: disjoint_iff)
  obtain w2 sq where 2: "close_from False w1 (sendq (state c)) (first_or ss None) = Some (w2, sq)"
    "\<forall>y. y \<notin> set ss \<longrightarrow> sgs w2 y = sgs w1 y"
    using close_from_rep [OF s1, of False] by auto
  have "w' = w2"
    using assms(1,2,4) 1(1) 2(1) r(4,5) by (simp add: chan_Close_def)
  with 1(2) 2(2) assms(5) show ?thesis by simp
qed

lemma closed_out_coord:
  assumes "closed_out clear w w' xs ds"
  shows "sg_coord (sgs w' x) = sg_coord (sgs w x)" "sg_g (sgs w' x) = sg_g (sgs w x)"
  using assms by (auto simp: closed_out_def payload_def split: if_splits)

definition survivors :: "sid list \<Rightarrow> sid list \<Rightarrow> sid list" where
  "survivors ds xs = filter (\<lambda>x. x \<notin> set ds) xs"

lemma close_once:
  assumes "closed_out True w w1 rs ds" "closed_out False w1 w' ss es"
  shows "distinct (filter (\<lambda>c. c \<noteq> None) (map (\<lambda>x. sg_coord (sgs w x)) (survivors ds rs @ survivors es ss)))"
proof -
  note co = closed_out_coord(1) [OF assms(1)]
  have "distinct (filter (\<lambda>c. c \<noteq> None) (map (\<lambda>x. sg_coord (sgs w x)) (survivors ds rs)))"
    "distinct (filter (\<lambda>c. c \<noteq> None) (map (\<lambda>x. sg_coord (sgs w x)) (survivors es ss)))"
    using assms unfolding closed_out_def survivors_def co by blast+
  moreover have "sg_coord (sgs w x) \<noteq> sg_coord (sgs w y)"
    if xy: "x \<in> set (survivors ds rs)" "y \<in> set (survivors es ss)" "sg_coord (sgs w x) \<noteq> None" for x y
  proof -
    obtain c where c: "sg_coord (sgs w x) = Some c" using xy(3) by auto
    then have "dones w1 c" using assms(1) xy(1) by (auto simp: closed_out_def survivors_def)
    moreover have "live w1 y" using assms(2) xy(2) by (auto simp: closed_out_def survivors_def)
    ultimately show ?thesis using c co [of y] by (auto simp: live_def split: option.splits)
  qed
  ultimately show ?thesis by (simp only: map_append filter_append distinct_append) fastforce
qed

lemma close_dead:
  assumes "closed_out True w w1 rs ds" "closed_out False w1 w' ss es" "set ds \<subseteq> set rs" "set es \<subseteq> set ss"
    "x \<in> set es \<union> set ds"
  shows "\<not> live w' x"
  using assms(5) closed_out_dead [OF assms(2) _ assms(4)] closed_out_dead [OF assms(1) _ assms(3)]
    closed_out_live_imp [OF assms(2)] by blast

lemma chan_Close_eff:
  assumes "\<not> nil c" "\<not> closed (state c)" "chan_rep w (state c) ss rs"
  shows "\<exists>w' s' ss' rs' ls. chan_Close w c = Some (Done (w', c\<lparr>state := s'\<rparr>)) \<and>
           chan_eff w ss rs w' s' ss' rs' ls \<and> set ss' \<union> set rs' \<subseteq> set ss \<union> set rs"
proof -
  obtain w1 w' sq rq es ds where
    cl: "chan_Close w c = Some (Done (w', c\<lparr>state := (state c)\<lparr>closed := True, recvq := rq, sendq := sq\<rparr>\<rparr>))"
    "chan_rep w' ((state c)\<lparr>closed := True, recvq := rq, sendq := sq\<rparr>) es ds"
    "set es \<subseteq> set ss" "set ds \<subseteq> set rs" "closed_out True w w1 rs ds" "closed_out False w1 w' ss es"
    using chan_Close_open [OF assms] by blast
  let ?s = "(state c)\<lparr>closed := True, recvq := rq, sendq := sq\<rparr>" and ?ls = "survivors ds rs @ survivors es ss"
  have dj: "set ss \<inter> set rs = {}" using assms(3) by (simp add: chan_rep_def)
  note co = closed_out_coord [OF cl(5)] and co' = closed_out_coord [OF cl(6)]
  have "chan_eff w ss rs w' ?s es ds ?ls"
    unfolding chan_eff_def
  proof (intro conjI)
    show "chan_inv w' ?s es ds" by (rule chan_inv_no_live) (rule close_dead [OF cl(5,6,4,3)])
    show "\<forall>y. y \<notin> set ss \<union> set rs \<union> set es \<union> set ds \<longrightarrow> sgs w' y = sgs w y"
      using close_from_frame_eff [OF assms cl(1)] by blast
    show "set es \<inter> set rs = {}" "set ds \<inter> set ss = {}" using cl(3,4) dj by blast+
    show "set ?ls = (set ss \<union> set rs) - (set es \<union> set ds)"
      using cl(3,4) dj by (auto simp: survivors_def)
    show "\<forall>x \<in> set ?ls. live w x"
      using cl(5,6) closed_out_live_imp [OF cl(5)] unfolding closed_out_def survivors_def by auto
    show "\<forall>c. dones w' c \<longleftrightarrow> dones w c \<or> (\<exists>x \<in> set ?ls. sg_coord (sgs w x) = Some c)"
    proof
      fix c
      have "dones w' c \<longleftrightarrow> dones w1 c \<or> (\<exists>x \<in> set ss - set es. sg_coord (sgs w x) = Some c)"
        using cl(6) unfolding closed_out_def co by blast
      moreover have "dones w1 c \<longleftrightarrow> dones w c \<or> (\<exists>x \<in> set rs - set ds. sg_coord (sgs w x) = Some c)"
        using cl(5) unfolding closed_out_def by blast
      moreover have "set ?ls = (set rs - set ds) \<union> (set ss - set es)" by (auto simp: survivors_def)
      ultimately show "dones w' c \<longleftrightarrow> dones w c \<or> (\<exists>x \<in> set ?ls. sg_coord (sgs w x) = Some c)" by blast
    qed
    show "readied w' = readied w @ map (\<lambda>x. sg_g (sgs w x)) ?ls"
      using cl(5,6) co(2) by (simp add: closed_out_def survivors_def)
  qed (use cl(2) co co' close_once [OF cl(5,6)] in simp_all)
  moreover have "set es \<union> set ds \<subseteq> set ss \<union> set rs" using cl(3,4) by blast
  ultimately show ?thesis using cl(1) by blast
qed

lemma cancel_send_spec:
  assumes "chan_rep w s ss rs"
  shows "\<exists>w' s'. cancel_send w s x = Some (w', s', x \<in> set ss) \<and> chan_rep w' s' (remove1 x ss) rs \<and>
           dones w' = dones w \<and> readied w' = readied w \<and> (\<forall>y. payload (sgs w' y) = payload (sgs w y)) \<and>
           (\<forall>y. y \<notin> set ss \<longrightarrow> sgs w' y = sgs w y) \<and> cap s' = cap s \<and> closed s' = closed s \<and> buf s' = buf s"
proof -
  have r: "sq_rep (sgs w) (sendq s) ss" "set ss \<inter> set rs = {}" using assms by (simp_all add: chan_rep_def)
  obtain h q where c: "sq_cancel (sgs w) (sendq s) x = Some (h, q, x \<in> set ss)" "sq_rep h q (remove1 x ss)"
    "\<forall>y. payload (h y) = payload (sgs w y)" "\<forall>y. y \<notin> set ss \<longrightarrow> h y = sgs w y"
    using sq_cancel_rep [OF r(1)] by blast
  have "h y = sgs w y" if "y \<in> set rs" for y using c(4) r(2) that by blast
  then have "sq_rep h (recvq s) rs"
    using assms sq_rep_cong [of rs h "sgs w"] by (simp add: chan_rep_def)
  moreover have "set (remove1 x ss) \<inter> set rs = {}" using r(2) set_remove1_subset [of x ss] by blast
  ultimately have "chan_rep (w\<lparr>sgs := h\<rparr>) (s\<lparr>sendq := q\<rparr>) (remove1 x ss) rs"
    using assms c(2) by (simp add: chan_rep_def)
  with c show ?thesis
    by (intro exI [of _ "w\<lparr>sgs := h\<rparr>"] exI [of _ "s\<lparr>sendq := q\<rparr>"]) (simp add: cancel_send_def)
qed

lemma cancel_recv_spec:
  assumes "chan_rep w s ss rs"
  shows "\<exists>w' s'. cancel_recv w s x = Some (w', s', x \<in> set rs) \<and> chan_rep w' s' ss (remove1 x rs) \<and>
           dones w' = dones w \<and> readied w' = readied w \<and> (\<forall>y. payload (sgs w' y) = payload (sgs w y)) \<and>
           (\<forall>y. y \<notin> set rs \<longrightarrow> sgs w' y = sgs w y) \<and> cap s' = cap s \<and> closed s' = closed s \<and> buf s' = buf s"
proof -
  have r: "sq_rep (sgs w) (recvq s) rs" "set ss \<inter> set rs = {}" using assms by (simp_all add: chan_rep_def)
  obtain h q where c: "sq_cancel (sgs w) (recvq s) x = Some (h, q, x \<in> set rs)" "sq_rep h q (remove1 x rs)"
    "\<forall>y. payload (h y) = payload (sgs w y)" "\<forall>y. y \<notin> set rs \<longrightarrow> h y = sgs w y"
    using sq_cancel_rep [OF r(1)] by blast
  have "h y = sgs w y" if "y \<in> set ss" for y using c(4) r(2) that by blast
  then have "sq_rep h (sendq s) ss"
    using assms sq_rep_cong [of ss h "sgs w"] by (simp add: chan_rep_def)
  moreover have "set ss \<inter> set (remove1 x rs) = {}" using r(2) set_remove1_subset [of x rs] by blast
  ultimately have "chan_rep (w\<lparr>sgs := h\<rparr>) (s\<lparr>recvq := q\<rparr>) ss (remove1 x rs)"
    using assms c(2) by (simp add: chan_rep_def)
  with c show ?thesis
    by (intro exI [of _ "w\<lparr>sgs := h\<rparr>"] exI [of _ "s\<lparr>recvq := q\<rparr>"]) (simp add: cancel_recv_def)
qed

end
