(* ===== verification/Select_Order.thy ===== *)
theory Select_Order
  imports Goish_Prelude "HOL-Library.Multiset"
begin

text \<open>
  The two orders of a \<^verbatim>\<open>select!\<close> (\<^verbatim>\<open>src/src/select_macro.rs\<close>,
  \<^verbatim>\<open>__select_emit\<close>): the order in which it takes the channel locks (insertion sort of the lock
  addresses, then duplicates removed), and the random order in which it polls its cases (an inside-out shuffle
  driven by \<^verbatim>\<open>src/src/runtime/rand.rs\<close>).
\<close>

section \<open>The random source\<close>

definition rand_K1 :: u64 where "rand_K1 = 0xa0761d6478bd642f"

definition rand_K2 :: u64 where "rand_K2 = 0xe7037ed1a0b428db"

text \<open>\<^verbatim>\<open>init\<close>: seeds the state once, from the tick counter.\<close>

definition rand_init :: "u64 \<Rightarrow> u64 \<Rightarrow> u64" where
  "rand_init cputicks st =
     (let s = (cputicks * rand_K1) XOR rand_K2;
          s = (if s = 0 then rand_K1 XOR rand_K2 else s)
      in if st = 0 then s else st)"

definition cheaprand :: "u64 \<Rightarrow> u64 \<times> u32" where
  "cheaprand st =
     (let new = st + rand_K1;
          prod = (ucast new :: 128 word) * ucast (new XOR rand_K2);
          hi = (ucast (drop_bit 64 prod) :: u64);
          lo = (ucast prod :: u64)
      in (new, ucast (hi XOR lo)))"

definition cheaprandn :: "u64 \<Rightarrow> u32 \<Rightarrow> u64 \<times> u32" where
  "cheaprandn st n =
     (case cheaprand st of (st', r) \<Rightarrow> (st', ucast (drop_bit 32 ((ucast r :: u64) * ucast n))))"

lemma rand_init_seeded: "rand_init t st \<noteq> 0"
proof -
  have "rand_K1 XOR rand_K2 \<noteq> 0" by (simp add: rand_K1_def rand_K2_def)
  then show ?thesis by (auto simp: rand_init_def Let_def)
qed

lemma cheaprandn_less:
  assumes "0 < n"
  shows "unat (snd (cheaprandn st n)) < unat n"
proof -
  obtain st' r where r: "cheaprand st = (st', r)" by (cases "cheaprand st")
  have l: "unat r < 2 ^ 32" "unat n < 2 ^ 32" using unsigned_less [of r] unsigned_less [of n] by simp_all
  have n: "0 < unat n" using assms by (simp add: word_less_nat_alt)
  have "unat r * unat n < 2 ^ 32 * 2 ^ 32"
    using l by (intro mult_strict_mono) simp_all
  then have "unat ((ucast r :: u64) * ucast n) = unat r * unat n"
    using l by (simp add: unat_word_ariths unsigned_ucast_eq take_bit_eq_mod mod_less)
  then have "unat (drop_bit 32 ((ucast r :: u64) * ucast n)) = unat r * unat n div 2 ^ 32"
    by (simp only: unat_drop_bit_eq) (simp add: drop_bit_eq_div)
  moreover have "unat r * unat n div 2 ^ 32 < unat n"
    using l n by (intro less_mult_imp_div_less) (simp add: mult.commute)
  ultimately show ?thesis
    using l(2) by (simp add: cheaprandn_def r unsigned_ucast_eq take_bit_eq_mod)
qed

section \<open>Lock order\<close>

text \<open>The inner loop: move the element at \<open>j\<close> down to its place.\<close>

fun atoms_sift :: "nat list \<Rightarrow> nat \<Rightarrow> nat list" where
  "atoms_sift a 0 = a"
| "atoms_sift a (Suc j) =
     (if a ! Suc j < a ! j then atoms_sift (a[j := a ! Suc j, Suc j := a ! j]) j else a)"

definition atoms_sort :: "nat list \<Rightarrow> nat list" where
  "atoms_sort a = fold (\<lambda>i a. atoms_sift a i) [1..<length a] a"

definition compact_step :: "nat \<Rightarrow> nat list \<times> nat \<Rightarrow> nat list \<times> nat" where
  "compact_step i = (\<lambda>(a, u). if a ! i \<noteq> a ! (u - 1) then (a[u := a ! i], u + 1) else (a, u))"

definition atoms_compact :: "nat list \<Rightarrow> nat list \<times> nat" where
  "atoms_compact a = (if length a = 0 then (a, 0) else fold compact_step [1..<length a] (a, 1))"

text \<open>The addresses locked, in order; \<open>0\<close> is the null address of a nil channel.\<close>

definition select_locks :: "nat list \<Rightarrow> nat list" where
  "select_locks atoms = (case atoms_compact (atoms_sort atoms) of (a, u) \<Rightarrow> filter (\<lambda>x. x \<noteq> 0) (take u a))"

lemma insort_snoc_less: "(y :: nat) < x \<Longrightarrow> insort y (xs @ [x]) = insort y xs @ [x]"
  by (induction xs) auto

lemma insort_snoc_ge: "sorted xs \<Longrightarrow> \<forall>z \<in> set xs. z \<le> (y :: nat) \<Longrightarrow> insort y xs = xs @ [y]"
proof (induction xs)
  case (Cons a xs)
  then have ih: "insort y xs = xs @ [y]" by simp
  show ?case
  proof (cases "a = y")
    case True
    then have "insort y xs = y # xs" using Cons.prems(1) by (intro insort_is_Cons) simp
    then have "(a # xs) @ [y] = y # y # xs" using True ih by simp
    with True show ?thesis by simp
  qed (use Cons.prems ih in auto)
qed simp

lemma atoms_sift_insort:
  assumes "sorted xs"
  shows "atoms_sift (xs @ y # ys) (length xs) = insort y xs @ ys"
  using assms
proof (induction xs arbitrary: ys rule: rev_induct)
  case (snoc x xs)
  have s: "sorted xs" "\<forall>z \<in> set xs. z \<le> x" using snoc.prems by (simp_all add: sorted_append)
  show ?case
  proof (cases "y < x")
    case True
    with snoc.IH [OF s(1), of "x # ys"] show ?thesis
      by (simp add: nth_append list_update_append insort_snoc_less)
  next
    case False
    then have "\<forall>z \<in> set (xs @ [x]). z \<le> y" using s(2) by auto
    with False insort_snoc_ge [OF snoc.prems] show ?thesis by (simp add: nth_append)
  qed
qed simp

lemma atoms_sort_upto:
  assumes "k < length a"
  shows "fold (\<lambda>i a. atoms_sift a i) [1..<Suc k] a = sort (take (Suc k) a) @ drop (Suc k) a"
  using assms
proof (induction k)
  case 0
  then show ?case by (cases a) simp_all
next
  case (Suc k)
  let ?xs = "sort (take (Suc k) a)"
  have d: "drop (Suc k) a = a ! Suc k # drop (Suc (Suc k)) a"
    using Suc.prems by (simp add: Cons_nth_drop_Suc)
  have l: "length ?xs = Suc k" using Suc.prems by simp
  have "fold (\<lambda>i a. atoms_sift a i) [1..<Suc (Suc k)] a = atoms_sift (?xs @ drop (Suc k) a) (Suc k)"
    using Suc by simp
  also have "\<dots> = insort (a ! Suc k) ?xs @ drop (Suc (Suc k)) a"
    using atoms_sift_insort [of ?xs "a ! Suc k" "drop (Suc (Suc k)) a"] unfolding d l by simp
  also have "insort (a ! Suc k) ?xs = sort (take (Suc (Suc k)) a)"
  proof (rule properties_for_sort [symmetric])
    show "sorted (insort (a ! Suc k) ?xs)" by (simp add: sorted_insort)
    show "mset (insort (a ! Suc k) ?xs) = mset (take (Suc (Suc k)) a)"
      using Suc.prems by (simp add: take_Suc_conv_app_nth)
  qed
  finally show ?case .
qed

lemma atoms_sort_sort: "atoms_sort a = sort a"
proof (cases a)
  case Nil
  then show ?thesis by (simp add: atoms_sort_def)
next
  case (Cons x xs)
  then have "Suc (length xs) = length a" "length xs < length a" by simp_all
  with atoms_sort_upto [of "length xs" a] show ?thesis by (simp add: atoms_sort_def)
qed

lemma remdups_adj_snoc:
  "xs \<noteq> [] \<Longrightarrow> remdups_adj (xs @ [y]) = (if last xs = y then remdups_adj xs else remdups_adj xs @ [y])"
  by (induction xs rule: remdups_adj.induct) auto

lemma remdups_adj_strict: "sorted (xs :: nat list) \<Longrightarrow> sorted_wrt (<) (remdups_adj xs)"
  by (induction xs rule: remdups_adj.induct) (auto simp: le_less)

lemma atoms_compact_upto:
  assumes "k < length a"
  shows "\<exists>b u. fold compact_step [1..<Suc k] (a, 1) = (b, u) \<and>
     0 < u \<and> u \<le> Suc k \<and> length b = length a \<and> take u b = remdups_adj (take (Suc k) a) \<and> drop (Suc k) b = drop (Suc k) a"
  using assms
proof (induction k)
  case 0
  then show ?case by (cases a) simp_all
next
  case (Suc k)
  then obtain b u where b:
    "fold compact_step [1..<Suc k] (a, 1) = (b, u)"
    "0 < u" "u \<le> Suc k" "length b = length a" "take u b = remdups_adj (take (Suc k) a)" "drop (Suc k) b = drop (Suc k) a"
    by auto
  have e: "b ! Suc k = a ! Suc k"
    using arg_cong [OF b(6), of hd] Suc.prems b(4) by (simp add: hd_drop_conv_nth)
  have t: "take (Suc (Suc k)) a = take (Suc k) a @ [a ! Suc k]"
    using Suc.prems by (simp add: take_Suc_conv_app_nth)
  have ne: "take (Suc k) a \<noteq> []" using Suc.prems by auto
  have "b ! (u - 1) = last (take u b)"
  proof -
    have "take u b \<noteq> []" "u - 1 < length (take u b)" using b(2-4) Suc.prems by auto
    then show ?thesis using b(2-4) Suc.prems by (simp add: last_conv_nth min_def)
  qed
  then have l: "b ! (u - 1) = last (take (Suc k) a)" using b(5) ne by simp
  have d: "drop (Suc (Suc k)) b = drop (Suc (Suc k)) a"
    using arg_cong [OF b(6), of tl] by (simp add: drop_Suc tl_drop)
  have r: "remdups_adj (take (Suc k) a @ [a ! Suc k]) =
      (if last (take (Suc k) a) = a ! Suc k then remdups_adj (take (Suc k) a)
       else remdups_adj (take (Suc k) a) @ [a ! Suc k])"
    by (rule remdups_adj_snoc [OF ne])
  have f: "fold compact_step [1..<Suc (Suc k)] (a, 1) = compact_step (Suc k) (b, u)"
    using b(1) by simp
  show ?case
  proof (cases "b ! Suc k = b ! (u - 1)")
    case False
    have "take (Suc u) (b[u := a ! Suc k]) = take u b @ [a ! Suc k]"
      using b(3,4) Suc.prems by (simp add: take_Suc_conv_app_nth)
    moreover have "drop (Suc (Suc k)) (b[u := a ! Suc k]) = drop (Suc (Suc k)) a"
      using b(3) d by (simp add: drop_update_cancel)
    moreover have "compact_step (Suc k) (b, u) = (b[u := a ! Suc k], Suc u)"
      using False e by (simp add: compact_step_def)
    moreover have "remdups_adj (take (Suc (Suc k)) a) = take u b @ [a ! Suc k]"
      using False unfolding t r b(5) e l by simp
    ultimately show ?thesis
      unfolding f using b(3,4) by (intro exI [of _ "b[u := a ! Suc k]"] exI [of _ "Suc u"] conjI) simp_all
  next
    case True
    then have "compact_step (Suc k) (b, u) = (b, u)" by (simp add: compact_step_def)
    moreover have "remdups_adj (take (Suc (Suc k)) a) = take u b"
      using True unfolding t r b(5) e l by simp
    ultimately show ?thesis
      unfolding f using b(2-4) d by (intro exI [of _ b] exI [of _ u] conjI) simp_all
  qed
qed

lemma atoms_compact_remdups:
  assumes "atoms_compact a = (b, u)"
  shows "take u b = remdups_adj a" "u \<le> length a" "length b = length a"
proof -
  have "take u b = remdups_adj a \<and> u \<le> length a \<and> length b = length a"
  proof (cases a)
    case Nil
    then show ?thesis using assms by (simp add: atoms_compact_def)
  next
    case (Cons x xs)
    then have n: "length a = Suc (length xs)" by simp
    obtain c v where c: "fold compact_step [1..<Suc (length xs)] (a, 1) = (c, v)" "v \<le> Suc (length xs)"
      "length c = length a" "take v c = remdups_adj (take (Suc (length xs)) a)"
    proof -
      have "length xs < length a" using n by simp
      from atoms_compact_upto [OF this] that show ?thesis by blast
    qed
    have "(b, u) = (c, v)" using assms c(1) unfolding atoms_compact_def n by (simp del: upt_Suc)
    with c(2-4) n show ?thesis by simp
  qed
  then show "take u b = remdups_adj a" "u \<le> length a" "length b = length a" by blast+
qed

section \<open>Poll order\<close>

definition select_order :: "u64 \<Rightarrow> nat \<Rightarrow> u64 \<times> u8 list" where
  "select_order st n =
     fold (\<lambda>i (st, ord).
            case cheaprandn st (of_nat i + 1) of
              (st', r) \<Rightarrow> (let j = unat r; ord = ord[i := ord ! j] in (st', ord[j := of_nat i])))
       [0..<n] (st, replicate n 0)"

lemma select_order_upto:
  assumes "k \<le> n" "n \<le> 256"
  shows "\<exists>st' ord. fold (\<lambda>i (st, ord).
            case cheaprandn st (of_nat i + 1) of
              (st', r) \<Rightarrow> (let j = unat r; ord = ord[i := ord ! j] in (st', ord[j := of_nat i])))
       [0..<k] (st, replicate n 0) = (st', ord) \<and> length ord = n \<and>
     mset (take k ord) = mset (map (of_nat :: nat \<Rightarrow> u8) [0..<k])"
  using assms
proof (induction k)
  case (Suc k)
  then obtain st' ord where ih: "fold (\<lambda>i (st, ord).
            case cheaprandn st (of_nat i + 1) of
              (st', r) \<Rightarrow> (let j = unat r; ord = ord[i := ord ! j] in (st', ord[j := of_nat i])))
       [0..<k] (st, replicate n 0) = (st', ord)" "length ord = n"
     "mset (take k ord) = mset (map (of_nat :: nat \<Rightarrow> u8) [0..<k])" by auto
  obtain st'' r where r: "cheaprandn st' (of_nat k + 1) = (st'', r)" by (cases "cheaprandn st' (of_nat k + 1)")
  have u: "unat (of_nat k + 1 :: u32) = Suc k"
  proof -
    have "unat (of_nat (Suc k) :: u32) = Suc k" using Suc.prems by (simp only: unat_of_nat) (simp add: take_bit_eq_mod)
    then show ?thesis by (simp add: add.commute)
  qed
  then have "0 < (of_nat k + 1 :: u32)" by (simp add: word_less_nat_alt)
  from cheaprandn_less [OF this, of st'] have j: "unat r \<le> k" using r u by simp
  let ?o = "(ord[k := ord ! unat r])[unat r := of_nat k]"
  have t: "mset (take (Suc k) ?o) = mset (take k ord) + {#of_nat k#}"
  proof (cases "unat r = k")
    case True
    then show ?thesis using Suc.prems ih(2) by (simp add: take_Suc_conv_app_nth)
  next
    case False
    with j have jk: "unat r < k" by simp
    have "take (Suc k) ?o = (take k ord)[unat r := of_nat k] @ [ord ! unat r]"
      using jk Suc.prems ih(2) by (simp add: take_Suc_conv_app_nth take_update_swap list_update_append)
    moreover have "mset ((take k ord)[unat r := of_nat k]) =
        add_mset (of_nat k) (mset (take k ord) - {#ord ! unat r#})"
      using jk Suc.prems ih(2) by (simp add: mset_update)
    moreover have "ord ! unat r \<in># mset (take k ord)"
      using jk Suc.prems ih(2) by (auto simp: in_set_conv_nth intro!: exI [of _ "unat r"])
    ultimately show ?thesis by simp
  qed
  then show ?case using ih r by (simp add: Let_def)
qed simp

section \<open>Properties\<close>

text \<open>
  C8: a select takes the locks of its channels in one global order: exactly the distinct non-null lock addresses of
  its cases, each once, in strictly increasing address order, so that two selects (or a select and a plain
  operation) never wait for each other in a cycle.
\<close>

theorem select_locks_sorted:
  "sorted_wrt (<) (select_locks atoms) \<and> set (select_locks atoms) = set atoms - {0}"
proof -
  obtain b u where b: "atoms_compact (atoms_sort atoms) = (b, u)" by (cases "atoms_compact (atoms_sort atoms)")
  have "select_locks atoms = filter (\<lambda>x. x \<noteq> 0) (remdups_adj (sort atoms))"
    using atoms_compact_remdups(1) [OF b] b by (simp add: select_locks_def atoms_sort_sort)
  moreover have "sorted_wrt (<) (remdups_adj (sort atoms))" by (rule remdups_adj_strict) simp
  ultimately show ?thesis by (auto simp: sorted_wrt_filter)
qed

text \<open>
  C9: the poll order of a select with up to 256 cases is a permutation of the case indices, for every state of the
  random source: pass 1 polls every case exactly once.
\<close>

theorem select_order_permutation:
  assumes "n \<le> 256"
  shows "mset (map unat (snd (select_order st n))) = mset [0..<n]"
proof -
  obtain st' ord where o: "select_order st n = (st', ord)" "length ord = n"
    "mset (take n ord) = mset (map (of_nat :: nat \<Rightarrow> u8) [0..<n])"
    using select_order_upto [OF order_refl assms, of st] unfolding select_order_def by blast
  have "mset (map unat ord) = image_mset unat (mset (map (of_nat :: nat \<Rightarrow> u8) [0..<n]))"
    using o(2,3) by simp
  also have "\<dots> = mset (map (\<lambda>i. unat (of_nat i :: u8)) [0..<n])"
    by (simp add: multiset.map_comp comp_def)
  also have "map (\<lambda>i. unat (of_nat i :: u8)) [0..<n] = [0..<n]"
    using assms by (intro map_idI) (simp add: unat_of_nat)
  finally show ?thesis using o(1) by simp
qed

theorem select_order_permutation_witness:
  "(3 :: nat) \<le> 256 \<and> mset (map unat (snd (select_order 7 3))) = mset [0, 1, 2]"
  using select_order_permutation [of 3 7] by (simp add: upt_rec)

end
