(* ===== verification/Select.thy ===== *)
theory Select
  imports Chan_Eff Select_Order
begin

text \<open>
  The \<^verbatim>\<open>select!\<close> statement (\<^verbatim>\<open>src/src/select_macro.rs\<close>: \<^verbatim>\<open>__select_emit\<close>
  and \<^verbatim>\<open>__select_default_or_park\<close>) over many channels that share one heap of wait-queue entries.
  A case names its channel by number; \<open>chans\<close> maps the numbers to channels.  All cases carry one value
  type.  Pass 1 and pass 2 run under the locks of all channels involved and are one step here; pass 3 takes the
  locks one by one.
\<close>

type_synonym 'v chans = "nat \<Rightarrow> 'v hchan"

text \<open>The three accumulators of the parse phase, in their emission order.\<close>

datatype 'v scase = BareRecv nat | PatRecv nat | SendCase nat 'v

datatype 'v sel_result = Fired nat "('v \<times> bool) option" | DefaultTaken | SelParked

fun is_bare :: "'v scase \<Rightarrow> bool" where
  "is_bare (BareRecv c) = True" | "is_bare (PatRecv c) = False" | "is_bare (SendCase c v) = False"

fun is_pat :: "'v scase \<Rightarrow> bool" where
  "is_pat (BareRecv c) = False" | "is_pat (PatRecv c) = True" | "is_pat (SendCase c v) = False"

fun is_send :: "'v scase \<Rightarrow> bool" where
  "is_send (BareRecv c) = False" | "is_send (PatRecv c) = False" | "is_send (SendCase c v) = True"

fun case_chan :: "'v scase \<Rightarrow> nat" where
  "case_chan (BareRecv c) = c" | "case_chan (PatRecv c) = c" | "case_chan (SendCase c v) = c"

definition emit_order :: "'v scase list \<Rightarrow> nat list" where
  "emit_order cs =
     filter (\<lambda>i. is_bare (cs ! i)) [0..<length cs] @ filter (\<lambda>i. is_pat (cs ! i)) [0..<length cs] @
     filter (\<lambda>i. is_send (cs ! i)) [0..<length cs]"

definition set_chan :: "'v chans \<Rightarrow> nat \<Rightarrow> 'v hchan_state \<Rightarrow> 'v chans" where
  "set_chan C c s = C(c := (C c)\<lparr>state := s\<rparr>)"

text \<open>Pass 1: try the cases in poll order; a case on a nil channel is skipped.\<close>

fun select_poll :: "'v \<Rightarrow> 'v world \<Rightarrow> 'v chans \<Rightarrow> 'v scase list \<Rightarrow> nat list \<Rightarrow>
    ('v world \<times> 'v chans \<times> (nat \<times> ('v \<times> bool) option) option) exec option" where
  "select_poll d w C cs [] = Some (Done (w, C, None))"
| "select_poll d w C cs (i # ord) =
     (let c = case_chan (cs ! i) in
      if nil (C c) then select_poll d w C cs ord
      else case cs ! i of
        SendCase _ v \<Rightarrow>
          (case try_send_locked w (state (C c)) v of
             None \<Rightarrow> None
           | Some (Fatal m) \<Rightarrow> Some (Fatal m)
           | Some (Done (w', s', Inr _)) \<Rightarrow> Some (Done (w', set_chan C c s', Some (i, None)))
           | Some (Done (w', s', Inl _)) \<Rightarrow> select_poll d w' (set_chan C c s') cs ord)
      | _ \<Rightarrow>
          (case try_recv_locked d w (state (C c)) of
             None \<Rightarrow> None
           | Some (Fatal m) \<Rightarrow> Some (Fatal m)
           | Some (Done (w', s', Some r)) \<Rightarrow> Some (Done (w', set_chan C c s', Some (i, Some r)))
           | Some (Done (w', s', None)) \<Rightarrow> select_poll d w' (set_chan C c s') cs ord))"

text \<open>Pass 2: one sudog per case, all with the same coordinator, registered on their channels.\<close>

fun case_sudog :: "gid \<Rightarrow> coord \<Rightarrow> 'v scase \<Rightarrow> 'v sudog" where
  "case_sudog g k (SendCase c v) = new_send_select g v k"
| "case_sudog g k (BareRecv c) = new_recv_select g k"
| "case_sudog g k (PatRecv c) = new_recv_select g k"

definition select_alloc :: "'v world \<Rightarrow> gid \<Rightarrow> coord \<Rightarrow> (nat \<Rightarrow> sid) \<Rightarrow> 'v scase list \<Rightarrow> 'v world" where
  "select_alloc w g k sd cs =
     w\<lparr>dones := (dones w)(k := False),
       sgs := fold (\<lambda>i h. h(sd i := case_sudog g k (cs ! i))) (emit_order cs) (sgs w)\<rparr>"

fun select_register :: "'v world \<Rightarrow> 'v chans \<Rightarrow> (nat \<Rightarrow> sid) \<Rightarrow> 'v scase list \<Rightarrow> nat list \<Rightarrow>
    ('v world \<times> 'v chans) exec" where
  "select_register w C sd cs [] = Done (w, C)"
| "select_register w C sd cs (i # is) =
     (let c = case_chan (cs ! i) in
      if nil (C c) then select_register w C sd cs is
      else if is_send (cs ! i) then
        (case register_send_locked w (state (C c)) (sd i) of
           (w', s', Closed) \<Rightarrow> Fatal ''goish: select pass-2 saw closed send chan under held lock''
         | (w', s', _) \<Rightarrow> select_register w' (set_chan C c s') sd cs is)
      else
        (case register_recv_locked w (state (C c)) (sd i) of
           (w', s', Closed) \<Rightarrow> Fatal ''goish: select pass-2 saw closed-and-empty under held lock''
         | (w', s', _) \<Rightarrow> select_register w' (set_chan C c s') sd cs is))"

text \<open>
  The whole statement up to the park; \<open>ord\<close> is the poll order, \<open>g\<close> the running goroutine,
  \<open>k\<close> the address of its coordinator and \<open>sd\<close> the addresses of its sudogs.
\<close>

definition select_stmt ::
  "'v \<Rightarrow> 'v world \<Rightarrow> 'v chans \<Rightarrow> 'v scase list \<Rightarrow> bool \<Rightarrow> nat list \<Rightarrow> gid option \<Rightarrow> coord \<Rightarrow> (nat \<Rightarrow> sid) \<Rightarrow>
   ('v world \<times> 'v chans \<times> 'v sel_result) exec option" where
  "select_stmt d w C cs has_default ord g k sd =
     (if cs = [] \<and> \<not> has_default then Some (Fatal ''goish: select{} (block forever)'')
      else case select_poll d w C cs ord of
        None \<Rightarrow> None
      | Some (Fatal m) \<Rightarrow> Some (Fatal m)
      | Some (Done (w1, C1, Some (i, r))) \<Rightarrow> Some (Done (w1, C1, Fired i r))
      | Some (Done (w1, C1, None)) \<Rightarrow>
          if has_default then Some (Done (w1, C1, DefaultTaken))
          else case g of
            None \<Rightarrow> Some (Fatal ''goish: select park outside any goroutine'')
          | Some gp \<Rightarrow>
              (case select_register (select_alloc w1 gp k sd cs) C1 sd cs (emit_order cs) of
                 Fatal m \<Rightarrow> Some (Fatal m)
               | Done (w2, C2) \<Rightarrow> Some (Done (w2, C2, SelParked))))"

text \<open>Pass 3: cancel every entry, each under its own channel's lock; what was already gone has won.\<close>

definition select_cancel ::
  "'v world \<Rightarrow> 'v chans \<Rightarrow> (nat \<Rightarrow> sid) \<Rightarrow> 'v scase list \<Rightarrow> nat \<Rightarrow> ('v world \<times> 'v chans \<times> bool) option" where
  "select_cancel w C sd cs i =
     (let c = case_chan (cs ! i) in
      if nil (C c) then Some (w, C, False)
      else case (if is_send (cs ! i) then cancel_send w (state (C c)) (sd i)
                 else cancel_recv w (state (C c)) (sd i)) of
        None \<Rightarrow> None
      | Some (w', s', found) \<Rightarrow> Some (w', set_chan C c s', \<not> found))"

fun select_cancel_all ::
  "'v world \<Rightarrow> 'v chans \<Rightarrow> (nat \<Rightarrow> sid) \<Rightarrow> 'v scase list \<Rightarrow> nat list \<Rightarrow> nat list \<Rightarrow>
   ('v world \<times> 'v chans \<times> nat list) option" where
  "select_cancel_all w C sd cs [] winners = Some (w, C, winners)"
| "select_cancel_all w C sd cs (i # is) winners =
     (case select_cancel w C sd cs i of
        None \<Rightarrow> None
      | Some (w', C', win) \<Rightarrow>
          select_cancel_all w' C' sd cs is (if win then winners @ [i] else winners))"

definition select_dispatch :: "'v \<Rightarrow> 'v world \<Rightarrow> (nat \<Rightarrow> sid) \<Rightarrow> 'v scase list \<Rightarrow> nat list \<Rightarrow> 'v sel_result exec" where
  "select_dispatch d w sd cs winners =
     (case winners of
        [] \<Rightarrow> Fatal ''goish: select pass-3 found no winner''
      | i # _ \<Rightarrow>
          if is_send (cs ! i) then
            (if sg_success (sgs w (sd i)) then Done (Fired i None)
             else Fatal ''goish: select send winner: chan closed'')
          else Done (Fired i (Some (case sg_value (sgs w (sd i)) of None \<Rightarrow> d | Some v \<Rightarrow> v,
                                    sg_success (sgs w (sd i))))))"

definition select_resume ::
  "'v \<Rightarrow> 'v world \<Rightarrow> 'v chans \<Rightarrow> (nat \<Rightarrow> sid) \<Rightarrow> 'v scase list \<Rightarrow> ('v world \<times> 'v chans \<times> 'v sel_result exec) option" where
  "select_resume d w C sd cs =
     (case select_cancel_all w C sd cs (emit_order cs) [] of
        None \<Rightarrow> None
      | Some (w', C', winners) \<Rightarrow> Some (w', C', select_dispatch d w' sd cs winners))"

end
