(* ===== verification/Select_Inv.thy ===== *)
theory Select_Inv
  imports Select
begin

text \<open>
  Many channels and many selects at once.  \<open>sys_rep\<close> is the invariant of the whole system of channels;
  \<open>sel_inv\<close> is what holds of one parked select, whatever the other goroutines do: until it is decided all
  its entries are queued where it put them, and once it is decided exactly one of them has been taken out.
\<close>

section \<open>The system of channels\<close>

abbreviation queues :: "(nat \<Rightarrow> sid list) \<Rightarrow> (nat \<Rightarrow> sid list) \<Rightarrow> nat \<Rightarrow> sid set" where
  "queues SS RS c \<equiv> set (SS c) \<union> set (RS c)"

definition queued :: "(nat \<Rightarrow> sid list) \<Rightarrow> (nat \<Rightarrow> sid list) \<Rightarrow> sid set" where
  "queued SS RS = (\<Union>c. queues SS RS c)"

definition sys_rep :: "'v world \<Rightarrow> 'v chans \<Rightarrow> (nat \<Rightarrow> sid list) \<Rightarrow> (nat \<Rightarrow> sid list) \<Rightarrow> bool" where
  "sys_rep w C SS RS \<longleftrightarrow>
     (\<forall>c. if nil (C c) then SS c = [] \<and> RS c = []
          else chan_rep w (state (C c)) (SS c) (RS c) \<and> chan_inv w (state (C c)) (SS c) (RS c)) \<and>
     (\<forall>c c'. c \<noteq> c' \<longrightarrow> queues SS RS c \<inter> queues SS RS c' = {})"

lemma sys_repD:
  assumes "sys_rep w C SS RS"
  shows "\<not> nil (C c) \<Longrightarrow> chan_rep w (state (C c)) (SS c) (RS c)"
    "\<not> nil (C c) \<Longrightarrow> chan_inv w (state (C c)) (SS c) (RS c)"
    "nil (C c) \<Longrightarrow> SS c = []" "nil (C c) \<Longrightarrow> RS c = []"
    "c \<noteq> c' \<Longrightarrow> queues SS RS c \<inter> queues SS RS c' = {}"
  using assms unfolding sys_rep_def by metis+

lemma sys_rep_sr:
  assumes "sys_rep w C SS RS"
  shows "set (SS c) \<inter> set (RS c) = {}"
proof (cases "nil (C c)")
  case True
  then show ?thesis using sys_repD(3) [OF assms] by simp
next
  case False
  then show ?thesis using sys_repD(1) [OF assms] by (simp add: chan_rep_def)
qed

lemma sys_eff:
  assumes "sys_rep w C SS RS" "\<not> nil (C c)" "chan_eff w (SS c) (RS c) w' s' ss' rs' ls"
    "\<And>c'. c' \<noteq> c \<Longrightarrow> (set ss' \<union> set rs') \<inter> queues SS RS c' = {}"
  shows "sys_rep w' (set_chan C c s') (SS(c := ss')) (RS(c := rs'))"
  unfolding sys_rep_def
proof (intro conjI allI impI)
  note e = assms(3) [unfolded chan_eff_def]
  fix c'
  show "if nil (set_chan C c s' c') then (SS(c := ss')) c' = [] \<and> (RS(c := rs')) c' = []
        else chan_rep w' (state (set_chan C c s' c')) ((SS(c := ss')) c') ((RS(c := rs')) c') \<and>
             chan_inv w' (state (set_chan C c s' c')) ((SS(c := ss')) c') ((RS(c := rs')) c')"
  proof (cases "c' = c")
    case True
    then show ?thesis using e assms(2) by (simp add: set_chan_def)
  next
    case False
    have f: "sgs w' y = sgs w y" if "y \<in> queues SS RS c'" for y
    proof -
      have "y \<notin> queues SS RS c" using sys_repD(5) [OF assms(1) False] that by blast
      moreover have "y \<notin> set ss' \<union> set rs'" using assms(4) [OF False] that by blast
      ultimately show ?thesis using e by blast
    qed
    show ?thesis
    proof (cases "nil (C c')")
      case True
      then show ?thesis using False sys_repD(3,4) [OF assms(1) True] by (simp add: set_chan_def)
    next
      case n: False
      have "chan_rep w' (state (C c')) (SS c') (RS c')"
        by (rule chan_rep_other [OF sys_repD(1) [OF assms(1) n]]) (rule f)
      moreover have "chan_inv w' (state (C c')) (SS c') (RS c')"
      proof (rule chan_inv_dones [OF sys_repD(2) [OF assms(1) n]])
        show "dones w k \<Longrightarrow> dones w' k" for k using e by blast
      qed (simp add: f)
      ultimately show ?thesis using False n by (simp add: set_chan_def)
    qed
  qed
next
  fix c1 c2 :: nat assume "c1 \<noteq> c2"
  then show "queues (SS(c := ss')) (RS(c := rs')) c1 \<inter> queues (SS(c := ss')) (RS(c := rs')) c2 = {}"
    using assms(4) [of c1] assms(4) [of c2] sys_repD(5) [OF assms(1), of c1 c2]
    by (cases "c1 = c"; cases "c2 = c") (simp_all, blast+)
qed

lemma queued_upd:
  "x \<in> queued (SS(c := ss)) (RS(c := rs)) \<longleftrightarrow> x \<in> set ss \<union> set rs \<or> (\<exists>c'. c' \<noteq> c \<and> x \<in> queues SS RS c')"
proof
  assume "x \<in> queued (SS(c := ss)) (RS(c := rs))"
  then obtain c' where c': "x \<in> queues (SS(c := ss)) (RS(c := rs)) c'" unfolding queued_def by blast
  then show "x \<in> set ss \<union> set rs \<or> (\<exists>c'. c' \<noteq> c \<and> x \<in> queues SS RS c')"
    by (cases "c' = c") auto
next
  assume "x \<in> set ss \<union> set rs \<or> (\<exists>c'. c' \<noteq> c \<and> x \<in> queues SS RS c')"
  then show "x \<in> queued (SS(c := ss)) (RS(c := rs))"
  proof
    assume "x \<in> set ss \<union> set rs"
    then have "x \<in> queues (SS(c := ss)) (RS(c := rs)) c" by simp
    then show ?thesis unfolding queued_def by blast
  next
    assume "\<exists>c'. c' \<noteq> c \<and> x \<in> queues SS RS c'"
    then obtain c' where "c' \<noteq> c" "x \<in> queues SS RS c'" by blast
    then have "x \<in> queues (SS(c := ss)) (RS(c := rs)) c'" by simp
    then show ?thesis unfolding queued_def by blast
  qed
qed

lemma queued_iff: "x \<in> queued SS RS \<longleftrightarrow> (\<exists>c. x \<in> queues SS RS c)"
  unfolding queued_def by blast

lemma queued_eff_aux:
  assumes "A \<Longrightarrow> \<not> (\<exists>c'. c' \<noteq> c \<and> P c')" "B \<Longrightarrow> A" "A \<longleftrightarrow> P c"
  shows "(B \<or> (\<exists>c'. c' \<noteq> c \<and> P c')) = ((\<exists>c. P c) \<and> \<not> (A \<and> \<not> B))"
  using assms by metis

text \<open>An entry that was not added stays queued unless the operation took it out.\<close>

lemma queued_eff:
  assumes "sys_rep w C SS RS" "chan_eff w (SS c) (RS c) w' s' ss' rs' ls"
    "x \<in> set ss' \<union> set rs' \<Longrightarrow> x \<in> queues SS RS c"
  shows "x \<in> queued (SS(c := ss')) (RS(c := rs')) \<longleftrightarrow> x \<in> queued SS RS \<and> x \<notin> set ls"
proof -
  have ls: "set ls = queues SS RS c - (set ss' \<union> set rs')"
    using assms(2) unfolding chan_eff_def by blast
  have n: "\<not> (\<exists>c'. c' \<noteq> c \<and> x \<in> queues SS RS c')" if "x \<in> queues SS RS c"
    using sys_repD(5) [OF assms(1)] that by blast
  show ?thesis
    unfolding queued_upd queued_iff [of x SS RS] ls Diff_iff
    by (rule queued_eff_aux [where P = "\<lambda>c. x \<in> queues SS RS c", OF n assms(3) refl])
qed

section \<open>One parked select\<close>

text \<open>Case \<open>i\<close>'s entry is in the queue where pass 2 put it.\<close>

definition in_place :: "(nat \<Rightarrow> sid list) \<Rightarrow> (nat \<Rightarrow> sid list) \<Rightarrow> 'v scase list \<Rightarrow> (nat \<Rightarrow> sid) \<Rightarrow> nat \<Rightarrow> bool" where
  "in_place SS RS cs sd i \<longleftrightarrow>
     sd i \<in> (if is_send (cs ! i) then set (SS (case_chan (cs ! i))) else set (RS (case_chan (cs ! i))))"

definition sel_inv ::
  "'v world \<Rightarrow> (nat \<Rightarrow> sid list) \<Rightarrow> (nat \<Rightarrow> sid list) \<Rightarrow> 'v scase list \<Rightarrow> (nat \<Rightarrow> sid) \<Rightarrow> gid \<Rightarrow> coord \<Rightarrow> nat set \<Rightarrow> nat \<Rightarrow> bool" where
  "sel_inv w SS RS cs sd g k I r0 \<longleftrightarrow>
     inj_on sd I \<and> r0 \<le> length (readied w) \<and>
     (\<forall>i \<in> I. sg_coord (sgs w (sd i)) = Some k \<and> sg_g (sgs w (sd i)) = g) \<and>
     (\<forall>x \<in> queued SS RS. sg_coord (sgs w x) = Some k \<longrightarrow> x \<in> sd ` I) \<and>
     (\<forall>i \<in> I. sd i \<in> queued SS RS \<longrightarrow> in_place SS RS cs sd i) \<and>
     (if dones w k then (\<exists>!i. i \<in> I \<and> sd i \<notin> queued SS RS) \<and> g \<in> set (drop r0 (readied w))
      else (\<forall>i \<in> I. sd i \<in> queued SS RS))"

lemma distinct_filter_map_nth:
  assumes "distinct (filter P (map f xs))" "p < length xs" "r < length xs" "p \<noteq> r" "P (f (xs ! p))"
  shows "f (xs ! p) \<noteq> f (xs ! r)"
  using assms
proof (induction xs arbitrary: p r)
  case (Cons a xs)
  show ?case
  proof (cases p)
    case 0
    then obtain r' where "r = Suc r'" using Cons.prems by (cases r) auto
    with 0 Cons.prems show ?thesis by (auto split: if_splits)
  next
    case (Suc p')
    note p = this
    show ?thesis
    proof (cases r)
      case 0
      show ?thesis
      proof
        assume eq: "f ((a # xs) ! p) = f ((a # xs) ! r)"
        then have "P (f a)" "f a = f (xs ! p')" using 0 p Cons.prems by auto
        moreover have "xs ! p' \<in> set xs" using p Cons.prems by simp
        ultimately have "P (f a)" "f a \<in> f ` set xs" by simp_all
        then show False using Cons.prems(1,5) eq 0 p by simp
      qed
    next
      case (Suc r')
      with p Cons.prems Cons.IH [of p' r'] show ?thesis by (auto split: if_splits)
    qed
  qed
qed simp

lemma in_place_eff:
  assumes "sys_rep w C SS RS" "chan_eff w (SS c) (RS c) w' s' ss' rs' ls" "in_place SS RS cs sd i"
    "sd i \<in> queued (SS(c := ss')) (RS(c := rs'))" "sd i \<in> set ss' \<union> set rs' \<Longrightarrow> sd i \<in> queues SS RS c"
  shows "in_place (SS(c := ss')) (RS(c := rs')) cs sd i"
proof (cases "case_chan (cs ! i) = c")
  case False
  then show ?thesis using assms(3) by (simp add: in_place_def split: if_splits)
next
  case True
  have nl: "sd i \<notin> set ls" using queued_eff [OF assms(1,2,5)] assms(4) by blast
  have ls: "set ls = queues SS RS c - (set ss' \<union> set rs')" "set ss' \<inter> set (RS c) = {}" "set rs' \<inter> set (SS c) = {}"
    using assms(2) unfolding chan_eff_def by blast+
  show ?thesis
    using True assms(3) nl ls unfolding in_place_def by (auto split: if_splits)
qed

lemma sel_eff:
  assumes "sys_rep w C SS RS" "sel_inv w SS RS cs sd g k I r0" "chan_eff w (SS c) (RS c) w' s' ss' rs' ls"
    "\<And>x. x \<in> set ss' \<union> set rs' \<Longrightarrow> x \<notin> queues SS RS c \<Longrightarrow> x \<notin> sd ` I \<and> sg_coord (sgs w' x) \<noteq> Some k"
  shows "sel_inv w' (SS(c := ss')) (RS(c := rs')) cs sd g k I r0"
proof -
  let ?Q = "queued SS RS" and ?Q' = "queued (SS(c := ss')) (RS(c := rs'))"
  have inj: "inj_on sd I" and r0: "r0 \<le> length (readied w)"
    and iI: "\<forall>i \<in> I. sg_coord (sgs w (sd i)) = Some k \<and> sg_g (sgs w (sd i)) = g"
    and iQ: "\<forall>x \<in> ?Q. sg_coord (sgs w x) = Some k \<longrightarrow> x \<in> sd ` I"
    and iP: "\<forall>i \<in> I. sd i \<in> ?Q \<longrightarrow> in_place SS RS cs sd i"
    and iD: "dones w k \<Longrightarrow> (\<exists>!i. i \<in> I \<and> sd i \<notin> ?Q) \<and> g \<in> set (drop r0 (readied w))"
    and iN: "\<not> dones w k \<Longrightarrow> \<forall>i \<in> I. sd i \<in> ?Q"
    using assms(2) unfolding sel_inv_def by (simp_all split: if_splits)
  note e = assms(3) [unfolded chan_eff_def]
  have nadd: "sd i \<in> set ss' \<union> set rs' \<Longrightarrow> sd i \<in> queues SS RS c" if "i \<in> I" for i
    using assms(4) that by blast
  have q: "sd i \<in> ?Q' \<longleftrightarrow> sd i \<in> ?Q \<and> sd i \<notin> set ls" if "i \<in> I" for i
    by (rule queued_eff [OF assms(1,3)]) (rule nadd [OF that])
  have same: "sg_coord (sgs w' x) = sg_coord (sgs w x) \<and> sg_g (sgs w' x) = sg_g (sgs w x)"
    if "x \<in> set ss' \<union> set rs' \<Longrightarrow> x \<in> queues SS RS c" for x
  proof (cases "x \<in> queues SS RS c")
    case True
    then show ?thesis using e by blast
  next
    case False
    then have "sgs w' x = sgs w x" using e that by blast
    then show ?thesis by simp
  qed
  have co: "\<forall>i \<in> I. sg_coord (sgs w' (sd i)) = Some k \<and> sg_g (sgs w' (sd i)) = g"
  proof
    fix j assume j: "j \<in> I"
    show "sg_coord (sgs w' (sd j)) = Some k \<and> sg_g (sgs w' (sd j)) = g"
      using same [OF nadd [OF j]] iI j by simp
  qed
  have qk: "\<forall>x \<in> ?Q'. sg_coord (sgs w' x) = Some k \<longrightarrow> x \<in> sd ` I"
  proof (intro ballI impI)
    fix x assume x: "x \<in> ?Q'" "sg_coord (sgs w' x) = Some k"
    then have n: "x \<in> set ss' \<union> set rs' \<Longrightarrow> x \<in> queues SS RS c" using assms(4) by blast
    then have "x \<in> ?Q" using x(1) queued_eff [OF assms(1,3) n] by blast
    moreover have "sg_coord (sgs w x) = Some k" using same [OF n] x(2) by simp
    ultimately show "x \<in> sd ` I" using iQ by blast
  qed
  have pl: "\<forall>i \<in> I. sd i \<in> ?Q' \<longrightarrow> in_place (SS(c := ss')) (RS(c := rs')) cs sd i"
  proof (intro ballI impI)
    fix j assume j: "j \<in> I" "sd j \<in> ?Q'"
    then have "in_place SS RS cs sd j" using iP q [OF j(1)] j by blast
    then show "in_place (SS(c := ss')) (RS(c := rs')) cs sd j"
      using j(2) nadd [OF j(1)] by (rule in_place_eff [OF assms(1,3)])
  qed
  have rd: "readied w' = readied w @ map (\<lambda>x. sg_g (sgs w x)) ls" "r0 \<le> length (readied w)"
    using e r0 by blast+
  have dn: "dones w' k \<longleftrightarrow> dones w k \<or> (\<exists>x \<in> set ls. sg_coord (sgs w x) = Some k)"
    using e by blast
  have main: "if dones w' k then (\<exists>!i. i \<in> I \<and> sd i \<notin> ?Q') \<and> g \<in> set (drop r0 (readied w'))
      else (\<forall>i \<in> I. sd i \<in> ?Q')"
  proof (cases "dones w k")
    case True
    have "sd i \<notin> set ls" if "i \<in> I" for i
    proof
      assume "sd i \<in> set ls"
      then have "live w (sd i)" using e by blast
      moreover have "sg_coord (sgs w (sd i)) = Some k" using iI that by blast
      ultimately show False using True by (simp add: live_def)
    qed
    then have "(i \<in> I \<and> sd i \<notin> ?Q') \<longleftrightarrow> (i \<in> I \<and> sd i \<notin> ?Q)" for i using q [of i] by blast
    then have "(\<exists>!i. i \<in> I \<and> sd i \<notin> ?Q')" using iD [OF True] by simp
    moreover have "g \<in> set (drop r0 (readied w'))" using iD [OF True] rd by simp
    ultimately show ?thesis using True dn by simp
  next
    case False
    then have all: "\<forall>i \<in> I. sd i \<in> ?Q" by (rule iN)
    show ?thesis
    proof (cases "\<exists>x \<in> set ls. sg_coord (sgs w x) = Some k")
      case no: False
      then have "sd i \<notin> set ls" if "i \<in> I" for i using iI that by blast
      then have "\<forall>i \<in> I. sd i \<in> ?Q'" using q all by blast
      then show ?thesis using no False dn by simp
    next
      case yes: True
      then obtain x where x: "x \<in> set ls" "sg_coord (sgs w x) = Some k" by blast
      have "x \<in> queues SS RS c" using x(1) e by blast
      then have "x \<in> ?Q" unfolding queued_iff by (rule exI)
      then obtain j where j: "j \<in> I" "x = sd j" using iQ x(2) by blast
      have es: "distinct (filter (\<lambda>c. c \<noteq> None) (map (\<lambda>x. sg_coord (sgs w x)) ls))"
        using e by (elim conjE)
      have one: "y = x" if yl: "y \<in> set ls" "sg_coord (sgs w y) = Some k" for y
      proof (rule ccontr)
        assume "y \<noteq> x"
        obtain p where p: "p < length ls" "ls ! p = x" using x(1) unfolding in_set_conv_nth by blast
        obtain r where r: "r < length ls" "ls ! r = y" using yl(1) unfolding in_set_conv_nth by blast
        have "p \<noteq> r" using p r \<open>y \<noteq> x\<close> by auto
        have "sg_coord (sgs w (ls ! p)) \<noteq> sg_coord (sgs w (ls ! r))"
          by (rule distinct_filter_map_nth [OF es p(1) r(1) \<open>p \<noteq> r\<close>]) (simp add: p(2) x(2))
        then show False by (simp add: p(2) r(2) x(2) yl(2))
      qed
      have "i = j" if "i \<in> I" "sd i \<notin> ?Q'" for i
      proof -
        have "sd i \<in> set ls" using q [OF that(1)] all that by blast
        then have "sd i = x" using one iI that(1) by blast
        then show ?thesis using inj j that(1) by (simp add: inj_onD)
      qed
      moreover have "sd j \<notin> ?Q'" using q [OF j(1)] x(1) j(2) by blast
      ultimately have "\<exists>!i. i \<in> I \<and> sd i \<notin> ?Q'" using j(1) by blast
      moreover have "g \<in> set (drop r0 (readied w'))"
      proof -
        have "sg_g (sgs w x) = g" using iI j by blast
        then have "g \<in> set (map (\<lambda>x. sg_g (sgs w x)) ls)" using x(1) by auto
        then show ?thesis using rd by simp
      qed
      ultimately show ?thesis using yes dn by simp
    qed
  qed
  have "inj_on sd I" "r0 \<le> length (readied w')" using inj rd by auto
  then show ?thesis
    unfolding sel_inv_def using co qk pl main by blast
qed

end
