(* ===== verification/Select_Run.thy ===== *)
theory Select_Run
  imports Select_Inv
begin

text \<open>
  The passes of a select against the system invariant: polling, registering, and cancelling after the wake-up.
\<close>

section \<open>Cancelling\<close>

lemma set_chan_simps [simp]:
  "nil (set_chan C c s c') = nil (C c')" "set_chan C c s c = (C c)\<lparr>state := s\<rparr>"
  "c' \<noteq> c \<Longrightarrow> set_chan C c s c' = C c'"
  by (simp_all add: set_chan_def)

text \<open>A change that only takes entries out of one channel's queues keeps the system invariant.\<close>

lemma sys_shrink:
  assumes "sys_rep w C SS RS" "\<not> nil (C c)" "chan_rep w' s' ss' rs'" "set ss' \<subseteq> set (SS c)" "set rs' \<subseteq> set (RS c)"
    "dones w' = dones w" "\<And>y. payload (sgs w' y) = payload (sgs w y)"
    "\<And>y. y \<notin> queues SS RS c \<Longrightarrow> sgs w' y = sgs w y"
    "cap s' = cap (state (C c))" "closed s' = closed (state (C c))" "buf s' = buf (state (C c))"
  shows "sys_rep w' (set_chan C c s') (SS(c := ss')) (RS(c := rs'))"
  unfolding sys_rep_def
proof (intro conjI allI impI)
  fix c'
  have lv: "live w' y = live w y" for y by (rule live_payload) (rule assms(6,7))+
  show "if nil (set_chan C c s' c') then (SS(c := ss')) c' = [] \<and> (RS(c := rs')) c' = []
        else chan_rep w' (state (set_chan C c s' c')) ((SS(c := ss')) c') ((RS(c := rs')) c') \<and>
             chan_inv w' (state (set_chan C c s' c')) ((SS(c := ss')) c') ((RS(c := rs')) c')"
  proof (cases "c' = c")
    case True
    have "chan_inv w' s' ss' rs'"
      by (rule chan_inv_fewer [OF sys_repD(2) [OF assms(1,2)] assms(4,5)])
        (use lv assms(7) in \<open>simp_all add: assms(9-11) payload_eq_iff del: length_ring_list\<close>)
    with True assms(2,3) show ?thesis by simp
  next
    case False
    have f: "sgs w' y = sgs w y" if "y \<in> queues SS RS c'" for y
      using sys_repD(5) [OF assms(1) False] that by (intro assms(8)) blast
    show ?thesis
    proof (cases "nil (C c')")
      case True
      then show ?thesis using False sys_repD(3,4) [OF assms(1) True] by simp
    next
      case n: False
      have "chan_rep w' (state (C c')) (SS c') (RS c')"
        by (rule chan_rep_other [OF sys_repD(1) [OF assms(1) n]]) (rule f)
      moreover have "chan_inv w' (state (C c')) (SS c') (RS c')"
        by (rule chan_inv_dones [OF sys_repD(2) [OF assms(1) n]]) (simp_all add: assms(6,7))
      ultimately show ?thesis using False n by simp
    qed
  qed
next
  fix c1 c2 :: nat assume "c1 \<noteq> c2"
  moreover have "queues (SS(c := ss')) (RS(c := rs')) d \<subseteq> queues SS RS d" for d
    using assms(4,5) by (cases "d = c") auto
  ultimately show "queues (SS(c := ss')) (RS(c := rs')) c1 \<inter> queues (SS(c := ss')) (RS(c := rs')) c2 = {}"
    using sys_repD(5) [OF assms(1), of c1 c2] by blast
qed

text \<open>Cancelling case \<open>i\<close> finds its entry exactly if it is still in place, and takes out nothing else.\<close>

lemma select_cancel_spec:
  assumes "sys_rep w C SS RS" "\<not> nil (C (case_chan (cs ! i)))"
  shows "\<exists>w' C' SS' RS'. select_cancel w C sd cs i = Some (w', C', \<not> in_place SS RS cs sd i) \<and>
           sys_rep w' C' SS' RS' \<and> (\<forall>c. nil (C' c) = nil (C c)) \<and>
           dones w' = dones w \<and> readied w' = readied w \<and> (\<forall>y. payload (sgs w' y) = payload (sgs w y)) \<and>
           (\<forall>c. set (SS' c) \<subseteq> set (SS c) \<and> set (RS' c) \<subseteq> set (RS c)) \<and>
           (\<forall>c y. y \<noteq> sd i \<longrightarrow> (y \<in> set (SS' c) \<longleftrightarrow> y \<in> set (SS c)) \<and> (y \<in> set (RS' c) \<longleftrightarrow> y \<in> set (RS c)))"
proof -
  let ?c = "case_chan (cs ! i)"
  have rep: "chan_rep w (state (C ?c)) (SS ?c) (RS ?c)" by (rule sys_repD(1) [OF assms])
  have d: "distinct (SS ?c)" "distinct (RS ?c)" using rep by (simp_all add: chan_rep_def sq_rep_def)
  show ?thesis
  proof (cases "is_send (cs ! i)")
    case True
    obtain w' s' where c: "cancel_send w (state (C ?c)) (sd i) = Some (w', s', sd i \<in> set (SS ?c))"
      "chan_rep w' s' (remove1 (sd i) (SS ?c)) (RS ?c)" "dones w' = dones w" "readied w' = readied w"
      "\<forall>y. payload (sgs w' y) = payload (sgs w y)" "\<forall>y. y \<notin> set (SS ?c) \<longrightarrow> sgs w' y = sgs w y"
      "cap s' = cap (state (C ?c))" "closed s' = closed (state (C ?c))" "buf s' = buf (state (C ?c))"
      using cancel_send_spec [OF rep] by blast
    have "sys_rep w' (set_chan C ?c s') (SS(?c := remove1 (sd i) (SS ?c))) (RS(?c := RS ?c))"
      by (rule sys_shrink [OF assms c(2)]) (use c in \<open>auto simp: set_remove1_subset\<close>)
    moreover have "select_cancel w C sd cs i = Some (w', set_chan C ?c s', \<not> in_place SS RS cs sd i)"
      using True assms(2) c(1) by (simp add: select_cancel_def in_place_def Let_def)
    ultimately show ?thesis
      using c(3-5) d by (intro exI [of _ w'] exI [of _ "set_chan C ?c s'"]
          exI [of _ "SS(?c := remove1 (sd i) (SS ?c))"] exI [of _ RS]) (auto simp: set_remove1_subset)
  next
    case False
    obtain w' s' where c: "cancel_recv w (state (C ?c)) (sd i) = Some (w', s', sd i \<in> set (RS ?c))"
      "chan_rep w' s' (SS ?c) (remove1 (sd i) (RS ?c))" "dones w' = dones w" "readied w' = readied w"
      "\<forall>y. payload (sgs w' y) = payload (sgs w y)" "\<forall>y. y \<notin> set (RS ?c) \<longrightarrow> sgs w' y = sgs w y"
      "cap s' = cap (state (C ?c))" "closed s' = closed (state (C ?c))" "buf s' = buf (state (C ?c))"
      using cancel_recv_spec [OF rep] by blast
    have "sys_rep w' (set_chan C ?c s') (SS(?c := SS ?c)) (RS(?c := remove1 (sd i) (RS ?c)))"
      by (rule sys_shrink [OF assms c(2)]) (use c in \<open>auto simp: set_remove1_subset\<close>)
    moreover have "select_cancel w C sd cs i = Some (w', set_chan C ?c s', \<not> in_place SS RS cs sd i)"
      using False assms(2) c(1) by (simp add: select_cancel_def in_place_def Let_def)
    ultimately show ?thesis
      using c(3-5) d by (intro exI [of _ w'] exI [of _ "set_chan C ?c s'"]
          exI [of _ SS] exI [of _ "RS(?c := remove1 (sd i) (RS ?c))"]) (auto simp: set_remove1_subset)
  qed
qed

lemma select_cancel_all_spec:
  assumes "sys_rep w C SS RS" "distinct is" "inj_on sd (set is)"
  shows "\<exists>w' C' SS' RS'. select_cancel_all w C sd cs is ws =
             Some (w', C', ws @ filter (\<lambda>i. \<not> nil (C (case_chan (cs ! i))) \<and> \<not> in_place SS RS cs sd i) is) \<and>
           sys_rep w' C' SS' RS' \<and> (\<forall>y. payload (sgs w' y) = payload (sgs w y)) \<and> dones w' = dones w"
  using assms
proof (induction "is" arbitrary: w C SS RS ws)
  case Nil
  then show ?case by auto
next
  case (Cons i js)
  have ij: "i \<notin> set js" "distinct js" "inj_on sd (set js)" using Cons.prems(2,3) by auto
  have sd: "sd j \<noteq> sd i" if "j \<in> set js" for j
    using Cons.prems(3) that ij(1) by (auto simp: inj_on_def)
  show ?case
  proof (cases "nil (C (case_chan (cs ! i)))")
    case True
    then show ?thesis
      using Cons.IH [OF Cons.prems(1) ij(2,3), of ws] by (simp add: select_cancel_def)
  next
    case False
    obtain w1 C1 SS1 RS1 where c: "select_cancel w C sd cs i = Some (w1, C1, \<not> in_place SS RS cs sd i)"
      "sys_rep w1 C1 SS1 RS1" "\<forall>c. nil (C1 c) = nil (C c)" "dones w1 = dones w"
      "\<forall>y. payload (sgs w1 y) = payload (sgs w y)"
      "\<forall>c y. y \<noteq> sd i \<longrightarrow> (y \<in> set (SS1 c) \<longleftrightarrow> y \<in> set (SS c)) \<and> (y \<in> set (RS1 c) \<longleftrightarrow> y \<in> set (RS c))"
      using select_cancel_spec [OF Cons.prems(1) False, of sd] by blast
    have p: "in_place SS1 RS1 cs sd j = in_place SS RS cs sd j" if "j \<in> set js" for j
      using c(6) sd [OF that] by (simp add: in_place_def)
    have f: "filter (\<lambda>j. \<not> nil (C1 (case_chan (cs ! j))) \<and> \<not> in_place SS1 RS1 cs sd j) js =
        filter (\<lambda>j. \<not> nil (C (case_chan (cs ! j))) \<and> \<not> in_place SS RS cs sd j) js"
      using c(3) p by (intro filter_cong) auto
    let ?ws = "if \<not> in_place SS RS cs sd i then ws @ [i] else ws"
    obtain w2 C2 SS2 RS2 where r: "select_cancel_all w1 C1 sd cs js ?ws = Some (w2, C2, ?ws @
          filter (\<lambda>j. \<not> nil (C (case_chan (cs ! j))) \<and> \<not> in_place SS RS cs sd j) js)"
      "sys_rep w2 C2 SS2 RS2" "\<forall>y. payload (sgs w2 y) = payload (sgs w1 y)" "dones w2 = dones w1"
      using Cons.IH [OF c(2) ij(2,3), of ?ws] unfolding f by blast
    have "select_cancel_all w C sd cs (i # js) ws = Some (w2, C2, ws @
        filter (\<lambda>j. \<not> nil (C (case_chan (cs ! j))) \<and> \<not> in_place SS RS cs sd j) (i # js))"
      using c(1) r(1) False by simp
    moreover have "(\<forall>y. payload (sgs w2 y) = payload (sgs w y)) \<and> dones w2 = dones w"
      using c(4,5) r(3,4) by simp
    ultimately show ?thesis using r(2) by blast
  qed
qed

section \<open>Polling\<close>

text \<open>Case \<open>p\<close> cannot proceed; only entries of coordinator \<open>k\<close> wait on the other side.\<close>

definition blocked :: "'v world \<Rightarrow> 'v chans \<Rightarrow> (nat \<Rightarrow> sid list) \<Rightarrow> (nat \<Rightarrow> sid list) \<Rightarrow> coord \<Rightarrow> 'v scase \<Rightarrow> bool" where
  "blocked w C SS RS k p \<longleftrightarrow>
     \<not> closed (state (C (case_chan p))) \<and>
     (if is_send p
      then length (ring_list (buf (state (C (case_chan p))))) = cap (state (C (case_chan p))) \<and>
           (\<forall>y \<in> set (RS (case_chan p)). live w y \<longrightarrow> sg_coord (sgs w y) = Some k)
      else ring_list (buf (state (C (case_chan p)))) = [] \<and>
           (\<forall>y \<in> set (SS (case_chan p)). live w y \<longrightarrow> sg_coord (sgs w y) = Some k))"

definition same_status :: "'v chans \<Rightarrow> 'v chans \<Rightarrow> bool" where
  "same_status C C' \<longleftrightarrow>
     (\<forall>c. nil (C' c) = nil (C c) \<and> closed (state (C' c)) = closed (state (C c)) \<and> cap (state (C' c)) = cap (state (C c)) \<and>
          ring_list (buf (state (C' c))) = ring_list (buf (state (C c))))"

lemma same_status_refl [simp]: "same_status C C"
  by (simp add: same_status_def)

lemma same_status_trans: "same_status C C' \<Longrightarrow> same_status C' C'' \<Longrightarrow> same_status C C''"
  by (simp add: same_status_def)

lemma blocked_same_status: "same_status C C' \<Longrightarrow> blocked w C' SS RS k p = blocked w C SS RS k p"
  by (simp add: same_status_def blocked_def del: length_ring_list)

text \<open>What one pass may do to the other goroutines' parked selects: nothing but decide them properly.\<close>

definition keeps_sels :: "'v world \<Rightarrow> (nat \<Rightarrow> sid list) \<Rightarrow> (nat \<Rightarrow> sid list) \<Rightarrow>
    'v world \<Rightarrow> (nat \<Rightarrow> sid list) \<Rightarrow> (nat \<Rightarrow> sid list) \<Rightarrow> coord set \<Rightarrow> sid set \<Rightarrow> bool" where
  "keeps_sels w SS RS w' SS' RS' K X \<longleftrightarrow>
     (\<forall>cs sd g k I r0. k \<notin> K \<and> sd ` I \<inter> X = {} \<and> sel_inv (w :: 'v world) SS RS (cs :: 'v scase list) sd g k I r0 \<longrightarrow>
        sel_inv w' SS' RS' cs sd g k I r0)"

lemma keeps_selsD:
  assumes "keeps_sels w SS RS w' SS' RS' K X" "k \<notin> K" "sd ` I \<inter> X = {}" "sel_inv w SS RS cs sd g k I r0"
  shows "sel_inv w' SS' RS' cs sd g k I r0"
  using assms unfolding keeps_sels_def by simp

lemma keeps_selsI:
  assumes "\<And>cs sd g k I r0. k \<notin> K \<Longrightarrow> sd ` I \<inter> X = {} \<Longrightarrow> sel_inv (w :: 'v world) SS RS (cs :: 'v scase list) sd g k I r0 \<Longrightarrow>
    sel_inv w' SS' RS' cs sd g k I r0"
  shows "keeps_sels w SS RS w' SS' RS' K X"
  using assms unfolding keeps_sels_def by simp

lemma keeps_sels_refl: "keeps_sels w SS RS w SS RS K X"
  by (rule keeps_selsI)

lemma keeps_sels_trans:
  assumes "keeps_sels w SS RS w1 SS1 RS1 K X" "keeps_sels w1 SS1 RS1 w2 SS2 RS2 K X"
  shows "keeps_sels w SS RS w2 SS2 RS2 K X"
  by (rule keeps_selsI) (rule keeps_selsD [OF assms(2) _ _ keeps_selsD [OF assms(1)]])

lemma keeps_sels_eff:
  assumes "sys_rep w C SS RS" "chan_eff w (SS c) (RS c) w' s' ss' rs' ls"
    "\<And>x. x \<in> set ss' \<union> set rs' \<Longrightarrow> x \<notin> queues SS RS c \<Longrightarrow> x \<in> X \<and> (\<forall>k. sg_coord (sgs w' x) = Some k \<longrightarrow> k \<in> K)"
  shows "keeps_sels w SS RS w' (SS(c := ss')) (RS(c := rs')) K X"
proof (rule keeps_selsI)
  fix cs :: "'a scase list" and sd g k I r0
  assume a: "k \<notin> K" "sd ` I \<inter> X = {}" "sel_inv w SS RS cs sd g k I r0"
  show "sel_inv w' (SS(c := ss')) (RS(c := rs')) cs sd g k I r0"
  proof (rule sel_eff [OF assms(1) a(3) assms(2)])
    fix x assume "x \<in> set ss' \<union> set rs'" "x \<notin> queues SS RS c"
    from assms(3) [OF this] a(1,2) show "x \<notin> sd ` I \<and> sg_coord (sgs w' x) \<noteq> Some k" by blast
  qed
qed

text \<open>One polled receive or send case.\<close>

lemma poll_recv_case:
  assumes "sys_rep w C SS RS" "\<not> nil (C c)" "case_chan p = c" "\<not> is_send p"
  shows "\<exists>w' s' r SS' RS'. try_recv_locked d w (state (C c)) = Some (Done (w', s', r)) \<and>
           sys_rep w' (set_chan C c s') SS' RS' \<and> keeps_sels w SS RS w' SS' RS' {} {} \<and>
           (r = None \<longrightarrow> w' = w \<and> SS' = SS \<and> RS' = RS \<and> same_status C (set_chan C c s') \<and> blocked w C SS RS k p)"
proof -
  note ri = sys_repD(1,2) [OF assms(1,2)]
  obtain w' s' r ss' ls where t: "try_recv_locked d w (state (C c)) = Some (Done (w', s', r))"
    "chan_eff w (SS c) (RS c) w' s' ss' (RS c) ls" "set ss' \<subseteq> set (SS c)" "closed s' = closed (state (C c))"
    "cap s' = cap (state (C c))"
    "r = None \<longrightarrow> w' = w \<and> ss' = SS c \<and> ring_list (buf (state (C c))) = [] \<and> ring_list (buf s') = [] \<and>
       \<not> closed (state (C c)) \<and> (\<forall>y \<in> set (SS c). \<not> live w y)"
    using try_recv_locked_eff [OF ri, of d] by blast
  have sub: "set ss' \<union> set (RS c) \<subseteq> queues SS RS c" using t(3) by blast
  have "sys_rep w' (set_chan C c s') (SS(c := ss')) (RS(c := RS c))"
    by (rule sys_eff [OF assms(1,2) t(2)]) (use sub sys_repD(5) [OF assms(1)] in blast)
  moreover have "keeps_sels w SS RS w' (SS(c := ss')) (RS(c := RS c)) {} {}"
    by (rule keeps_sels_eff [OF assms(1) t(2)]) (use sub in blast)
  moreover have "w' = w \<and> SS(c := ss') = SS \<and> RS(c := RS c) = RS \<and> same_status C (set_chan C c s') \<and>
      blocked w C SS RS k p" if "r = None"
    using t(4-6) that assms(3,4) by (auto simp: same_status_def set_chan_def blocked_def)
  ultimately show ?thesis using t(1) by blast
qed

lemma poll_send_case:
  assumes "sys_rep w C SS RS" "\<not> nil (C c)" "\<not> closed (state (C c))" "case_chan p = c" "is_send p"
  shows "\<exists>w' s' r SS' RS'. try_send_locked w (state (C c)) v = Some (Done (w', s', r)) \<and>
           sys_rep w' (set_chan C c s') SS' RS' \<and> keeps_sels w SS RS w' SS' RS' {} {} \<and>
           (r \<noteq> Inr () \<longrightarrow> w' = w \<and> SS' = SS \<and> RS' = RS \<and> same_status C (set_chan C c s') \<and> blocked w C SS RS k p)"
proof -
  note ri = sys_repD(1,2) [OF assms(1,2)]
  obtain w' s' r rs' ls where t: "try_send_locked w (state (C c)) v = Some (Done (w', s', r))"
    "chan_eff w (SS c) (RS c) w' s' (SS c) rs' ls" "set rs' \<subseteq> set (RS c)"
    "r \<noteq> Inr () \<longrightarrow> r = Inl v \<and> w' = w \<and> s' = state (C c) \<and> rs' = RS c \<and> (\<forall>y \<in> set (RS c). \<not> live w y) \<and>
       length (ring_list (buf (state (C c)))) = cap (state (C c))"
    using try_send_locked_eff [OF ri assms(3), of v] by blast
  have sub: "set (SS c) \<union> set rs' \<subseteq> queues SS RS c" using t(3) by blast
  have "sys_rep w' (set_chan C c s') (SS(c := SS c)) (RS(c := rs'))"
    by (rule sys_eff [OF assms(1,2) t(2)]) (use sub sys_repD(5) [OF assms(1)] in blast)
  moreover have "keeps_sels w SS RS w' (SS(c := SS c)) (RS(c := rs')) {} {}"
    by (rule keeps_sels_eff [OF assms(1) t(2)]) (use sub in blast)
  moreover have "w' = w \<and> SS(c := SS c) = SS \<and> RS(c := rs') = RS \<and> same_status C (set_chan C c s') \<and>
      blocked w C SS RS k p" if "r \<noteq> Inr ()"
    using t(4) that assms(3-5) by (auto simp: same_status_def set_chan_def blocked_def)
  ultimately show ?thesis using t(1) by blast
qed

lemma select_poll_step:
  assumes "sys_rep w C SS RS" "\<not> nil (C (case_chan (cs ! i)))"
    "\<not> (is_send (cs ! i) \<and> closed (state (C (case_chan (cs ! i)))))"
  obtains w1 s1 SS1 RS1 res1 where
    "sys_rep w1 (set_chan C (case_chan (cs ! i)) s1) SS1 RS1" "keeps_sels w SS RS w1 SS1 RS1 {} {}"
    "res1 \<noteq> None \<longrightarrow> select_poll d w C cs (i # ord) = Some (Done (w1, set_chan C (case_chan (cs ! i)) s1, res1))"
    "res1 = None \<longrightarrow> select_poll d w C cs (i # ord) = select_poll d w1 (set_chan C (case_chan (cs ! i)) s1) cs ord"
    "res1 = None \<longrightarrow> w1 = w \<and> SS1 = SS \<and> RS1 = RS \<and> same_status C (set_chan C (case_chan (cs ! i)) s1) \<and>
       blocked w C SS RS k (cs ! i)"
proof (cases "is_send (cs ! i)")
  case True
  let ?c = "case_chan (cs ! i)"
  obtain v where p: "cs ! i = SendCase ?c v" using True by (cases "cs ! i") auto
  obtain w' s' r SS' RS' where t: "try_send_locked w (state (C ?c)) v = Some (Done (w', s', r))"
    "sys_rep w' (set_chan C ?c s') SS' RS'" "keeps_sels w SS RS w' SS' RS' {} {}"
    "r \<noteq> Inr () \<longrightarrow> w' = w \<and> SS' = SS \<and> RS' = RS \<and> same_status C (set_chan C ?c s') \<and> blocked w C SS RS k (cs ! i)"
    using poll_send_case [OF assms(1,2) _ refl True, of v k] assms(3) True by blast
  have e: "select_poll d w C cs (i # ord) =
      (case r of Inr _ \<Rightarrow> Some (Done (w', set_chan C ?c s', Some (i, None)))
       | Inl _ \<Rightarrow> select_poll d w' (set_chan C ?c s') cs ord)"
    using t(1) assms(2) by (subst select_poll.simps, subst (2) p) (simp add: Let_def)
  show ?thesis
    by (rule that [of w' s' SS' RS' "if r = Inr () then Some (i, None) else None"])
      (use t e in \<open>auto split: sum.splits if_splits\<close>)
next
  case False
  let ?c = "case_chan (cs ! i)"
  obtain w' s' r SS' RS' where t: "try_recv_locked d w (state (C ?c)) = Some (Done (w', s', r))"
    "sys_rep w' (set_chan C ?c s') SS' RS'" "keeps_sels w SS RS w' SS' RS' {} {}"
    "r = None \<longrightarrow> w' = w \<and> SS' = SS \<and> RS' = RS \<and> same_status C (set_chan C ?c s') \<and> blocked w C SS RS k (cs ! i)"
    using poll_recv_case [OF assms(1,2) refl False, of d k] by blast
  have e: "select_poll d w C cs (i # ord) =
      (case r of Some p \<Rightarrow> Some (Done (w', set_chan C ?c s', Some (i, Some p)))
       | None \<Rightarrow> select_poll d w' (set_chan C ?c s') cs ord)"
    using t(1) assms(2) False by (cases "cs ! i"; cases r) (simp_all add: Let_def)
  show ?thesis
    by (rule that [of w' s' SS' RS' "map_option (\<lambda>p. (i, Some p)) r"])
      (use t e in \<open>auto split: option.splits\<close>)
qed

lemma select_poll_spec:
  assumes "sys_rep w C SS RS" "\<forall>i \<in> set ord. i < length cs"
  shows "(select_poll d w C cs ord = Some (Fatal ''goish: chan: send on closed channel'') \<and>
            (\<exists>i \<in> set ord. is_send (cs ! i) \<and> closed (state (C (case_chan (cs ! i)))))) \<or>
         (\<exists>w' C' res SS' RS'. select_poll d w C cs ord = Some (Done (w', C', res)) \<and>
            sys_rep w' C' SS' RS' \<and> (\<forall>c. nil (C' c) = nil (C c)) \<and> keeps_sels w SS RS w' SS' RS' {} {} \<and>
            (res = None \<longrightarrow> w' = w \<and> SS' = SS \<and> RS' = RS \<and> same_status C C' \<and>
               (\<forall>i \<in> set ord. \<not> nil (C (case_chan (cs ! i))) \<longrightarrow> blocked w C SS RS k (cs ! i))))"
  using assms
proof (induction ord arbitrary: C)
  case Nil
  then show ?case
    by (intro disjI2 exI [of _ w] exI [of _ C] exI [of _ None] exI [of _ SS] exI [of _ RS])
      (simp add: keeps_sels_refl)
next
  case (Cons i ord)
  let ?p = "cs ! i" let ?c = "case_chan ?p"
  have o: "\<forall>i \<in> set ord. i < length cs" using Cons.prems(2) by simp
  show ?case
  proof (cases "nil (C ?c)")
    case True
    then have "select_poll d w C cs (i # ord) = select_poll d w C cs ord" by (simp add: Let_def)
    with Cons.IH [OF Cons.prems(1) o] True show ?thesis by simp blast
  next
    case nn: False
    show ?thesis
    proof (cases "is_send ?p \<and> closed (state (C ?c))")
      case True
      then have "select_poll d w C cs (i # ord) = Some (Fatal ''goish: chan: send on closed channel'')"
        using nn by (cases ?p) (simp_all add: Let_def try_send_locked_def)
      with True show ?thesis by auto
    next
      case False
      obtain w1 s1 SS1 RS1 res1 where st:
        "sys_rep w1 (set_chan C ?c s1) SS1 RS1" "keeps_sels w SS RS w1 SS1 RS1 {} {}"
        "res1 \<noteq> None \<longrightarrow> select_poll d w C cs (i # ord) = Some (Done (w1, set_chan C ?c s1, res1))"
        "res1 = None \<longrightarrow> select_poll d w C cs (i # ord) = select_poll d w1 (set_chan C ?c s1) cs ord"
        "res1 = None \<longrightarrow> w1 = w \<and> SS1 = SS \<and> RS1 = RS \<and> same_status C (set_chan C ?c s1) \<and> blocked w C SS RS k ?p"
        by (rule select_poll_step [OF Cons.prems(1) nn False, where d = d and ord = ord and k = k])
      show ?thesis
      proof (cases res1)
        case (Some r)
        then show ?thesis
          using st(1-3) by (intro disjI2 exI [of _ w1] exI [of _ "set_chan C ?c s1"] exI [of _ res1]
              exI [of _ SS1] exI [of _ RS1]) simp
      next
        case None
        note n = mp [OF st(5) None]
        have rep: "sys_rep w (set_chan C ?c s1) SS RS" using st(1) n by simp
        have ss: "same_status C (set_chan C ?c s1)" using n by simp
        have b: "blocked w (set_chan C ?c s1) SS RS k q = blocked w C SS RS k q" for q
          by (rule blocked_same_status [OF ss])
        have e: "select_poll d w C cs (i # ord) = select_poll d w (set_chan C ?c s1) cs ord"
          using mp [OF st(4) None] n by simp
        from Cons.IH [OF rep o] show ?thesis
        proof
          assume "select_poll d w (set_chan C ?c s1) cs ord = Some (Fatal ''goish: chan: send on closed channel'') \<and>
            (\<exists>j \<in> set ord. is_send (cs ! j) \<and> closed (state (set_chan C ?c s1 (case_chan (cs ! j)))))"
          then show ?thesis using e ss unfolding same_status_def by auto
        next
          assume "\<exists>w' C' res SS' RS'. select_poll d w (set_chan C ?c s1) cs ord = Some (Done (w', C', res)) \<and>
            sys_rep w' C' SS' RS' \<and> (\<forall>c. nil (C' c) = nil (set_chan C ?c s1 c)) \<and> keeps_sels w SS RS w' SS' RS' {} {} \<and>
            (res = None \<longrightarrow> w' = w \<and> SS' = SS \<and> RS' = RS \<and> same_status (set_chan C ?c s1) C' \<and>
               (\<forall>i \<in> set ord. \<not> nil (set_chan C ?c s1 (case_chan (cs ! i))) \<longrightarrow> blocked w (set_chan C ?c s1) SS RS k (cs ! i)))"
          then obtain w' C' res SS' RS' where r: "select_poll d w (set_chan C ?c s1) cs ord = Some (Done (w', C', res))"
            "sys_rep w' C' SS' RS'" "\<forall>c. nil (C' c) = nil (C c)" "keeps_sels w SS RS w' SS' RS' {} {}"
            "res = None \<longrightarrow> w' = w \<and> SS' = SS \<and> RS' = RS \<and> same_status (set_chan C ?c s1) C' \<and>
               (\<forall>i \<in> set ord. \<not> nil (C (case_chan (cs ! i))) \<longrightarrow> blocked w C SS RS k (cs ! i))"
            unfolding b by auto
          have "res = None \<longrightarrow> same_status C C'" using r(5) same_status_trans [OF ss] by blast
          with r e n show ?thesis
            by (intro disjI2 exI [of _ w'] exI [of _ C'] exI [of _ res] exI [of _ SS'] exI [of _ RS']) simp
        qed
      qed
    qed
  qed
qed

section \<open>Registering\<close>

lemma emit_order_set: "set (emit_order cs) = {..<length cs}"
proof -
  have "is_bare p \<or> is_pat p \<or> is_send p" for p :: "'a scase" by (cases p) simp_all
  then show ?thesis by (auto simp: emit_order_def)
qed

lemma emit_order_distinct: "distinct (emit_order cs)"
proof -
  have "\<not> (is_bare p \<and> is_pat p)" "\<not> (is_bare p \<and> is_send p)" "\<not> (is_pat p \<and> is_send p)" for p :: "'a scase"
    by (cases p; simp)+
  then show ?thesis by (auto simp: emit_order_def)
qed

lemma fold_upd_notin: "y \<notin> sd ` set is \<Longrightarrow> fold (\<lambda>i h. h(sd i := f i)) is h y = h y"
  by (induction "is" arbitrary: h) auto

lemma fold_upd_in:
  assumes "distinct is" "inj_on sd (set is)" "i \<in> set is"
  shows "fold (\<lambda>i h. h(sd i := f i)) is h (sd i) = f i"
  using assms
proof (induction "is" arbitrary: h)
  case (Cons j js)
  show ?case
  proof (cases "i = j")
    case True
    have "sd i \<notin> sd ` set js" using Cons.prems True by (auto simp: inj_on_def)
    then show ?thesis
      unfolding True list.simps fold_simps using fold_upd_notin [of "sd j" sd js f "h(sd j := f j)"] True by simp
  next
    case False
    then show ?thesis using Cons by simp
  qed
qed simp

lemma select_alloc_sgs:
  assumes "inj_on sd {..<length cs}"
  shows "i < length cs \<Longrightarrow> sgs (select_alloc w g k sd cs) (sd i) = case_sudog g k (cs ! i)"
    "y \<notin> sd ` {..<length cs} \<Longrightarrow> sgs (select_alloc w g k sd cs) y = sgs w y"
    "dones (select_alloc w g k sd cs) = (dones w)(k := False)" "readied (select_alloc w g k sd cs) = readied w"
proof -
  have i: "inj_on sd (set (emit_order cs))" using assms by (simp add: emit_order_set)
  show "sgs (select_alloc w g k sd cs) (sd i) = case_sudog g k (cs ! i)" if "i < length cs"
    using fold_upd_in [OF emit_order_distinct i, of i "\<lambda>i. case_sudog g k (cs ! i)" "sgs w"] that
    by (simp add: select_alloc_def emit_order_set)
  show "sgs (select_alloc w g k sd cs) y = sgs w y" if "y \<notin> sd ` {..<length cs}"
    using fold_upd_notin [of y sd "emit_order cs" "\<lambda>i. case_sudog g k (cs ! i)" "sgs w"] that
    by (simp add: select_alloc_def emit_order_set)
qed (simp_all add: select_alloc_def)

lemma select_alloc_spec:
  fixes g :: gid
  assumes "sys_rep w C SS RS" "inj_on sd {..<length cs}" "sd ` {..<length cs} \<inter> queued SS RS = {}"
    "\<forall>x \<in> queued SS RS. sg_coord (sgs w x) \<noteq> Some k"
  defines "w1 \<equiv> select_alloc w g k sd cs"
  shows "sys_rep w1 C SS RS" "keeps_sels w SS RS w1 SS RS {k} (sd ` {..<length cs})"
    "x \<in> queued SS RS \<Longrightarrow> sgs w1 x = sgs w x" "x \<in> queued SS RS \<Longrightarrow> live w1 x = live w x"
proof -
  note a = select_alloc_sgs [OF assms(2), where w = w and g = g and k = k, folded w1_def]
  have f: "sgs w1 x = sgs w x" if "x \<in> queued SS RS" for x
    using that assms(3) by (intro a(2)) blast
  then show "x \<in> queued SS RS \<Longrightarrow> sgs w1 x = sgs w x" .
  have lv: "live w1 x = live w x" if "x \<in> queued SS RS" for x
    using f [OF that] assms(4) that a(3) by (auto simp: live_def split: option.splits)
  then show "x \<in> queued SS RS \<Longrightarrow> live w1 x = live w x" .
  have sub: "queues SS RS c \<subseteq> queued SS RS" for c unfolding queued_def by blast
  show "sys_rep w1 C SS RS"
    unfolding sys_rep_def
  proof (intro conjI allI impI)
    fix c
    show "if nil (C c) then SS c = [] \<and> RS c = []
          else chan_rep w1 (state (C c)) (SS c) (RS c) \<and> chan_inv w1 (state (C c)) (SS c) (RS c)"
    proof (cases "nil (C c)")
      case True
      then show ?thesis using sys_repD(3,4) [OF assms(1) True] by simp
    next
      case n: False
      have "chan_rep w1 (state (C c)) (SS c) (RS c)"
        by (rule chan_rep_other [OF sys_repD(1) [OF assms(1) n]]) (use f sub in blast)
      moreover have "chan_inv w1 (state (C c)) (SS c) (RS c)"
      proof (rule chan_inv_fewer [OF sys_repD(2) [OF assms(1) n]])
        fix x assume "x \<in> queues SS RS c"
        then have "x \<in> queued SS RS" using sub by blast
        then show "live w1 x \<Longrightarrow> live w x" "sg_coord (sgs w1 x) = sg_coord (sgs w x)" using lv f by auto
      next
        fix x assume "x \<in> set (SS c)"
        then have "x \<in> queued SS RS" using sub by blast
        then show "sg_value (sgs w1 x) = sg_value (sgs w x)" using f by simp
      qed simp_all
      ultimately show ?thesis using n by simp
    qed
  next
    fix c1 c2 :: nat assume "c1 \<noteq> c2"
    then show "queues SS RS c1 \<inter> queues SS RS c2 = {}" by (rule sys_repD(5) [OF assms(1)])
  qed
  show "keeps_sels w SS RS w1 SS RS {k} (sd ` {..<length cs})"
  proof (rule keeps_selsI)
    fix cs' :: "'a scase list" and sd' g' k' I r0
    assume h: "k' \<notin> {k}" "sd' ` I \<inter> sd ` {..<length cs} = {}" "sel_inv w SS RS cs' sd' g' k' I r0"
    have "sgs w1 (sd' i) = sgs w (sd' i)" if "i \<in> I" for i
      using that h(2) by (intro a(2)) blast
    moreover have "dones w1 k' = dones w k'" using h(1) a(3) by simp
    ultimately show "sel_inv w1 SS RS cs' sd' g' k' I r0"
      using h(3) f a(4) unfolding sel_inv_def by simp
  qed
qed

lemma blocked_register:
  assumes "blocked w C SS RS k p" "same_status C C'" "dones w' = dones w" "\<And>y. payload (sgs w' y) = payload (sgs w y)"
    "\<And>c y. y \<in> set (SS' c) \<Longrightarrow> y \<in> set (SS c) \<or> sg_coord (sgs w y) = Some k"
    "\<And>c y. y \<in> set (RS' c) \<Longrightarrow> y \<in> set (RS c) \<or> sg_coord (sgs w y) = Some k"
  shows "blocked w' C' SS' RS' k p"
proof -
  have lv: "live w' y = live w y" for y by (rule live_payload) (rule assms(3,4))+
  have co: "sg_coord (sgs w' y) = sg_coord (sgs w y)" for y using assms(4) [of y] by (simp add: payload_eq_iff)
  have "blocked w C' SS RS k p" using assms(1) blocked_same_status [OF assms(2)] by simp
  then show ?thesis
    using assms(5) [of _ "case_chan p"] assms(6) [of _ "case_chan p"] unfolding blocked_def lv co
    by (cases "is_send p") (simp_all del: length_ring_list, blast+)
qed

text \<open>One registration.\<close>

lemma register_case:
  assumes "sys_rep w C SS RS" "\<not> nil (C (case_chan (cs ! i)))" "sd i \<notin> queued SS RS"
    "sg_coord (sgs w (sd i)) = Some k" "is_send (cs ! i) \<Longrightarrow> sg_value (sgs w (sd i)) \<noteq> None"
    "blocked w C SS RS k (cs ! i)"
  shows "\<exists>w' s' SS' RS'. select_register w C sd cs (i # is) = select_register w' (set_chan C (case_chan (cs ! i)) s') sd cs is \<and>
           sys_rep w' (set_chan C (case_chan (cs ! i)) s') SS' RS' \<and> same_status C (set_chan C (case_chan (cs ! i)) s') \<and>
           dones w' = dones w \<and> readied w' = readied w \<and> (\<forall>y. payload (sgs w' y) = payload (sgs w y)) \<and>
           (\<forall>c. set (SS c) \<subseteq> set (SS' c) \<and> set (SS' c) \<subseteq> insert (sd i) (set (SS c)) \<and>
                set (RS c) \<subseteq> set (RS' c) \<and> set (RS' c) \<subseteq> insert (sd i) (set (RS c))) \<and>
           in_place SS' RS' cs sd i \<and> keeps_sels w SS RS w' SS' RS' {k} {sd i}"
proof -
  let ?c = "case_chan (cs ! i)"
  note ri = sys_repD(1,2) [OF assms(1,2)]
  have x: "sd i \<notin> queues SS RS c" for c using assms(3) unfolding queued_iff by blast
  have nc: "\<not> closed (state (C ?c))" using assms(6) by (simp add: blocked_def)
  show ?thesis
  proof (cases "is_send (cs ! i)")
    case True
    have b: "length (ring_list (buf (state (C ?c)))) = cap (state (C ?c))"
      "\<And>y. y \<in> set (RS ?c) \<Longrightarrow> live w y \<Longrightarrow> sg_coord (sgs w (sd i)) = sg_coord (sgs w y) \<and> sg_coord (sgs w (sd i)) \<noteq> None"
      using assms(4,6) True by (auto simp: blocked_def)
    obtain w' s' where r: "register_send_locked w (state (C ?c)) (sd i) = (w', s', Registered)"
      "chan_eff w (SS ?c) (RS ?c) w' s' (SS ?c @ [sd i]) (RS ?c) []" "dones w' = dones w"
      "\<forall>y. payload (sgs w' y) = payload (sgs w y)" "closed s' = closed (state (C ?c))" "cap s' = cap (state (C ?c))"
      "buf s' = buf (state (C ?c))"
      using register_send_locked_eff [OF ri nc x b(1) assms(5) [OF True] b(2)] by blast
    have rd: "readied w' = readied w" using r(2) unfolding chan_eff_def by simp
    have co: "sg_coord (sgs w' (sd i)) = Some k" using r(4) assms(4) by (simp add: payload_eq_iff)
    have "sys_rep w' (set_chan C ?c s') (SS(?c := SS ?c @ [sd i])) (RS(?c := RS ?c))"
      by (rule sys_eff [OF assms(1,2) r(2)]) (use x sys_repD(5) [OF assms(1)] in auto)
    moreover have "keeps_sels w SS RS w' (SS(?c := SS ?c @ [sd i])) (RS(?c := RS ?c)) {k} {sd i}"
      by (rule keeps_sels_eff [OF assms(1) r(2)]) (use co in auto)
    moreover have "select_register w C sd cs (i # is) = select_register w' (set_chan C ?c s') sd cs is"
      using r(1) True assms(2) by (simp add: Let_def)
    moreover have "same_status C (set_chan C ?c s')"
      using r(5-7) by (simp add: same_status_def set_chan_def)
    moreover have "in_place (SS(?c := SS ?c @ [sd i])) (RS(?c := RS ?c)) cs sd i"
      using True by (simp add: in_place_def)
    ultimately show ?thesis
      using r(3,4) rd by (intro exI [of _ w'] exI [of _ s'] exI [of _ "SS(?c := SS ?c @ [sd i])"]
          exI [of _ "RS(?c := RS ?c)"]) auto
  next
    case False
    have b: "ring_list (buf (state (C ?c))) = []"
      "\<And>y. y \<in> set (SS ?c) \<Longrightarrow> live w y \<Longrightarrow> sg_coord (sgs w y) = sg_coord (sgs w (sd i)) \<and> sg_coord (sgs w y) \<noteq> None"
      using assms(4,6) False by (auto simp: blocked_def)
    obtain w' s' where r: "register_recv_locked w (state (C ?c)) (sd i) = (w', s', Registered)"
      "chan_eff w (SS ?c) (RS ?c) w' s' (SS ?c) (RS ?c @ [sd i]) []" "dones w' = dones w"
      "\<forall>y. payload (sgs w' y) = payload (sgs w y)" "closed s' = closed (state (C ?c))" "cap s' = cap (state (C ?c))"
      "buf s' = buf (state (C ?c))"
      using register_recv_locked_eff [OF ri nc x b] by blast
    have rd: "readied w' = readied w" using r(2) unfolding chan_eff_def by simp
    have co: "sg_coord (sgs w' (sd i)) = Some k" using r(4) assms(4) by (simp add: payload_eq_iff)
    have "sys_rep w' (set_chan C ?c s') (SS(?c := SS ?c)) (RS(?c := RS ?c @ [sd i]))"
      by (rule sys_eff [OF assms(1,2) r(2)]) (use x sys_repD(5) [OF assms(1)] in auto)
    moreover have "keeps_sels w SS RS w' (SS(?c := SS ?c)) (RS(?c := RS ?c @ [sd i])) {k} {sd i}"
      by (rule keeps_sels_eff [OF assms(1) r(2)]) (use co in auto)
    moreover have "select_register w C sd cs (i # is) = select_register w' (set_chan C ?c s') sd cs is"
      using r(1) False assms(2) by (simp add: Let_def)
    moreover have "same_status C (set_chan C ?c s')"
      using r(5-7) by (simp add: same_status_def set_chan_def)
    moreover have "in_place (SS(?c := SS ?c)) (RS(?c := RS ?c @ [sd i])) cs sd i"
      using False by (simp add: in_place_def)
    ultimately show ?thesis
      using r(3,4) rd by (intro exI [of _ w'] exI [of _ s'] exI [of _ "SS(?c := SS ?c)"]
          exI [of _ "RS(?c := RS ?c @ [sd i])"]) auto
  qed
qed

lemma keeps_sels_mono:
  assumes "keeps_sels w SS RS w' SS' RS' K X" "K \<subseteq> K'" "X \<subseteq> X'"
  shows "keeps_sels w SS RS w' SS' RS' K' X'"
  by (rule keeps_selsI, rule keeps_selsD [OF assms(1)]) (use assms(2,3) in blast)+

lemma in_place_mono:
  assumes "in_place SS RS cs sd i" "\<forall>c. set (SS c) \<subseteq> set (SS' c) \<and> set (RS c) \<subseteq> set (RS' c)"
  shows "in_place SS' RS' cs sd i"
proof -
  let ?c = "case_chan (cs ! i)"
  have "set (SS ?c) \<subseteq> set (SS' ?c)" "set (RS ?c) \<subseteq> set (RS' ?c)" using assms(2) by blast+
  with assms(1) show ?thesis unfolding in_place_def by (cases "is_send (cs ! i)") auto
qed

text \<open>The facts pass 2 keeps for the cases still to be registered.\<close>

definition to_register :: "'v world \<Rightarrow> 'v chans \<Rightarrow> (nat \<Rightarrow> sid list) \<Rightarrow> (nat \<Rightarrow> sid list) \<Rightarrow> coord \<Rightarrow>
    (nat \<Rightarrow> sid) \<Rightarrow> 'v scase list \<Rightarrow> nat \<Rightarrow> bool" where
  "to_register w C SS RS k sd cs i \<longleftrightarrow>
     sd i \<notin> queued SS RS \<and> sg_coord (sgs w (sd i)) = Some k \<and>
     (is_send (cs ! i) \<longrightarrow> sg_value (sgs w (sd i)) \<noteq> None) \<and>
     (\<not> nil (C (case_chan (cs ! i))) \<longrightarrow> blocked w C SS RS k (cs ! i))"

lemma to_register_step:
  assumes "to_register w C SS RS k sd cs j" "same_status C C'" "dones w' = dones w"
    "\<forall>y. payload (sgs w' y) = payload (sgs w y)"
    "\<forall>c. set (SS' c) \<subseteq> insert x (set (SS c)) \<and> set (RS' c) \<subseteq> insert x (set (RS c))"
    "sg_coord (sgs w x) = Some k" "sd j \<noteq> x"
  shows "to_register w' C' SS' RS' k sd cs j"
proof -
  have "blocked w' C' SS' RS' k (cs ! j)" if "\<not> nil (C' (case_chan (cs ! j)))"
  proof (rule blocked_register)
    show "blocked w C SS RS k (cs ! j)"
      using assms(1,2) that by (simp add: to_register_def same_status_def)
    show "y \<in> set (SS' c) \<Longrightarrow> y \<in> set (SS c) \<or> sg_coord (sgs w y) = Some k"
      "y \<in> set (RS' c) \<Longrightarrow> y \<in> set (RS c) \<or> sg_coord (sgs w y) = Some k" for c y
      using assms(5,6) by blast+
  qed (use assms(2-4) in simp_all)
  moreover have "sd j \<notin> queued SS' RS'"
  proof
    assume "sd j \<in> queued SS' RS'"
    then obtain c where "sd j \<in> queues SS' RS' c" unfolding queued_iff by blast
    then have "sd j \<in> queues SS RS c" using assms(5,7) by blast
    then show False using assms(1) unfolding to_register_def queued_iff by blast
  qed
  moreover have "payload (sgs w' (sd j)) = payload (sgs w (sd j))" using assms(4) by simp
  ultimately show ?thesis using assms(1) by (simp add: to_register_def payload_eq_iff)
qed

lemma select_register_spec:
  assumes "sys_rep w C SS RS" "distinct is" "inj_on sd (set is)" "\<forall>i \<in> set is. to_register w C SS RS k sd cs i"
  shows "\<exists>w' C' SS' RS'. select_register w C sd cs is = Done (w', C') \<and> sys_rep w' C' SS' RS' \<and> same_status C C' \<and>
           dones w' = dones w \<and> readied w' = readied w \<and> (\<forall>y. payload (sgs w' y) = payload (sgs w y)) \<and>
           (\<forall>c. set (SS c) \<subseteq> set (SS' c) \<and> set (RS c) \<subseteq> set (RS' c)) \<and>
           queued SS' RS' \<subseteq> queued SS RS \<union> sd ` {i \<in> set is. \<not> nil (C (case_chan (cs ! i)))} \<and>
           (\<forall>i \<in> set is. \<not> nil (C (case_chan (cs ! i))) \<longrightarrow> in_place SS' RS' cs sd i) \<and>
           keeps_sels w SS RS w' SS' RS' {k} (sd ` set is)"
  using assms
proof (induction "is" arbitrary: w C SS RS)
  case Nil
  then show ?case
    by (intro exI [of _ w] exI [of _ C] exI [of _ SS] exI [of _ RS]) (simp add: keeps_sels_refl)
next
  case (Cons i js)
  let ?c = "case_chan (cs ! i)"
  have ij: "distinct js" "inj_on sd (set js)" using Cons.prems(2,3) by auto
  show ?case
  proof (cases "nil (C ?c)")
    case True
    have "\<forall>i \<in> set js. to_register w C SS RS k sd cs i" using Cons.prems(4) by simp
    from Cons.IH [OF Cons.prems(1) ij this] obtain w' C' SS' RS' where
      r: "select_register w C sd cs js = Done (w', C')" "sys_rep w' C' SS' RS'" "same_status C C'"
      "dones w' = dones w" "readied w' = readied w" "\<forall>y. payload (sgs w' y) = payload (sgs w y)"
      "\<forall>c. set (SS c) \<subseteq> set (SS' c) \<and> set (RS c) \<subseteq> set (RS' c)"
      "queued SS' RS' \<subseteq> queued SS RS \<union> sd ` {i \<in> set js. \<not> nil (C (case_chan (cs ! i)))}"
      "\<forall>i \<in> set js. \<not> nil (C (case_chan (cs ! i))) \<longrightarrow> in_place SS' RS' cs sd i"
      "keeps_sels w SS RS w' SS' RS' {k} (sd ` set js)" by blast
    have k: "keeps_sels w SS RS w' SS' RS' {k} (sd ` set (i # js))"
      by (rule keeps_sels_mono [OF r(10)]) auto
    have q: "queued SS' RS' \<subseteq> queued SS RS \<union> sd ` {i' \<in> set (i # js). \<not> nil (C (case_chan (cs ! i')))}"
      using r(8) by auto
    show ?thesis
      by (rule exI [of _ w'], rule exI [of _ C'], rule exI [of _ SS'], rule exI [of _ RS'])
        (use r q k True in simp)
  next
    case False
    have ti: "to_register w C SS RS k sd cs i" using Cons.prems(4) by simp
    obtain w1 s1 SS1 RS1 where r1:
      "select_register w C sd cs (i # js) = select_register w1 (set_chan C ?c s1) sd cs js"
      "sys_rep w1 (set_chan C ?c s1) SS1 RS1" "same_status C (set_chan C ?c s1)"
      "dones w1 = dones w" "readied w1 = readied w" "\<forall>y. payload (sgs w1 y) = payload (sgs w y)"
      "\<forall>c. set (SS c) \<subseteq> set (SS1 c) \<and> set (SS1 c) \<subseteq> insert (sd i) (set (SS c)) \<and>
           set (RS c) \<subseteq> set (RS1 c) \<and> set (RS1 c) \<subseteq> insert (sd i) (set (RS c))"
      "in_place SS1 RS1 cs sd i" "keeps_sels w SS RS w1 SS1 RS1 {k} {sd i}"
      using register_case [OF Cons.prems(1) False, of sd k js] ti False unfolding to_register_def by blast
    have t: "\<forall>j \<in> set js. to_register w1 (set_chan C ?c s1) SS1 RS1 k sd cs j"
    proof
      fix j assume j: "j \<in> set js"
      have "sd j \<noteq> sd i" using Cons.prems(2,3) j by (auto simp: inj_on_def)
      then show "to_register w1 (set_chan C ?c s1) SS1 RS1 k sd cs j"
        using to_register_step [OF _ r1(3,4,6), of SS RS k sd cs j SS1 "sd i" RS1] Cons.prems(4) j r1(7) ti
        by (simp add: to_register_def)
    qed
    from Cons.IH [OF r1(2) ij t] obtain w' C' SS' RS' where
      r: "select_register w1 (set_chan C ?c s1) sd cs js = Done (w', C')" "sys_rep w' C' SS' RS'"
      "same_status (set_chan C ?c s1) C'"
      "dones w' = dones w1" "readied w' = readied w1" "\<forall>y. payload (sgs w' y) = payload (sgs w1 y)"
      "\<forall>c. set (SS1 c) \<subseteq> set (SS' c) \<and> set (RS1 c) \<subseteq> set (RS' c)"
      "queued SS' RS' \<subseteq> queued SS1 RS1 \<union> sd ` {i \<in> set js. \<not> nil (C (case_chan (cs ! i)))}"
      "\<forall>i \<in> set js. \<not> nil (C (case_chan (cs ! i))) \<longrightarrow> in_place SS' RS' cs sd i"
      "keeps_sels w1 SS1 RS1 w' SS' RS' {k} (sd ` set js)" unfolding set_chan_simps(1) by blast
    have k: "keeps_sels w SS RS w' SS' RS' {k} (sd ` set (i # js))"
      by (rule keeps_sels_trans [OF keeps_sels_mono [OF r1(9)] keeps_sels_mono [OF r(10)]]) auto
    have "queued SS1 RS1 \<subseteq> insert (sd i) (queued SS RS)"
      using r1(7) unfolding queued_def by blast
    then have q: "queued SS' RS' \<subseteq> queued SS RS \<union> sd ` {i' \<in> set (i # js). \<not> nil (C (case_chan (cs ! i')))}"
      using r(8) False by auto
    have p: "in_place SS' RS' cs sd i" by (rule in_place_mono [OF r1(8) r(7)])
    have m: "\<forall>c. set (SS c) \<subseteq> set (SS' c) \<and> set (RS c) \<subseteq> set (RS' c)" using r1(7) r(7) by blast
    show ?thesis
      by (rule exI [of _ w'], rule exI [of _ C'], rule exI [of _ SS'], rule exI [of _ RS'])
        (use r r1 q k p m same_status_trans [OF r1(3) r(3)] in simp)
  qed
qed

end
