(* ===== verification/Chan_Run.thy ===== *)
theory Chan_Run
  imports Chan_Close
begin

text \<open>
  Runs of one channel (\<^verbatim>\<open>src/src/gochan.rs\<close>): arbitrary sequences of \<^verbatim>\<open>Send\<close> and
  \<^verbatim>\<open>Recv\<close> calls by any goroutines, on a buffered or unbuffered channel.  The run records the
  values sent and, for each receiving call, what it returned (or that it parked).  The invariant \<open>run_inv\<close>
  says that the calls are matched in order: the i-th receiving call gets the i-th value sent.
\<close>

datatype 'v chan_op = OSend gid sid 'v | ORecv gid sid

type_synonym 'v call = "gid \<times> sid \<times> ('v \<times> bool) option"

fun op_sid :: "'v chan_op \<Rightarrow> sid" where
  "op_sid (OSend g x v) = x"
| "op_sid (ORecv g x) = x"

fun op_sends :: "'v chan_op list \<Rightarrow> 'v list" where
  "op_sends [] = []"
| "op_sends (OSend g x v # ops) = v # op_sends ops"
| "op_sends (ORecv g x # ops) = op_sends ops"

fun op_recvs :: "'v chan_op list \<Rightarrow> (gid \<times> sid) list" where
  "op_recvs [] = []"
| "op_recvs (OSend g x v # ops) = op_recvs ops"
| "op_recvs (ORecv g x # ops) = (g, x) # op_recvs ops"

text \<open>A run; it fails when a call ends the process or does not return.\<close>

fun chan_run :: "'v \<Rightarrow> 'v world \<Rightarrow> 'v hchan \<Rightarrow> 'v list \<Rightarrow> 'v call list \<Rightarrow> 'v chan_op list \<Rightarrow>
    ('v world \<times> 'v hchan \<times> 'v list \<times> 'v call list) option" where
  "chan_run d w c vs rets [] = Some (w, c, vs, rets)"
| "chan_run d w c vs rets (OSend g x v # ops) =
     (case chan_Send w c (Some g) x v of
        Some (Done (w', c', r)) \<Rightarrow> chan_run d w' c' (vs @ [v]) rets ops
      | _ \<Rightarrow> None)"
| "chan_run d w c vs rets (ORecv g x # ops) =
     (case chan_Recv d w c (Some g) x of
        Some (Done (w', c', Returned r)) \<Rightarrow> chan_run d w' c' vs (rets @ [(g, x, Some r)]) ops
      | Some (Done (w', c', Parked y)) \<Rightarrow> chan_run d w' c' vs (rets @ [(g, y, None)]) ops
      | _ \<Rightarrow> None)"

text \<open>A receiving call got \<open>v\<close>: it returned it, or it parked, was made runnable again and
  finds it in its sudog.\<close>

fun got :: "'v world \<Rightarrow> 'v call \<Rightarrow> 'v \<Rightarrow> bool" where
  "got w (g, x, Some r) v \<longleftrightarrow> r = (v, True)"
| "got w (g, x, None) v \<longleftrightarrow>
     g \<in> set (readied w) \<and> sg_success (sgs w x) \<and> sg_value (sgs w x) = Some v"

lemma got_recv_resume:
  assumes "got w (g, x, None) v"
  shows "\<exists>w'. recv_resume d w x = Done (w', v, True)"
  using assms by (auto simp: recv_resume_def)

definition run_ok :: "'v world \<Rightarrow> 'v hchan \<Rightarrow> sid list \<Rightarrow> sid list \<Rightarrow> bool" where
  "run_ok w c ss rs \<longleftrightarrow>
     \<not> nil c \<and> \<not> closed (state c) \<and> chan_rep w (state c) ss rs \<and> chan_inv w (state c) ss rs \<and>
     (\<forall>x \<in> set ss \<union> set rs. sg_coord (sgs w x) = None)"

abbreviation sids :: "'v call list \<Rightarrow> sid set" where
  "sids rets \<equiv> (\<lambda>p. fst (snd p)) ` set rets"

definition run_inv :: "'v world \<Rightarrow> 'v hchan \<Rightarrow> sid list \<Rightarrow> sid list \<Rightarrow> 'v list \<Rightarrow> 'v call list \<Rightarrow> bool" where
  "run_inv w c ss rs vs rets \<longleftrightarrow>
     run_ok w c ss rs \<and>
     (\<exists>us ds. vs = us @ pending w (state c) ss \<and>
        rets = ds @ map (\<lambda>x. (sg_g (sgs w x), x, None)) rs \<and> list_all2 (got w) ds us \<and>
        sids ds \<inter> (set ss \<union> set rs) = {})"

lemma run_ok_live:
  assumes "run_ok w c ss rs" "x \<in> set ss \<union> set rs"
  shows "live w x"
  using assms by (auto simp: run_ok_def live_def)

lemma run_ok_find:
  assumes "run_ok w c ss rs"
  shows "find (live w) ss = (case ss of [] \<Rightarrow> None | x # _ \<Rightarrow> Some x)"
    "find (live w) rs = (case rs of [] \<Rightarrow> None | x # _ \<Rightarrow> Some x)"
    "filter (live w) ss = ss" "one_case_each w ss"
proof -
  have l: "\<forall>x \<in> set ss \<union> set rs. live w x" using run_ok_live [OF assms] by blast
  then show "find (live w) ss = (case ss of [] \<Rightarrow> None | x # _ \<Rightarrow> Some x)" by (cases ss) simp_all
  show "find (live w) rs = (case rs of [] \<Rightarrow> None | x # _ \<Rightarrow> Some x)" using l by (cases rs) simp_all
  show "filter (live w) ss = ss" using l by (intro filter_True) simp
  show "one_case_each w ss" using assms by (simp add: run_ok_def one_case_each_def)
qed

lemma got_mono:
  assumes "got w p v" "set (readied w) \<subseteq> set (readied w')"
    "payload (sgs w' (fst (snd p))) = payload (sgs w (fst (snd p)))"
  shows "got w' p v"
proof -
  obtain g x r where p: "p = (g, x, r)" by (metis prod.exhaust)
  show ?thesis using assms unfolding p by (cases r) (auto simp: payload_eq_iff)
qed

lemma run_got_mono:
  assumes "list_all2 (got w) ds us" "set (readied w) \<subseteq> set (readied w')"
    "\<And>y. y \<in> sids ds \<Longrightarrow> payload (sgs w' y) = payload (sgs w y)"
  shows "list_all2 (got w') ds us"
  using assms(1)
proof (rule list.rel_mono_strong)
  fix p v assume p: "p \<in> set ds" "got w p v"
  show "got w' p v"
    by (rule got_mono [OF p(2) assms(2)]) (rule assms(3), use p(1) in simp)
qed

lemma run_ok_coord:
  assumes "run_ok w c ss rs" "chan_inv w' s' ss' rs'" "chan_rep w' s' ss' rs'" "\<not> closed s'"
    "\<And>y. y \<in> set ss' \<union> set rs' \<Longrightarrow> sg_coord (sgs w' y) = None"
  shows "run_ok w' (c\<lparr>state := s'\<rparr>) ss' rs'"
  using assms by (simp add: run_ok_def)

lemma run_ok_one_side:
  assumes "run_ok w c ss (y # rs)"
  shows "ss = []" "ring_list (buf (state c)) = []" "pending w (state c) ss = []"
proof -
  have l: "live w y" using run_ok_live [OF assms] by simp
  show b: "ring_list (buf (state c)) = []"
    using assms l unfolding run_ok_def chan_inv_def by (metis list.set_intros(1))
  show ss: "ss = []"
  proof (rule ccontr)
    assume "ss \<noteq> []"
    then obtain x where x: "x \<in> set ss" by (meson list.set_sel(1))
    then have "live w x" "sg_coord (sgs w x) = None"
      using run_ok_live [OF assms] assms by (auto simp: run_ok_def)
    with x l show False
      using assms unfolding run_ok_def chan_inv_def by (metis list.set_intros(1))
  qed
  show "pending w (state c) ss = []" by (simp add: pending_def b ss)
qed

lemma run_send_handoff:
  assumes "run_inv w c ss (y # rs) vs rets" "x \<notin> set ss \<union> set (y # rs) \<union> sids rets"
  shows "\<exists>w' c' r. chan_Send w c g x v = Some (Done (w', c', r)) \<and> run_inv w' c' ss rs (vs @ [v]) rets"
proof -
  obtain us ds where i: "run_ok w c ss (y # rs)" "vs = us @ pending w (state c) ss"
    "rets = ds @ map (\<lambda>x. (sg_g (sgs w x), x, None)) (y # rs)" "list_all2 (got w) ds us"
    "sids ds \<inter> (set ss \<union> set (y # rs)) = {}"
    using assms(1) unfolding run_inv_def by blast
  note one = run_ok_one_side [OF i(1)]
  have ok: "\<not> nil c" "\<not> closed (state c)" "chan_rep w (state c) ss (y # rs)" "chan_inv w (state c) ss (y # rs)"
    using i(1) by (simp_all add: run_ok_def)
  have "find (live w) (y # rs) = Some y" using run_ok_find(2) [OF i(1)] by simp
  from chan_Send_handoff [OF ok this] obtain w' q where
    wq: "chan_Send w c g x v = Some (Done (w', c\<lparr>state := (state c)\<lparr>recvq := q\<rparr>\<rparr>, Returned ()))"
    "chan_rep w' ((state c)\<lparr>recvq := q\<rparr>) ss rs" "chan_inv w' ((state c)\<lparr>recvq := q\<rparr>) ss rs"
    "woke w w' y (Some v) True" by fastforce
  let ?c = "c\<lparr>state := (state c)\<lparr>recvq := q\<rparr>\<rparr>"
  have d: "distinct (y # rs)" using ok(3) by (simp add: chan_rep_def sq_rep_def)
  have "run_ok w' ?c ss rs"
    using i(1) wq(2,3) ok(2) woke_payload(1) [OF wq(4)] by (simp add: run_ok_def)
  moreover have "list_all2 (got w') (ds @ [(sg_g (sgs w y), y, None)]) (us @ [v])"
  proof (rule list_all2_appendI)
    show "list_all2 (got w') ds us"
      by (rule run_got_mono [OF i(4)]) (use wq(4) i(5) in \<open>auto simp: woke_def\<close>)
    show "list_all2 (got w') [(sg_g (sgs w y), y, None)] [v]"
      using wq(4) woke_payload(5,6) [OF wq(4)] by (simp add: woke_def)
  qed
  moreover have "rets = (ds @ [(sg_g (sgs w y), y, None)]) @ map (\<lambda>x. (sg_g (sgs w' x), x, None)) rs"
    using i(3) woke_payload(2) [OF wq(4)] by simp
  moreover have "pending w' (state ?c) ss = []" by (simp add: pending_def one)
  moreover have "sids (ds @ [(sg_g (sgs w y), y, None)]) \<inter> (set ss \<union> set rs) = {}"
    using i(5) d one(1) by auto
  ultimately have "run_inv w' ?c ss rs (vs @ [v]) rets"
    unfolding run_inv_def i(2) one(3)
    by (intro conjI exI [of _ "us @ [v]"] exI [of _ "ds @ [(sg_g (sgs w y), y, None)]"]) simp_all
  with wq(1) show ?thesis by blast
qed

lemma run_send_quiet:
  assumes "run_inv w c ss [] vs rets" "x \<notin> set ss \<union> sids rets"
  shows "\<exists>w' c' r ss'. chan_Send w c (Some g) x v = Some (Done (w', c', r)) \<and>
           run_inv w' c' ss' [] (vs @ [v]) rets \<and> set ss' \<subseteq> insert x (set ss)"
proof -
  obtain us where i: "run_ok w c ss []" "vs = us @ pending w (state c) ss"
    "list_all2 (got w) rets us" "sids rets \<inter> set ss = {}"
    using assms(1) unfolding run_inv_def by auto
  have ok: "\<not> nil c" "\<not> closed (state c)" "chan_rep w (state c) ss []" "chan_inv w (state c) ss []"
    and n: "find (live w) [] = None"
    using i(1) by (simp_all add: run_ok_def)
  show ?thesis
  proof (cases "length (ring_list (buf (state c))) < cap (state c)")
    case True
    from chan_Send_buffer [OF ok n True] obtain b where
      b: "chan_Send w c (Some g) x v = Some (Done (w, c\<lparr>state := (state c)\<lparr>buf := b\<rparr>\<rparr>, Returned ()))"
      "chan_rep w ((state c)\<lparr>buf := b\<rparr>) ss []" "chan_inv w ((state c)\<lparr>buf := b\<rparr>) ss []"
      "ring_list b = ring_list (buf (state c)) @ [v]" "\<forall>y \<in> set ss. \<not> live w y" by blast
    have ss: "ss = []" using b(5) run_ok_live [OF i(1)] by (cases ss) auto
    have "run_ok w (c\<lparr>state := (state c)\<lparr>buf := b\<rparr>\<rparr>) [] []"
      using i(1) b(2,3) by (simp add: run_ok_def ss)
    then have "run_inv w (c\<lparr>state := (state c)\<lparr>buf := b\<rparr>\<rparr>) [] [] (vs @ [v]) rets"
      using i(3) unfolding run_inv_def i(2) by (auto simp: pending_def ss b(4))
    with b(1) show ?thesis
      by (intro exI [of _ w] exI [of _ "c\<lparr>state := (state c)\<lparr>buf := b\<rparr>\<rparr>"] exI [of _ "Returned ()"]
          exI [of _ "[]"]) simp
  next
    case False
    have x: "x \<notin> set ss \<union> set []" using assms(2) by simp
    from chan_Send_park [OF ok n False x] obtain w' q where
      w': "chan_Send w c (Some g) x v = Some (Done (w', c\<lparr>state := (state c)\<lparr>sendq := q\<rparr>\<rparr>, Parked x))"
      "chan_rep w' ((state c)\<lparr>sendq := q\<rparr>) (ss @ [x]) []" "chan_inv w' ((state c)\<lparr>sendq := q\<rparr>) (ss @ [x]) []"
      "dones w' = dones w" "readied w' = readied w"
      "\<forall>y. payload (sgs w' y) = payload (if y = x then new_send g v else sgs w y)" by blast
    have p: "payload (sgs w' y) = payload (sgs w y)" if "y \<noteq> x" for y
      using w'(6) that by simp
    have px: "payload (sgs w' x) = payload (new_send g v)" using w'(6) by simp
    have co: "\<forall>y \<in> set (ss @ [x]). sg_coord (sgs w' y) = None"
    proof
      fix y assume "y \<in> set (ss @ [x])"
      then show "sg_coord (sgs w' y) = None"
        using i(1) p [of y] px by (cases "y = x") (auto simp: run_ok_def payload_eq_iff new_send_def)
    qed
    have ok': "run_ok w' (c\<lparr>state := (state c)\<lparr>sendq := q\<rparr>\<rparr>) (ss @ [x]) []"
      using i(1) w'(2,3) co by (simp add: run_ok_def)
    have "map (\<lambda>y. the (sg_value (sgs w' y))) ss = map (\<lambda>y. the (sg_value (sgs w y))) ss"
    proof (intro map_cong refl)
      fix y assume "y \<in> set ss"
      then have "y \<noteq> x" using x by auto
      from p [OF this] show "the (sg_value (sgs w' y)) = the (sg_value (sgs w y))" by (simp add: payload_eq_iff)
    qed
    moreover have "sg_value (sgs w' x) = Some v" using px by (simp add: payload_eq_iff new_send_def)
    ultimately have "pending w' ((state c)\<lparr>sendq := q\<rparr>) (ss @ [x]) = pending w (state c) ss @ [v]"
      using run_ok_find(3) [OF i(1)] run_ok_find(3) [OF ok'] by (simp add: pending_def)
    moreover have "list_all2 (got w') rets us"
      by (rule run_got_mono [OF i(3)]) (simp add: w'(5), rule p, use assms(2) in blast)
    moreover have "sids rets \<inter> set (ss @ [x]) = {}" using i(4) assms(2) by auto
    ultimately have "run_inv w' (c\<lparr>state := (state c)\<lparr>sendq := q\<rparr>\<rparr>) (ss @ [x]) [] (vs @ [v]) rets"
      using ok' unfolding run_inv_def i(2) by (intro conjI exI [of _ us] exI [of _ rets]) auto
    with w'(1) show ?thesis by fastforce
  qed
qed

lemma run_send:
  assumes "run_inv w c ss rs vs rets" "x \<notin> set ss \<union> set rs \<union> sids rets"
  shows "\<exists>w' c' r ss' rs'. chan_Send w c (Some g) x v = Some (Done (w', c', r)) \<and>
           run_inv w' c' ss' rs' (vs @ [v]) rets \<and> set ss' \<union> set rs' \<subseteq> insert x (set ss \<union> set rs)"
proof (cases rs)
  case Nil
  then show ?thesis using run_send_quiet [of w c ss vs rets x g v] assms by fastforce
next
  case (Cons y rs')
  then show ?thesis using run_send_handoff [of w c ss y rs' vs rets x "Some g" v] assms by fastforce
qed

text \<open>A receive that returns a value takes the oldest pending one.\<close>

lemma run_recv_value:
  assumes "run_inv w c ss rs vs rets" "pending w (state c) ss \<noteq> []" "x \<notin> set ss"
  shows "\<exists>w' c' ss' p. chan_Recv d w c (Some g) x = Some (Done (w', c', Returned p)) \<and>
           run_inv w' c' ss' rs vs (rets @ [(g, x, Some p)]) \<and> set ss' \<subseteq> set ss"
proof -
  let ?p = "pending w (state c) ss"
  obtain us ds where i: "run_ok w c ss rs" "vs = us @ ?p"
    "rets = ds @ map (\<lambda>x. (sg_g (sgs w x), x, None)) rs" "list_all2 (got w) ds us"
    "sids ds \<inter> (set ss \<union> set rs) = {}"
    using assms(1) unfolding run_inv_def by blast
  have rs: "rs = []" using run_ok_one_side(3) [of w c ss] i(1) assms(2) by (cases rs) auto
  have ok: "\<not> nil c" "chan_rep w (state c) ss []" "chan_inv w (state c) ss []"
    using i(1) by (simp_all add: run_ok_def rs)
  obtain w' s' ss' where r: "chan_Recv d w c (Some g) x = Some (Done (w', c\<lparr>state := s'\<rparr>, Returned (hd ?p, True)))"
    "run_ok w' (c\<lparr>state := s'\<rparr>) ss' []" "pending w' s' ss' = tl ?p" "set ss' \<subseteq> set ss"
    "set (readied w) \<subseteq> set (readied w')" "\<And>y. y \<notin> set ss \<Longrightarrow> payload (sgs w' y) = payload (sgs w y)"
  proof (cases "find (live w) ss")
    case None
    then have ss: "ss = []" using run_ok_find(1) [OF i(1)] by (auto split: list.splits)
    then have "ring_list (buf (state c)) \<noteq> []" using assms(2) by (simp add: pending_def)
    from chan_Recv_buffer [OF ok None this, of d "Some g" x] obtain b where
      b: "chan_Recv d w c (Some g) x = Some (Done (w, c\<lparr>state := (state c)\<lparr>buf := b\<rparr>\<rparr>, Returned (hd ?p, True)))"
      "chan_rep w ((state c)\<lparr>buf := b\<rparr>) ss []" "chan_inv w ((state c)\<lparr>buf := b\<rparr>) ss []"
      "pending w ((state c)\<lparr>buf := b\<rparr>) ss = tl ?p" by blast
    from b(1) _ b(4) show ?thesis
      by (rule that) (use i(1) b(2,3) in \<open>simp_all add: run_ok_def rs\<close>)
  next
    case (Some y)
    from chan_Recv_sender [OF ok Some, of d "Some g" x] obtain w' s' where
      r: "chan_Recv d w c (Some g) x = Some (Done (w', c\<lparr>state := s'\<rparr>, Returned (hd ?p, True)))"
      "chan_rep w' s' (remove1 y ss) []" "chan_inv w' s' (remove1 y ss) []" "woke w w' y None True"
      "closed s' = closed (state c)" "pending w' s' (remove1 y ss) = tl ?p"
      using run_ok_find(4) [OF i(1)] by blast
    have sub: "set (remove1 y ss) \<subseteq> set ss" by (rule set_remove1_subset)
    from r(1) _ r(6) sub show ?thesis
    proof (rule that)
      show "run_ok w' (c\<lparr>state := s'\<rparr>) (remove1 y ss) []"
        using i(1) r(2,3,5) sub woke_payload(1) [OF r(4)] by (auto simp: run_ok_def rs)
      show "set (readied w) \<subseteq> set (readied w')" using r(4) by (auto simp: woke_def)
      show "payload (sgs w' z) = payload (sgs w z)" if "z \<notin> set ss" for z
        using r(4) that find_mem [OF Some] by (auto simp: woke_def)
    qed
  qed
  have "run_inv w' (c\<lparr>state := s'\<rparr>) ss' [] vs (rets @ [(g, x, Some (hd ?p, True))])"
    unfolding run_inv_def
  proof (intro conjI exI)
    show "vs = (us @ [hd ?p]) @ pending w' (state (c\<lparr>state := s'\<rparr>)) ss'"
      using i(2) assms(2) r(3) by simp
    show "rets @ [(g, x, Some (hd ?p, True))] =
        (ds @ [(g, x, Some (hd ?p, True))]) @ map (\<lambda>x. (sg_g (sgs w' x), x, None)) []"
      using i(3) rs by simp
    have "list_all2 (got w') ds us"
      by (rule run_got_mono [OF i(4) r(5)]) (use r(6) i(5) in blast)
    then show "list_all2 (got w') (ds @ [(g, x, Some (hd ?p, True))]) (us @ [hd ?p])"
      by (intro list_all2_appendI) simp_all
    show "sids (ds @ [(g, x, Some (hd ?p, True))]) \<inter> (set ss' \<union> set []) = {}"
      using i(5) r(4) assms(3) by auto
  qed (rule r(2))
  with r(1,4) rs show ?thesis by blast
qed

lemma run_recv_park:
  assumes "run_inv w c ss rs vs rets" "pending w (state c) ss = []" "x \<notin> set ss \<union> set rs \<union> sids rets"
  shows "\<exists>w' c'. chan_Recv d w c (Some g) x = Some (Done (w', c', Parked x)) \<and>
           run_inv w' c' ss (rs @ [x]) vs (rets @ [(g, x, None)])"
proof -
  obtain us ds where i: "run_ok w c ss rs" "vs = us @ pending w (state c) ss"
    "rets = ds @ map (\<lambda>x. (sg_g (sgs w x), x, None)) rs" "list_all2 (got w) ds us"
    "sids ds \<inter> (set ss \<union> set rs) = {}"
    using assms(1) unfolding run_inv_def by blast
  have ss: "ss = []" and b: "ring_list (buf (state c)) = []"
    using assms(2) run_ok_find(3) [OF i(1)] by (auto simp: pending_def)
  have ok: "\<not> nil c" "chan_rep w (state c) ss rs" "chan_inv w (state c) ss rs" "\<not> closed (state c)"
    "find (live w) ss = None" "x \<notin> set ss \<union> set rs"
    using i(1) assms(3) by (simp_all add: run_ok_def ss)
  from chan_Recv_park [OF ok(1-5) b ok(6), of d g] obtain w' s' where
    r: "chan_Recv d w c (Some g) x = Some (Done (w', c\<lparr>state := s'\<rparr>, Parked x))"
    "chan_rep w' s' ss (rs @ [x])" "chan_inv w' s' ss (rs @ [x])" "readied w' = readied w" "\<not> closed s'"
    "ring_list (buf s') = []" "\<forall>y. payload (sgs w' y) = payload (if y = x then new_recv g else sgs w y)"
    by blast
  have p: "payload (sgs w' y) = payload (sgs w y)" if "y \<noteq> x" for y using r(7) that by simp
  have px: "payload (sgs w' x) = payload (new_recv g)" using r(7) by simp
  have xd: "x \<notin> sids ds" using assms(3) i(3) by (simp add: image_Un)
  have "run_inv w' (c\<lparr>state := s'\<rparr>) ss (rs @ [x]) vs (rets @ [(g, x, None)])"
    unfolding run_inv_def
  proof (intro conjI exI)
    have "sg_coord (sgs w' y) = None" if "y \<in> set ss \<union> set (rs @ [x])" for y
      using that i(1) p [of y] px by (cases "y = x") (auto simp: run_ok_def payload_eq_iff new_recv_def)
    then show "run_ok w' (c\<lparr>state := s'\<rparr>) ss (rs @ [x])"
      using i(1) r(2,3,5) by (simp add: run_ok_def)
    show "vs = us @ pending w' (state (c\<lparr>state := s'\<rparr>)) ss"
      using i(2) r(6) by (simp add: pending_def b ss)
    have "map (\<lambda>y. (sg_g (sgs w' y), y, None)) rs = map (\<lambda>y. (sg_g (sgs w y), y, None)) rs"
    proof (intro map_cong refl)
      fix y assume "y \<in> set rs"
      then have "y \<noteq> x" using ok(6) by auto
      from p [OF this] show "(sg_g (sgs w' y), y, None) = (sg_g (sgs w y), y, None)"
        by (simp add: payload_eq_iff)
    qed
    then show "rets @ [(g, x, None)] = ds @ map (\<lambda>x. (sg_g (sgs w' x), x, None)) (rs @ [x])"
      using i(3) px by (simp add: payload_eq_iff new_recv_def)
    show "list_all2 (got w') ds us"
      by (rule run_got_mono [OF i(4)]) (simp add: r(4), rule p, use xd in blast)
    show "sids ds \<inter> (set ss \<union> set (rs @ [x])) = {}"
      using i(5) xd by auto
  qed
  with r(1) show ?thesis by blast
qed

lemma disjoint_insert_sub: "A \<subseteq> insert x Q \<Longrightarrow> x \<notin> B \<Longrightarrow> Q \<inter> B = {} \<Longrightarrow> A \<inter> B = {}"
  by blast

text \<open>Every run goes through, and keeps the invariant.\<close>

lemma chan_run_inv:
  assumes "run_inv w c ss rs vs rets" "distinct (map op_sid ops)"
    "(set ss \<union> set rs \<union> sids rets) \<inter> op_sid ` set ops = {}"
  shows "\<exists>w' c' ss' rs' rets'. chan_run d w c vs rets ops = Some (w', c', vs @ op_sends ops, rets @ rets') \<and>
           map (\<lambda>(g, x, r). (g, x)) rets' = op_recvs ops \<and>
           run_inv w' c' ss' rs' (vs @ op_sends ops) (rets @ rets')"
  using assms
proof (induction ops arbitrary: w c ss rs vs rets)
  case Nil
  then show ?case by auto
next
  case (Cons opn ops)
  let ?Q = "set ss \<union> set rs \<union> sids rets"
  have x: "op_sid opn \<notin> ?Q" "op_sid opn \<notin> op_sid ` set ops" "?Q \<inter> op_sid ` set ops = {}"
    "distinct (map op_sid ops)"
  proof -
    from Cons.prems(3) show "op_sid opn \<notin> ?Q" "?Q \<inter> op_sid ` set ops = {}"
      by (simp_all only: list.set image_insert disjoint_insert not_False_eq_True)
  qed (use Cons.prems(2) in simp_all)
  show ?case
  proof (cases opn)
    case (OSend g x v)
    obtain w' c' r ss' rs' where s: "chan_Send w c (Some g) x v = Some (Done (w', c', r))"
      "run_inv w' c' ss' rs' (vs @ [v]) rets" "set ss' \<union> set rs' \<subseteq> insert x (set ss \<union> set rs)"
      using run_send [OF Cons.prems(1), of x g v] x(1) unfolding OSend op_sid.simps by blast
    have "set ss' \<union> set rs' \<union> sids rets \<subseteq> insert (op_sid opn) ?Q"
      using s(3) OSend by auto
    then have "(set ss' \<union> set rs' \<union> sids rets) \<inter> op_sid ` set ops = {}"
      using x(2,3) by (rule disjoint_insert_sub)
    from Cons.IH [OF s(2) x(4) this] obtain w2 c2 ss2 rs2 rets2 where ih:
      "chan_run d w' c' (vs @ [v]) rets ops = Some (w2, c2, (vs @ [v]) @ op_sends ops, rets @ rets2)"
      "map (\<lambda>(g, x, r). (g, x)) rets2 = op_recvs ops"
      "run_inv w2 c2 ss2 rs2 ((vs @ [v]) @ op_sends ops) (rets @ rets2)"
      by blast
    show ?thesis
      by (rule exI [of _ w2], rule exI [of _ c2], rule exI [of _ ss2], rule exI [of _ rs2],
          rule exI [of _ rets2]) (use ih s(1) OSend in simp)
  next
    case (ORecv g x)
    show ?thesis
    proof (cases "pending w (state c) ss = []")
      case True
      obtain w' c' where s: "chan_Recv d w c (Some g) x = Some (Done (w', c', Parked x))"
        "run_inv w' c' ss (rs @ [x]) vs (rets @ [(g, x, None)])"
        using run_recv_park [OF Cons.prems(1) True, of x d g] x(1) unfolding ORecv op_sid.simps by blast
      have "(set ss \<union> set (rs @ [x]) \<union> sids (rets @ [(g, x, None)])) \<inter> op_sid ` set ops = {}"
        by (rule disjoint_insert_sub [OF _ x(2,3)]) (use ORecv in auto)
      from Cons.IH [OF s(2) x(4) this] obtain w2 c2 ss2 rs2 rets2 where ih:
        "chan_run d w' c' vs (rets @ [(g, x, None)]) ops =
           Some (w2, c2, vs @ op_sends ops, (rets @ [(g, x, None)]) @ rets2)"
        "map (\<lambda>(g, x, r). (g, x)) rets2 = op_recvs ops"
        "run_inv w2 c2 ss2 rs2 (vs @ op_sends ops) ((rets @ [(g, x, None)]) @ rets2)"
        by blast
      show ?thesis
        by (rule exI [of _ w2], rule exI [of _ c2], rule exI [of _ ss2], rule exI [of _ rs2],
            rule exI [of _ "(g, x, None) # rets2"]) (use ih s(1) ORecv in simp)
    next
      case False
      obtain w' c' ss' p where s: "chan_Recv d w c (Some g) x = Some (Done (w', c', Returned p))"
        "run_inv w' c' ss' rs vs (rets @ [(g, x, Some p)])" "set ss' \<subseteq> set ss"
        using run_recv_value [OF Cons.prems(1) False, of x d g] x(1) unfolding ORecv op_sid.simps by blast
      have "(set ss' \<union> set rs \<union> sids (rets @ [(g, x, Some p)])) \<inter> op_sid ` set ops = {}"
        by (rule disjoint_insert_sub [OF _ x(2,3)]) (use s(3) ORecv in auto)
      from Cons.IH [OF s(2) x(4) this] obtain w2 c2 ss2 rs2 rets2 where ih:
        "chan_run d w' c' vs (rets @ [(g, x, Some p)]) ops =
           Some (w2, c2, vs @ op_sends ops, (rets @ [(g, x, Some p)]) @ rets2)"
        "map (\<lambda>(g, x, r). (g, x)) rets2 = op_recvs ops"
        "run_inv w2 c2 ss2 rs2 (vs @ op_sends ops) ((rets @ [(g, x, Some p)]) @ rets2)"
        by blast
      show ?thesis
        by (rule exI [of _ w2], rule exI [of _ c2], rule exI [of _ ss2], rule exI [of _ rs2],
            rule exI [of _ "(g, x, Some p) # rets2"]) (use ih s(1) ORecv in simp)
    qed
  qed
qed

end
