(* ===== verification/Chan_Props.thy ===== *)
theory Chan_Props
  imports Chan_Run Chan_Eff
begin

text \<open>
  What a channel promises its users (\<^verbatim>\<open>src/src/gochan.rs\<close>), stated over whole runs: order and
  completeness of delivery, closing, and draining a closed channel.
\<close>

lemma new_buffered_run_inv:
  assumes "n \<le> 2 ^ 62"
  shows "run_inv w (new_buffered n :: 'v hchan) [] [] [] []"
proof -
  have m: "max n 1 \<le> 2 ^ 62" using assms by simp
  have "n \<le> next_power_of_two (max n 1)"
    using next_power_of_two_bounds(2) [OF m] by simp
  then have "n \<le> length (slots (ring_new (max n 1) :: 'v ring))"
    by (simp add: ring_new_def Let_def)
  moreover have "ring_inv (ring_new (max n 1) :: 'v ring)" "ring_list (ring_new (max n 1) :: 'v ring) = []"
    by (rule ring_new_inv [OF m])+
  ultimately show ?thesis
    by (simp add: run_inv_def run_ok_def new_buffered_def chan_rep_def sq_rep_def sq_new_def chan_inv_def pending_def
        del: length_ring_list)
qed

lemma list_all2_split:
  assumes "list_all2 P ds us" "vs = us @ p" "rets = ds @ q" "q = [] \<or> p = []"
  shows "length us = min (length vs) (length rets)" "p = drop (length rets) vs" "q = drop (length vs) rets"
    "\<forall>i < length rets. i < length vs \<longrightarrow> P (rets ! i) (vs ! i)"
  using assms list_all2_lengthD [OF assms(1)] list_all2_nthD [OF assms(1)]
  by (auto simp: nth_append)

text \<open>
  C1: channels deliver in order, completely.  On a fresh channel of any capacity (0 is unbuffered), take any
  sequence of sends and receives by any goroutines.  Every call returns or parks, none ends the process.  The
  i-th receiving call gets exactly the i-th value sent, as soon as both calls have been made: it returned that
  value, or it parked and has since been made runnable with that value waiting for it.  Receiving calls beyond
  the number of sends are the ones still parked, in order.  Values beyond the number of receives are exactly the
  ones the channel still holds, in order; the buffer holds at most the capacity, and senders park only when it is
  full.
\<close>

theorem chan_fifo:
  assumes "n \<le> 2 ^ 62" "distinct (map op_sid ops)"
  shows "\<exists>w' c rets ss rs. chan_run d w (new_buffered n) [] [] ops = Some (w', c, op_sends ops, rets) \<and>
     map (\<lambda>(g, x, r). (g, x)) rets = op_recvs ops \<and>
     (\<forall>i < length rets. i < length (op_sends ops) \<longrightarrow> got w' (rets ! i) (op_sends ops ! i)) \<and>
     chan_rep w' (state c) ss rs \<and>
     map (\<lambda>x. (sg_g (sgs w' x), x, None)) rs = drop (length (op_sends ops)) rets \<and>
     pending w' (state c) ss = drop (length (op_recvs ops)) (op_sends ops) \<and>
     (ss \<noteq> [] \<longrightarrow> length (ring_list (buf (state c))) = cap (state c))"
proof -
  obtain w' c ss rs rets where r: "chan_run d w (new_buffered n) [] [] ops = Some (w', c, op_sends ops, rets)"
    "map (\<lambda>(g, x, r). (g, x)) rets = op_recvs ops" "run_inv w' c ss rs (op_sends ops) rets"
    using chan_run_inv [OF new_buffered_run_inv [OF assms(1), of w] assms(2), of d] by auto
  obtain us ds where i: "run_ok w' c ss rs" "op_sends ops = us @ pending w' (state c) ss"
    "rets = ds @ map (\<lambda>x. (sg_g (sgs w' x), x, None)) rs" "list_all2 (got w') ds us"
    using r(3) unfolding run_inv_def by blast
  have "map (\<lambda>x. (sg_g (sgs w' x), x, None)) rs = [] \<or> pending w' (state c) ss = []"
    using run_ok_one_side(3) [of w' c ss] i(1) by (cases rs) auto
  note sp = list_all2_split [OF i(4,2,3) this]
  have rep: "chan_rep w' (state c) ss rs" using i(1) by (simp add: run_ok_def)
  have "length rets = length (op_recvs ops)" using r(2) by (metis length_map)
  moreover have "length (ring_list (buf (state c))) = cap (state c)" if "ss \<noteq> []"
  proof (cases "cap (state c) = 0")
    case True
    then show ?thesis using rep by (simp add: chan_rep_def)
  next
    case False
    have "\<exists>x \<in> set ss. live w' x"
      using that run_ok_live [OF i(1)] by (meson UnI1 list.set_sel(1))
    with False i(1) show ?thesis unfolding run_ok_def chan_inv_def by blast
  qed
  ultimately show ?thesis
    using r(1,2) sp(2-4) rep by (intro exI [of _ w'] exI [of _ c] exI [of _ rets] exI [of _ ss] exI [of _ rs]) simp
qed

definition idle_world :: "'v world" where
  "idle_world = \<lparr>sgs = (\<lambda>_. new_recv 0), dones = (\<lambda>_. False), readied = []\<rparr>"

theorem chan_fifo_witness:
  "(1 :: nat) \<le> 2 ^ 62 \<and> distinct (map op_sid [ORecv 1 10, OSend 2 11 ''a'', OSend 3 12 ''b'', OSend 4 13 ''c'', ORecv 5 14]) \<and>
   (\<exists>w' c rets. chan_run ''zero'' idle_world (new_buffered 1) [] []
        [ORecv 1 10, OSend 2 11 ''a'', OSend 3 12 ''b'', OSend 4 13 ''c'', ORecv 5 14] =
      Some (w', c, [''a'', ''b'', ''c''], rets) \<and> got w' (rets ! 1) ''b'')"
proof -
  let ?ops = "[ORecv 1 10, OSend 2 11 ''a'', OSend 3 12 ''b'', OSend 4 13 ''c'', ORecv 5 14]"
  obtain w' c rets where r: "chan_run ''zero'' idle_world (new_buffered 1) [] [] ?ops =
      Some (w', c, op_sends ?ops, rets)" "map (\<lambda>(g, x, r). (g, x)) rets = op_recvs ?ops"
    "\<forall>i < length rets. i < length (op_sends ?ops) \<longrightarrow> got w' (rets ! i) (op_sends ?ops ! i)"
    using chan_fifo [of 1 ?ops "''zero''" idle_world] by auto
  have "length rets = 2" using arg_cong [OF r(2), of length] by simp
  then have "got w' (rets ! 1) ''b''" using r(3) [rule_format, of 1] by simp
  with r(1) show ?thesis by auto
qed

section \<open>Closing\<close>

lemma closed_out_sibling:
  assumes "closed_out clear w w' xs ds" "live w x" "x \<in> set xs \<and> x \<in> set ds \<or> \<not> live w' x"
    "sg_coord (sgs w x) \<noteq> None"
  shows "\<exists>y \<in> set xs - set ds. sg_coord (sgs w y) = sg_coord (sgs w x)"
proof -
  obtain c where c: "sg_coord (sgs w x) = Some c" using assms(4) by auto
  have "\<not> live w' x" using assms(1,3,4) unfolding closed_out_def by blast
  then have "dones w' c" "\<not> dones w c"
    using assms(2) c closed_out_coord(1) [OF assms(1), of x] by (auto simp: live_def)
  then show ?thesis using assms(1) c unfolding closed_out_def by auto
qed

lemma closed_out_woken:
  assumes "closed_out clear w w' xs ds" "x \<in> set xs" "x \<notin> set ds"
  shows "live w x" "\<not> sg_success (sgs w' x)"
proof -
  show "live w x" using assms unfolding closed_out_def by blast
  have "payload (sgs w' x) =
      (sg_g (sgs w x), if clear then None else sg_value (sgs w x), False, sg_coord (sgs w x))"
    using assms by (simp add: closed_out_def)
  then show "\<not> sg_success (sgs w' x)" by (simp add: payload_def)
qed

lemma live_coord_None: "\<not> live w x \<Longrightarrow> sg_coord (sgs w x) \<noteq> None"
  by (auto simp: live_def split: option.splits)

lemma close_reaches:
  assumes "closed_out True w w1 rs ds" "closed_out False w1 w' ss es" "live w x" "x \<in> set ss \<union> set rs"
  shows "\<exists>y \<in> set (survivors ds rs @ survivors es ss).
           y = x \<or> sg_coord (sgs w x) \<noteq> None \<and> sg_coord (sgs w y) = sg_coord (sgs w x)"
proof (cases "x \<in> set (survivors ds rs @ survivors es ss)")
  case False
  note co = closed_out_coord(1) [OF assms(1)]
  show ?thesis
  proof (cases "x \<in> set rs \<or> \<not> live w1 x")
    case True
    then have x: "x \<in> set rs \<and> x \<in> set ds \<or> \<not> live w1 x" using False by (auto simp: survivors_def)
    then have n: "sg_coord (sgs w x) \<noteq> None"
      using assms(1) live_coord_None [of w1 x] co [of x] by (auto simp: closed_out_def)
    from closed_out_sibling [OF assms(1,3) x n] n show ?thesis by (auto simp: survivors_def)
  next
    case l: False
    then have x: "x \<in> set ss \<and> x \<in> set es" using False assms(4) by (auto simp: survivors_def)
    then have n: "sg_coord (sgs w1 x) \<noteq> None" using assms(2) by (auto simp: closed_out_def)
    from closed_out_sibling [OF assms(2) _ _ n] l x n show ?thesis
      by (auto simp: survivors_def co)
  qed
qed blast

text \<open>
  C4: closing an open channel wakes everybody who waits on it, once.  \<^verbatim>\<open>Close\<close> returns, marks
  the channel closed and keeps the buffered values.  It makes the goroutines of the entries \<open>ws\<close> runnable,
  receivers first, each with \<^verbatim>\<open>success = false\<close>.  Every entry that was still waiting is among
  them, or is a case of a select that has another case among them; no select is woken by two of its cases.  What
  stays in the queues is only entries of selects that have been decided.
\<close>

theorem chan_close_wakes_all:
  assumes "\<not> nil c" "\<not> closed (state c)" "chan_rep w (state c) ss rs"
  shows "\<exists>w' s' es ds ws. chan_Close w c = Some (Done (w', c\<lparr>state := s'\<rparr>)) \<and>
     closed s' \<and> buf s' = buf (state c) \<and> chan_rep w' s' es ds \<and>
     ws = survivors ds rs @ survivors es ss \<and>
     readied w' = readied w @ map (\<lambda>x. sg_g (sgs w x)) ws \<and>
     (\<forall>x \<in> set ws. live w x \<and> \<not> sg_success (sgs w' x)) \<and>
     (\<forall>x \<in> set ss \<union> set rs. live w x \<longrightarrow>
        (\<exists>y \<in> set ws. y = x \<or> sg_coord (sgs w x) \<noteq> None \<and> sg_coord (sgs w y) = sg_coord (sgs w x))) \<and>
     distinct (filter (\<lambda>k. k \<noteq> None) (map (\<lambda>x. sg_coord (sgs w x)) ws)) \<and>
     (\<forall>x \<in> set es \<union> set ds. \<not> live w' x)"
proof -
  obtain w1 w' sq rq es ds where
    cl: "chan_Close w c = Some (Done (w', c\<lparr>state := (state c)\<lparr>closed := True, recvq := rq, sendq := sq\<rparr>\<rparr>))"
    "chan_rep w' ((state c)\<lparr>closed := True, recvq := rq, sendq := sq\<rparr>) es ds"
    "set es \<subseteq> set ss" "set ds \<subseteq> set rs" "closed_out True w w1 rs ds" "closed_out False w1 w' ss es"
    using chan_Close_open [OF assms] by blast
  let ?ws = "survivors ds rs @ survivors es ss"
  have dj: "set ss \<inter> set rs = {}" using assms(3) by (simp add: chan_rep_def)
  have "readied w' = readied w @ map (\<lambda>x. sg_g (sgs w x)) ?ws"
    using cl(5,6) closed_out_coord(2) [OF cl(5)] by (simp add: closed_out_def survivors_def)
  moreover have "live w x \<and> \<not> sg_success (sgs w' x)" if x: "x \<in> set ?ws" for x
  proof -
    have p: "payload (sgs w' x) = payload (sgs w1 x)" if "x \<notin> set ss"
      using cl(6) that by (simp add: closed_out_def)
    consider "x \<in> set rs" "x \<notin> set ds" "x \<notin> set ss" | "x \<in> set ss" "x \<notin> set es"
      using x dj by (auto simp: survivors_def)
    then show ?thesis
    proof cases
      case 1
      then have "live w x" "\<not> sg_success (sgs w1 x)"
        using closed_out_woken [OF cl(5)] by blast+
      with p [OF 1(3)] show ?thesis by (simp add: payload_eq_iff)
    next
      case 2
      then have "live w1 x" "\<not> sg_success (sgs w' x)"
        using closed_out_woken [OF cl(6)] by blast+
      with closed_out_live_imp [OF cl(5)] show ?thesis by simp
    qed
  qed
  moreover have "\<not> live w' x" if "x \<in> set es \<union> set ds" for x
    by (rule close_dead [OF cl(5,6,4,3) that])
  ultimately show ?thesis
    using cl(1,2) close_once [OF cl(5,6)] close_reaches [OF cl(5,6)]
    by (intro exI [of _ w'] exI [of _ "(state c)\<lparr>closed := True, recvq := rq, sendq := sq\<rparr>"]
        exI [of _ es] exI [of _ ds] exI [of _ ?ws]) simp
qed

definition one_receiver :: "'v hchan" where
  "one_receiver = new_unbuffered\<lparr>state := (state new_unbuffered)\<lparr>recvq := \<lparr>q_head = Some 5, q_tail = Some 5\<rparr>\<rparr>\<rparr>"

lemma one_receiver_rep: "chan_rep idle_world (state (one_receiver :: 'v hchan)) [] [5]"
proof -
  have "run_inv idle_world (new_buffered 0 :: 'v hchan) [] [] [] []"
    by (rule new_buffered_run_inv) simp
  then show ?thesis
    by (simp add: run_inv_def run_ok_def chan_rep_def one_receiver_def new_unbuffered_def sq_rep_def
        idle_world_def new_recv_def)
qed

theorem chan_close_wakes_all_witness:
  "\<not> nil (one_receiver :: string hchan) \<and> \<not> closed (state (one_receiver :: string hchan)) \<and>
   chan_rep idle_world (state (one_receiver :: string hchan)) [] [5] \<and>
   (\<exists>w' s'. chan_Close idle_world (one_receiver :: string hchan) = Some (Done (w', one_receiver\<lparr>state := s'\<rparr>)) \<and> closed s' \<and>
      readied w' = [0] \<and> \<not> sg_success (sgs w' 5))"
proof -
  have h: "\<not> nil (one_receiver :: string hchan)" "\<not> closed (state (one_receiver :: string hchan))"
    by (simp_all add: one_receiver_def new_unbuffered_def new_buffered_def)
  have l: "live (idle_world :: string world) 5" "sg_coord (sgs (idle_world :: string world) 5) = None"
    "sg_g (sgs (idle_world :: string world) 5) = 0"
    by (simp_all add: idle_world_def new_recv_def live_def)
  from chan_close_wakes_all [OF h one_receiver_rep] show ?thesis
  proof (elim exE conjE)
    let ?w = "idle_world :: string world"
    fix w' s' es ds ws
    assume r: "chan_Close ?w (one_receiver :: string hchan) = Some (Done (w', one_receiver\<lparr>state := s'\<rparr>))"
      "closed s'" "ws = survivors ds [5] @ survivors es []"
      "readied w' = readied ?w @ map (\<lambda>x. sg_g (sgs ?w x)) ws"
      "\<forall>x \<in> set ws. live ?w x \<and> \<not> sg_success (sgs w' x)"
      "\<forall>x \<in> set [] \<union> set [5]. live ?w x \<longrightarrow>
        (\<exists>y \<in> set ws. y = x \<or> sg_coord (sgs ?w x) \<noteq> None \<and> sg_coord (sgs ?w y) = sg_coord (sgs ?w x))"
    have "5 \<in> set ws" using bspec [OF r(6), of 5] l by simp
    then have ws: "ws = [5]" using r(3) by (simp add: survivors_def split: if_splits)
    have "readied w' = [0]" using r(4) l(3) unfolding ws by (simp add: idle_world_def)
    moreover have "\<not> sg_success (sgs w' 5)" using r(5) ws by simp
    ultimately show ?thesis using r(1,2) h one_receiver_rep by blast
  qed
qed

section \<open>Draining a closed channel\<close>

text \<open>\<open>k\<close> receiving calls in a row, by one goroutine; none of them may park.\<close>

fun recv_many :: "'v \<Rightarrow> 'v world \<Rightarrow> 'v hchan \<Rightarrow> nat \<Rightarrow> ('v \<times> bool) list option" where
  "recv_many d w c 0 = Some []"
| "recv_many d w c (Suc k) =
     (case chan_Recv d w c None 0 of
        Some (Done (w', c', Returned r)) \<Rightarrow> map_option ((#) r) (recv_many d w' c' k)
      | _ \<Rightarrow> None)"

text \<open>
  C5: after \<^verbatim>\<open>Close\<close> the buffered values can still be received, in order and with
  \<open>ok = true\<close>; every later receive returns the zero value with \<open>ok = false\<close> at once, for ever, and
  every \<^verbatim>\<open>Send\<close> and every second \<^verbatim>\<open>Close\<close> is fatal.
\<close>

theorem chan_closed_drains:
  assumes "\<not> nil c" "closed (state c)" "chan_rep w (state c) ss rs" "chan_inv w (state c) ss rs"
  shows "recv_many d w c k =
           Some (map (\<lambda>v. (v, True)) (take k (ring_list (buf (state c)))) @
                 replicate (k - length (ring_list (buf (state c)))) (d, False)) \<and>
         chan_Send w c g x v = Some (Fatal ''goish: chan: send on closed channel'') \<and>
         chan_Close w c = Some (Fatal ''goish: chan: close of closed channel'')"
proof (intro conjI)
  show "recv_many d w c k =
           Some (map (\<lambda>v. (v, True)) (take k (ring_list (buf (state c)))) @
                 replicate (k - length (ring_list (buf (state c)))) (d, False))"
    using assms
  proof (induction k arbitrary: c)
    case (Suc k)
    show ?case
    proof (cases "ring_list (buf (state c))")
      case Nil
      with Suc.IH [OF Suc.prems] show ?thesis
        by (simp add: chan_Recv_closed [OF Suc.prems(1,2) Nil] del: length_ring_list)
    next
      case (Cons y ys)
      have f: "find (live w) ss = None"
        using Suc.prems(2,4) unfolding find_live_None chan_inv_def by blast
      have ne: "ring_list (buf (state c)) \<noteq> []" using Cons by simp
      have p: "pending w (state c) ss = ring_list (buf (state c))"
        using f by (simp add: pending_def find_live_None filter_empty_conv)
      obtain b where b: "chan_Recv d w c None 0 =
          Some (Done (w, c\<lparr>state := (state c)\<lparr>buf := b\<rparr>\<rparr>, Returned (y, True)))"
        "chan_rep w ((state c)\<lparr>buf := b\<rparr>) ss rs" "chan_inv w ((state c)\<lparr>buf := b\<rparr>) ss rs"
        "pending w ((state c)\<lparr>buf := b\<rparr>) ss = ys"
        using chan_Recv_buffer [OF Suc.prems(1,3,4) f ne, of d None 0] unfolding p Cons by auto
      have "ring_list b = ys"
        using b(4) f by (simp add: pending_def find_live_None filter_empty_conv)
      then show ?thesis
        using Suc.IH [of "c\<lparr>state := (state c)\<lparr>buf := b\<rparr>\<rparr>"] b(1-3) Suc.prems(1,2) Cons
        by (simp del: length_ring_list)
    qed
  qed simp
qed (use assms(1,2) in \<open>simp_all add: chan_Send_closed chan_Close_def\<close>)

theorem chan_closed_drains_witness:
  "\<exists>c. \<not> nil c \<and> closed (state c) \<and> recv_many ''zero'' idle_world c 2 = Some [(''zero'', False), (''zero'', False)]"
proof -
  let ?c = "one_receiver\<lparr>state := (state new_unbuffered)\<lparr>closed := True\<rparr>\<rparr> :: string hchan"
  have "run_inv idle_world (new_buffered 0 :: string hchan) [] [] [] []"
    by (rule new_buffered_run_inv) simp
  then have i: "chan_rep idle_world (state ?c) [] []" "chan_inv idle_world (state ?c) [] []"
    "ring_list (buf (state ?c)) = []"
    by (auto simp: run_inv_def run_ok_def new_unbuffered_def chan_rep_def pending_def intro: chan_inv_no_live)
  have n: "\<not> nil ?c" "closed (state ?c)"
    by (simp_all add: one_receiver_def new_unbuffered_def new_buffered_def)
  have "recv_many ''zero'' idle_world ?c 2 = Some [(''zero'', False), (''zero'', False)]"
    using conjunct1 [OF chan_closed_drains [OF n i(1,2), of "''zero''" 2]] i(3)
    by (simp add: numeral_2_eq_2 del: recv_many.simps length_ring_list)
  with n show ?thesis by blast
qed

end
