(* ===== verification/Select_Props.thy ===== *)
theory Select_Props
  imports Select_Run Chan_Props
begin

text \<open>
  What a select promises, against every behaviour of the other goroutines: it never loses a wake-up, and exactly one
  of its cases fires.
\<close>

section \<open>The whole statement\<close>

lemma select_stmt_parks:
  assumes "sys_rep w C SS RS" "inj_on sd {..<length cs}" "sd ` {..<length cs} \<inter> queued SS RS = {}"
    "\<forall>x \<in> queued SS RS. sg_coord (sgs w x) \<noteq> Some k"
    "\<forall>i < length cs. \<not> nil (C (case_chan (cs ! i))) \<longrightarrow> blocked w C SS RS k (cs ! i)"
  shows "\<exists>w' C' SS' RS'. select_register (select_alloc w g k sd cs) C sd cs (emit_order cs) = Done (w', C') \<and>
           sys_rep w' C' SS' RS' \<and> (\<forall>c. nil (C' c) = nil (C c)) \<and>
           keeps_sels w SS RS w' SS' RS' {k} (sd ` {..<length cs}) \<and> \<not> dones w' k \<and>
           sel_inv w' SS' RS' cs sd g k {i. i < length cs \<and> \<not> nil (C (case_chan (cs ! i)))} (length (readied w'))"
proof -
  let ?w = "select_alloc w g k sd cs" and ?I = "{i. i < length cs \<and> \<not> nil (C (case_chan (cs ! i)))}"
  note a = select_alloc_spec [OF assms(1-4), where g = g] and al = select_alloc_sgs [OF assms(2), where w = w and g = g and k = k]
  have t: "\<forall>i \<in> set (emit_order cs). to_register ?w C SS RS k sd cs i"
  proof
    fix i assume "i \<in> set (emit_order cs)"
    then have i: "i < length cs" by (simp add: emit_order_set)
    have q: "sd i \<notin> queued SS RS" using assms(3) i by blast
    have b: "blocked ?w C SS RS k (cs ! i)" if "\<not> nil (C (case_chan (cs ! i)))"
    proof -
      have "\<forall>y \<in> queues SS RS (case_chan (cs ! i)). live ?w y = live w y \<and> sgs ?w y = sgs w y"
        using a(3,4) unfolding queued_iff by blast
      moreover have "blocked w C SS RS k (cs ! i)" using assms(5) i that by blast
      ultimately show ?thesis unfolding blocked_def by (simp split: if_splits)
    qed
    show "to_register ?w C SS RS k sd cs i"
      using q b al(1) [OF i]
      by (cases "cs ! i") (simp_all add: to_register_def new_send_select_def new_recv_select_def)
  qed
  have em: "distinct (emit_order cs)" "inj_on sd (set (emit_order cs))"
    using assms(2) by (simp_all add: emit_order_distinct emit_order_set)
  from select_register_spec [OF a(1) em t] obtain w' C' SS' RS' where
    r: "select_register ?w C sd cs (emit_order cs) = Done (w', C')" "sys_rep w' C' SS' RS'" "same_status C C'"
    "dones w' = dones ?w" "readied w' = readied ?w" "\<forall>y. payload (sgs w' y) = payload (sgs ?w y)"
    "queued SS' RS' \<subseteq> queued SS RS \<union> sd ` ?I" "\<forall>i \<in> ?I. in_place SS' RS' cs sd i"
    "keeps_sels ?w SS RS w' SS' RS' {k} (sd ` {..<length cs})"
    unfolding emit_order_set by auto
  have nd: "\<not> dones w' k" by (simp add: r(4) al(3))
  have co: "sg_coord (sgs w' (sd i)) = Some k \<and> sg_g (sgs w' (sd i)) = g" if "i < length cs" for i
    using r(6) [rule_format, of "sd i"] al(1) [OF that]
    by (cases "cs ! i") (simp_all add: payload_eq_iff new_send_select_def new_recv_select_def)
  have "sel_inv w' SS' RS' cs sd g k ?I (length (readied w'))"
    unfolding sel_inv_def
  proof (intro conjI)
    show "inj_on sd ?I" using assms(2) by (rule inj_on_subset) auto
    show "\<forall>x \<in> queued SS' RS'. sg_coord (sgs w' x) = Some k \<longrightarrow> x \<in> sd ` ?I"
    proof (intro ballI impI)
      fix x assume x: "x \<in> queued SS' RS'" "sg_coord (sgs w' x) = Some k"
      have "x \<notin> queued SS RS"
      proof
        assume q: "x \<in> queued SS RS"
        then have "sg_coord (sgs w' x) = sg_coord (sgs w x)"
          using r(6) [rule_format, of x] a(3) by (simp add: payload_eq_iff)
        moreover have "sg_coord (sgs w x) \<noteq> Some k" using assms(4) q by blast
        ultimately show False using x(2) by simp
      qed
      then show "x \<in> sd ` ?I" using r(7) x(1) by blast
    qed
    have "sd i \<in> queued SS' RS'" if "i \<in> ?I" for i
      using r(8) that unfolding in_place_def queued_iff by (meson UnI1 UnI2)
    then show "if dones w' k then (\<exists>!i. i \<in> ?I \<and> sd i \<notin> queued SS' RS') \<and> g \<in> set (drop (length (readied w')) (readied w'))
      else (\<forall>i \<in> ?I. sd i \<in> queued SS' RS')" using nd by simp
  qed (use co r(8) in auto)
  moreover have "keeps_sels w SS RS w' SS' RS' {k} (sd ` {..<length cs})"
    by (rule keeps_sels_trans [OF a(2) r(9)])
  ultimately show ?thesis
    using r(1,2) nd r(3) unfolding same_status_def by blast
qed

lemma select_stmt_spec:
  assumes "sys_rep w C SS RS" "set ord = {..<length cs}" "inj_on sd {..<length cs}"
    "sd ` {..<length cs} \<inter> queued SS RS = {}" "\<forall>x \<in> queued SS RS. sg_coord (sgs w x) \<noteq> Some k"
    "select_stmt d w C cs dflt ord g k sd = Some (Done (w', C', res))"
  shows "\<exists>SS' RS'. sys_rep w' C' SS' RS' \<and> (\<forall>c. nil (C' c) = nil (C c)) \<and>
           keeps_sels w SS RS w' SS' RS' {k} (sd ` {..<length cs}) \<and>
           (res = SelParked \<longrightarrow> \<not> dones w' k \<and>
              sel_inv w' SS' RS' cs sd (the g) k {i. i < length cs \<and> \<not> nil (C (case_chan (cs ! i)))} (length (readied w')))"
proof -
  have o: "\<forall>i \<in> set ord. i < length cs" using assms(2) by simp
  have ne: "\<not> (cs = [] \<and> \<not> dflt)" using assms(6) by (auto simp: select_stmt_def split: if_splits)
  have "select_poll d w C cs ord \<noteq> Some (Fatal m)" for m
    using assms(6) ne by (auto simp: select_stmt_def)
  then obtain w1 C1 res1 SS1 RS1 where p: "select_poll d w C cs ord = Some (Done (w1, C1, res1))"
    "sys_rep w1 C1 SS1 RS1" "\<forall>c. nil (C1 c) = nil (C c)" "keeps_sels w SS RS w1 SS1 RS1 {} {}"
    "res1 = None \<longrightarrow> w1 = w \<and> SS1 = SS \<and> RS1 = RS \<and> same_status C C1 \<and>
       (\<forall>i \<in> set ord. \<not> nil (C (case_chan (cs ! i))) \<longrightarrow> blocked w C SS RS k (cs ! i))"
    using select_poll_spec [OF assms(1) o, of d k] by blast
  have k1: "keeps_sels w SS RS w1 SS1 RS1 {k} (sd ` {..<length cs})"
    by (rule keeps_sels_mono [OF p(4)]) auto
  show ?thesis
  proof (cases "res1 \<noteq> None \<or> dflt")
    case True
    then have "w' = w1" "C' = C1" "res \<noteq> SelParked"
      using assms(6) p(1) ne by (auto simp: select_stmt_def split: option.splits)
    then show ?thesis using p(2,3) k1 by blast
  next
    case False
    then have n: "w1 = w" "SS1 = SS" "RS1 = RS" "same_status C C1" "res1 = None" "\<not> dflt"
      using p(5) by blast+
    obtain gp where g: "g = Some gp"
      using assms(6) p(1) n ne by (cases g) (auto simp: select_stmt_def)
    have rep: "sys_rep w C1 SS RS" using p(2) n by simp
    have b: "\<forall>i < length cs. \<not> nil (C1 (case_chan (cs ! i))) \<longrightarrow> blocked w C1 SS RS k (cs ! i)"
      using p(3,5) n(5) assms(2) blocked_same_status [OF n(4)] by simp
    obtain w2 C2 SS2 RS2 where r: "select_register (select_alloc w gp k sd cs) C1 sd cs (emit_order cs) = Done (w2, C2)"
      "sys_rep w2 C2 SS2 RS2" "\<forall>c. nil (C2 c) = nil (C1 c)"
      "keeps_sels w SS RS w2 SS2 RS2 {k} (sd ` {..<length cs})" "\<not> dones w2 k"
      "sel_inv w2 SS2 RS2 cs sd gp k {i. i < length cs \<and> \<not> nil (C1 (case_chan (cs ! i)))} (length (readied w2))"
      using select_stmt_parks [OF rep assms(3-5) b, of gp] by blast
    have "w' = w2" "C' = C2"
      using assms(6) p(1) n ne g r(1) by (auto simp: select_stmt_def)
    then show ?thesis using r(2-6) p(3) g by simp blast
  qed
qed

section \<open>Everything the other goroutines can do\<close>

text \<open>An address is free if no queue holds it; a coordinator is unused if no queued entry refers to it.\<close>

definition free :: "'v world \<Rightarrow> 'v chans \<Rightarrow> sid set \<Rightarrow> bool" where
  "free w C X \<longleftrightarrow> (\<forall>SS RS. sys_rep w C SS RS \<longrightarrow> X \<inter> queued SS RS = {})"

definition unused :: "'v world \<Rightarrow> 'v chans \<Rightarrow> coord \<Rightarrow> bool" where
  "unused w C k \<longleftrightarrow> (\<forall>SS RS. sys_rep w C SS RS \<longrightarrow> (\<forall>x \<in> queued SS RS. sg_coord (sgs w x) \<noteq> Some k))"

text \<open>
  One step of some other goroutine: a send, a receive, a close, another select up to its park, or the cancelling pass
  of another select.  \<open>k\<close> and \<open>X\<close> are the coordinator and the sudog addresses of the select under
  observation; the others use their own.
\<close>

inductive other_step :: "'v \<Rightarrow> coord \<Rightarrow> sid set \<Rightarrow> 'v world \<times> 'v chans \<Rightarrow> 'v world \<times> 'v chans \<Rightarrow> bool" for d k X where
  other_send: "\<not> nil (C c) \<Longrightarrow> x \<notin> X \<Longrightarrow> free w C {x} \<Longrightarrow>
    chan_Send w (C c) (Some g) x v = Some (Done (w', c', r)) \<Longrightarrow> other_step d k X (w, C) (w', C(c := c'))"
| other_recv: "\<not> nil (C c) \<Longrightarrow> x \<notin> X \<Longrightarrow> free w C {x} \<Longrightarrow>
    chan_Recv d w (C c) (Some g) x = Some (Done (w', c', r)) \<Longrightarrow> other_step d k X (w, C) (w', C(c := c'))"
| other_close: "\<not> nil (C c) \<Longrightarrow> chan_Close w (C c) = Some (Done (w', c')) \<Longrightarrow> other_step d k X (w, C) (w', C(c := c'))"
| other_select: "k' \<noteq> k \<Longrightarrow> sd ` {..<length cs} \<inter> X = {} \<Longrightarrow> inj_on sd {..<length cs} \<Longrightarrow>
    free w C (sd ` {..<length cs}) \<Longrightarrow> unused w C k' \<Longrightarrow> set ord = {..<length cs} \<Longrightarrow>
    select_stmt d w C cs dflt ord g k' sd = Some (Done (w', C', res)) \<Longrightarrow> other_step d k X (w, C) (w', C')"
| other_cancel: "sd i \<notin> X \<Longrightarrow> select_cancel w C sd cs i = Some (w', C', b) \<Longrightarrow> other_step d k X (w, C) (w', C')"

lemma sys_of_eff:
  assumes "sys_rep w C SS RS" "sel_inv w SS RS cs sd g k I r0" "sd ` I \<subseteq> X" "\<not> nil (C c)"
    "chan_eff w (SS c) (RS c) w' s' ss' rs' ls" "set ss' \<union> set rs' \<subseteq> insert x (queues SS RS c)"
    "x \<in> set ss' \<union> set rs' \<longrightarrow> sg_coord (sgs w' x) = None" "x \<notin> X" "free w C {x}"
  shows "sys_rep w' (set_chan C c s') (SS(c := ss')) (RS(c := rs')) \<and>
         sel_inv w' (SS(c := ss')) (RS(c := rs')) cs sd g k I r0"
proof
  have x: "x \<notin> queued SS RS" using assms(1,9) unfolding free_def by blast
  show "sys_rep w' (set_chan C c s') (SS(c := ss')) (RS(c := rs'))"
  proof (rule sys_eff [OF assms(1,4,5)])
    fix c' assume "c' \<noteq> c"
    moreover have "x \<notin> queues SS RS c'" using x unfolding queued_iff by blast
    ultimately show "(set ss' \<union> set rs') \<inter> queues SS RS c' = {}"
      using assms(6) sys_repD(5) [OF assms(1), of c c'] by blast
  qed
  show "sel_inv w' (SS(c := ss')) (RS(c := rs')) cs sd g k I r0"
  proof (rule sel_eff [OF assms(1,2,5)])
    fix y assume y: "y \<in> set ss' \<union> set rs'" "y \<notin> queues SS RS c"
    then have "y = x" using assms(6) by blast
    then show "y \<notin> sd ` I \<and> sg_coord (sgs w' y) \<noteq> Some k" using assms(3,7,8) y(1) by auto
  qed
qed

lemma sel_quiet:
  assumes "sel_inv w SS RS cs sd g k I r0" "dones w' = dones w" "readied w' = readied w"
    "\<forall>y. payload (sgs w' y) = payload (sgs w y)" "x \<notin> sd ` I"
    "\<forall>c. set (SS' c) \<subseteq> set (SS c) \<and> set (RS' c) \<subseteq> set (RS c)"
    "\<forall>c y. y \<noteq> x \<longrightarrow> (y \<in> set (SS' c) \<longleftrightarrow> y \<in> set (SS c)) \<and> (y \<in> set (RS' c) \<longleftrightarrow> y \<in> set (RS c))"
  shows "sel_inv w' SS' RS' cs sd g k I r0"
proof -
  have co: "sg_coord (sgs w' y) = sg_coord (sgs w y)" "sg_g (sgs w' y) = sg_g (sgs w y)" for y
    using assms(4) [rule_format, of y] by (simp_all add: payload_eq_iff)
  have ne: "sd i \<noteq> x" if "i \<in> I" for i using assms(5) that by blast
  have q: "(sd i \<in> queued SS' RS') = (sd i \<in> queued SS RS)" if "i \<in> I" for i
    using assms(7) ne [OF that] unfolding queued_iff by simp
  have p: "in_place SS' RS' cs sd i = in_place SS RS cs sd i" if "i \<in> I" for i
    using assms(7) ne [OF that] by (simp add: in_place_def)
  have sub: "queued SS' RS' \<subseteq> queued SS RS" using assms(6) unfolding queued_def by blast
  have u: "(\<exists>!i. i \<in> I \<and> sd i \<notin> queued SS' RS') = (\<exists>!i. i \<in> I \<and> sd i \<notin> queued SS RS)"
    by (rule arg_cong [where f = Ex1]) (use q in auto)
  show ?thesis
    using assms(1) sub unfolding sel_inv_def co assms(2,3) u using q p by auto
qed

lemma other_step_inv:
  assumes "other_step d k X (w, C) (w', C')" "sys_rep w C SS RS" "sel_inv w SS RS cs sd g k I r0" "sd ` I \<subseteq> X"
  shows "\<exists>SS' RS'. sys_rep w' C' SS' RS' \<and> sel_inv w' SS' RS' cs sd g k I r0 \<and> (\<forall>c. nil (C' c) = nil (C c))"
  using assms(1)
proof cases
  case (other_send c x ga v c' r)
  note ri = sys_repD(1,2) [OF assms(2) other_send(2)]
  have x: "x \<notin> queues SS RS c" using other_send(4) assms(2) unfolding free_def queued_def by blast
  have nc: "\<not> closed (state (C c))" using other_send(2,5) chan_Send_closed [of "C c"] by auto
  obtain w2 s' r2 ss' rs' ls where e: "chan_Send w (C c) (Some ga) x v = Some (Done (w2, (C c)\<lparr>state := s'\<rparr>, r2))"
    "chan_eff w (SS c) (RS c) w2 s' ss' rs' ls" "set ss' \<union> set rs' \<subseteq> insert x (queues SS RS c)"
    "x \<in> set ss' \<union> set rs' \<longrightarrow> sg_coord (sgs w2 x) = None"
    using chan_Send_eff [OF other_send(2) ri nc x, of ga v] by blast
  have "w' = w2" "C' = set_chan C c s'" using e(1) other_send(1,5) by (auto simp: set_chan_def)
  with sys_of_eff [OF assms(2-4) other_send(2) e(2-4) other_send(3,4)] show ?thesis
    by (auto simp: set_chan_def)
next
  case (other_recv c x ga c' r)
  note ri = sys_repD(1,2) [OF assms(2) other_recv(2)]
  have x: "x \<notin> queues SS RS c" using other_recv(4) assms(2) unfolding free_def queued_def by blast
  obtain w2 s' r2 ss' rs' ls where e: "chan_Recv d w (C c) (Some ga) x = Some (Done (w2, (C c)\<lparr>state := s'\<rparr>, r2))"
    "chan_eff w (SS c) (RS c) w2 s' ss' rs' ls" "set ss' \<union> set rs' \<subseteq> insert x (queues SS RS c)"
    "x \<in> set ss' \<union> set rs' \<longrightarrow> sg_coord (sgs w2 x) = None"
    using chan_Recv_eff [OF other_recv(2) ri x, of d ga] by blast
  have "w' = w2" "C' = set_chan C c s'" using e(1) other_recv(1,5) by (auto simp: set_chan_def)
  with sys_of_eff [OF assms(2-4) other_recv(2) e(2-4) other_recv(3,4)] show ?thesis
    by (auto simp: set_chan_def)
next
  case (other_close c c')
  have nc: "\<not> closed (state (C c))" using other_close(2,3) by (auto simp: chan_Close_def)
  obtain w2 s' ss' rs' ls where e: "chan_Close w (C c) = Some (Done (w2, (C c)\<lparr>state := s'\<rparr>))"
    "chan_eff w (SS c) (RS c) w2 s' ss' rs' ls" "set ss' \<union> set rs' \<subseteq> queues SS RS c"
    using chan_Close_eff [OF other_close(2) nc sys_repD(1) [OF assms(2) other_close(2)]] by blast
  have w: "w' = w2" "C' = set_chan C c s'" using e(1) other_close(1,3) by (auto simp: set_chan_def)
  have "sys_rep w2 (set_chan C c s') (SS(c := ss')) (RS(c := rs'))"
    by (rule sys_eff [OF assms(2) other_close(2) e(2)]) (use e(3) sys_repD(5) [OF assms(2)] in blast)
  moreover have "sel_inv w2 (SS(c := ss')) (RS(c := rs')) cs sd g k I r0"
    by (rule sel_eff [OF assms(2,3) e(2)]) (use e(3) in blast)
  ultimately show ?thesis using w by auto
next
  case (other_select k' sd' cs' ord dflt ga res)
  have f: "sd' ` {..<length cs'} \<inter> queued SS RS = {}" "\<forall>x \<in> queued SS RS. sg_coord (sgs w x) \<noteq> Some k'"
    using other_select(4,5) assms(2) unfolding free_def unused_def by blast+
  obtain SS' RS' where r: "sys_rep w' C' SS' RS'" "\<forall>c. nil (C' c) = nil (C c)"
    "keeps_sels w SS RS w' SS' RS' {k'} (sd' ` {..<length cs'})"
    using select_stmt_spec [OF assms(2) other_select(6,3) f other_select(7)] by blast
  have "sel_inv w' SS' RS' cs sd g k I r0"
    by (rule keeps_selsD [OF r(3) _ _ assms(3)]) (use other_select(1,2) assms(4) in blast)+
  with r show ?thesis by blast
next
  case (other_cancel sd' i cs' b)
  show ?thesis
  proof (cases "nil (C (case_chan (cs' ! i)))")
    case True
    then show ?thesis using other_cancel(2) assms(2,3) by (auto simp: select_cancel_def)
  next
    case False
    obtain w2 C2 SS' RS' where r: "select_cancel w C sd' cs' i = Some (w2, C2, \<not> in_place SS RS cs' sd' i)"
      "sys_rep w2 C2 SS' RS'" "\<forall>c. nil (C2 c) = nil (C c)" "dones w2 = dones w" "readied w2 = readied w"
      "\<forall>y. payload (sgs w2 y) = payload (sgs w y)" "\<forall>c. set (SS' c) \<subseteq> set (SS c) \<and> set (RS' c) \<subseteq> set (RS c)"
      "\<forall>c y. y \<noteq> sd' i \<longrightarrow> (y \<in> set (SS' c) \<longleftrightarrow> y \<in> set (SS c)) \<and> (y \<in> set (RS' c) \<longleftrightarrow> y \<in> set (RS c))"
      using select_cancel_spec [OF assms(2) False, of sd'] by blast
    have w: "w' = w2" "C' = C2" using r(1) other_cancel(2) by auto
    have "sd' i \<notin> sd ` I" using other_cancel(1) assms(4) by blast
    from sel_quiet [OF assms(3) r(4-6) this r(7,8)] show ?thesis using r(2,3) w by blast
  qed
qed

lemma other_steps_inv:
  assumes "(other_step d k X)\<^sup>*\<^sup>* (w, C) (w', C')" "sys_rep w C SS RS" "sel_inv w SS RS cs sd g k I r0" "sd ` I \<subseteq> X"
  shows "\<exists>SS' RS'. sys_rep w' C' SS' RS' \<and> sel_inv w' SS' RS' cs sd g k I r0 \<and> (\<forall>c. nil (C' c) = nil (C c))"
  using assms(1)
proof (induction "(w', C')" arbitrary: w' C' rule: rtranclp_induct)
  case base
  then show ?case using assms(2,3) by blast
next
  case (step y)
  obtain w1 C1 where y: "y = (w1, C1)" by (cases y)
  obtain SS1 RS1 where i: "sys_rep w1 C1 SS1 RS1" "sel_inv w1 SS1 RS1 cs sd g k I r0" "\<forall>c. nil (C1 c) = nil (C c)"
    using step(3) [OF y] by blast
  from other_step_inv [OF step(2) [unfolded y] i(1,2) assms(4)] i(3) show ?case by auto
qed

lemma distinct_singleton:
  assumes "distinct xs" "set xs = {i}"
  shows "xs = [i]"
proof (cases xs)
  case (Cons a ys)
  then have "a = i" "set ys \<subseteq> {i}" "i \<notin> set ys" using assms by auto
  then have "ys = []" by (cases ys) auto
  with Cons \<open>a = i\<close> show ?thesis by simp
qed (use assms(2) in simp)

text \<open>Pass 3 at a moment when the select is decided has exactly one winner.\<close>

lemma select_winner:
  assumes "sys_rep w C SS RS" "sel_inv w SS RS cs sd g k I r0" "inj_on sd {..<length cs}"
    "I = {i. i < length cs \<and> \<not> nil (C (case_chan (cs ! i)))}" "dones w k"
  shows "\<exists>w' C' i. select_cancel_all w C sd cs (emit_order cs) [] = Some (w', C', [i]) \<and> i \<in> I \<and>
           (\<forall>y. payload (sgs w' y) = payload (sgs w y))"
proof -
  have em: "distinct (emit_order cs)" "inj_on sd (set (emit_order cs))"
    using assms(3) by (simp_all add: emit_order_distinct emit_order_set)
  let ?f = "\<lambda>i. \<not> nil (C (case_chan (cs ! i))) \<and> \<not> in_place SS RS cs sd i"
  obtain w' C' where r: "select_cancel_all w C sd cs (emit_order cs) [] = Some (w', C', filter ?f (emit_order cs))"
    "\<forall>y. payload (sgs w' y) = payload (sgs w y)"
    using select_cancel_all_spec [OF assms(1) em, of cs "[]"] by auto
  have pl: "in_place SS RS cs sd i = (sd i \<in> queued SS RS)" if "i \<in> I" for i
  proof
    show "in_place SS RS cs sd i \<Longrightarrow> sd i \<in> queued SS RS"
      unfolding in_place_def queued_iff by (meson UnI1 UnI2)
    show "sd i \<in> queued SS RS \<Longrightarrow> in_place SS RS cs sd i" using assms(2) that unfolding sel_inv_def by blast
  qed
  have "\<exists>!i. i \<in> I \<and> sd i \<notin> queued SS RS" using assms(2,5) unfolding sel_inv_def by simp
  then obtain i where i: "i \<in> I" "sd i \<notin> queued SS RS" "\<And>j. j \<in> I \<Longrightarrow> sd j \<notin> queued SS RS \<Longrightarrow> j = i" by blast
  have "set (filter ?f (emit_order cs)) = {i}"
  proof -
    have "j \<in> set (filter ?f (emit_order cs)) \<longleftrightarrow> j \<in> I \<and> sd j \<notin> queued SS RS" for j
      using pl [of j] by (auto simp: emit_order_set assms(4))
    then show ?thesis using i by blast
  qed
  moreover have "distinct (filter ?f (emit_order cs))" using em(1) by simp
  ultimately have "filter ?f (emit_order cs) = [i]" by (intro distinct_singleton)
  with r i(1) show ?thesis by auto
qed

section \<open>Properties\<close>

text \<open>
  C3: a select fires exactly one case.  Take any system of channels that satisfies the invariant and a select that
  parks in it.  Then let the other goroutines do anything: send, receive, close, run and cancel other selects, in any
  order.  At every later moment, if some operation has decided the select, its goroutine has been made runnable since
  the park, and pass 3 finds exactly one case that won, so it never reaches the panic for a missing winner.  If none
  has, all the entries of the select are still queued: no case can be mistaken for a winner.
\<close>

theorem select_fires_once:
  assumes "sys_rep w0 C0 SS0 RS0" "inj_on sd {..<length cs}" "free w0 C0 (sd ` {..<length cs})" "unused w0 C0 k"
    "set ord = {..<length cs}"
    "select_stmt d w0 C0 cs False ord (Some g) k sd = Some (Done (w1, C1, SelParked))"
    "(other_step d k (sd ` {..<length cs}))\<^sup>*\<^sup>* (w1, C1) (w2, C2)"
  shows "if dones w2 k
         then g \<in> set (drop (length (readied w1)) (readied w2)) \<and>
              (\<exists>w3 C3 i. i < length cs \<and>
                 select_cancel_all w2 C2 sd cs (emit_order cs) [] = Some (w3, C3, [i]) \<and>
                 select_resume d w2 C2 sd cs = Some (w3, C3,
                   if is_send (cs ! i)
                   then (if sg_success (sgs w2 (sd i)) then Done (Fired i None)
                         else Fatal ''goish: select send winner: chan closed'')
                   else Done (Fired i (Some (case sg_value (sgs w2 (sd i)) of None \<Rightarrow> d | Some v \<Rightarrow> v,
                                             sg_success (sgs w2 (sd i)))))))
         else (\<exists>w3 C3. select_cancel_all w2 C2 sd cs (emit_order cs) [] = Some (w3, C3, []))"
proof -
  let ?I = "{i. i < length cs \<and> \<not> nil (C0 (case_chan (cs ! i)))}"
  have f: "sd ` {..<length cs} \<inter> queued SS0 RS0 = {}" "\<forall>x \<in> queued SS0 RS0. sg_coord (sgs w0 x) \<noteq> Some k"
    using assms(1,3,4) unfolding free_def unused_def by blast+
  obtain SS1 RS1 where 1: "sys_rep w1 C1 SS1 RS1" "\<forall>c. nil (C1 c) = nil (C0 c)"
    "sel_inv w1 SS1 RS1 cs sd g k ?I (length (readied w1))"
    using select_stmt_spec [OF assms(1,5,2) f assms(6)] by auto
  have sub: "sd ` ?I \<subseteq> sd ` {..<length cs}" by auto
  obtain SS2 RS2 where 2: "sys_rep w2 C2 SS2 RS2" "sel_inv w2 SS2 RS2 cs sd g k ?I (length (readied w1))"
    "\<forall>c. nil (C2 c) = nil (C1 c)"
    using other_steps_inv [OF assms(7) 1(1,3) sub] by blast
  have I: "?I = {i. i < length cs \<and> \<not> nil (C2 (case_chan (cs ! i)))}" using 1(2) 2(3) by simp
  show ?thesis
  proof (cases "dones w2 k")
    case True
    obtain w3 C3 i where r: "select_cancel_all w2 C2 sd cs (emit_order cs) [] = Some (w3, C3, [i])" "i \<in> ?I"
      "\<forall>y. payload (sgs w3 y) = payload (sgs w2 y)"
      using select_winner [OF 2(1,2) assms(2) I True] by blast
    have "g \<in> set (drop (length (readied w1)) (readied w2))" using 2(2) True unfolding sel_inv_def by simp
    moreover have "sg_success (sgs w3 (sd i)) = sg_success (sgs w2 (sd i))" "sg_value (sgs w3 (sd i)) = sg_value (sgs w2 (sd i))"
      using r(3) [rule_format, of "sd i"] by (simp_all add: payload_eq_iff)
    ultimately show ?thesis
      using True r(1,2) by (auto simp: select_resume_def select_dispatch_def)
  next
    case False
    have em: "distinct (emit_order cs)" "inj_on sd (set (emit_order cs))"
      using assms(2) by (simp_all add: emit_order_distinct emit_order_set)
    have "in_place SS2 RS2 cs sd i" if "i \<in> ?I" for i
      using 2(2) False that unfolding sel_inv_def by simp
    then have "filter (\<lambda>i. \<not> nil (C2 (case_chan (cs ! i))) \<and> \<not> in_place SS2 RS2 cs sd i) (emit_order cs) = []"
      using I by (auto simp: filter_empty_conv emit_order_set)
    with select_cancel_all_spec [OF 2(1) em, of cs "[]"] False show ?thesis by auto
  qed
qed

text \<open>A concrete run: a select receives from one unbuffered channel, parks, and the channel is closed.\<close>

definition one_chan :: "'v chans" where
  "one_chan c = (if c = 0 then new_unbuffered else nil_chan)"

lemma one_chan_sys:
  "sys_rep idle_world (one_chan :: 'v chans) (\<lambda>_. []) (\<lambda>_. [])"
proof -
  have "run_inv idle_world (new_buffered 0 :: 'v hchan) [] [] [] []" by (rule new_buffered_run_inv) simp
  then show ?thesis
    by (simp add: sys_rep_def one_chan_def run_inv_def run_ok_def new_unbuffered_def nil_chan_def)
qed

lemma one_chan_empty:
  assumes "sys_rep w (one_chan :: 'v chans) SS RS"
  shows "queued SS RS = {}"
proof -
  have "SS c = [] \<and> RS c = []" for c
  proof (cases "c = 0")
    case True
    then have "chan_rep w (state (new_unbuffered :: 'v hchan)) (SS c) (RS c)"
      using sys_repD(1) [OF assms, of c] by (simp add: one_chan_def new_unbuffered_def new_buffered_def)
    then show ?thesis
      by (auto simp: chan_rep_def sq_rep_def new_unbuffered_def new_buffered_def sq_new_def first_or_def split: list.splits)
  next
    case False
    then show ?thesis using sys_repD(3,4) [OF assms, of c] by (simp add: one_chan_def nil_chan_def)
  qed
  then show ?thesis by (simp add: queued_def)
qed

lemma one_chan_parks:
  "\<exists>w1 C1. select_stmt d idle_world (one_chan :: 'v chans) [PatRecv 0] False [0] (Some 1) 0 (\<lambda>i. 100 + i) =
     Some (Done (w1, C1, SelParked)) \<and> \<not> nil (C1 0) \<and> \<not> closed (state (C1 0))"
proof -
  let ?s = "state (new_unbuffered :: 'v hchan)"
  have r: "chan_rep idle_world ?s [] []" "\<not> (closed ?s \<and> ring_list (buf ?s) = [])" "ring_list (buf ?s) = []" "\<not> closed ?s"
    "\<not> nil (new_unbuffered :: 'v hchan)"
    using sys_repD(1) [OF one_chan_sys [where 'v = 'v], of 0] ring_new_inv(2) [of 1]
    by (simp_all add: one_chan_def new_unbuffered_def new_buffered_def)
  have f: "find (live idle_world) [] = None" by simp
  obtain b where "try_recv_locked d idle_world ?s = Some (Done (idle_world, ?s\<lparr>buf := b\<rparr>, None))"
    using recv_body_no_sender [OF r(1,2) f] r(3) unfolding try_recv_locked_def by fastforce
  then show ?thesis
    using r(4,5) by (simp add: select_stmt_def Let_def one_chan_def emit_order_def register_recv_locked_def
        case_prod_unfold set_chan_def)
qed

lemma chan_Close_closed:
  assumes "chan_Close w c = Some (Done (w', c'))"
  shows "closed (state c')"
  using assms by (auto simp: chan_Close_def split: option.splits if_splits)

theorem select_fires_once_witness:
  "\<exists>w1 C1 w2 C2 w3 C3.
     sys_rep idle_world (one_chan :: string chans) (\<lambda>_. []) (\<lambda>_. []) \<and>
     select_stmt ''zero'' idle_world one_chan [PatRecv 0] False [0] (Some 1) 0 (\<lambda>i. 100 + i) = Some (Done (w1, C1, SelParked)) \<and>
     chan_Close w1 (C1 0) = Some (Done (w2, C2 0)) \<and> 1 \<in> set (drop (length (readied w1)) (readied w2)) \<and>
     select_cancel_all w2 C2 (\<lambda>i. 100 + i) [PatRecv 0] (emit_order [PatRecv 0 :: string scase]) [] = Some (w3, C3, [0])"
proof -
  let ?cs = "[PatRecv 0] :: string scase list" and ?sd = "\<lambda>i. 100 + i :: nat"
  obtain w1 C1 where s: "select_stmt ''zero'' idle_world one_chan ?cs False [0] (Some 1) 0 ?sd = Some (Done (w1, C1, SelParked))"
    "\<not> nil (C1 0)" "\<not> closed (state (C1 0))"
    using one_chan_parks [of "''zero''"] by blast
  have h: "inj_on ?sd {..<length ?cs}" "free idle_world (one_chan :: string chans) (?sd ` {..<length ?cs})"
    "unused idle_world (one_chan :: string chans) 0" "set [0] = {..<length ?cs}"
    using one_chan_empty by (auto simp: free_def unused_def)
  have q: "?sd ` {..<length ?cs} \<inter> queued (\<lambda>_. []) (\<lambda>_. []) = {}"
    "\<forall>x \<in> queued (\<lambda>_. []) (\<lambda>_. []). sg_coord (sgs (idle_world :: string world) x) \<noteq> Some 0"
    by (simp_all add: queued_def)
  obtain SS1 RS1 where 1: "sys_rep w1 C1 SS1 RS1" "\<not> dones w1 0"
    "sel_inv w1 SS1 RS1 ?cs ?sd 1 0 {i. i < length ?cs \<and> \<not> nil ((one_chan :: string chans) (case_chan (?cs ! i)))} (length (readied w1))"
    using select_stmt_spec [OF one_chan_sys h(4,1) q s(1)] by auto
  have "\<not> nil (one_chan 0 :: string hchan)" by (simp add: one_chan_def new_unbuffered_def new_buffered_def)
  with 1(2,3) have e: "100 \<in> set (RS1 0)" "sg_coord (sgs w1 100) = Some 0"
    unfolding sel_inv_def by (auto simp: in_place_def)
  obtain w2 s2 ss' rs' ls where c: "chan_Close w1 (C1 0) = Some (Done (w2, (C1 0)\<lparr>state := s2\<rparr>))"
    "chan_eff w1 (SS1 0) (RS1 0) w2 s2 ss' rs' ls"
    using chan_Close_eff [OF s(2,3) sys_repD(1) [OF 1(1) s(2)]] by blast
  have st: "other_step ''zero'' 0 (?sd ` {..<length ?cs}) (w1, C1) (w2, C1(0 := (C1 0)\<lparr>state := s2\<rparr>))"
    using s(2) c(1) by (rule other_close)
  have "closed s2" using chan_Close_closed [OF c(1)] by simp
  then have "\<not> live w2 100 \<or> 100 \<in> set ls"
    using c(2) e(1) unfolding chan_eff_def chan_inv_def by blast
  moreover have "sg_coord (sgs w2 100) = Some 0" using c(2) e unfolding chan_eff_def by (metis UnI2)
  ultimately have d: "dones w2 0" using c(2) e(2) unfolding chan_eff_def by (auto simp: live_def)
  have sts: "(other_step ''zero'' 0 (?sd ` {..<length ?cs}))\<^sup>*\<^sup>* (w1, C1) (w2, C1(0 := (C1 0)\<lparr>state := s2\<rparr>))"
    using st by (rule r_into_rtranclp)
  from select_fires_once [OF one_chan_sys h s(1) sts] d
  obtain w3 C3 i where "1 \<in> set (drop (length (readied w1)) (readied w2))" "i < length ?cs"
    "select_cancel_all w2 (C1(0 := (C1 0)\<lparr>state := s2\<rparr>)) ?sd ?cs (emit_order ?cs) [] = Some (w3, C3, [i])"
    by auto
  with s(1) c(1) show ?thesis
    by (intro exI [of _ w1] exI [of _ C1] exI [of _ w2] exI [of _ "C1(0 := (C1 0)\<lparr>state := s2\<rparr>)"] exI [of _ w3] exI [of _ C3])
      (simp add: one_chan_sys)
qed

end
