(* ===== verification/Sema.thy ===== *)
theory Sema
  imports Goish_Prelude
begin

text \<open>
  The internal counting semaphore (\<^verbatim>\<open>src/src/sync/sema.rs\<close>) and the intrusive
  waiter chain it shares with the notification list.  Waiting goroutines are linked through
  \<^verbatim>\<open>g.sema_next\<close>; a queue is a head and a tail pointer into that store.  Every operation
  runs under the semaphore's spin lock and is one atomic function of the store and the semaphore;
  \<^verbatim>\<open>release_n\<close> drops the lock between two wake-ups, so its iteration is a function of its own.
  \<^verbatim>\<open>gopark\<close> is the result \<open>True\<close> (the goroutine sleeps until it is readied) and
  \<^verbatim>\<open>goready\<close> returns the goroutine.  Credits count goroutines and never come near the
  bounds of \<^verbatim>\<open>i64\<close>: they are integers.
\<close>

section \<open>The intrusive chain\<close>

type_synonym gr = nat

record gstore =
  sema_next :: "gr \<Rightarrow> gr option"
  notify_ticket :: "gr \<Rightarrow> u32"

record gqueue =
  qhead :: "gr option"
  qtail :: "gr option"

definition gq_empty :: gqueue where
  "gq_empty = \<lparr>qhead = None, qtail = None\<rparr>"

definition gq_append :: "gstore \<Rightarrow> gqueue \<Rightarrow> gr \<Rightarrow> gstore \<times> gqueue" where
  "gq_append st q g =
     (let nx = (sema_next st)(g := None) in
      case qtail q of
        None \<Rightarrow> (st\<lparr>sema_next := nx\<rparr>, \<lparr>qhead = Some g, qtail = Some g\<rparr>)
      | Some t \<Rightarrow> (st\<lparr>sema_next := nx(t := Some g)\<rparr>, q\<lparr>qtail := Some g\<rparr>))"

definition pop_head :: "gstore \<Rightarrow> gqueue \<Rightarrow> (gr \<times> gqueue) option" where
  "pop_head st q =
     (case qhead q of
        None \<Rightarrow> None
      | Some g \<Rightarrow>
          (let h = sema_next st g in
           Some (g, if h = None then q\<lparr>qhead := h, qtail := None\<rparr> else q\<lparr>qhead := h\<rparr>)))"

fun path :: "(gr \<Rightarrow> gr option) \<Rightarrow> gr option \<Rightarrow> gr list \<Rightarrow> bool" where
  "path nx h [] = (h = None)"
| "path nx h (x # xs) = (h = Some x \<and> path nx (nx x) xs)"

definition gq_rep :: "gstore \<Rightarrow> gqueue \<Rightarrow> gr list \<Rightarrow> bool" where
  "gq_rep st q xs \<longleftrightarrow>
     distinct xs \<and> path (sema_next st) (qhead q) xs \<and> qtail q = (if xs = [] then None else Some (last xs))"

lemma gq_rep_empty [rep_simps]: "gq_rep st gq_empty []"
  by (simp add: gq_rep_def gq_empty_def)

lemma gq_rep_distinct: "gq_rep st q xs \<Longrightarrow> distinct xs"
  by (simp add: gq_rep_def)

lemma path_outside: "x \<notin> set xs \<Longrightarrow> path (nx(x := y)) h xs = path nx h xs"
  by (induction xs arbitrary: h) auto

lemma path_append:
  "distinct (xs @ [t]) \<Longrightarrow> g \<notin> set (xs @ [t]) \<Longrightarrow> path nx h (xs @ [t]) \<Longrightarrow>
   path (nx(g := None, t := Some g)) h (xs @ [t, g])"
proof (induction xs arbitrary: h)
  case Nil
  then show ?case by simp
next
  case (Cons a xs)
  then have "path (nx(g := None, t := Some g)) (nx a) (xs @ [t, g])"
    by (intro Cons.IH) auto
  with Cons.prems show ?case by (auto simp: fun_upd_def)
qed

lemma gq_append_rep [rep_simps]:
  assumes "gq_rep st q xs" "g \<notin> set xs"
  shows "gq_rep (fst (gq_append st q g)) (snd (gq_append st q g)) (xs @ [g])"
proof (cases xs rule: rev_cases)
  case Nil
  then show ?thesis using assms by (simp add: gq_rep_def gq_append_def)
next
  case (snoc ys t)
  then show ?thesis
    using assms path_append [of ys t g "sema_next st" "qhead q"]
    by (auto simp: gq_rep_def gq_append_def Let_def)
qed

lemma pop_head_None [rep_simps]: "gq_rep st q [] \<Longrightarrow> pop_head st q = None"
  by (simp add: gq_rep_def pop_head_def)

lemma pop_head_Some [rep_simps]:
  assumes "gq_rep st q (x # xs)"
  shows "\<exists>q'. pop_head st q = Some (x, q') \<and> gq_rep st q' xs"
  using assms by (cases xs) (auto simp: gq_rep_def pop_head_def Let_def)

section \<open>The semaphore\<close>

record sema =
  credit :: int
  waiters :: gqueue

definition sema_new :: sema where
  "sema_new = \<lparr>credit = 0, waiters = gq_empty\<rparr>"

text \<open>\<open>True\<close>: the caller is queued and parks; its acquire is complete when it is readied.\<close>

definition sema_acquire :: "gstore \<Rightarrow> sema \<Rightarrow> gr \<Rightarrow> gstore \<times> sema \<times> bool" where
  "sema_acquire st s g =
     (if credit s > 0 then (st, s\<lparr>credit := credit s - 1\<rparr>, False)
      else let (st', q') = gq_append st (waiters s) g in (st', s\<lparr>waiters := q'\<rparr>, True))"

definition sema_release :: "gstore \<Rightarrow> sema \<Rightarrow> sema \<times> gr option" where
  "sema_release st s =
     (case pop_head st (waiters s) of
        Some (g, q') \<Rightarrow> (s\<lparr>waiters := q'\<rparr>, Some g)
      | None \<Rightarrow> (s\<lparr>credit := credit s + 1\<rparr>, None))"

text \<open>One iteration of \<^verbatim>\<open>release_n\<close>: the waiter to ready, or the rest stored as credit.\<close>

definition sema_release_iter :: "gstore \<Rightarrow> sema \<Rightarrow> int \<Rightarrow> sema \<times> gr option" where
  "sema_release_iter st s left =
     (case pop_head st (waiters s) of
        Some (g, q') \<Rightarrow> (s\<lparr>waiters := q'\<rparr>, Some g)
      | None \<Rightarrow> (s\<lparr>credit := credit s + left\<rparr>, None))"

fun sema_release_loop :: "gstore \<Rightarrow> sema \<Rightarrow> nat \<Rightarrow> sema \<times> gr list" where
  "sema_release_loop st s 0 = (s, [])"
| "sema_release_loop st s (Suc left) =
     (case sema_release_iter st s (int (Suc left)) of
        (s', None) \<Rightarrow> (s', [])
      | (s', Some g) \<Rightarrow>
          if left = 0 then (s', [g])
          else let (s'', gs) = sema_release_loop st s' left in (s'', g # gs))"

definition sema_release_n :: "gstore \<Rightarrow> sema \<Rightarrow> int \<Rightarrow> sema \<times> gr list" where
  "sema_release_n st s n = (if n \<le> 0 then (s, []) else sema_release_loop st s (nat n))"

fun sema_count :: "nat \<Rightarrow> gstore \<Rightarrow> gr option \<Rightarrow> nat" where
  "sema_count 0 st h = 0"
| "sema_count (Suc n) st h = (case h of None \<Rightarrow> 0 | Some g \<Rightarrow> Suc (sema_count n st (sema_next st g)))"

definition sema_debug_state :: "gstore \<Rightarrow> sema \<Rightarrow> int \<times> nat" where
  "sema_debug_state st s = (credit s, sema_count 1024 st (qhead (waiters s)))"

section \<open>What the semaphore promises\<close>

definition sema_rep :: "gstore \<Rightarrow> sema \<Rightarrow> int \<Rightarrow> gr list \<Rightarrow> bool" where
  "sema_rep st s c q \<longleftrightarrow> credit s = c \<and> 0 \<le> c \<and> (0 < c \<longrightarrow> q = []) \<and> gq_rep st (waiters s) q"

lemma gq_append_frame:
  assumes "gq_rep st q xs" "gq_rep st q2 ys" "set xs \<inter> set ys = {}" "g \<notin> set ys"
  shows "gq_rep (fst (gq_append st q g)) q2 ys"
proof -
  have "t \<notin> set ys" if "qtail q = Some t" for t
    using that assms(1,3) by (metis disjoint_iff gq_rep_def last_in_set option.inject option.simps(3))
  then show ?thesis
    using assms(2,4) by (auto simp: gq_rep_def gq_append_def Let_def path_outside split: option.splits)
qed

text \<open>
  The interface the locks rely on: \<open>rep h s c q\<close> says that the semaphore holds \<open>c\<close> credits and that the
  goroutines \<open>q\<close> sleep on it, oldest first.
\<close>

locale semaphore =
  fixes rep :: "'h \<Rightarrow> 's \<Rightarrow> int \<Rightarrow> gr list \<Rightarrow> bool"
    and acquire :: "'h \<Rightarrow> 's \<Rightarrow> gr \<Rightarrow> 'h \<times> 's \<times> bool"
    and release :: "'h \<Rightarrow> 's \<Rightarrow> 's \<times> gr option"
  assumes rep_credit: "rep h s c q \<Longrightarrow> 0 \<le> c \<and> (0 < c \<longrightarrow> q = [])"
    and rep_distinct: "rep h s c q \<Longrightarrow> distinct q"
    and acquire_credit: "rep h s c q \<Longrightarrow> 0 < c \<Longrightarrow>
      \<exists>s'. acquire h s g = (h, s', False) \<and> rep h s' (c - 1) q"
    and acquire_park: "rep h s 0 q \<Longrightarrow> g \<notin> set q \<Longrightarrow>
      \<exists>h' s'. acquire h s g = (h', s', True) \<and> rep h' s' 0 (q @ [g])"
    and acquire_frame: "rep h s c q \<Longrightarrow> rep h s2 c2 q2 \<Longrightarrow> set q \<inter> set q2 = {} \<Longrightarrow> g \<notin> set q2 \<Longrightarrow>
      rep (fst (acquire h s g)) s2 c2 q2"
    and release_wake: "rep h s c (x # q) \<Longrightarrow> \<exists>s'. release h s = (s', Some x) \<and> rep h s' c q"
    and release_store: "rep h s c [] \<Longrightarrow> \<exists>s'. release h s = (s', None) \<and> rep h s' (c + 1) []"
begin

text \<open>A release that arrives before the acquire it is meant for is not lost.\<close>

lemma release_then_acquire:
  assumes "rep h s 0 []" "release h s = (s1, x)"
  shows "x = None \<and> (\<exists>s2. acquire h s1 g = (h, s2, False) \<and> rep h s2 0 [])"
  using release_store [OF assms(1)] assms(2) acquire_credit [of h s1 1 "[]" g] by auto

lemma acquire_then_release:
  assumes "rep h s 0 []" "acquire h s g = (h1, s1, p)"
  shows "p \<and> (\<exists>s2. release h1 s1 = (s2, Some g) \<and> rep h1 s2 0 [])"
  using acquire_park [OF assms(1), of g] assms(2) release_wake [of h1 s1 0 g "[]"] by auto

lemma acquire_cases:
  assumes "rep h s c q" "g \<notin> set q" "acquire h s g = (h', s', p)"
  obtains (through) "0 < c" "p = False" "h' = h" "rep h' s' (c - 1) q"
  | (park) "c = 0" "p = True" "rep h' s' 0 (q @ [g])"
proof (cases "0 < c")
  case True
  then show ?thesis using acquire_credit [OF assms(1), of g] assms(3) that(1) by auto
next
  case False
  with rep_credit [OF assms(1)] have "c = 0" by simp
  then show ?thesis using acquire_park [of h s q g] assms that(2) by auto
qed

lemma release_cases:
  assumes "rep h s c q" "release h s = (s', r)"
  obtains (wake) x q' where "q = x # q'" "r = Some x" "rep h s' c q'"
  | (store) "q = []" "r = None" "rep h s' (c + 1) []"
proof (cases q)
  case Nil
  then show ?thesis using release_store assms that(2) by force
next
  case (Cons x q')
  then show ?thesis using release_wake assms that(1) by force
qed

end

lemma sema_rep_new [rep_simps]: "sema_rep st sema_new 0 []"
  by (simp add: sema_rep_def sema_new_def gq_rep_empty)

interpretation sema: semaphore sema_rep sema_acquire sema_release
proof unfold_locales
  fix h s c q g
  assume "sema_rep h s c q" "0 < c"
  then show "\<exists>s'. sema_acquire h s g = (h, s', False) \<and> sema_rep h s' (c - 1) q"
    by (auto simp: sema_rep_def sema_acquire_def)
next
  fix h s q g
  assume "sema_rep h s 0 q" "g \<notin> set q"
  then show "\<exists>h' s'. sema_acquire h s g = (h', s', True) \<and> sema_rep h' s' 0 (q @ [g])"
    using gq_append_rep [of h "waiters s" q g]
    by (auto simp: sema_rep_def sema_acquire_def split: prod.splits)
next
  fix h s c q s2 c2 q2 g
  assume "sema_rep h s c q" "sema_rep h s2 c2 q2" "set q \<inter> set q2 = {}" "g \<notin> set q2"
  then show "sema_rep (fst (sema_acquire h s g)) s2 c2 q2"
    using gq_append_frame [of h "waiters s" q "waiters s2" q2 g]
    by (auto simp: sema_rep_def sema_acquire_def split: prod.splits)
next
  fix h s c x q
  assume "sema_rep h s c (x # q)"
  then show "\<exists>s'. sema_release h s = (s', Some x) \<and> sema_rep h s' c q"
    using pop_head_Some [of h "waiters s" x q] by (auto simp: sema_rep_def sema_release_def)
next
  fix h s c
  assume "sema_rep h s c []"
  then show "\<exists>s'. sema_release h s = (s', None) \<and> sema_rep h s' (c + 1) []"
    by (simp add: sema_rep_def sema_release_def pop_head_None)
qed (auto simp: sema_rep_def gq_rep_distinct)

section \<open>Releasing many\<close>

lemma sema_release_iter_wake:
  "sema_rep st s c (x # q) \<Longrightarrow> \<exists>s'. sema_release_iter st s left = (s', Some x) \<and> sema_rep st s' c q"
  using pop_head_Some [of st "waiters s" x q] by (auto simp: sema_rep_def sema_release_iter_def)

lemma sema_release_iter_store:
  "sema_rep st s c [] \<Longrightarrow> 0 \<le> left \<Longrightarrow>
   \<exists>s'. sema_release_iter st s left = (s', None) \<and> sema_rep st s' (c + left) []"
  by (simp add: sema_rep_def sema_release_iter_def pop_head_None)

lemma sema_release_iter_cases:
  assumes "sema_rep st sm c q" "sema_release_iter st sm n = (sm', r)" "0 \<le> n"
  obtains (wake) x q' where "q = x # q'" "r = Some x" "sema_rep st sm' c q'"
  | (store) "q = []" "r = None" "sema_rep st sm' (c + n) []"
proof (cases q)
  case Nil
  then show ?thesis
    using sema_release_iter_store [of st sm c n] assms that(2) by auto
next
  case (Cons x q')
  then show ?thesis
    using sema_release_iter_wake [of st sm c x q' n] assms that(1) by auto
qed

lemma sema_release_loop_spec:
  "sema_rep st s c q \<Longrightarrow> 0 < n \<Longrightarrow>
   \<exists>s'. sema_release_loop st s n = (s', take n q) \<and> sema_rep st s' (c + int (n - length q)) (drop n q)"
proof (induction n arbitrary: s q)
  case 0
  then show ?case by simp
next
  case (Suc n)
  show ?case
  proof (cases q)
    case Nil
    with Suc.prems(1) have "sema_rep st s c []" by simp
    from sema_release_iter_store [OF this, of "int (Suc n)"] Nil show ?thesis by auto
  next
    case (Cons x xs)
    then obtain s1 where s1: "sema_release_iter st s (int (Suc n)) = (s1, Some x)" "sema_rep st s1 c xs"
      using sema_release_iter_wake Suc.prems(1) by blast
    show ?thesis
    proof (cases "n = 0")
      case True
      with s1 Cons show ?thesis by simp
    next
      case False
      with Suc.IH [OF s1(2)] s1(1) Cons show ?thesis by auto
    qed
  qed
qed

section \<open>Properties\<close>

text \<open>
  The requests made of a semaphore: acquires by named goroutines, single and multiple releases.  The run
  records the goroutines whose acquire is complete, in the order in which they got through.
\<close>

datatype sema_op = Acquire gr | Release | ReleaseN int

fun sema_exec :: "sema_op \<Rightarrow> gstore \<times> sema \<times> gr list \<Rightarrow> gstore \<times> sema \<times> gr list" where
  "sema_exec (Acquire g) (st, s, thr) =
     (let (st', s', parked) = sema_acquire st s g in (st', s', if parked then thr else thr @ [g]))"
| "sema_exec Release (st, s, thr) =
     (let (s', woken) = sema_release st s in (st, s', case woken of None \<Rightarrow> thr | Some g \<Rightarrow> thr @ [g]))"
| "sema_exec (ReleaseN n) (st, s, thr) = (let (s', gs) = sema_release_n st s n in (st, s', thr @ gs))"

fun acquirers :: "sema_op list \<Rightarrow> gr list" where
  "acquirers [] = []"
| "acquirers (Acquire g # ops) = g # acquirers ops"
| "acquirers (_ # ops) = acquirers ops"

fun credits :: "sema_op list \<Rightarrow> nat" where
  "credits [] = 0"
| "credits (Acquire g # ops) = credits ops"
| "credits (Release # ops) = Suc (credits ops)"
| "credits (ReleaseN n # ops) = nat n + credits ops"

text \<open>A goroutine that sleeps cannot call acquire: \<open>a\<close> has acquired and \<open>k\<close> credits were given so far.\<close>

fun sema_legal :: "gr list \<Rightarrow> nat \<Rightarrow> sema_op list \<Rightarrow> bool" where
  "sema_legal a k [] = True"
| "sema_legal a k (Acquire g # ops) = (g \<notin> set (drop k a) \<and> sema_legal (a @ [g]) k ops)"
| "sema_legal a k (Release # ops) = sema_legal a (Suc k) ops"
| "sema_legal a k (ReleaseN n # ops) = sema_legal a (k + nat n) ops"

definition sema_run_inv :: "gr list \<Rightarrow> nat \<Rightarrow> gstore \<times> sema \<times> gr list \<Rightarrow> bool" where
  "sema_run_inv a k x \<longleftrightarrow>
     (case x of (st, s, thr) \<Rightarrow> \<exists>c. sema_rep st s c (drop k a) \<and> thr = take k a \<and> int k = c + int (length thr))"

lemma sema_run_inv_acquire:
  assumes "sema_run_inv a k (st, s, thr)" "g \<notin> set (drop k a)"
  shows "sema_run_inv (a @ [g]) k (sema_exec (Acquire g) (st, s, thr))"
proof -
  obtain c where c: "sema_rep st s c (drop k a)" "thr = take k a" "int k = c + int (length thr)"
    using assms(1) by (auto simp: sema_run_inv_def)
  obtain st' s' p where a: "sema_acquire st s g = (st', s', p)" by (cases "sema_acquire st s g") auto
  show ?thesis
  proof (cases rule: sema.acquire_cases [OF c(1) assms(2) a])
    case 1
    then have d: "drop k a = []" using sema.rep_credit [OF c(1)] by simp
    then have "take k (a @ [g]) = a @ [g]" "drop k (a @ [g]) = []" "thr = a"
      using 1(1) c(2,3) by simp_all
    moreover have "int k = (c - 1) + int (length (thr @ [g]))" using c(3) by simp
    ultimately show ?thesis
      using 1(4) a d unfolding sema_run_inv_def 1(2) by (simp only: sema_exec.simps Let_def prod.case if_False) metis
  next
    case 2
    then have "take k (a @ [g]) = thr" "drop k (a @ [g]) = drop k a @ [g]" using c(2,3) by simp_all
    then show ?thesis
      using 2(1,3) c(3) a unfolding sema_run_inv_def 2(2) by (simp only: sema_exec.simps Let_def prod.case if_True) metis
  qed
qed

lemma sema_run_inv_release_n:
  assumes "sema_run_inv a k (st, s, thr)"
  shows "sema_run_inv a (k + nat n) (sema_exec (ReleaseN n) (st, s, thr))"
proof (cases "n \<le> 0")
  case True
  then show ?thesis using assms by (simp add: sema_release_n_def)
next
  case False
  obtain c where c: "sema_rep st s c (drop k a)" "thr = take k a" "int k = c + int (length thr)"
    using assms by (auto simp: sema_run_inv_def)
  obtain s' where s': "sema_release_loop st s (nat n) = (s', take (nat n) (drop k a))"
    "sema_rep st s' (c + int (nat n - length (drop k a))) (drop (nat n) (drop k a))"
    using sema_release_loop_spec [OF c(1), of "nat n"] False by auto
  let ?c = "c + int (nat n - length (drop k a))"
  have "sema_exec (ReleaseN n) (st, s, thr) = (st, s', take (k + nat n) a)"
    using s'(1) c(2) False by (simp add: sema_release_n_def take_add)
  moreover have "sema_rep st s' ?c (drop (k + nat n) a)" using s'(2) by (simp add: add.commute)
  moreover have "int (k + nat n) = ?c + int (length (take (k + nat n) a))"
  proof (cases "length a \<le> k")
    case True
    with c(2,3) have "int k = c + int (length a)" by simp
    with True show ?thesis by simp
  next
    case False
    with c(2,3) have "c = 0" by simp
    moreover have "length (take (k + nat n) a) + (nat n - (length a - k)) = k + nat n" using False by auto
    ultimately show ?thesis by (simp flip: of_nat_add add: add.commute del: length_take)
  qed
  ultimately show ?thesis unfolding sema_run_inv_def by (simp only: prod.case) blast
qed

lemma sema_release_as_n: "sema_exec Release x = sema_exec (ReleaseN 1) x"
  by (cases x) (auto simp: sema_release_n_def sema_release_def sema_release_iter_def split: option.splits)

lemma sema_run_inv_fold:
  "sema_run_inv a k x \<Longrightarrow> sema_legal a k ops \<Longrightarrow>
   sema_run_inv (a @ acquirers ops) (k + credits ops) (fold sema_exec ops x)"
proof (induction ops arbitrary: a k x)
  case Nil
  then show ?case by simp
next
  case (Cons r ops)
  obtain st s thr where x: "x = (st, s, thr)" by (cases x)
  show ?case
  proof (cases r)
    case (Acquire g)
    with Cons.prems Cons.IH [OF sema_run_inv_acquire] show ?thesis by (simp add: x del: sema_exec.simps)
  next
    case Release
    have "sema_run_inv a (k + nat 1) (sema_exec Release x)"
      unfolding sema_release_as_n x by (rule sema_run_inv_release_n) (use Cons.prems x in simp)
    with Release Cons.prems Cons.IH [of a "Suc k"] show ?thesis by (simp del: sema_exec.simps)
  next
    case (ReleaseN n)
    with Cons.prems Cons.IH [OF sema_run_inv_release_n] show ?thesis by (simp add: x ac_simps del: sema_exec.simps)
  qed
qed


definition idle_store :: gstore where
  "idle_store = \<lparr>sema_next = (\<lambda>_. None), notify_ticket = (\<lambda>_. 0)\<rparr>"


end
