(* ===== verification/Mutex.thy ===== *)
theory Mutex
  imports Sema
begin

text \<open>
  The mutex (\<^verbatim>\<open>src/src/sync/mutex.rs\<close>): a 32-bit word, bit 0 the lock and the other 31 bits the
  number of waiters, and a semaphore.  A goroutine that runs \<^verbatim>\<open>Lock\<close>, \<^verbatim>\<open>TryLock\<close> or
  \<^verbatim>\<open>Unlock\<close> is at one of the program points \<open>mpc\<close>; every atomic access to the word and every
  semaphore operation is one step of one goroutine, and the steps of all goroutines interleave
  freely.  Each step function has the word before the access as its argument and returns the word after it and
  the next program point.  The accesses are taken as sequentially consistent.
\<close>

section \<open>The word and the program points\<close>

definition M_LOCKED :: u32 where "M_LOCKED = 1"

definition M_WAITER_UNIT :: u32 where "M_WAITER_UNIT = push_bit 1 1"

datatype mpc =
    Idle
  | LockSlow
  | LockLoaded u32
  | LockQueued
  | LockParked
  | Held
  | UnlockSlow
  | UnlockLoaded u32
  | UnlockHandoff
  | MutexFatal

definition compare_exchange :: "'w \<Rightarrow> 'w \<Rightarrow> 'w \<Rightarrow> 'w \<times> bool" where
  "compare_exchange cur old new = (if cur = old then (new, True) else (cur, False))"

definition mutex_lock :: "u32 \<Rightarrow> u32 \<times> mpc" where
  "mutex_lock w = (case compare_exchange w 0 M_LOCKED of (w', ok) \<Rightarrow> (w', if ok then Held else LockSlow))"

definition mutex_try_lock :: "u32 \<Rightarrow> u32 \<times> mpc" where
  "mutex_try_lock w = (case compare_exchange w 0 M_LOCKED of (w', ok) \<Rightarrow> (w', if ok then Held else Idle))"

definition lock_slow :: "u32 \<Rightarrow> u32 \<Rightarrow> u32 \<times> mpc" where
  "lock_slow old w =
     (if old AND M_LOCKED = 0
      then (case compare_exchange w old (old OR M_LOCKED) of (w', ok) \<Rightarrow> (w', if ok then Held else LockSlow))
      else (case compare_exchange w old (old + M_WAITER_UNIT) of (w', ok) \<Rightarrow> (w', if ok then LockQueued else LockSlow)))"

definition mutex_unlock :: "u32 \<Rightarrow> u32 \<times> mpc" where
  "mutex_unlock w = (case compare_exchange w M_LOCKED 0 of (w', ok) \<Rightarrow> (w', if ok then Idle else UnlockSlow))"

definition unlock_slow :: "u32 \<Rightarrow> u32 \<Rightarrow> u32 \<times> mpc" where
  "unlock_slow old w =
     (if old AND M_LOCKED = 0 then (w, MutexFatal)
      else let waiters = drop_bit 1 old in
        if waiters = 0
        then (case compare_exchange w old 0 of (w', ok) \<Rightarrow> (w', if ok then Idle else UnlockSlow))
        else (case compare_exchange w old (push_bit 1 (waiters - 1) OR M_LOCKED) of
                (w', ok) \<Rightarrow> (w', if ok then UnlockHandoff else UnlockSlow)))"

section \<open>The system\<close>

record mutex_sys =
  mstore :: gstore
  mword :: u32
  msema :: sema
  mpcs :: "mpc list"

definition mutex_init :: "gstore \<Rightarrow> nat \<Rightarrow> mutex_sys" where
  "mutex_init st n = \<lparr>mstore = st, mword = 0, msema = sema_new, mpcs = replicate n Idle\<rparr>"

definition mset_pc :: "mutex_sys \<Rightarrow> gr \<Rightarrow> u32 \<times> mpc \<Rightarrow> mutex_sys" where
  "mset_pc s g x = s\<lparr>mword := fst x, mpcs := (mpcs s)[g := snd x]\<rparr>"

inductive mutex_step :: "mutex_sys \<Rightarrow> mutex_sys \<Rightarrow> bool" where
  lock: "g < length (mpcs s) \<Longrightarrow> mpcs s ! g = Idle \<Longrightarrow> mutex_step s (mset_pc s g (mutex_lock (mword s)))"
| try_lock: "g < length (mpcs s) \<Longrightarrow> mpcs s ! g = Idle \<Longrightarrow> mutex_step s (mset_pc s g (mutex_try_lock (mword s)))"
| lock_load: "g < length (mpcs s) \<Longrightarrow> mpcs s ! g = LockSlow \<Longrightarrow>
    mutex_step s (mset_pc s g (mword s, LockLoaded (mword s)))"
| lock_cas: "g < length (mpcs s) \<Longrightarrow> mpcs s ! g = LockLoaded old \<Longrightarrow>
    mutex_step s (mset_pc s g (lock_slow old (mword s)))"
| lock_acquire: "g < length (mpcs s) \<Longrightarrow> mpcs s ! g = LockQueued \<Longrightarrow>
    sema_acquire (mstore s) (msema s) g = (st', sm', parked) \<Longrightarrow>
    mutex_step s (s\<lparr>mstore := st', msema := sm', mpcs := (mpcs s)[g := if parked then LockParked else Held]\<rparr>)"
| unlock: "g < length (mpcs s) \<Longrightarrow> mpcs s ! g = Held \<Longrightarrow> mutex_step s (mset_pc s g (mutex_unlock (mword s)))"
| unlock_load: "g < length (mpcs s) \<Longrightarrow> mpcs s ! g = UnlockSlow \<Longrightarrow>
    mutex_step s (mset_pc s g (mword s, UnlockLoaded (mword s)))"
| unlock_cas: "g < length (mpcs s) \<Longrightarrow> mpcs s ! g = UnlockLoaded old \<Longrightarrow>
    mutex_step s (mset_pc s g (unlock_slow old (mword s)))"
| unlock_wake: "g < length (mpcs s) \<Longrightarrow> mpcs s ! g = UnlockHandoff \<Longrightarrow>
    sema_release (mstore s) (msema s) = (sm', Some h) \<Longrightarrow>
    mutex_step s (s\<lparr>msema := sm', mpcs := (mpcs s)[g := Idle, h := Held]\<rparr>)"
| unlock_store: "g < length (mpcs s) \<Longrightarrow> mpcs s ! g = UnlockHandoff \<Longrightarrow>
    sema_release (mstore s) (msema s) = (sm', None) \<Longrightarrow>
    mutex_step s (s\<lparr>msema := sm', mpcs := (mpcs s)[g := Idle]\<rparr>)"

section \<open>The invariant\<close>

fun owns :: "mpc \<Rightarrow> bool" where
  "owns Held = True" | "owns UnlockSlow = True" | "owns (UnlockLoaded w) = True" | "owns _ = False"

definition wlocked :: "u32 \<Rightarrow> int" where "wlocked w = uint w mod 2"

definition wwaiters :: "u32 \<Rightarrow> int" where "wwaiters w = uint w div 2"

text \<open>
  The lock bit counts the one owner: a goroutine that owns the mutex, one that is handing it over, or a stored
  credit.  The waiter count is the number of goroutines that registered and sleep or are about to, less the hand-overs
  under way.
\<close>

definition mutex_core :: "mutex_sys \<Rightarrow> int \<Rightarrow> gr list \<Rightarrow> bool" where
  "mutex_core s c q \<longleftrightarrow>
     int (length (mpcs s)) < 2 ^ 31 - 1 \<and>
     sema_rep (mstore s) (msema s) c q \<and>
     (\<forall>g. g \<in> set q \<longleftrightarrow> g < length (mpcs s) \<and> mpcs s ! g = LockParked) \<and>
     wlocked (mword s) = cnt owns (mpcs s) + cnt ((=) UnlockHandoff) (mpcs s) + c \<and>
     wwaiters (mword s) + cnt ((=) UnlockHandoff) (mpcs s) + c =
       cnt ((=) LockQueued) (mpcs s) + cnt ((=) LockParked) (mpcs s) \<and>
     (wlocked (mword s) = 0 \<longrightarrow> wwaiters (mword s) = 0) \<and>
     (\<forall>old. UnlockLoaded old \<in> set (mpcs s) \<longrightarrow> wlocked old = 1) \<and>
     MutexFatal \<notin> set (mpcs s)"

definition mutex_inv :: "mutex_sys \<Rightarrow> bool" where
  "mutex_inv s \<longleftrightarrow> (\<exists>c q. mutex_core s c q)"

lemma mutex_coreD:
  assumes "mutex_core s c q"
  shows "int (length (mpcs s)) < 2 ^ 31 - 1" "sema_rep (mstore s) (msema s) c q"
    "\<forall>g. g \<in> set q \<longleftrightarrow> g < length (mpcs s) \<and> mpcs s ! g = LockParked"
    "wlocked (mword s) = cnt owns (mpcs s) + cnt ((=) UnlockHandoff) (mpcs s) + c"
    "wwaiters (mword s) + cnt ((=) UnlockHandoff) (mpcs s) + c =
       cnt ((=) LockQueued) (mpcs s) + cnt ((=) LockParked) (mpcs s)"
    "wlocked (mword s) = 0 \<longrightarrow> wwaiters (mword s) = 0"
    "\<forall>old. UnlockLoaded old \<in> set (mpcs s) \<longrightarrow> wlocked old = 1" "MutexFatal \<notin> set (mpcs s)"
  using assms unfolding mutex_core_def by simp_all

section \<open>The word\<close>

lemma wlocked_and [simp]: "w AND M_LOCKED = 0 \<longleftrightarrow> wlocked w = 0"
proof -
  have "w AND M_LOCKED = 0 \<longleftrightarrow> uint (w AND 1) = 0" by (simp only: M_LOCKED_def unsigned_eq_0_iff)
  also have "uint (w AND 1) = uint w mod 2" by (simp only: unsigned_and_eq) (simp add: and_one_eq)
  finally show ?thesis by (simp add: wlocked_def)
qed

lemma wlocked_01: "wlocked w = 0 \<or> wlocked w = 1"
  by (simp add: wlocked_def) presburger

lemma wwaiters_nonneg [simp]: "0 \<le> wwaiters w"
  by (simp add: wwaiters_def)

lemma word_parts: "uint w = 2 * wwaiters w + wlocked w"
  by (simp add: wlocked_def wwaiters_def)

lemma word_parts_eqI: "wwaiters w = wwaiters v \<Longrightarrow> wlocked w = wlocked v \<Longrightarrow> w = v"
  using word_parts by (metis word_uint_eqI)

lemma parts_of_uint: "uint w = 2 * a + b \<Longrightarrow> b = 0 \<or> b = 1 \<Longrightarrow> wwaiters w = a \<and> wlocked w = b"
  by (auto simp: wlocked_def wwaiters_def)

lemma parts_0 [simp]: "wlocked 0 = 0" "wwaiters 0 = 0"
  by (simp_all add: wlocked_def wwaiters_def)

lemma parts_locked [simp]: "wlocked M_LOCKED = 1" "wwaiters M_LOCKED = 0"
  by (simp_all add: wlocked_def wwaiters_def M_LOCKED_def)

lemma parts_register:
  assumes "wwaiters w < 2 ^ 31 - 1"
  shows "wlocked (w + M_WAITER_UNIT) = wlocked w" "wwaiters (w + M_WAITER_UNIT) = wwaiters w + 1"
proof -
  have "uint w + 2 < 2 ^ 32" using assms word_parts [of w] wlocked_01 [of w] by auto
  then have "uint (w + M_WAITER_UNIT) = uint w + 2"
    by (simp add: M_WAITER_UNIT_def uint_word_ariths)
  then have "uint (w + M_WAITER_UNIT) = 2 * (wwaiters w + 1) + wlocked w" using word_parts [of w] by simp
  from parts_of_uint [OF this wlocked_01]
  show "wlocked (w + M_WAITER_UNIT) = wlocked w" "wwaiters (w + M_WAITER_UNIT) = wwaiters w + 1" by simp_all
qed

lemma uint_waiters: "uint (drop_bit 1 w) = wwaiters w" for w :: u32
proof -
  have "take_bit 32 (uint w) = uint w" 
    using uint_lt2p [of w] by (simp add: take_bit_int_eq_self_iff)
  then show ?thesis by (simp only: unsigned_drop_bit_eq) (simp add: drop_bit_eq_div wwaiters_def)
qed

lemma waiters_zero: "drop_bit 1 w = 0 \<longleftrightarrow> wwaiters w = 0" for w :: u32
  by (simp only: uint_waiters [symmetric] unsigned_eq_0_iff)

lemma parts_handoff:
  assumes "wwaiters w \<noteq> 0"
  defines "v \<equiv> push_bit 1 (drop_bit 1 w - 1) OR M_LOCKED"
  shows "wlocked v = 1" "wwaiters v = wwaiters w - 1"
proof -
  have pos: "0 < wwaiters w" using assms(1) wwaiters_nonneg [of w] by linarith
  have lt: "wwaiters w < 2 ^ 31" using uint_lt2p [of w] word_parts [of w] wlocked_01 [of w] by auto
  have "uint (drop_bit 1 w - 1) = wwaiters w - 1"
    using pos lt uint_waiters [of w] by (simp only: uint_word_ariths) simp
  then have p: "uint (push_bit 1 (drop_bit 1 w - 1)) = 2 * (wwaiters w - 1)"
    using pos lt by (simp only: unsigned_push_bit_eq) (simp add: take_bit_int_eq_self push_bit_eq_mult)
  have "uint v = uint (push_bit 1 (drop_bit 1 w - 1)) OR 1"
    by (simp add: v_def M_LOCKED_def unsigned_or_eq)
  also have "\<dots> = 2 * (wwaiters w - 1) + 1" unfolding p by (simp add: or_one_eq)
  finally have "uint v = 2 * (wwaiters w - 1) + 1" .
  from parts_of_uint [OF this] show "wlocked v = 1" "wwaiters v = wwaiters w - 1" by simp_all
qed

section \<open>Every step keeps the invariant\<close>

abbreviation one_if :: "bool \<Rightarrow> int" where "one_if b \<equiv> (if b then 1 else 0)"

text \<open>What a step does that touches only the word and the program point of a goroutine that does not sleep.\<close>

lemma mutex_core_pc:
  assumes core: "mutex_core s c q" and g: "g < length (mpcs s)" "mpcs s ! g = p" "p \<noteq> LockParked"
    and p': "p' \<noteq> LockParked" "p' \<noteq> MutexFatal" "\<And>old. p' = UnlockLoaded old \<Longrightarrow> wlocked old = 1"
    and l: "wlocked w' = wlocked (mword s) - one_if (owns p) + one_if (owns p')
                         - one_if (p = UnlockHandoff) + one_if (p' = UnlockHandoff)"
    and n: "wwaiters w' = wwaiters (mword s) - one_if (p = LockQueued) + one_if (p' = LockQueued)
                         + one_if (p = UnlockHandoff) - one_if (p' = UnlockHandoff)"
    and z: "wlocked w' = 0 \<Longrightarrow> wwaiters w' = 0"
  shows "mutex_core (mset_pc s g (w', p')) c q"
proof -
  note i = mutex_coreD [OF core]
  let ?ps = "(mpcs s)[g := p']"
  have u: "cnt P ?ps = cnt P (mpcs s) - one_if (P p) + one_if (P p')" for P
    using g(1,2) by (simp add: cnt_update)
  have "\<forall>h. h \<in> set q \<longleftrightarrow> h < length ?ps \<and> ?ps ! h = LockParked"
    using i(3) g p'(1) by (auto simp: nth_list_update)
  moreover have "wlocked w' = cnt owns ?ps + cnt ((=) UnlockHandoff) ?ps + c"
    using i(4) l unfolding u by (auto split: if_splits)
  moreover have "wwaiters w' + cnt ((=) UnlockHandoff) ?ps + c = cnt ((=) LockQueued) ?ps + cnt ((=) LockParked) ?ps"
    using i(5) n g(3) p'(1) unfolding u by (auto split: if_splits)
  moreover have "\<forall>old. UnlockLoaded old \<in> set ?ps \<longrightarrow> wlocked old = 1" "MutexFatal \<notin> set ?ps"
    using i(7,8) p'(2,3) set_update_subset_insert [of "mpcs s" g p'] by auto
  ultimately show ?thesis using i(1,2) z unfolding mutex_core_def mset_pc_def by simp
qed

lemma mutex_inv_pc:
  assumes inv: "mutex_inv s" and g: "g < length (mpcs s)" "mpcs s ! g = p" "p \<noteq> LockParked"
    and p': "p' \<noteq> LockParked" "p' \<noteq> MutexFatal" "\<And>old. p' = UnlockLoaded old \<Longrightarrow> wlocked old = 1"
    and l: "wlocked w' = wlocked (mword s) - one_if (owns p) + one_if (owns p')
                         - one_if (p = UnlockHandoff) + one_if (p' = UnlockHandoff)"
    and n: "wwaiters w' = wwaiters (mword s) - one_if (p = LockQueued) + one_if (p' = LockQueued)
                         + one_if (p = UnlockHandoff) - one_if (p' = UnlockHandoff)"
    and z: "wlocked w' = 0 \<Longrightarrow> wwaiters w' = 0"
  shows "mutex_inv (mset_pc s g (w', p'))"
  using inv mutex_core_pc [OF _ assms(2-)] unfolding mutex_inv_def by blast

text \<open>The facts a step needs of the invariant.\<close>

lemma mutex_inv_facts:
  assumes "mutex_inv s"
  shows "wwaiters (mword s) < 2 ^ 31 - 1"
    and "wlocked (mword s) = 0 \<Longrightarrow> wwaiters (mword s) = 0"
    and "g < length (mpcs s) \<Longrightarrow> owns (mpcs s ! g) \<Longrightarrow> wlocked (mword s) = 1"
    and "g < length (mpcs s) \<Longrightarrow> mpcs s ! g = UnlockLoaded old \<Longrightarrow> wlocked old = 1"
proof -
  obtain c q where core: "mutex_core s c q" using assms unfolding mutex_inv_def by blast
  note i = mutex_coreD [OF core]
  have "0 \<le> c" using sema.rep_credit [OF i(2)] by simp
  moreover have "0 \<le> cnt ((=) UnlockHandoff) (mpcs s)" by simp
  moreover have "cnt ((=) LockQueued) (mpcs s) + cnt ((=) LockParked) (mpcs s) \<le> int (length (mpcs s))"
    by (subst cnt_disj [symmetric]) (auto simp: cnt_le_length)
  ultimately show "wwaiters (mword s) < 2 ^ 31 - 1" using i(1,5) by linarith
  show "wlocked (mword s) = 0 \<Longrightarrow> wwaiters (mword s) = 0" using i(6) by blast
  show "wlocked (mword s) = 1" if "g < length (mpcs s)" "owns (mpcs s ! g)"
    using cnt_pos [of g "mpcs s" owns, OF that] \<open>0 \<le> c\<close> \<open>0 \<le> cnt ((=) UnlockHandoff) (mpcs s)\<close> i(4) wlocked_01 [of "mword s"]
    by linarith
  show "wlocked old = 1" if "g < length (mpcs s)" "mpcs s ! g = UnlockLoaded old"
    using i(7) nth_mem [OF that(1)] that(2) by auto
qed

lemmas mutex_ops = mutex_lock_def mutex_try_lock_def lock_slow_def mutex_unlock_def unlock_slow_def compare_exchange_def

lemma mutex_lock_inv [inv_intros]:
  assumes "mutex_inv s" "g < length (mpcs s)" "mpcs s ! g = Idle"
  shows "mutex_inv (mset_pc s g (mutex_lock (mword s)))" "mutex_inv (mset_pc s g (mutex_try_lock (mword s)))"
  by (auto simp: mutex_ops intro!: mutex_inv_pc [OF assms] mutex_inv_facts(2) [OF assms(1)])

lemma lock_slow_inv [inv_intros]:
  assumes "mutex_inv s" "g < length (mpcs s)" "mpcs s ! g = LockLoaded old"
  shows "mutex_inv (mset_pc s g (lock_slow old (mword s)))"
proof (cases "mword s = old")
  case False
  then show ?thesis
    by (auto simp: mutex_ops intro!: mutex_inv_pc [OF assms] mutex_inv_facts(2) [OF assms(1)])
next
  case True
  note f = mutex_inv_facts(1,2) [OF assms(1)]
  show ?thesis
  proof (cases "wlocked (mword s) = 0")
    case 0: True
    then have "mword s = 0" using f(2) word_parts_eqI [of "mword s" 0] by simp
    then show ?thesis using True by (auto simp: mutex_ops intro!: mutex_inv_pc [OF assms])
  next
    case 1: False
    then show ?thesis using True parts_register [OF f(1)]
      by (auto simp: mutex_ops intro!: mutex_inv_pc [OF assms])
  qed
qed

lemma mutex_unlock_inv [inv_intros]:
  assumes "mutex_inv s" "g < length (mpcs s)" "mpcs s ! g = Held"
  shows "mutex_inv (mset_pc s g (mutex_unlock (mword s)))"
  by (auto simp: mutex_ops intro!: mutex_inv_pc [OF assms] mutex_inv_facts(2) [OF assms(1)])

lemma unlock_slow_inv [inv_intros]:
  assumes "mutex_inv s" "g < length (mpcs s)" "mpcs s ! g = UnlockLoaded old"
  shows "mutex_inv (mset_pc s g (unlock_slow old (mword s)))"
proof (cases "mword s = old")
  case False
  then show ?thesis using mutex_inv_facts(4) [OF assms]
    by (auto simp: mutex_ops Let_def intro!: mutex_inv_pc [OF assms] mutex_inv_facts(2) [OF assms(1)])
next
  case True
  have l: "wlocked old = 1" by (rule mutex_inv_facts(4) [OF assms])
  show ?thesis
  proof (cases "wwaiters old = 0")
    case 0: True
    then have "drop_bit 1 old = 0" by (simp only: waiters_zero)
    then show ?thesis using True l 0
      by (auto simp: mutex_ops Let_def intro!: mutex_inv_pc [OF assms])
  next
    case 1: False
    then have "drop_bit 1 old \<noteq> 0" by (simp only: waiters_zero not_False_eq_True)
    then have e: "unlock_slow old (mword s) = (push_bit 1 (drop_bit 1 old - 1) OR M_LOCKED, UnlockHandoff)"
      using True l by (simp add: mutex_ops Let_def)
    show ?thesis unfolding e
      by (rule mutex_inv_pc [OF assms]) (use True l parts_handoff [OF 1] in simp_all)
  qed
qed

lemma mutex_acquire_inv [inv_intros]:
  assumes inv: "mutex_inv s" and g: "g < length (mpcs s)" "mpcs s ! g = LockQueued"
    and a: "sema_acquire (mstore s) (msema s) g = (st', sm', parked)"
  shows "mutex_inv (s\<lparr>mstore := st', msema := sm', mpcs := (mpcs s)[g := if parked then LockParked else Held]\<rparr>)"
proof -
  obtain c q where core: "mutex_core s c q" using inv unfolding mutex_inv_def by blast
  note i = mutex_coreD [OF core]
  let ?p = "if parked then LockParked else Held"
  let ?ps = "(mpcs s)[g := ?p]"
  let ?s' = "s\<lparr>mstore := st', msema := sm', mpcs := ?ps\<rparr>"
  have u: "cnt P ?ps = cnt P (mpcs s) - one_if (P LockQueued) + one_if (P ?p)" for P
    using g by (simp add: cnt_update)
  have s: "UnlockLoaded old \<in> set ?ps \<Longrightarrow> UnlockLoaded old \<in> set (mpcs s)" "MutexFatal \<notin> set ?ps" for old
    using i(8) set_update_subset_insert [of "mpcs s" g ?p] by (auto split: if_splits)
  have "g \<notin> set q" using i(3) g by simp
  from i(2) this a show ?thesis
  proof (cases rule: sema.acquire_cases)
    case through
    have "\<forall>h. h \<in> set q \<longleftrightarrow> h < length ?ps \<and> ?ps ! h = LockParked"
      using i(3) g through(2) by (auto simp: nth_list_update)
    moreover have "wlocked (mword s) = cnt owns ?ps + cnt ((=) UnlockHandoff) ?ps + (c - 1)"
      "wwaiters (mword s) + cnt ((=) UnlockHandoff) ?ps + (c - 1) = cnt ((=) LockQueued) ?ps + cnt ((=) LockParked) ?ps"
      using i(4,5) through(2) unfolding u by simp_all
    ultimately have "mutex_core ?s' (c - 1) q"
      using i(1,6,7) through(4) s unfolding mutex_core_def by simp
    then show ?thesis unfolding mutex_inv_def by blast
  next
    case park
    have "\<forall>h. h \<in> set (q @ [g]) \<longleftrightarrow> h < length ?ps \<and> ?ps ! h = LockParked"
      using i(3) g park(2) by (auto simp: nth_list_update)
    moreover have "wlocked (mword s) = cnt owns ?ps + cnt ((=) UnlockHandoff) ?ps + 0"
      "wwaiters (mword s) + cnt ((=) UnlockHandoff) ?ps + 0 = cnt ((=) LockQueued) ?ps + cnt ((=) LockParked) ?ps"
      using i(4,5) park(1,2) unfolding u by simp_all
    ultimately have "mutex_core ?s' 0 (q @ [g])"
      using i(1,6,7) park(3) s unfolding mutex_core_def by (simp del: set_append)
    then show ?thesis unfolding mutex_inv_def by blast
  qed
qed

lemma mutex_wake_core:
  assumes core: "mutex_core s c q" and g: "g < length (mpcs s)" "mpcs s ! g = UnlockHandoff"
    and r: "sema_release (mstore s) (msema s) = (sm', Some h)"
  shows "\<exists>q'. q = h # q' \<and> h < length (mpcs s) \<and> h \<noteq> g \<and>
           mutex_core (s\<lparr>msema := sm', mpcs := (mpcs s)[g := Idle, h := Held]\<rparr>) c q'"
proof -
  note i = mutex_coreD [OF core]
  obtain q' where q: "q = h # q'" "sema_rep (mstore s) sm' c q'"
    using i(2) r by (cases rule: sema.release_cases) auto
  have h: "h < length (mpcs s)" "mpcs s ! h = LockParked" "h \<notin> set q'"
    using i(3) q(1) sema.rep_distinct [OF i(2)] by auto
  then have hg: "h \<noteq> g" using g by auto
  let ?ps = "(mpcs s)[g := Idle, h := Held]"
  have u: "cnt P ?ps = cnt P (mpcs s) - one_if (P UnlockHandoff) + one_if (P Idle) - one_if (P LockParked) + one_if (P Held)" for P
    using g h hg by (simp add: cnt_update)
  have "set ?ps \<subseteq> insert Held (insert Idle (set (mpcs s)))"
    by (meson insert_mono order_trans set_update_subset_insert)
  then have st: "UnlockLoaded old \<in> set ?ps \<Longrightarrow> UnlockLoaded old \<in> set (mpcs s)" "MutexFatal \<notin> set ?ps" for old
    using i(8) by auto
  have "x \<in> set q' \<longleftrightarrow> x < length ?ps \<and> ?ps ! x = LockParked" for x
  proof (cases "x = g \<or> x = h")
    case True
    then show ?thesis using i(3) [rule_format, of g] q(1) g h hg by (auto simp: nth_list_update)
  next
    case False
    then have "x \<in> set q' \<longleftrightarrow> x \<in> set q" "?ps ! x = mpcs s ! x" using q(1) by simp_all
    with i(3) show ?thesis by simp
  qed
  then have "\<forall>x. x \<in> set q' \<longleftrightarrow> x < length ?ps \<and> ?ps ! x = LockParked" by blast
  moreover have "wlocked (mword s) = cnt owns ?ps + cnt ((=) UnlockHandoff) ?ps + c"
    "wwaiters (mword s) + cnt ((=) UnlockHandoff) ?ps + c = cnt ((=) LockQueued) ?ps + cnt ((=) LockParked) ?ps"
    using i(4,5) unfolding u by simp_all
  ultimately have "mutex_core (s\<lparr>msema := sm', mpcs := ?ps\<rparr>) c q'"
    using i(1,6,7) q(2) st unfolding mutex_core_def by simp
  with q(1) h(1) hg show ?thesis by blast
qed

lemma mutex_store_inv [inv_intros]:
  assumes inv: "mutex_inv s" and g: "g < length (mpcs s)" "mpcs s ! g = UnlockHandoff"
    and r: "sema_release (mstore s) (msema s) = (sm', None)"
  shows "mutex_inv (s\<lparr>msema := sm', mpcs := (mpcs s)[g := Idle]\<rparr>)"
proof -
  obtain c q where core: "mutex_core s c q" using inv unfolding mutex_inv_def by blast
  note i = mutex_coreD [OF core]
  have q: "q = []" "sema_rep (mstore s) sm' (c + 1) []"
    using i(2) r by (cases rule: sema.release_cases; auto)+
  let ?ps = "(mpcs s)[g := Idle]"
  have u: "cnt P ?ps = cnt P (mpcs s) - one_if (P UnlockHandoff) + one_if (P Idle)" for P
    using g by (simp add: cnt_update)
  have st: "UnlockLoaded old \<in> set ?ps \<Longrightarrow> UnlockLoaded old \<in> set (mpcs s)" "MutexFatal \<notin> set ?ps" for old
    using i(8) set_update_subset_insert [of "mpcs s" g Idle] by auto
  have "\<forall>x. x \<in> set [] \<longleftrightarrow> x < length ?ps \<and> ?ps ! x = LockParked"
    using i(3) q(1) g by (auto simp: nth_list_update)
  moreover have "wlocked (mword s) = cnt owns ?ps + cnt ((=) UnlockHandoff) ?ps + (c + 1)"
    "wwaiters (mword s) + cnt ((=) UnlockHandoff) ?ps + (c + 1) = cnt ((=) LockQueued) ?ps + cnt ((=) LockParked) ?ps"
    using i(4,5) unfolding u by simp_all
  ultimately have "mutex_core (s\<lparr>msema := sm', mpcs := ?ps\<rparr>) (c + 1) []"
    using i(1,6,7) q(2) st unfolding mutex_core_def by simp
  then show ?thesis unfolding mutex_inv_def by blast
qed

lemma mutex_load_inv [inv_intros]:
  assumes "mutex_inv s" "g < length (mpcs s)"
  shows "mpcs s ! g = LockSlow \<Longrightarrow> mutex_inv (mset_pc s g (mword s, LockLoaded (mword s)))"
    and "mpcs s ! g = UnlockSlow \<Longrightarrow> mutex_inv (mset_pc s g (mword s, UnlockLoaded (mword s)))"
  using mutex_inv_facts(3) [OF assms]
  by (auto intro!: mutex_inv_pc [OF assms] mutex_inv_facts(2) [OF assms(1)])

lemma mutex_step_inv: "mutex_step s s' \<Longrightarrow> mutex_inv s \<Longrightarrow> mutex_inv s'"
proof (induction rule: mutex_step.induct)
  case (unlock_wake g s sm' h)
  then obtain c q where "mutex_core s c q" unfolding mutex_inv_def by blast
  from mutex_wake_core [OF this unlock_wake.hyps] show ?case unfolding mutex_inv_def by blast
qed (simp_all add: inv_intros)

lemma mutex_init_inv: "int n < 2 ^ 31 - 1 \<Longrightarrow> mutex_inv (mutex_init st n)"
  unfolding mutex_inv_def mutex_core_def mutex_init_def
  by (intro exI [of _ 0] exI [of _ "[]"]) (simp add: sema_rep_new)

lemma mutex_reach_inv: "mutex_step\<^sup>*\<^sup>* (mutex_init st n) s \<Longrightarrow> int n < 2 ^ 31 - 1 \<Longrightarrow> mutex_inv s"
  by (induction rule: rtranclp_induct) (auto simp: mutex_init_inv mutex_step_inv)

section \<open>Every waiter is served\<close>

lemma mutex_step_length: "mutex_step s s' \<Longrightarrow> length (mpcs s') = length (mpcs s)"
  by (induction rule: mutex_step.induct) (simp_all add: mset_pc_def)

lemma mutex_steps_length: "mutex_step\<^sup>*\<^sup>* s s' \<Longrightarrow> length (mpcs s') = length (mpcs s)"
  by (induction rule: rtranclp_induct) (simp_all add: mutex_step_length)

lemma mset_pc_simps [simp]:
  "mpcs (mset_pc s g x) = (mpcs s)[g := snd x]" "mword (mset_pc s g x) = fst x"
  by (simp_all add: mset_pc_def)

text \<open>While goroutines sleep, an owner that unlocks ends up handing the mutex over.\<close>

lemma mutex_loaded_hands_over:
  assumes "mutex_core s 0 q" "q \<noteq> []" "g < length (mpcs s)" "mpcs s ! g = UnlockLoaded (mword s)"
    "cnt ((=) UnlockHandoff) (mpcs s) = 0"
  shows "\<exists>s'. mutex_step s s' \<and> mutex_core s' 0 q \<and> g < length (mpcs s') \<and> mpcs s' ! g = UnlockHandoff"
proof -
  note i = mutex_coreD [OF assms(1)]
  have l: "wlocked (mword s) = 1" using i(7) assms(3,4) nth_mem by metis
  have "1 \<le> cnt ((=) LockParked) (mpcs s)"
    using i(3) assms(2) hd_in_set [OF assms(2)] by (intro cnt_pos [of "hd q"]) auto
  moreover have "0 \<le> cnt ((=) LockQueued) (mpcs s)" by simp
  ultimately have w: "wwaiters (mword s) \<noteq> 0" using i(5) assms(5) by linarith
  then have "drop_bit 1 (mword s) \<noteq> 0" by (simp only: waiters_zero not_False_eq_True)
  then have e: "unlock_slow (mword s) (mword s) = (push_bit 1 (drop_bit 1 (mword s) - 1) OR M_LOCKED, UnlockHandoff)"
    using l by (simp add: mutex_ops Let_def)
  have "mutex_core (mset_pc s g (unlock_slow (mword s) (mword s))) 0 q" unfolding e
    by (rule mutex_core_pc [OF assms(1,3,4)]) (use l parts_handoff [OF w] in simp_all)
  moreover have "mutex_step s (mset_pc s g (unlock_slow (mword s) (mword s)))"
    by (rule mutex_step.unlock_cas) (use assms in simp_all)
  ultimately show ?thesis using assms(3) e by fastforce
qed

lemma mutex_slow_hands_over:
  assumes "mutex_core s 0 q" "q \<noteq> []" "g < length (mpcs s)" "mpcs s ! g = UnlockSlow"
    "cnt ((=) UnlockHandoff) (mpcs s) = 0"
  shows "\<exists>s'. mutex_step\<^sup>*\<^sup>* s s' \<and> mutex_core s' 0 q \<and> g < length (mpcs s') \<and> mpcs s' ! g = UnlockHandoff"
proof -
  let ?s = "mset_pc s g (mword s, UnlockLoaded (mword s))"
  note i = mutex_coreD [OF assms(1)]
  have l: "wlocked (mword s) = 1"
    using mutex_inv_facts(3) [of s g] assms unfolding mutex_inv_def by auto
  have "mutex_core ?s 0 q"
    by (rule mutex_core_pc [OF assms(1,3,4)]) (use l in simp_all)
  moreover have "cnt ((=) UnlockHandoff) (mpcs ?s) = 0" using assms by (simp add: cnt_update)
  ultimately obtain s' where "mutex_step ?s s'" "mutex_core s' 0 q" "g < length (mpcs s')" "mpcs s' ! g = UnlockHandoff"
    using mutex_loaded_hands_over [of ?s q g] assms(2,3) by auto
  moreover have "mutex_step s ?s" using assms(3,4) by (rule mutex_step.unlock_load)
  ultimately show ?thesis by (meson converse_rtranclp_into_rtranclp r_into_rtranclp)
qed

lemma mutex_owner_to_slow:
  assumes "mutex_core s 0 q" "q \<noteq> []" "g < length (mpcs s)"
    "mpcs s ! g = Held \<or> (\<exists>old. mpcs s ! g = UnlockLoaded old \<and> old \<noteq> mword s)"
    "cnt ((=) UnlockHandoff) (mpcs s) = 0"
  shows "\<exists>s'. mutex_step s s' \<and> mutex_core s' 0 q \<and> g < length (mpcs s') \<and> mpcs s' ! g = UnlockSlow \<and>
           cnt ((=) UnlockHandoff) (mpcs s') = 0"
proof -
  note i = mutex_coreD [OF assms(1)]
  have "1 \<le> cnt ((=) LockParked) (mpcs s)"
    using i(3) assms(2) hd_in_set [OF assms(2)] by (intro cnt_pos [of "hd q"]) auto
  moreover have "0 \<le> cnt ((=) LockQueued) (mpcs s)" by simp
  ultimately have w: "wwaiters (mword s) \<noteq> 0" using i(5) assms(5) by linarith
  then have nl: "mword s \<noteq> M_LOCKED" by auto
  let ?s = "mset_pc s g (mword s, UnlockSlow)"
  have own: "owns (mpcs s ! g)" using assms(4) by auto
  have "mutex_core ?s 0 q"
    by (rule mutex_core_pc [OF assms(1,3) refl]) (use assms(4) own i(6) in auto)
  moreover have "mutex_step s ?s" using assms(4)
  proof
    assume h: "mpcs s ! g = Held"
    from mutex_step.unlock [OF assms(3) h] nl show ?thesis by (simp add: mutex_ops)
  next
    assume "\<exists>old. mpcs s ! g = UnlockLoaded old \<and> old \<noteq> mword s"
    then obtain old where o: "mpcs s ! g = UnlockLoaded old" "old \<noteq> mword s" by blast
    then have "wlocked old = 1" using i(7) assms(3) nth_mem by metis
    with mutex_step.unlock_cas [OF assms(3) o(1)] o(2) show ?thesis by (simp add: mutex_ops Let_def split: if_splits)
  qed
  moreover have "cnt ((=) UnlockHandoff) (mpcs ?s) = 0" using assms(3,4,5) own by (auto simp: cnt_update)
  ultimately show ?thesis using assms(3) by (intro exI [of _ ?s]) simp
qed

lemma mutex_hands_over:
  assumes "mutex_core s 0 q" "q \<noteq> []"
  shows "\<exists>s' g. mutex_step\<^sup>*\<^sup>* s s' \<and> mutex_core s' 0 q \<and> g < length (mpcs s') \<and> mpcs s' ! g = UnlockHandoff"
proof (cases "cnt ((=) UnlockHandoff) (mpcs s) = 0")
  case False
  then obtain g where "g < length (mpcs s)" "mpcs s ! g = UnlockHandoff" by (auto simp: cnt_zero in_set_conv_nth)
  with assms(1) show ?thesis by blast
next
  case True
  note i = mutex_coreD [OF assms(1)]
  have "1 \<le> cnt ((=) LockParked) (mpcs s)"
    using i(3) assms(2) hd_in_set [OF assms(2)] by (intro cnt_pos [of "hd q"]) auto
  moreover have "0 \<le> cnt ((=) LockQueued) (mpcs s)" by simp
  ultimately have "wwaiters (mword s) \<noteq> 0" using i(5) True by linarith
  then have "cnt owns (mpcs s) \<noteq> 0" using i(4,6) True by auto
  then obtain g where g: "g < length (mpcs s)" "owns (mpcs s ! g)" by (auto simp: cnt_zero in_set_conv_nth)
  consider "mpcs s ! g = UnlockSlow" | "mpcs s ! g = UnlockLoaded (mword s)"
    | "mpcs s ! g = Held \<or> (\<exists>old. mpcs s ! g = UnlockLoaded old \<and> old \<noteq> mword s)"
    using g(2) by (cases "mpcs s ! g") auto
  then show ?thesis
  proof cases
    case 1
    then show ?thesis using mutex_slow_hands_over [OF assms g(1) _ True] by blast
  next
    case 2
    then show ?thesis using mutex_loaded_hands_over [OF assms g(1) _ True] by blast
  next
    case 3
    then obtain s' where s': "mutex_step s s'" "mutex_core s' 0 q" "g < length (mpcs s')" "mpcs s' ! g = UnlockSlow"
      "cnt ((=) UnlockHandoff) (mpcs s') = 0"
      using mutex_owner_to_slow [OF assms g(1) _ True] by blast
    from mutex_slow_hands_over [OF s'(2) assms(2) s'(3,4,5)] s'(1) show ?thesis
      by (meson converse_rtranclp_into_rtranclp)
  qed
qed

lemma mutex_serves_head:
  assumes "mutex_core s 0 (x # q)"
  shows "\<exists>s'. mutex_step\<^sup>*\<^sup>* s s' \<and> mutex_core s' 0 q \<and> mpcs s' ! x = Held"
proof -
  obtain s1 g where s1: "mutex_step\<^sup>*\<^sup>* s s1" "mutex_core s1 0 (x # q)" "g < length (mpcs s1)" "mpcs s1 ! g = UnlockHandoff"
    using mutex_hands_over [OF assms] by blast
  obtain sm' where r: "sema_release (mstore s1) (msema s1) = (sm', Some x)"
    using sema.release_wake [OF mutex_coreD(2) [OF s1(2)]] by blast
  from mutex_wake_core [OF s1(2,3,4) r]
  have "mutex_core (s1\<lparr>msema := sm', mpcs := (mpcs s1)[g := Idle, x := Held]\<rparr>) 0 q" "x < length (mpcs s1)" by auto
  with s1(1) mutex_step.unlock_wake [OF s1(3,4) r] show ?thesis
    by (intro exI [of _ "s1\<lparr>msema := sm', mpcs := (mpcs s1)[g := Idle, x := Held]\<rparr>"]) auto
qed

lemma mutex_serves:
  "mutex_core s 0 q \<Longrightarrow> g \<in> set q \<Longrightarrow> \<exists>s'. mutex_step\<^sup>*\<^sup>* s s' \<and> mpcs s' ! g = Held"
proof (induction q arbitrary: s)
  case Nil
  then show ?case by simp
next
  case (Cons x q)
  obtain s1 where s1: "mutex_step\<^sup>*\<^sup>* s s1" "mutex_core s1 0 q" "mpcs s1 ! x = Held"
    using mutex_serves_head [OF Cons.prems(1)] by blast
  show ?case
  proof (cases "g = x")
    case True
    with s1 show ?thesis by blast
  next
    case False
    with Cons.IH [OF s1(2)] Cons.prems(2) s1(1) show ?thesis by (auto intro: rtranclp_trans)
  qed
qed

section \<open>Properties\<close>

text \<open>
  C10: mutual exclusion.  However the steps of fewer than \<open>2 ^ 31 - 1\<close> goroutines interleave that lock, try to
  lock and unlock a new mutex, each unlocking only what it holds, at most one of them owns the mutex at a time, and
  none reaches the fatal error for unlocking an unlocked mutex.
\<close>

theorem mutex_exclusion:
  assumes "int n < 2 ^ 31 - 1" "mutex_step\<^sup>*\<^sup>* (mutex_init st n) s"
  shows "(\<forall>i j. i < n \<and> j < n \<and> owns (mpcs s ! i) \<and> owns (mpcs s ! j) \<longrightarrow> i = j) \<and> MutexFatal \<notin> set (mpcs s)"
proof -
  obtain c q where core: "mutex_core s c q"
    using mutex_reach_inv [OF assms(2,1)] unfolding mutex_inv_def by blast
  note i = mutex_coreD [OF core]
  have "length (mpcs s) = n" using mutex_steps_length [OF assms(2)] by (simp add: mutex_init_def)
  moreover have "cnt owns (mpcs s) \<le> 1"
    using i(4) wlocked_01 [of "mword s"] sema.rep_credit [OF i(2)] cnt_nonneg [of "(=) UnlockHandoff" "mpcs s"] by linarith
  ultimately have "\<forall>i j. i < n \<and> j < n \<and> owns (mpcs s ! i) \<and> owns (mpcs s ! j) \<longrightarrow> i = j"
    using cnt_two [of _ "mpcs s" _ owns] by fastforce
  with i(8) show ?thesis by blast
qed

theorem mutex_exclusion_witness:
  "int 2 < 2 ^ 31 - 1 \<and>
   mutex_step\<^sup>*\<^sup>* (mutex_init idle_store 2) (mset_pc (mutex_init idle_store 2) 0 (M_LOCKED, Held)) \<and>
   MutexFatal \<notin> {Held, Idle}"
proof -
  let ?s = "mset_pc (mutex_init idle_store 2) 0 (M_LOCKED, Held)"
  have "mutex_step (mutex_init idle_store 2) ?s"
    using mutex_step.lock [of 0 "mutex_init idle_store 2"] by (simp add: mutex_init_def mutex_ops)
  then have r: "mutex_step\<^sup>*\<^sup>* (mutex_init idle_store 2) ?s" by (rule r_into_rtranclp)
  have "mpcs ?s = [Held, Idle]" by (simp add: mutex_init_def numeral_2_eq_2)
  with mutex_exclusion [OF _ r] r show ?thesis by force
qed


text \<open>One goroutine holds the mutex, another has gone to sleep on it.\<close>

definition one_waits :: mutex_sys where
  "one_waits = \<lparr>mstore = idle_store, mword = 3,
     msema = sema_new\<lparr>waiters := \<lparr>qhead = Some 1, qtail = Some 1\<rparr>\<rparr>, mpcs = [Held, LockParked]\<rparr>"

lemma one_waits_reachable: "mutex_step\<^sup>*\<^sup>* (mutex_init idle_store 2) one_waits"
proof -
  let ?m = "\<lambda>w ps. \<lparr>mstore = idle_store, mword = w, msema = sema_new, mpcs = ps\<rparr>"
  have 1: "mutex_step (?m 0 [Idle, Idle]) (?m 1 [Held, Idle])"
    using mutex_step.lock [of 0 "?m 0 [Idle, Idle]"] by (simp add: mset_pc_def mutex_ops M_LOCKED_def)
  have 2: "mutex_step (?m 1 [Held, Idle]) (?m 1 [Held, LockSlow])"
    using mutex_step.lock [of 1 "?m 1 [Held, Idle]"] by (simp add: mset_pc_def mutex_ops M_LOCKED_def)
  have 3: "mutex_step (?m 1 [Held, LockSlow]) (?m 1 [Held, LockLoaded 1])"
    using mutex_step.lock_load [of 1 "?m 1 [Held, LockSlow]"] by (simp add: mset_pc_def)
  have 4: "mutex_step (?m 1 [Held, LockLoaded 1]) (?m 3 [Held, LockQueued])"
    using mutex_step.lock_cas [of 1 "?m 1 [Held, LockLoaded 1]" 1]
    by (simp add: mset_pc_def mutex_ops M_WAITER_UNIT_def wlocked_def)
  have "sema_acquire idle_store sema_new 1 = (idle_store, sema_new\<lparr>waiters := \<lparr>qhead = Some 1, qtail = Some 1\<rparr>\<rparr>, True)"
    by (simp add: sema_acquire_def sema_new_def gq_append_def gq_empty_def idle_store_def fun_upd_def Let_def)
  then have 5: "mutex_step (?m 3 [Held, LockQueued]) one_waits"
    using mutex_step.lock_acquire [of 1 "?m 3 [Held, LockQueued]"] by (simp add: one_waits_def)
  have "mutex_init idle_store 2 = ?m 0 [Idle, Idle]" by (simp add: mutex_init_def numeral_2_eq_2)
  then show ?thesis using 1 2 3 4 5 by (metis (no_types, lifting) converse_rtranclp_into_rtranclp r_into_rtranclp)
qed


end
