(* ===== verification/Mutex_Client.thy ===== *)
theory Mutex_Client
  imports Mutex
begin

text \<open>
  The mutex as its clients see it.  \<^verbatim>\<open>sync.Once\<close> and \<^verbatim>\<open>sync.RWMutex\<close> hold a mutex and
  reach it only through \<^verbatim>\<open>Lock\<close>, \<^verbatim>\<open>TryLock\<close> and \<^verbatim>\<open>Unlock\<close>: of the program points of
  the mutex a client knows whether a goroutine is outside, on its way in, inside, or on its way out.  The
  interface \<open>lock_interface\<close> states what the mutex promises about these phases; what a client may rely on is
  proved from it once.
\<close>

section \<open>Phases and roles\<close>

datatype phase = Outside | Entering | Inside | Leaving

fun phase_of :: "mpc \<Rightarrow> phase" where
  "phase_of Idle = Outside"
| "phase_of LockSlow = Entering"
| "phase_of (LockLoaded _) = Entering"
| "phase_of LockQueued = Entering"
| "phase_of LockParked = Entering"
| "phase_of Held = Inside"
| "phase_of UnlockSlow = Leaving"
| "phase_of (UnlockLoaded _) = Leaving"
| "phase_of UnlockHandoff = Leaving"
| "phase_of MutexFatal = Leaving"

definition mphase :: "mutex_sys \<Rightarrow> gr \<Rightarrow> phase" where
  "mphase m g = (if g < length (mpcs m) then phase_of (mpcs m ! g) else Outside)"

text \<open>
  What the client's code does with the mutex at one of its own program points: nothing, a call of
  \<^verbatim>\<open>Lock\<close> that has not returned, the critical section, a call of \<^verbatim>\<open>Unlock\<close> that has not returned.
\<close>

datatype role = Apart | Acquiring | Holding | Releasing

fun allowed :: "role \<Rightarrow> phase \<Rightarrow> bool" where
  "allowed Apart p \<longleftrightarrow> p = Outside"
| "allowed Acquiring p \<longleftrightarrow> p \<noteq> Leaving"
| "allowed Holding p \<longleftrightarrow> p = Inside"
| "allowed Releasing p \<longleftrightarrow> p \<noteq> Entering"

definition agree :: "('m \<Rightarrow> gr \<Rightarrow> phase) \<Rightarrow> (gr \<Rightarrow> role) \<Rightarrow> 'm \<Rightarrow> bool" where
  "agree ph r m \<longleftrightarrow> (\<forall>g. allowed (r g) (ph m g))"

text \<open>The role of every goroutine, from the client's program points.\<close>

definition role_at :: "('p \<Rightarrow> role) \<Rightarrow> 'p list \<Rightarrow> gr \<Rightarrow> role" where
  "role_at f ps g = (if g < length ps then f (ps ! g) else Apart)"

lemma role_at_update: "g < length ps \<Longrightarrow> role_at f (ps[g := p]) = (role_at f ps)(g := f p)"
  by (auto simp: role_at_def fun_eq_iff nth_list_update)

lemma role_at_replicate: "f p = Apart \<Longrightarrow> role_at f (replicate n p) g = Apart"
  by (simp add: role_at_def)

text \<open>A goroutine enters the mutex only inside a call of \<^verbatim>\<open>Lock\<close>, and leaves it only inside \<^verbatim>\<open>Unlock\<close>.\<close>

definition guarded :: "('m \<Rightarrow> gr \<Rightarrow> phase) \<Rightarrow> (gr \<Rightarrow> role) \<Rightarrow> 'm \<Rightarrow> 'm \<Rightarrow> bool" where
  "guarded ph r m m' \<longleftrightarrow>
     (\<forall>g. (ph m g = Outside \<and> ph m' g \<noteq> Outside \<longrightarrow> r g = Acquiring) \<and>
          (ph m g = Inside \<and> ph m' g \<noteq> Inside \<longrightarrow> r g = Releasing))"

fun phase_move :: "phase \<Rightarrow> phase \<Rightarrow> bool" where
  "phase_move Outside p \<longleftrightarrow> p \<noteq> Leaving"
| "phase_move Entering p \<longleftrightarrow> p = Entering \<or> p = Inside"
| "phase_move Inside p \<longleftrightarrow> p \<noteq> Entering"
| "phase_move Leaving p \<longleftrightarrow> p = Leaving \<or> p = Outside"

section \<open>What a client may rely on\<close>

locale lock_interface =
  fixes inv :: "'m \<Rightarrow> bool" and step :: "'m \<Rightarrow> 'm \<Rightarrow> bool" and ph :: "'m \<Rightarrow> gr \<Rightarrow> phase"
  assumes step_inv: "inv m \<Longrightarrow> step m m' \<Longrightarrow> inv m'"
    and excl: "inv m \<Longrightarrow> ph m g = Inside \<Longrightarrow> ph m h = Inside \<Longrightarrow> g = h"
    and step_move: "inv m \<Longrightarrow> step m m' \<Longrightarrow> phase_move (ph m g) (ph m' g)"
begin

lemma agree_step:
  assumes "inv m" "step m m'" "guarded ph r m m'" "agree ph r m"
  shows "agree ph r m'"
  unfolding agree_def
proof
  fix g
  have a: "allowed (r g) (ph m g)" and m: "phase_move (ph m g) (ph m' g)"
    using assms(4) step_move [OF assms(1, 2)] unfolding agree_def by blast+
  have "ph m g = Outside \<Longrightarrow> ph m' g \<noteq> Outside \<Longrightarrow> r g = Acquiring"
    "ph m g = Inside \<Longrightarrow> ph m' g \<noteq> Inside \<Longrightarrow> r g = Releasing"
    using assms(3) unfolding guarded_def by blast+
  with a m show "allowed (r g) (ph m' g)"
    by (cases "r g"; cases "ph m g"; cases "ph m' g") auto
qed

lemma one_holder:
  assumes "inv m" "agree ph r m" "r g = Holding \<or> ph m g = Inside" "r h = Holding"
  shows "g = h"
proof -
  have "ph m x = Inside" if "r x = Holding" for x
    using assms(2) that unfolding agree_def by (metis allowed.simps(3))
  then show ?thesis using excl [OF assms(1)] assms(3, 4) by blast
qed

lemma agree_role:
  "agree ph r m \<Longrightarrow> allowed x (ph m g) \<Longrightarrow> agree ph (r(g := x)) m"
  unfolding agree_def by simp

end

section \<open>The mutex keeps the promise\<close>

lemma mphase_set_pc:
  "g < length (mpcs m) \<Longrightarrow> mphase (mset_pc m g x) h = (if h = g then phase_of (snd x) else mphase m h)"
  by (auto simp: mphase_def nth_list_update)

lemma guarded_set_pc:
  assumes "g < length (mpcs m)" "phase_of (mpcs m ! g) = Outside \<Longrightarrow> phase_of (snd x) \<noteq> Outside \<Longrightarrow> r g = Acquiring"
    "phase_of (mpcs m ! g) = Inside \<Longrightarrow> phase_of (snd x) \<noteq> Inside \<Longrightarrow> r g = Releasing"
  shows "guarded mphase r m (mset_pc m g x)"
  using assms unfolding guarded_def by (auto simp: mphase_set_pc mphase_def [of m g])

lemma phase_move_refl [simp]: "phase_move p p"
  by (cases p) simp_all

lemma phase_move_set_pc:
  "g < length (mpcs m) \<Longrightarrow> phase_move (phase_of (mpcs m ! g)) (phase_of (snd x)) \<Longrightarrow>
   phase_move (mphase m h) (mphase (mset_pc m g x) h)"
  by (auto simp: mphase_set_pc mphase_def [of m g])

lemma mutex_phase_ops:
  "phase_of (snd (mutex_lock w)) \<noteq> Leaving" "phase_of (snd (mutex_try_lock w)) \<noteq> Leaving"
  "phase_of (snd (lock_slow old w)) \<in> {Entering, Inside}"
  "phase_of (snd (mutex_unlock w)) \<noteq> Entering" "phase_of (snd (unlock_slow old w)) \<in> {Leaving, Outside}"
  by (auto simp: mutex_ops Let_def)

lemma mutex_step_move:
  assumes "mutex_inv m" "mutex_step m m'"
  shows "phase_move (mphase m h) (mphase m' h)"
  using assms(2, 1)
proof (induction rule: mutex_step.induct)
  case (lock_acquire g s st' sm' parked)
  then show ?case by (auto simp: mphase_def nth_list_update)
next
  case (unlock_wake g s sm' x)
  then obtain c q where core: "mutex_core s c q" unfolding mutex_inv_def by blast
  from mutex_wake_core [OF core unlock_wake.hyps] obtain q' where x: "q = x # q'" "x < length (mpcs s)" "x \<noteq> g" by blast
  have "mpcs s ! x = LockParked" using mutex_coreD(3) [OF core] x(1) by auto
  with x unlock_wake.hyps(1, 2) show ?case by (auto simp: mphase_def nth_list_update)
next
  case (unlock_store g s sm')
  then show ?case by (auto simp: mphase_def nth_list_update)
qed (rule phase_move_set_pc; use mutex_phase_ops in auto)+

lemma mutex_excl:
  assumes "mutex_inv m" "mphase m g = Inside" "mphase m h = Inside"
  shows "g = h"
proof (rule ccontr)
  assume "g \<noteq> h"
  have p: "p = Held" if "phase_of p = Inside" for p using that by (cases p) simp_all
  have gh: "g < length (mpcs m)" "mpcs m ! g = Held" "h < length (mpcs m)" "mpcs m ! h = Held"
    using assms(2, 3) by (auto simp: mphase_def intro: p split: if_splits)
  obtain c q where core: "mutex_core m c q" using assms(1) unfolding mutex_inv_def by blast
  have "0 \<le> c" using sema.rep_credit [OF mutex_coreD(2) [OF core]] by simp
  moreover have "0 \<le> cnt ((=) UnlockHandoff) (mpcs m)" by simp
  moreover have "2 \<le> cnt owns (mpcs m)"
    using gh \<open>g \<noteq> h\<close> by (intro cnt_two [of g _ h]) simp_all
  ultimately show False
    using mutex_coreD(4) [OF core] wlocked_01 [of "mword m"] by linarith
qed

interpretation mtx: lock_interface mutex_inv mutex_step mphase
  by unfold_locales (blast intro: mutex_step_inv mutex_excl mutex_step_move)+

lemma cnt_at_most_one:
  assumes "\<And>h. h < length ps \<Longrightarrow> P (ps ! h) \<Longrightarrow> h = g"
  shows "cnt P ps \<le> 1"
proof -
  define Q where "Q = (\<lambda>o1. case o1 of None \<Rightarrow> False | Some x \<Rightarrow> P x)"
  have "\<not> Q ((map Some ps)[g := None] ! i)" if "i < length ps" for i
    using assms [of i] that by (cases "i = g") (auto simp: Q_def)
  then have "cnt Q ((map Some ps)[g := None]) = 0"
    unfolding cnt_zero by (auto simp: in_set_conv_nth)
  moreover have "cnt Q (map Some ps) = cnt P ps"
    by (induction ps) (auto simp: Q_def)
  ultimately show ?thesis
    using cnt_update [of g "map Some ps" Q None] by (cases "g < length ps") (auto simp: Q_def list_update_beyond split: if_splits)
qed

lemma mphase_init: "mphase (mutex_init st n) g = Outside"
  by (simp add: mphase_def mutex_init_def)

lemma agree_init: "f p = Apart \<Longrightarrow> agree mphase (role_at f (replicate n p)) (mutex_init st n)"
  by (simp add: agree_def mphase_init role_at_replicate)

text \<open>The goroutine at the mutex's critical section is the only one in a role that holds the mutex.\<close>

lemma cnt_sole:
  assumes "mutex_inv m" "agree mphase (role_at f ps) m" "mphase m g = Inside" "g < length ps"
    and P: "\<And>p. P p \<Longrightarrow> f p = Holding"
  shows "cnt P ps = (if P (ps ! g) then 1 else 0)"
proof -
  have only: "h = g" if "h < length ps" "P (ps ! h)" for h
    using mtx.one_holder [OF assms(1, 2), of g h] that P [of "ps ! h"] assms(3) by (simp add: role_at_def)
  then have "\<And>h. h < length ps \<Longrightarrow> P (ps ! h) \<Longrightarrow> h = g" by blast
  then have "cnt P ps \<le> 1" by (rule cnt_at_most_one)
  moreover have "P (ps ! g) \<Longrightarrow> 1 \<le> cnt P ps" using cnt_pos assms(4) by blast
  moreover have "\<not> P (ps ! g) \<Longrightarrow> cnt P ps = 0"
    using only unfolding cnt_zero by (metis in_set_conv_nth)
  moreover have "0 \<le> cnt P ps" by simp
  ultimately show ?thesis by (cases "P (ps ! g)") force+
qed

lemma agree_holding:
  "agree mphase (role_at f ps) m \<Longrightarrow> g < length ps \<Longrightarrow> f (ps ! g) = Holding \<Longrightarrow> mphase m g = Inside"
  unfolding agree_def role_at_def by (metis allowed.simps(3))

lemma cnt_holding:
  assumes "mutex_inv m" "agree mphase (role_at f ps) m" and P: "\<And>p. P p \<Longrightarrow> f p = Holding"
  shows "cnt P ps \<le> 1"
proof (cases "\<exists>g. g < length ps \<and> P (ps ! g)")
  case True
  then show ?thesis
    using cnt_sole [OF assms(1, 2) agree_holding [OF assms(2)] _ P] P by fastforce
next
  case False
  then have "cnt P ps = 0" unfolding cnt_zero by (metis in_set_conv_nth)
  then show ?thesis by simp
qed

lemma isum_sole:
  assumes "mutex_inv m" "agree mphase (role_at f ps) m" "mphase m g = Inside" "g < length ps"
    and w: "\<And>p. w p \<noteq> 0 \<Longrightarrow> f p = Holding"
  shows "isum w ps = w (ps ! g)"
proof -
  have z: "w (ps ! h) = 0" if "h < length ps" "h \<noteq> g" for h
    using mtx.one_holder [OF assms(1, 2), of g h] that w [of "ps ! h"] assms(3) by (auto simp: role_at_def)
  have "isum w ps = (\<Sum>h = 0..<length ps. w (ps ! h))"
    unfolding isum_def by (simp add: sum_list_sum_nth)
  also have "\<dots> = (\<Sum>h \<in> {g}. w (ps ! h))"
    using assms(4) z by (intro sum.mono_neutral_right) auto
  finally show ?thesis by simp
qed

text \<open>The mutex links only the goroutines that sleep on it, or are about to, into its chain.\<close>

lemma mutex_step_frame:
  assumes "mutex_step m m'" "mutex_inv m" "sema_rep (mstore m) sm c q" "\<And>x. x \<in> set q \<Longrightarrow> mphase m x \<noteq> Entering"
  shows "sema_rep (mstore m') sm c q"
  using assms
proof (induction rule: mutex_step.induct)
  case (lock_acquire g s st' sm' parked)
  then obtain c' q' where core: "mutex_core s c' q'" unfolding mutex_inv_def by blast
  have "x \<notin> set q" if "x \<in> set q'" for x
    using that mutex_coreD(3) [OF core] lock_acquire.prems(3) [of x] unfolding mphase_def by force
  moreover have "g \<notin> set q"
    using lock_acquire.hyps(1, 2) lock_acquire.prems(3) [of g] unfolding mphase_def by force
  ultimately have "sema_rep (fst (sema_acquire (mstore s) (msema s) g)) sm c q"
    using sema.acquire_frame [OF mutex_coreD(2) [OF core] lock_acquire.prems(2)] by blast
  with lock_acquire.hyps(3) show ?case by simp
qed (simp_all add: mset_pc_def)

text \<open>And the mutex does not notice when goroutines that are not on their way into it go to sleep elsewhere.\<close>

lemma mutex_acquire_frame:
  assumes inv: "mutex_inv m" and rep: "sema_rep (mstore m) sm c q" "sema_acquire (mstore m) sm g = (st', sm', parked)"
    and out: "\<And>x. x \<in> insert g (set q) \<Longrightarrow> mphase m x \<noteq> Entering"
  shows "mutex_inv (m\<lparr>mstore := st'\<rparr>)"
proof -
  obtain c' q' where core: "mutex_core m c' q'" using inv unfolding mutex_inv_def by blast
  have "mphase m x = Entering" if "x \<in> set q'" for x
    using that mutex_coreD(3) [OF core] by (simp add: mphase_def)
  then have "set q \<inter> set q' = {}" "g \<notin> set q'" using out by blast+
  then have "sema_rep st' (msema m) c' q'"
    using sema.acquire_frame [OF rep(1) mutex_coreD(2) [OF core], of g] rep(2) by simp
  then have "mutex_core (m\<lparr>mstore := st'\<rparr>) c' q'" using core unfolding mutex_core_def by simp
  then show ?thesis unfolding mutex_inv_def by blast
qed

lemma mphase_store [simp]: "mphase (m\<lparr>mstore := st\<rparr>) = mphase m"
  by (simp add: mphase_def fun_eq_iff)

lemma agree_store [simp]: "agree mphase r (m\<lparr>mstore := st\<rparr>) = agree mphase r m"
  by (simp add: agree_def)

end
