(* ===== verification/RWMutex.thy ===== *)
theory RWMutex
  imports Mutex_Client
begin

text \<open>
  The reader/writer mutex (\<^verbatim>\<open>src/src/sync/rwmutex.rs\<close>): a mutex among the writers, two semaphores and two
  32-bit counters.  Readers count themselves in \<open>reader_count\<close>; a writer that owns the inner mutex subtracts
  \<^verbatim>\<open>RW_MAX_READERS\<close> from it, which makes new readers wait, and counts in \<open>reader_wait\<close> the readers it still
  has to wait for.  Every atomic access and every semaphore operation is one step of one goroutine, at one of the program points
  \<open>rwpc\<close>; inside \<^verbatim>\<open>w.Lock\<close> and \<^verbatim>\<open>w.Unlock\<close> the steps are those of the mutex.  The three queues are
  chained through the one store of goroutines, the store of the inner mutex.  The words are \<^verbatim>\<open>i32\<close>: read with
  \<open>sint\<close>, with the wrap-around of the machine.
\<close>

section \<open>The words and the program points\<close>

type_synonym i32 = "32 word"

definition RW_MAX_READERS :: i32 where "RW_MAX_READERS = push_bit 30 1"

datatype rwpc =
    RwIdle
  | RLockWait
  | RLockParked
  | Reading
  | TryRLoaded i32
  | TryRAgain
  | RUnlockSlow i32
  | RUnlockWake
  | LockW
  | LockAdd i32
  | LockWait
  | LockParkedW
  | Writing
  | TryLockW
  | UnlockRelease int
  | UnlockW
  | RwFatal

definition rw_rlock :: "i32 \<Rightarrow> i32 \<times> rwpc" where
  "rw_rlock rc = (rc + 1, if sint rc < 0 then RLockWait else Reading)"

definition rw_try_rlock_load :: "i32 \<Rightarrow> rwpc" where
  "rw_try_rlock_load rc = (if sint rc < 0 then RwIdle else TryRLoaded rc)"

definition rw_try_rlock_cas :: "i32 \<Rightarrow> i32 \<Rightarrow> i32 \<times> rwpc" where
  "rw_try_rlock_cas c rc =
     (case compare_exchange rc c (c + 1) of (rc', ok) \<Rightarrow> (rc', if ok then Reading else TryRAgain))"

definition rw_runlock :: "i32 \<Rightarrow> i32 \<times> rwpc" where
  "rw_runlock rc = (let r = rc - 1 in (r, if sint r < 0 then RUnlockSlow r else RwIdle))"

definition r_unlock_slow :: "i32 \<Rightarrow> i32 \<Rightarrow> i32 \<times> rwpc" where
  "r_unlock_slow r wait =
     (if r + 1 = 0 \<or> r + 1 = - RW_MAX_READERS then (wait, RwFatal)
      else (wait - 1, if wait = 1 then RUnlockWake else RwIdle))"

definition rw_lock_flip :: "i32 \<Rightarrow> i32 \<times> rwpc" where
  "rw_lock_flip rc = (rc - RW_MAX_READERS, if rc \<noteq> 0 then LockAdd rc else Writing)"

definition rw_lock_add :: "i32 \<Rightarrow> i32 \<Rightarrow> i32 \<times> rwpc" where
  "rw_lock_add r_active wait = (wait + r_active, if wait + r_active \<noteq> 0 then LockWait else Writing)"

definition rw_try_lock_cas :: "i32 \<Rightarrow> i32 \<times> rwpc" where
  "rw_try_lock_cas rc =
     (case compare_exchange rc 0 (- RW_MAX_READERS) of (rc', ok) \<Rightarrow> (rc', if ok then Writing else UnlockW))"

definition rw_unlock :: "i32 \<Rightarrow> i32 \<times> rwpc" where
  "rw_unlock rc =
     (let r = rc + RW_MAX_READERS in
      (r, if sint r \<ge> sint RW_MAX_READERS then RwFatal
          else if sint r > 0 then UnlockRelease (sint r) else UnlockW))"

text \<open>What each program point means for the inner mutex.\<close>

fun rwrole :: "rwpc \<Rightarrow> role" where
  "rwrole LockW = Acquiring"
| "rwrole (LockAdd _) = Holding"
| "rwrole LockWait = Holding"
| "rwrole LockParkedW = Holding"
| "rwrole Writing = Holding"
| "rwrole TryLockW = Holding"
| "rwrole (UnlockRelease _) = Holding"
| "rwrole UnlockW = Releasing"
| "rwrole _ = Apart"

section \<open>The system\<close>

record rw_sys =
  rw_w :: mutex_sys
  writer_sem :: sema
  reader_sem :: sema
  reader_count :: i32
  reader_wait :: i32
  rwpcs :: "rwpc list"

definition rw_new :: "gstore \<Rightarrow> nat \<Rightarrow> rw_sys" where
  "rw_new st n = \<lparr>rw_w = mutex_init st n, writer_sem = sema_new, reader_sem = sema_new,
     reader_count = 0, reader_wait = 0, rwpcs = replicate n RwIdle\<rparr>"

definition rset_count :: "rw_sys \<Rightarrow> gr \<Rightarrow> i32 \<times> rwpc \<Rightarrow> rw_sys" where
  "rset_count s g x = s\<lparr>reader_count := fst x, rwpcs := (rwpcs s)[g := snd x]\<rparr>"

definition rset_wait :: "rw_sys \<Rightarrow> gr \<Rightarrow> i32 \<times> rwpc \<Rightarrow> rw_sys" where
  "rset_wait s g x = s\<lparr>reader_wait := fst x, rwpcs := (rwpcs s)[g := snd x]\<rparr>"

inductive rw_step :: "rw_sys \<Rightarrow> rw_sys \<Rightarrow> bool" where
  rlock: "g < length (rwpcs s) \<Longrightarrow> rwpcs s ! g = RwIdle \<Longrightarrow>
    rw_step s (rset_count s g (rw_rlock (reader_count s)))"
| rlock_acquire: "g < length (rwpcs s) \<Longrightarrow> rwpcs s ! g = RLockWait \<Longrightarrow>
    sema_acquire (mstore (rw_w s)) (reader_sem s) g = (st', sm', parked) \<Longrightarrow>
    rw_step s (s\<lparr>rw_w := (rw_w s)\<lparr>mstore := st'\<rparr>, reader_sem := sm',
                 rwpcs := (rwpcs s)[g := if parked then RLockParked else Reading]\<rparr>)"
| try_rlock: "g < length (rwpcs s) \<Longrightarrow> rwpcs s ! g \<in> {RwIdle, TryRAgain} \<Longrightarrow>
    rw_step s (rset_count s g (reader_count s, rw_try_rlock_load (reader_count s)))"
| try_rlock_cas: "g < length (rwpcs s) \<Longrightarrow> rwpcs s ! g = TryRLoaded c \<Longrightarrow>
    rw_step s (rset_count s g (rw_try_rlock_cas c (reader_count s)))"
| runlock: "g < length (rwpcs s) \<Longrightarrow> rwpcs s ! g = Reading \<Longrightarrow>
    rw_step s (rset_count s g (rw_runlock (reader_count s)))"
| runlock_slow: "g < length (rwpcs s) \<Longrightarrow> rwpcs s ! g = RUnlockSlow r \<Longrightarrow>
    rw_step s (rset_wait s g (r_unlock_slow r (reader_wait s)))"
| runlock_wake: "g < length (rwpcs s) \<Longrightarrow> rwpcs s ! g = RUnlockWake \<Longrightarrow>
    sema_release (mstore (rw_w s)) (writer_sem s) = (sm', Some h) \<Longrightarrow>
    rw_step s (s\<lparr>writer_sem := sm', rwpcs := (rwpcs s)[g := RwIdle, h := Writing]\<rparr>)"
| runlock_store: "g < length (rwpcs s) \<Longrightarrow> rwpcs s ! g = RUnlockWake \<Longrightarrow>
    sema_release (mstore (rw_w s)) (writer_sem s) = (sm', None) \<Longrightarrow>
    rw_step s (s\<lparr>writer_sem := sm', rwpcs := (rwpcs s)[g := RwIdle]\<rparr>)"
| lock: "g < length (rwpcs s) \<Longrightarrow> rwpcs s ! g = RwIdle \<Longrightarrow>
    rw_step s (s\<lparr>rwpcs := (rwpcs s)[g := LockW]\<rparr>)"
| in_mutex: "mutex_step (rw_w s) m \<Longrightarrow> guarded mphase (role_at rwrole (rwpcs s)) (rw_w s) m \<Longrightarrow>
    rw_step s (s\<lparr>rw_w := m\<rparr>)"
| lock_flip: "g < length (rwpcs s) \<Longrightarrow> rwpcs s ! g = LockW \<Longrightarrow> mphase (rw_w s) g = Inside \<Longrightarrow>
    rw_step s (rset_count s g (rw_lock_flip (reader_count s)))"
| lock_add: "g < length (rwpcs s) \<Longrightarrow> rwpcs s ! g = LockAdd r \<Longrightarrow>
    rw_step s (rset_wait s g (rw_lock_add r (reader_wait s)))"
| lock_acquire: "g < length (rwpcs s) \<Longrightarrow> rwpcs s ! g = LockWait \<Longrightarrow>
    sema_acquire (mstore (rw_w s)) (writer_sem s) g = (st', sm', parked) \<Longrightarrow>
    rw_step s (s\<lparr>rw_w := (rw_w s)\<lparr>mstore := st'\<rparr>, writer_sem := sm',
                 rwpcs := (rwpcs s)[g := if parked then LockParkedW else Writing]\<rparr>)"
| try_lock: "g < length (rwpcs s) \<Longrightarrow> rwpcs s ! g = RwIdle \<Longrightarrow> mutex_try_lock (mword (rw_w s)) = (w', p) \<Longrightarrow>
    rw_step s (s\<lparr>rw_w := mset_pc (rw_w s) g (w', p),
                 rwpcs := (rwpcs s)[g := if p = Held then TryLockW else RwIdle]\<rparr>)"
| try_lock_cas: "g < length (rwpcs s) \<Longrightarrow> rwpcs s ! g = TryLockW \<Longrightarrow>
    rw_step s (rset_count s g (rw_try_lock_cas (reader_count s)))"
| unlock: "g < length (rwpcs s) \<Longrightarrow> rwpcs s ! g = Writing \<Longrightarrow>
    rw_step s (rset_count s g (rw_unlock (reader_count s)))"
| unlock_wake: "g < length (rwpcs s) \<Longrightarrow> rwpcs s ! g = UnlockRelease n \<Longrightarrow>
    sema_release_iter (mstore (rw_w s)) (reader_sem s) n = (sm', Some h) \<Longrightarrow>
    rw_step s (s\<lparr>reader_sem := sm',
                 rwpcs := (rwpcs s)[g := if n - 1 = 0 then UnlockW else UnlockRelease (n - 1), h := Reading]\<rparr>)"
| unlock_store: "g < length (rwpcs s) \<Longrightarrow> rwpcs s ! g = UnlockRelease n \<Longrightarrow>
    sema_release_iter (mstore (rw_w s)) (reader_sem s) n = (sm', None) \<Longrightarrow>
    rw_step s (s\<lparr>reader_sem := sm', rwpcs := (rwpcs s)[g := UnlockW]\<rparr>)"
| unlocked: "g < length (rwpcs s) \<Longrightarrow> rwpcs s ! g = UnlockW \<Longrightarrow> mphase (rw_w s) g = Outside \<Longrightarrow>
    rw_step s (s\<lparr>rwpcs := (rwpcs s)[g := RwIdle]\<rparr>)"

end
