(* ===== verification/RWMutex_Inv.thy ===== *)
theory RWMutex_Inv
  imports RWMutex
begin

text \<open>
  The invariant of the reader/writer mutex and that every step keeps it.  The readers counted in
  \<^verbatim>\<open>reader_count\<close> are those that read or wait; the word is lowered by \<^verbatim>\<open>RW_MAX_READERS\<close> while a writer
  has announced itself.  What the announced writer waits for balances what \<^verbatim>\<open>reader_wait\<close> counts.
\<close>

section \<open>The balance of readers and writers\<close>

fun waits :: "rwpc \<Rightarrow> bool" where
  "waits RLockWait = True" | "waits RLockParked = True" | "waits _ = False"

fun unlocking :: "rwpc \<Rightarrow> bool" where
  "unlocking (RUnlockSlow _) = True" | "unlocking _ = False"

fun adding :: "rwpc \<Rightarrow> bool" where
  "adding (LockAdd _) = True" | "adding _ = False"

fun draining :: "rwpc \<Rightarrow> bool" where
  "draining LockWait = True" | "draining LockParkedW = True" | "draining _ = False"

definition flipped :: "rwpc \<Rightarrow> bool" where
  "flipped p \<longleftrightarrow> adding p \<or> draining p \<or> p = Writing"

text \<open>The value of \<^verbatim>\<open>reader_count\<close>, and what one goroutine adds to it.\<close>

definition rshare :: "rwpc \<Rightarrow> int" where
  "rshare p = (if waits p then 1 else 0) + (if Reading = p then 1 else 0) - 2 ^ 30 * (if flipped p then 1 else 0)"

definition rcount :: "rwpc list \<Rightarrow> int" where
  "rcount ps = cnt waits ps + cnt ((=) Reading) ps - 2 ^ 30 * cnt flipped ps"

lemma rcount_update: "g < length ps \<Longrightarrow> rcount (ps[g := p]) = rcount ps - rshare (ps ! g) + rshare p"
  by (simp add: rcount_def rshare_def cnt_update)

fun to_release :: "rwpc \<Rightarrow> int" where
  "to_release (UnlockRelease n) = n" | "to_release _ = 0"

fun r_active :: "rwpc \<Rightarrow> int" where
  "r_active (LockAdd r) = sint r" | "r_active _ = 0"

fun rwpc_fine :: "rwpc \<Rightarrow> bool" where
  "rwpc_fine (UnlockRelease n) \<longleftrightarrow> 0 < n"
| "rwpc_fine (LockAdd r) \<longleftrightarrow> 0 < sint r \<and> sint r < 2 ^ 30"
| "rwpc_fine (RUnlockSlow r) \<longleftrightarrow> r + 1 \<noteq> 0 \<and> r + 1 \<noteq> - RW_MAX_READERS"
| "rwpc_fine (TryRLoaded c) \<longleftrightarrow> 0 \<le> sint c"
| "rwpc_fine RwFatal \<longleftrightarrow> False"
| "rwpc_fine _ \<longleftrightarrow> True"

text \<open>
  \<open>wt\<close> is the value of \<^verbatim>\<open>reader_wait\<close>, \<open>cr\<close> and \<open>cw\<close> are the credits of the two semaphores.  Without an announced
  writer every waiting reader has a wake-up under way.  The announced writer waits for the readers that read, that are
  unlocking, or that a wake-up under way lets in; it is woken exactly when there are none left.
\<close>

definition rw_bal :: "int \<Rightarrow> int \<Rightarrow> int \<Rightarrow> rwpc list \<Rightarrow> bool" where
  "rw_bal wt cr cw ps \<longleftrightarrow>
     cr + isum to_release ps \<le> cnt waits ps \<and>
     (cnt flipped ps = 0 \<longrightarrow> wt = 0 \<and> cnt unlocking ps = 0 \<and> cnt waits ps = cr + isum to_release ps) \<and>
     (cnt flipped ps = 1 \<longrightarrow> wt + isum r_active ps = cnt ((=) Reading) ps + cnt unlocking ps + cr) \<and>
     (cnt adding ps = 1 \<longrightarrow> wt \<le> 0) \<and>
     (cnt ((=) Writing) ps = 1 \<longrightarrow> wt = 0) \<and>
     cnt ((=) RUnlockWake) ps + cw = (if cnt draining ps = 1 \<and> wt = 0 then 1 else 0)"

definition rw_core :: "rw_sys \<Rightarrow> int \<Rightarrow> int \<Rightarrow> gr list \<Rightarrow> int \<Rightarrow> gr list \<Rightarrow> bool" where
  "rw_core s wt cr qr cw qw \<longleftrightarrow>
     length (mpcs (rw_w s)) = length (rwpcs s) \<and> int (length (rwpcs s)) < 2 ^ 30 \<and>
     mutex_inv (rw_w s) \<and> agree mphase (role_at rwrole (rwpcs s)) (rw_w s) \<and>
     sema_rep (mstore (rw_w s)) (reader_sem s) cr qr \<and>
     (\<forall>g. g \<in> set qr \<longleftrightarrow> g < length (rwpcs s) \<and> rwpcs s ! g = RLockParked) \<and>
     sema_rep (mstore (rw_w s)) (writer_sem s) cw qw \<and>
     (\<forall>g. g \<in> set qw \<longleftrightarrow> g < length (rwpcs s) \<and> rwpcs s ! g = LockParkedW) \<and>
     reader_count s = word_of_int (rcount (rwpcs s)) \<and>
     reader_wait s = word_of_int wt \<and>
     (\<forall>p \<in> set (rwpcs s). rwpc_fine p) \<and>
     rw_bal wt cr cw (rwpcs s)"

lemma rw_coreD:
  assumes "rw_core s wt cr qr cw qw"
  shows "length (mpcs (rw_w s)) = length (rwpcs s)" "int (length (rwpcs s)) < 2 ^ 30"
    "mutex_inv (rw_w s)" "agree mphase (role_at rwrole (rwpcs s)) (rw_w s)"
    "sema_rep (mstore (rw_w s)) (reader_sem s) cr qr"
    "\<forall>g. g \<in> set qr \<longleftrightarrow> g < length (rwpcs s) \<and> rwpcs s ! g = RLockParked"
    "sema_rep (mstore (rw_w s)) (writer_sem s) cw qw"
    "\<forall>g. g \<in> set qw \<longleftrightarrow> g < length (rwpcs s) \<and> rwpcs s ! g = LockParkedW"
    "reader_count s = word_of_int (rcount (rwpcs s))"
    "reader_wait s = word_of_int wt"
    "\<forall>p \<in> set (rwpcs s). rwpc_fine p"
    "rw_bal wt cr cw (rwpcs s)"
  using assms unfolding rw_core_def by simp_all

definition rw_inv :: "rw_sys \<Rightarrow> bool" where
  "rw_inv s \<longleftrightarrow> (\<exists>wt cr qr cw qw. rw_core s wt cr qr cw qw)"

lemma rw_balD:
  assumes "rw_bal wt cr cw ps"
  shows "cr + isum to_release ps \<le> cnt waits ps"
    "cnt flipped ps = 0 \<Longrightarrow> wt = 0" "cnt flipped ps = 0 \<Longrightarrow> cnt unlocking ps = 0"
    "cnt flipped ps = 0 \<Longrightarrow> cnt waits ps = cr + isum to_release ps"
    "cnt flipped ps = 1 \<Longrightarrow> wt + isum r_active ps = cnt ((=) Reading) ps + cnt unlocking ps + cr"
    "cnt adding ps = 1 \<Longrightarrow> wt \<le> 0" "cnt ((=) Writing) ps = 1 \<Longrightarrow> wt = 0"
    "cnt ((=) RUnlockWake) ps + cw = (if cnt draining ps = 1 \<and> wt = 0 then 1 else 0)"
  using assms unfolding rw_bal_def by simp_all

section \<open>The counts\<close>

lemma flipped_sum: "cnt flipped ps = cnt adding ps + cnt draining ps + cnt ((=) Writing) ps"
proof (induction ps)
  case (Cons p ps)
  then show ?case by (cases p) (simp_all add: flipped_def)
qed simp

lemma readers_le: "cnt waits ps + cnt ((=) Reading) ps + cnt unlocking ps \<le> int (length ps)"
proof (induction ps)
  case (Cons p ps)
  then show ?case by (cases p) simp_all
qed simp

lemma flipped_holds: "flipped p \<Longrightarrow> rwrole p = Holding"
  by (cases p) (simp_all add: flipped_def)

lemma release_holds: "to_release p \<noteq> 0 \<Longrightarrow> rwrole p = Holding"
  by (cases p) simp_all

lemma active_holds: "r_active p \<noteq> 0 \<Longrightarrow> rwrole p = Holding"
  by (cases p) simp_all

lemma parts_hold: "adding p \<Longrightarrow> rwrole p = Holding" "draining p \<Longrightarrow> rwrole p = Holding" "Writing = p \<Longrightarrow> rwrole p = Holding"
  by (cases p; simp)+

lemma rw_flipped_01:
  assumes "rw_core s wt cr qr cw qw"
  shows "cnt flipped (rwpcs s) = 0 \<or> cnt flipped (rwpcs s) = 1"
proof -
  have "cnt flipped (rwpcs s) \<le> 1" using cnt_holding [OF rw_coreD(3, 4) [OF assms] flipped_holds] .
  then show ?thesis using cnt_nonneg [of flipped "rwpcs s"] by linarith
qed

text \<open>The goroutine inside the inner mutex is the only one at a writer's program point.\<close>

lemma rw_sole:
  assumes "rw_core s wt cr qr cw qw" "g < length (rwpcs s)" "mphase (rw_w s) g = Inside"
  shows "cnt flipped (rwpcs s) = (if flipped (rwpcs s ! g) then 1 else 0)"
    "cnt adding (rwpcs s) = (if adding (rwpcs s ! g) then 1 else 0)"
    "cnt draining (rwpcs s) = (if draining (rwpcs s ! g) then 1 else 0)"
    "cnt ((=) Writing) (rwpcs s) = (if Writing = rwpcs s ! g then 1 else 0)"
    "isum to_release (rwpcs s) = to_release (rwpcs s ! g)"
    "isum r_active (rwpcs s) = r_active (rwpcs s ! g)"
  using cnt_sole [OF rw_coreD(3, 4) [OF assms(1)] assms(3, 2)] isum_sole [OF rw_coreD(3, 4) [OF assms(1)] assms(3, 2)]
    flipped_holds parts_hold release_holds active_holds by blast+

lemma rw_holder_inside:
  "rw_core s wt cr qr cw qw \<Longrightarrow> g < length (rwpcs s) \<Longrightarrow> rwrole (rwpcs s ! g) = Holding \<Longrightarrow> mphase (rw_w s) g = Inside"
  using agree_holding rw_coreD(4) by blast

lemma to_release_nonneg:
  assumes "rw_core s wt cr qr cw qw"
  shows "0 \<le> isum to_release (rwpcs s)"
proof (rule isum_nonneg)
  fix p assume "p \<in> set (rwpcs s)"
  then have "rwpc_fine p" using rw_coreD(11) [OF assms] by blast
  then show "0 \<le> to_release p" by (cases p) simp_all
qed

lemma rw_credits:
  assumes "rw_core s wt cr qr cw qw"
  shows "0 \<le> cr" "0 \<le> cw"
  using sema.rep_credit rw_coreD(5, 7) [OF assms] by blast+

lemma rw_fine: "rw_core s wt cr qr cw qw \<Longrightarrow> g < length (rwpcs s) \<Longrightarrow> rwpc_fine (rwpcs s ! g)"
  using rw_coreD(11) by simp

lemma rw_active_bounds:
  assumes "rw_core s wt cr qr cw qw"
  shows "0 \<le> isum r_active (rwpcs s)" "isum r_active (rwpcs s) < 2 ^ 30"
    "cnt adding (rwpcs s) = 0 \<Longrightarrow> isum r_active (rwpcs s) = 0"
proof -
  have a: "isum r_active (rwpcs s) = 0 \<or> (\<exists>g. g < length (rwpcs s) \<and> adding (rwpcs s ! g) \<and> isum r_active (rwpcs s) = r_active (rwpcs s ! g))"
  proof (cases "\<exists>g. g < length (rwpcs s) \<and> adding (rwpcs s ! g)")
    case True
    then show ?thesis using rw_sole(6) [OF assms] rw_holder_inside [OF assms] parts_hold(1) by blast
  next
    case False
    have "r_active p = 0" if "p \<in> set (rwpcs s)" for p
      using False that by (cases p) (force simp: in_set_conv_nth)+
    then have "isum r_active (rwpcs s) = 0" by (rule isum_zero)
    then show ?thesis by blast
  qed
  have "0 \<le> r_active (rwpcs s ! g) \<and> r_active (rwpcs s ! g) < 2 ^ 30" if "g < length (rwpcs s)" for g
    using rw_fine [OF assms that] by (cases "rwpcs s ! g") simp_all
  with a have "0 \<le> isum r_active (rwpcs s) \<and> isum r_active (rwpcs s) < 2 ^ 30" by (elim disjE exE conjE) simp_all
  then show "0 \<le> isum r_active (rwpcs s)" "isum r_active (rwpcs s) < 2 ^ 30" by blast+
  show "isum r_active (rwpcs s) = 0" if z: "cnt adding (rwpcs s) = 0"
  proof -
    have "\<not> adding (rwpcs s ! g)" if "g < length (rwpcs s)" for g
      using cnt_pos [OF that, of adding] z by linarith
    with a show ?thesis by blast
  qed
qed

lemma rw_wait_bounds:
  assumes "rw_core s wt cr qr cw qw"
  shows "- (2 ^ 30) < wt \<and> wt < 2 ^ 30"
  using rw_flipped_01 [OF assms]
proof
  assume 1: "cnt flipped (rwpcs s) = 0"
  then show ?thesis using rw_balD(2) [OF rw_coreD(12) [OF assms]] by simp
next
  assume 2: "cnt flipped (rwpcs s) = 1"
  note b = rw_balD [OF rw_coreD(12) [OF assms]] and a = rw_active_bounds [OF assms]
  have nn: "0 \<le> cnt ((=) Reading) (rwpcs s)" "0 \<le> cnt unlocking (rwpcs s)" "0 \<le> cnt adding (rwpcs s)"
    "0 \<le> cnt draining (rwpcs s)" "0 \<le> cnt ((=) Writing) (rwpcs s)" by simp_all
  have "cnt adding (rwpcs s) = 1 \<or> cnt adding (rwpcs s) = 0"
    using 2 flipped_sum [of "rwpcs s"] nn by linarith
  then have "wt \<le> 0 \<or> isum r_active (rwpcs s) = 0" using b(6) a(3) by blast
  then show ?thesis
    using b(1) b(5) [OF 2] a(1, 2) nn rw_credits [OF assms] to_release_nonneg [OF assms]
      readers_le [of "rwpcs s"] rw_coreD(2) [OF assms] by linarith
qed

section \<open>The words\<close>

lemma sint_i32: "- (2 ^ 31) \<le> x \<Longrightarrow> x < 2 ^ 31 \<Longrightarrow> sint (word_of_int x :: i32) = x"
  by (simp add: signed_of_int signed_take_bit_int_eq_self_iff)

lemma i32_eq_iff:
  "- (2 ^ 31) \<le> x \<Longrightarrow> x < 2 ^ 31 \<Longrightarrow> - (2 ^ 31) \<le> y \<Longrightarrow> y < 2 ^ 31 \<Longrightarrow>
   (word_of_int x :: i32) = word_of_int y \<longleftrightarrow> x = y"
  by (metis sint_i32)

lemma RW_MAX_READERS_int: "RW_MAX_READERS = word_of_int (2 ^ 30)"
  by (simp add: RW_MAX_READERS_def push_bit_eq_mult)

lemma i32_arith:
  "(word_of_int x :: i32) + 1 = word_of_int (x + 1)" "(word_of_int x :: i32) - 1 = word_of_int (x - 1)"
  "word_of_int x + RW_MAX_READERS = word_of_int (x + 2 ^ 30)" "word_of_int x - RW_MAX_READERS = word_of_int (x - 2 ^ 30)"
  "- RW_MAX_READERS = word_of_int (- (2 ^ 30))"
  by (simp_all add: RW_MAX_READERS_int)

section \<open>Steps on the counters\<close>

text \<open>A step of a goroutine that does not sleep, on the counters and its own program point.\<close>

lemma rw_core_pc:
  assumes core: "rw_core s wt cr qr cw qw" and g: "g < length (rwpcs s)"
    and p: "rwpcs s ! g \<noteq> RLockParked" "rwpcs s ! g \<noteq> LockParkedW" "p' \<noteq> RLockParked" "p' \<noteq> LockParkedW"
    and p': "rwpc_fine p'" "allowed (rwrole p') (mphase (rw_w s) g)"
    and s': "rw_w s' = rw_w s" "reader_sem s' = reader_sem s" "writer_sem s' = writer_sem s"
      "rwpcs s' = (rwpcs s)[g := p']"
    and c: "reader_count s' = word_of_int (rcount (rwpcs s) - rshare (rwpcs s ! g) + rshare p')"
    and w: "reader_wait s' = word_of_int wt'" "rw_bal wt' cr cw ((rwpcs s)[g := p'])"
  shows "rw_inv s'"
proof -
  note i = rw_coreD [OF core]
  have "\<forall>x. x \<in> set qr \<longleftrightarrow> x < length (rwpcs s') \<and> rwpcs s' ! x = RLockParked"
    "\<forall>x. x \<in> set qw \<longleftrightarrow> x < length (rwpcs s') \<and> rwpcs s' ! x = LockParkedW"
    using i(6, 8) g p unfolding s'(4) by (auto simp: nth_list_update)
  moreover have "agree mphase (role_at rwrole (rwpcs s')) (rw_w s)"
    unfolding s'(4) role_at_update [OF g] by (rule mtx.agree_role [OF i(4) p'(2)])
  moreover have "\<forall>x \<in> set (rwpcs s'). rwpc_fine x"
    using i(11) p'(1) set_update_subset_insert [of "rwpcs s" g p'] unfolding s'(4) by blast
  moreover have "length (rwpcs s') = length (rwpcs s)" unfolding s'(4) by simp
  ultimately have "rw_core s' wt' cr qr cw qw"
    using i(1-3, 5, 7) w unfolding rw_core_def s'(1-3) c rcount_update [OF g, symmetric] s'(4) [symmetric] by simp
  then show ?thesis unfolding rw_inv_def by blast
qed

lemma rset_simps [simp]:
  "rw_w (rset_count s g x) = rw_w s" "reader_sem (rset_count s g x) = reader_sem s"
  "writer_sem (rset_count s g x) = writer_sem s" "rwpcs (rset_count s g x) = (rwpcs s)[g := snd x]"
  "reader_count (rset_count s g x) = fst x" "reader_wait (rset_count s g x) = reader_wait s"
  "rw_w (rset_wait s g x) = rw_w s" "reader_sem (rset_wait s g x) = reader_sem s"
  "writer_sem (rset_wait s g x) = writer_sem s" "rwpcs (rset_wait s g x) = (rwpcs s)[g := snd x]"
  "reader_count (rset_wait s g x) = reader_count s" "reader_wait (rset_wait s g x) = fst x"
  by (simp_all add: rset_count_def rset_wait_def)

lemma rw_phase:
  "rw_core s wt cr qr cw qw \<Longrightarrow> g < length (rwpcs s) \<Longrightarrow> allowed (rwrole (rwpcs s ! g)) (mphase (rw_w s) g)"
  using rw_coreD(4) unfolding agree_def role_at_def by metis

lemma rcount_cases:
  assumes "rw_core s wt cr qr cw qw"
  shows "cnt flipped (rwpcs s) = 0 \<and> rcount (rwpcs s) = cnt waits (rwpcs s) + cnt ((=) Reading) (rwpcs s) \<or>
    cnt flipped (rwpcs s) = 1 \<and> rcount (rwpcs s) = cnt waits (rwpcs s) + cnt ((=) Reading) (rwpcs s) - 2 ^ 30"
  using rw_flipped_01 [OF assms] by (elim disjE) (simp_all add: rcount_def)

lemma rw_count_sint:
  assumes "rw_core s wt cr qr cw qw"
  shows "- (2 ^ 30) \<le> rcount (rwpcs s)" "rcount (rwpcs s) < 2 ^ 30" "sint (reader_count s) = rcount (rwpcs s)"
    "rcount (rwpcs s) < 0 \<longleftrightarrow> cnt flipped (rwpcs s) = 1"
proof -
  have b: "0 \<le> cnt waits (rwpcs s)" "0 \<le> cnt ((=) Reading) (rwpcs s)" "0 \<le> cnt unlocking (rwpcs s)" by simp_all
  have lt: "cnt waits (rwpcs s) + cnt ((=) Reading) (rwpcs s) < 2 ^ 30"
    using readers_le [of "rwpcs s"] rw_coreD(2) [OF assms] b by linarith
  have m: "(0 :: int) < 2 ^ 30" by simp
  show bnd: "- (2 ^ 30) \<le> rcount (rwpcs s)" "rcount (rwpcs s) < 2 ^ 30"
    and "rcount (rwpcs s) < 0 \<longleftrightarrow> cnt flipped (rwpcs s) = 1"
    using rcount_cases [OF assms] lt b(1, 2) m by linarith+
  have "- (2 ^ 31) \<le> rcount (rwpcs s)" "rcount (rwpcs s) < 2 ^ 31" using bnd by simp_all
  then show "sint (reader_count s) = rcount (rwpcs s)"
    unfolding rw_coreD(9) [OF assms] by (rule sint_i32)
qed

lemma flipped_simps [simp]:
  "\<not> flipped RwIdle" "\<not> flipped RLockWait" "\<not> flipped RLockParked" "\<not> flipped Reading" "\<not> flipped (TryRLoaded c)"
  "\<not> flipped TryRAgain" "\<not> flipped (RUnlockSlow r)" "\<not> flipped RUnlockWake" "\<not> flipped LockW" "flipped (LockAdd r)"
  "flipped LockWait" "flipped LockParkedW" "flipped Writing" "\<not> flipped TryLockW" "\<not> flipped (UnlockRelease n)"
  "\<not> flipped UnlockW"
  by (simp_all add: flipped_def)

lemma rshare_simps [simp]:
  "rshare RwIdle = 0" "rshare RLockWait = 1" "rshare RLockParked = 1" "rshare Reading = 1" "rshare (TryRLoaded c) = 0"
  "rshare TryRAgain = 0" "rshare (RUnlockSlow r) = 0" "rshare RUnlockWake = 0" "rshare LockW = 0"
  "rshare (LockAdd r) = - (2 ^ 30)" "rshare LockWait = - (2 ^ 30)" "rshare LockParkedW = - (2 ^ 30)"
  "rshare Writing = - (2 ^ 30)" "rshare TryLockW = 0" "rshare (UnlockRelease n) = 0" "rshare UnlockW = 0"
  by (simp_all add: rshare_def)

section \<open>How the steps keep the balance\<close>

fun neutral :: "rwpc \<Rightarrow> bool" where
  "neutral RwIdle = True" | "neutral (TryRLoaded _) = True" | "neutral TryRAgain = True" | "neutral LockW = True"
| "neutral TryLockW = True" | "neutral UnlockW = True" | "neutral _ = False"

lemma neutral_none:
  assumes "neutral p"
  shows "\<not> waits p" "\<not> unlocking p" "\<not> adding p" "\<not> draining p" "\<not> flipped p" "Reading \<noteq> p" "Writing \<noteq> p"
    "RUnlockWake \<noteq> p" "to_release p = 0" "r_active p = 0" "p \<noteq> RLockParked" "p \<noteq> LockParkedW" "rshare p = 0"
  using assms by (cases p; simp)+

lemma rw_bal_neutral:
  assumes "g < length ps" "neutral (ps ! g)" "neutral p'"
  shows "rw_bal wt cr cw (ps[g := p']) = rw_bal wt cr cw ps"
  using assms(1) neutral_none [OF assms(2)] neutral_none [OF assms(3)]
  by (simp_all add: rw_bal_def cnt_update isum_update)

lemmas bal_simps = rw_bal_def cnt_update isum_update

lemma rw_bal_rlock:
  assumes "rw_bal wt cr cw ps" "g < length ps" "neutral (ps ! g)"
  shows "cnt flipped ps = 0 \<Longrightarrow> rw_bal wt cr cw (ps[g := Reading])"
    "cnt flipped ps = 1 \<Longrightarrow> rw_bal wt cr cw (ps[g := RLockWait])"
  using assms(1, 2) neutral_none [OF assms(3)] by (simp_all add: bal_simps)

lemma rw_bal_runlock:
  assumes "rw_bal wt cr cw ps" "g < length ps" "ps ! g = Reading"
  shows "cnt flipped ps = 0 \<Longrightarrow> rw_bal wt cr cw (ps[g := RwIdle])"
    "cnt flipped ps = 1 \<Longrightarrow> rw_bal wt cr cw (ps[g := RUnlockSlow r])"
  using assms by (simp_all add: bal_simps)

lemma rw_bal_slow:
  assumes bal: "rw_bal wt cr cw ps" and g: "g < length ps" "ps ! g = RUnlockSlow r"
    and f: "cnt flipped ps = 0 \<or> cnt flipped ps = 1" and c: "0 \<le> cr"
    and a: "cnt adding ps = 0 \<Longrightarrow> isum r_active ps = 0"
  shows "rw_bal (wt - 1) cr cw (ps[g := if wt = 1 then RUnlockWake else RwIdle])"
proof -
  have nn: "0 \<le> cnt adding ps" "0 \<le> cnt draining ps" "0 \<le> cnt ((=) Writing) ps" "0 \<le> cnt ((=) Reading) ps" by simp_all
  have u: "1 \<le> cnt unlocking ps" using cnt_pos [of g ps unlocking] g by simp
  then have f1: "cnt flipped ps = 1" using f rw_balD(3) [OF bal] by linarith
  have w: "1 \<le> wt" if "cnt adding ps = 0"
    using rw_balD(5) [OF bal f1] a [OF that] u c nn(4) by linarith
  consider "cnt adding ps = 1" "cnt draining ps = 0" "cnt ((=) Writing) ps = 0"
    | "cnt adding ps = 0" "cnt draining ps = 1" "cnt ((=) Writing) ps = 0" "1 \<le> wt"
    | "cnt adding ps = 0" "cnt draining ps = 0" "cnt ((=) Writing) ps = 1" "1 \<le> wt"
    using flipped_sum [of ps] f1 nn w by linarith
  then show ?thesis
  proof cases
    case 1
    then have "wt \<le> 0" using rw_balD(6) [OF bal] by simp
    then show ?thesis using bal g f1 1 by (simp add: bal_simps)
  next
    case 2
    then show ?thesis using bal g f1 by (simp add: bal_simps)
  next
    case 3
    then show ?thesis using rw_balD(7) [OF bal] by simp
  qed
qed

lemma rw_bal_wake:
  assumes bal: "rw_bal wt cr cw ps" and g: "g < length ps" "ps ! g = RUnlockWake" and c: "0 \<le> cw"
  shows "rw_bal wt cr (cw + 1) (ps[g := RwIdle])"
    "h < length ps \<Longrightarrow> ps ! h = LockParkedW \<Longrightarrow> rw_bal wt cr cw (ps[g := RwIdle, h := Writing])"
proof -
  show "rw_bal wt cr (cw + 1) (ps[g := RwIdle])" using bal g by (simp add: bal_simps)
  assume h: "h < length ps" "ps ! h = LockParkedW"
  then have "g \<noteq> h" using g by auto
  have "1 \<le> cnt ((=) RUnlockWake) ps" using cnt_pos [of g ps "(=) RUnlockWake"] g by simp
  then have "cnt draining ps = 1" "wt = 0" using rw_balD(8) [OF bal] c by (auto split: if_splits)
  then show "rw_bal wt cr cw (ps[g := RwIdle, h := Writing])"
    using bal g h \<open>g \<noteq> h\<close> by (simp add: bal_simps)
qed

lemma rw_bal_racquire:
  assumes "rw_bal wt cr cw ps" "g < length ps" "ps ! g = RLockWait"
  shows "rw_bal wt (cr - 1) cw (ps[g := Reading])" "rw_bal wt cr cw (ps[g := RLockParked])"
  using assms by (simp_all add: bal_simps)

text \<open>The steps of the writer; nobody else is at a writer's program point.\<close>

definition alone :: "rwpc list \<Rightarrow> gr \<Rightarrow> bool" where
  "alone ps g \<longleftrightarrow>
     cnt flipped ps = (if flipped (ps ! g) then 1 else 0) \<and> cnt adding ps = (if adding (ps ! g) then 1 else 0) \<and>
     cnt draining ps = (if draining (ps ! g) then 1 else 0) \<and>
     cnt ((=) Writing) ps = (if Writing = ps ! g then 1 else 0) \<and>
     isum to_release ps = to_release (ps ! g) \<and> isum r_active ps = r_active (ps ! g)"

lemma rw_alone:
  "rw_core s wt cr qr cw qw \<Longrightarrow> g < length (rwpcs s) \<Longrightarrow> mphase (rw_w s) g = Inside \<Longrightarrow> alone (rwpcs s) g"
  unfolding alone_def by (intro conjI; rule rw_sole)

lemma rw_bal_flip:
  assumes bal: "rw_bal wt cr cw ps" and g: "g < length ps" "alone ps g" "neutral (ps ! g)" and c: "0 \<le> cr"
  shows "sint r = cnt waits ps + cnt ((=) Reading) ps \<Longrightarrow> rw_bal wt cr cw (ps[g := LockAdd r])"
    "cnt waits ps + cnt ((=) Reading) ps = 0 \<Longrightarrow> rw_bal wt cr cw (ps[g := Writing])"
proof -
  note n = neutral_none [OF g(3)]
  show "rw_bal wt cr cw (ps[g := LockAdd r])" if "sint r = cnt waits ps + cnt ((=) Reading) ps"
    using bal g that n by (simp add: bal_simps alone_def)
  assume z: "cnt waits ps + cnt ((=) Reading) ps = 0"
  have "0 \<le> cnt waits ps" "0 \<le> cnt ((=) Reading) ps" by simp_all
  with z have "cnt waits ps = 0" "cnt ((=) Reading) ps = 0" by linarith+
  then show "rw_bal wt cr cw (ps[g := Writing])"
    using bal g n c by (simp add: bal_simps alone_def)
qed

lemma rw_bal_add:
  assumes "rw_bal wt cr cw ps" "g < length ps" "alone ps g" "ps ! g = LockAdd r"
  shows "rw_bal (wt + sint r) cr cw (ps[g := if wt + sint r \<noteq> 0 then LockWait else Writing])"
  using assms by (simp add: bal_simps alone_def)

lemma rw_bal_wacquire:
  assumes "rw_bal wt cr cw ps" "g < length ps" "alone ps g" "ps ! g = LockWait"
  shows "0 < cw \<Longrightarrow> rw_bal wt cr (cw - 1) (ps[g := Writing])" "rw_bal wt cr cw (ps[g := LockParkedW])"
proof -
  assume c: "0 < cw"
  have "0 \<le> cnt ((=) RUnlockWake) ps" by simp
  with c have "cnt ((=) RUnlockWake) ps + cw \<noteq> 0" by linarith
  then have "wt = 0" using rw_balD(8) [OF assms(1)] by (auto split: if_splits)
  then show "rw_bal wt cr (cw - 1) (ps[g := Writing])" using assms by (simp add: bal_simps alone_def)
next
  show "rw_bal wt cr cw (ps[g := LockParkedW])" using assms by (simp add: bal_simps alone_def)
qed

lemma writing_alone:
  assumes bal: "rw_bal wt cr cw ps" and g: "g < length ps" "alone ps g" "ps ! g = Writing" and c: "0 \<le> cr"
  shows "wt = 0" "cnt ((=) Reading) ps = 0" "cnt unlocking ps = 0" "cr = 0"
proof -
  show w: "wt = 0" using rw_balD(7) [OF bal] g by (simp add: alone_def)
  have "wt + 0 = cnt ((=) Reading) ps + cnt unlocking ps + cr"
    using rw_balD(5) [OF bal] g by (simp add: alone_def)
  moreover have "0 \<le> cnt ((=) Reading) ps" "0 \<le> cnt unlocking ps" by simp_all
  ultimately show "cnt ((=) Reading) ps = 0" "cnt unlocking ps = 0" "cr = 0" using w c by linarith+
qed

lemma rw_bal_unlock:
  assumes "rw_bal wt cr cw ps" "g < length ps" "alone ps g" "ps ! g = Writing" "0 \<le> cr"
  shows "rw_bal wt cr cw (ps[g := UnlockRelease (cnt waits ps)])"
    "cnt waits ps = 0 \<Longrightarrow> rw_bal wt cr cw (ps[g := UnlockW])"
  using assms(1-4) writing_alone [OF assms] by (simp_all add: bal_simps alone_def)

lemma rw_bal_release:
  assumes "rw_bal wt cr cw ps" "g < length ps" "alone ps g" "ps ! g = UnlockRelease n"
  shows "rw_bal wt (cr + n) cw (ps[g := UnlockW])"
    "h < length ps \<Longrightarrow> ps ! h = RLockParked \<Longrightarrow>
     rw_bal wt cr cw (ps[g := if n - 1 = 0 then UnlockW else UnlockRelease (n - 1), h := Reading])"
proof -
  show "rw_bal wt (cr + n) cw (ps[g := UnlockW])" using assms by (simp add: bal_simps alone_def)
  assume h: "h < length ps" "ps ! h = RLockParked"
  then have "g \<noteq> h" using assms(4) by auto
  with assms h show "rw_bal wt cr cw (ps[g := if n - 1 = 0 then UnlockW else UnlockRelease (n - 1), h := Reading])"
    by (simp add: bal_simps alone_def)
qed

end
