(* ===== verification/RWMutex_Props.thy ===== *)
theory RWMutex_Props
  imports RWMutex_Inv
begin

text \<open>
  Every step of the reader/writer mutex keeps its invariant, and what follows: a writer excludes everybody else, no call
  ends in a fatal error, and whoever sleeps is owed a wake-up by somebody who does not.
\<close>

section \<open>The steps of the readers\<close>

lemma rw_neutral_inv:
  assumes core: "rw_core s wt cr qr cw qw" and g: "g < length (rwpcs s)" "neutral (rwpcs s ! g)"
    and p': "neutral p'" "rwpc_fine p'" "allowed (rwrole p') (mphase (rw_w s) g)"
    and s': "rw_w s' = rw_w s" "reader_sem s' = reader_sem s" "writer_sem s' = writer_sem s"
      "rwpcs s' = (rwpcs s)[g := p']" "reader_count s' = reader_count s" "reader_wait s' = reader_wait s"
  shows "rw_inv s'"
  using neutral_none [OF g(2)] neutral_none [OF p'(1)]
  by (intro rw_core_pc [OF core g(1) _ _ _ _ p'(2, 3) s'(1-4), where wt' = wt])
    (simp_all add: s'(5, 6) rw_bal_neutral [OF g p'(1)] rw_coreD(9, 10, 12) [OF core])

lemma rw_rlock_inv:
  assumes core: "rw_core s wt cr qr cw qw" and g: "g < length (rwpcs s)" "neutral (rwpcs s ! g)" "mphase (rw_w s) g = Outside"
  shows "rw_inv (rset_count s g (rw_rlock (reader_count s)))"
proof (cases "sint (reader_count s) < 0")
  case True
  then have "cnt flipped (rwpcs s) = 1" using rw_count_sint(3, 4) [OF core] by simp
  then have "rw_bal wt cr cw ((rwpcs s)[g := RLockWait])" by (rule rw_bal_rlock(2) [OF rw_coreD(12) [OF core] g(1, 2)])
  then show ?thesis
    using True g(3) neutral_none [OF g(2)] rw_coreD(9, 10) [OF core]
    by (intro rw_core_pc [OF core g(1), where p' = RLockWait and wt' = wt]) (simp_all add: rw_rlock_def)
next
  case False
  then have "cnt flipped (rwpcs s) = 0" using rw_count_sint(3, 4) [OF core] rw_flipped_01 [OF core] by auto
  then have "rw_bal wt cr cw ((rwpcs s)[g := Reading])" by (rule rw_bal_rlock(1) [OF rw_coreD(12) [OF core] g(1, 2)])
  then show ?thesis
    using False g(3) neutral_none [OF g(2)] rw_coreD(9, 10) [OF core]
    by (intro rw_core_pc [OF core g(1), where p' = Reading and wt' = wt]) (simp_all add: rw_rlock_def)
qed

lemma rw_outside:
  "rw_core s wt cr qr cw qw \<Longrightarrow> g < length (rwpcs s) \<Longrightarrow> rwrole (rwpcs s ! g) = Apart \<Longrightarrow> mphase (rw_w s) g = Outside"
  using rw_phase by fastforce

lemma rw_try_cas_inv:
  assumes core: "rw_core s wt cr qr cw qw" and g: "g < length (rwpcs s)" "rwpcs s ! g = TryRLoaded c"
  shows "rw_inv (rset_count s g (rw_try_rlock_cas c (reader_count s)))"
proof (cases "reader_count s = c")
  case True
  have "0 \<le> sint c" using rw_fine [OF core g(1)] g(2) by simp
  then have "rw_try_rlock_cas c (reader_count s) = rw_rlock (reader_count s)"
    using True by (simp add: rw_try_rlock_cas_def compare_exchange_def rw_rlock_def)
  then show ?thesis using rw_rlock_inv [OF core g(1)] rw_outside [OF core g(1)] g(2) by simp
next
  case False
  then show ?thesis
    using g rw_outside [OF core g(1)]
    by (intro rw_neutral_inv [OF core g(1), where p' = TryRAgain]) (simp_all add: rw_try_rlock_cas_def compare_exchange_def)
qed

lemma rw_runlock_inv:
  assumes core: "rw_core s wt cr qr cw qw" and g: "g < length (rwpcs s)" "rwpcs s ! g = Reading"
  shows "rw_inv (rset_count s g (rw_runlock (reader_count s)))"
proof -
  note c = rw_count_sint [OF core] and f = rw_flipped_01 [OF core] and o = rw_outside [OF core g(1)]
  have r: "1 \<le> cnt ((=) Reading) (rwpcs s)" using cnt_pos [of g "rwpcs s" "(=) Reading"] g by simp
  have w: "0 \<le> cnt waits (rwpcs s)" and m: "(0 :: int) < 2 ^ 30" by simp_all
  have lo: "- (2 ^ 30) < rcount (rwpcs s)" "cnt flipped (rwpcs s) = 0 \<Longrightarrow> 0 < rcount (rwpcs s)"
    using rcount_cases [OF core] r w m by linarith+
  have eq: "reader_count s - 1 = word_of_int (rcount (rwpcs s) - 1)" using rw_coreD(9) [OF core] by simp
  have v: "sint (reader_count s - 1) = rcount (rwpcs s) - 1"
    unfolding eq using lo(1) c(2) by (intro sint_i32) simp_all
  show ?thesis
  proof (cases "cnt flipped (rwpcs s) = 0")
    case True
    then have "\<not> sint (reader_count s - 1) < 0" using v lo(2) by simp
    then show ?thesis
      using rw_bal_runlock(1) [OF rw_coreD(12) [OF core] g True] g(2) o rw_coreD(9, 10) [OF core]
      by (intro rw_core_pc [OF core g(1), where p' = RwIdle and wt' = wt]) (simp_all add: rw_runlock_def Let_def)
  next
    case False
    then have F: "cnt flipped (rwpcs s) = 1" using f by blast
    then have neg: "sint (reader_count s - 1) < 0" using v c(4) by simp
    have "reader_count s \<noteq> 0" "reader_count s \<noteq> - RW_MAX_READERS"
      using c(1, 4) lo(1) F unfolding rw_coreD(9) [OF core] i32_arith(5) word_0_wi
      by (subst i32_eq_iff; simp)+
    then show ?thesis
      using rw_bal_runlock(2) [OF rw_coreD(12) [OF core] g F] g(2) o rw_coreD(9, 10) [OF core] neg
      by (intro rw_core_pc [OF core g(1), where p' = "RUnlockSlow (reader_count s - 1)" and wt' = wt])
        (simp_all add: rw_runlock_def Let_def)
  qed
qed

lemma rw_slow_inv:
  assumes core: "rw_core s wt cr qr cw qw" and g: "g < length (rwpcs s)" "rwpcs s ! g = RUnlockSlow r"
  shows "rw_inv (rset_wait s g (r_unlock_slow r (reader_wait s)))"
proof -
  let ?p = "if wt = 1 then RUnlockWake else RwIdle"
  have "reader_wait s = 1 \<longleftrightarrow> wt = 1"
    using rw_wait_bounds [OF core] unfolding rw_coreD(10) [OF core] word_1_wi by (intro i32_eq_iff) simp_all
  moreover have "r + 1 \<noteq> 0" "r + 1 \<noteq> - RW_MAX_READERS" using rw_fine [OF core g(1)] g(2) by simp_all
  moreover have "rw_bal (wt - 1) cr cw ((rwpcs s)[g := ?p])"
    by (rule rw_bal_slow [OF rw_coreD(12) [OF core] g rw_flipped_01 [OF core] rw_credits(1) [OF core] rw_active_bounds(3) [OF core]])
  ultimately show ?thesis
    using g(2) rw_outside [OF core g(1)] rw_coreD(9, 10) [OF core]
    by (intro rw_core_pc [OF core g(1), where p' = ?p and wt' = "wt - 1"]) (simp_all add: r_unlock_slow_def)
qed

section \<open>The steps of the writers\<close>

lemma rw_flip_inv:
  assumes core: "rw_core s wt cr qr cw qw" and g: "g < length (rwpcs s)" "neutral (rwpcs s ! g)" "mphase (rw_w s) g = Inside"
  shows "rw_inv (rset_count s g (rw_lock_flip (reader_count s)))"
proof -
  note al = rw_alone [OF core g(1, 3)] and c = rw_count_sint [OF core]
  have F: "cnt flipped (rwpcs s) = 0" using al neutral_none [OF g(2)] by (simp add: alone_def)
  then have r: "rcount (rwpcs s) = cnt waits (rwpcs s) + cnt ((=) Reading) (rwpcs s)" by (simp add: rcount_def)
  note b = rw_bal_flip [OF rw_coreD(12) [OF core] g(1) al g(2) rw_credits(1) [OF core]]
  have z: "reader_count s = 0 \<longleftrightarrow> rcount (rwpcs s) = 0"
    unfolding rw_coreD(9) [OF core] word_0_wi using c(1, 2) by (intro i32_eq_iff) simp_all
  show ?thesis
  proof (cases "reader_count s = 0")
    case True
    with z r b(2) have "rw_bal wt cr cw ((rwpcs s)[g := Writing])" by simp
    then show ?thesis
      using True z g(3) neutral_none [OF g(2)] rw_coreD(10) [OF core]
      by (intro rw_core_pc [OF core g(1), where p' = Writing and wt' = wt]) (simp_all add: rw_lock_flip_def RW_MAX_READERS_int)
  next
    case False
    have "rw_bal wt cr cw ((rwpcs s)[g := LockAdd (reader_count s)])" using b(1) c(3) r by simp
    moreover have "0 < rcount (rwpcs s)" using False z c(4) F by simp
    ultimately show ?thesis
      using False g(3) neutral_none [OF g(2)] rw_coreD(9, 10) [OF core] c(2, 3)
      by (intro rw_core_pc [OF core g(1), where p' = "LockAdd (reader_count s)" and wt' = wt])
        (simp_all add: rw_lock_flip_def RW_MAX_READERS_int)
  qed
qed

lemma rw_add_inv:
  assumes core: "rw_core s wt cr qr cw qw" and g: "g < length (rwpcs s)" "rwpcs s ! g = LockAdd r"
  shows "rw_inv (rset_wait s g (rw_lock_add r (reader_wait s)))"
proof -
  let ?p = "if wt + sint r \<noteq> 0 then LockWait else Writing"
  have ins: "mphase (rw_w s) g = Inside" using rw_holder_inside [OF core g(1)] g(2) by simp
  have b: "0 < sint r" "sint r < 2 ^ 30" using rw_fine [OF core g(1)] g(2) by simp_all
  have e: "reader_wait s + r = word_of_int (wt + sint r)" using rw_coreD(10) [OF core] by simp
  have "reader_wait s + r = 0 \<longleftrightarrow> wt + sint r = 0"
    unfolding e word_0_wi using rw_wait_bounds [OF core] b by (intro i32_eq_iff) simp_all
  moreover have "rw_bal (wt + sint r) cr cw ((rwpcs s)[g := ?p])"
    by (rule rw_bal_add [OF rw_coreD(12) [OF core] g(1) rw_alone [OF core g(1) ins] g(2)])
  ultimately show ?thesis
    using g(2) ins rw_coreD(9) [OF core] e
    by (intro rw_core_pc [OF core g(1), where p' = ?p and wt' = "wt + sint r"]) (simp_all add: rw_lock_add_def)
qed

lemma rw_try_lock_cas_inv:
  assumes core: "rw_core s wt cr qr cw qw" and g: "g < length (rwpcs s)" "rwpcs s ! g = TryLockW"
  shows "rw_inv (rset_count s g (rw_try_lock_cas (reader_count s)))"
proof -
  have ins: "mphase (rw_w s) g = Inside" using rw_holder_inside [OF core g(1)] g(2) by simp
  show ?thesis
  proof (cases "reader_count s = 0")
    case True
    then have "rw_try_lock_cas (reader_count s) = rw_lock_flip (reader_count s)"
      by (simp add: rw_try_lock_cas_def rw_lock_flip_def compare_exchange_def)
    then show ?thesis using rw_flip_inv [OF core g(1) _ ins] g(2) by simp
  next
    case False
    then show ?thesis
      using g ins by (intro rw_neutral_inv [OF core g(1), where p' = UnlockW])
        (simp_all add: rw_try_lock_cas_def compare_exchange_def)
  qed
qed

lemma rw_unlock_inv:
  assumes core: "rw_core s wt cr qr cw qw" and g: "g < length (rwpcs s)" "rwpcs s ! g = Writing"
  shows "rw_inv (rset_count s g (rw_unlock (reader_count s)))"
proof -
  have ins: "mphase (rw_w s) g = Inside" using rw_holder_inside [OF core g(1)] g(2) by simp
  note al = rw_alone [OF core g(1) ins] and c = rw_count_sint [OF core] and cr = rw_credits(1) [OF core]
  note wa = writing_alone [OF rw_coreD(12) [OF core] g(1) al g(2) cr] and b = rw_bal_unlock [OF rw_coreD(12) [OF core] g(1) al g(2) cr]
  let ?w = "cnt waits (rwpcs s)"
  have r: "rcount (rwpcs s) = ?w - 2 ^ 30" using al g(2) wa(2) by (simp add: rcount_def alone_def)
  have w: "0 \<le> ?w" "?w < 2 ^ 30" using c(4) r al g(2) by (simp_all add: alone_def)
  have e: "reader_count s + RW_MAX_READERS = word_of_int ?w"
    using rw_coreD(9) [OF core] r by (simp add: RW_MAX_READERS_int)
  have v: "sint (reader_count s + RW_MAX_READERS) = ?w"
    unfolding e using w(2) by (intro sint_i32 order_trans [OF _ w(1)]) simp_all
  have mx: "sint RW_MAX_READERS = 2 ^ 30"
    unfolding RW_MAX_READERS_int by (rule sint_i32) simp_all
  show ?thesis
  proof (cases "?w = 0")
    case True
    then show ?thesis
      using g(2) ins b(2) rw_coreD(10) [OF core] e v mx w r
      by (intro rw_core_pc [OF core g(1), where p' = UnlockW and wt' = wt]) (simp_all add: rw_unlock_def Let_def)
  next
    case False
    then have "0 < ?w" using w(1) by linarith
    then show ?thesis
      using g(2) ins b(1) rw_coreD(10) [OF core] e v mx w r
      by (intro rw_core_pc [OF core g(1), where p' = "UnlockRelease ?w" and wt' = wt]) (simp_all add: rw_unlock_def Let_def)
  qed
qed

section \<open>The steps on the semaphores\<close>

lemma rw_readers_outside:
  "rw_core s wt cr qr cw qw \<Longrightarrow> x \<in> set qr \<Longrightarrow> mphase (rw_w s) x = Outside"
  "rw_core s wt cr qr cw qw \<Longrightarrow> x \<in> set qw \<Longrightarrow> mphase (rw_w s) x = Inside"
  using rw_coreD(6, 8) rw_outside rw_holder_inside by simp_all

lemma rw_disjoint: "rw_core s wt cr qr cw qw \<Longrightarrow> set qr \<inter> set qw = {}"
  using rw_coreD(6, 8) by fastforce

lemma fine_update: "\<forall>p \<in> set ps. rwpc_fine p \<Longrightarrow> rwpc_fine x \<Longrightarrow> \<forall>p \<in> set (ps[g := x]). rwpc_fine p"
  using set_update_subset_insert [of ps g x] by blast

text \<open>What such a step has to show: the chains, the balance and that \<open>reader_count\<close> keeps its meaning.\<close>

lemma rw_core_sema:
  assumes core: "rw_core s wt cr qr cw qw" and w: "length (mpcs (rw_w s')) = length (mpcs (rw_w s))" "mutex_inv (rw_w s')"
      "agree mphase (role_at rwrole (rwpcs s')) (rw_w s')"
    and ps: "length (rwpcs s') = length (rwpcs s)" "rcount (rwpcs s') = rcount (rwpcs s)" "\<forall>p \<in> set (rwpcs s'). rwpc_fine p"
    and r: "sema_rep (mstore (rw_w s')) (reader_sem s') cr' qr'"
      "\<And>g. g \<in> set qr' \<longleftrightarrow> g < length (rwpcs s) \<and> rwpcs s' ! g = RLockParked"
    and q: "sema_rep (mstore (rw_w s')) (writer_sem s') cw' qw'"
      "\<And>g. g \<in> set qw' \<longleftrightarrow> g < length (rwpcs s) \<and> rwpcs s' ! g = LockParkedW"
    and c: "reader_count s' = reader_count s" "reader_wait s' = reader_wait s" "rw_bal wt cr' cw' (rwpcs s')"
  shows "rw_inv s'"
proof -
  have "rw_core s' wt cr' qr' cw' qw'"
    using rw_coreD(1, 2, 9, 10) [OF core] w ps r q c unfolding rw_core_def by simp
  then show ?thesis unfolding rw_inv_def by blast
qed

lemma rw_racquire_inv:
  assumes core: "rw_core s wt cr qr cw qw" and g: "g < length (rwpcs s)" "rwpcs s ! g = RLockWait"
    and a: "sema_acquire (mstore (rw_w s)) (reader_sem s) g = (st', sm', parked)"
  shows "rw_inv (s\<lparr>rw_w := (rw_w s)\<lparr>mstore := st'\<rparr>, reader_sem := sm',
                 rwpcs := (rwpcs s)[g := if parked then RLockParked else Reading]\<rparr>)" (is "rw_inv ?s'")
proof -
  note i = rw_coreD [OF core]
  have o: "mphase (rw_w s) g = Outside" using rw_outside [OF core g(1)] g(2) by simp
  have gq: "g \<notin> set qr" "g \<notin> set qw" using i(6, 8) g(2) by simp_all
  have inv: "mutex_inv ((rw_w s)\<lparr>mstore := st'\<rparr>)"
    by (rule mutex_acquire_frame [OF i(3) i(5) a]) (use o rw_readers_outside(1) [OF core] in auto)
  have w: "sema_rep st' (writer_sem s) cw qw"
    using sema.acquire_frame [OF i(5, 7) rw_disjoint [OF core] gq(2)] a by simp
  have ag: "agree mphase (role_at rwrole ((rwpcs s)[g := p])) (rw_w s)" if "rwrole p = Apart" for p
    unfolding role_at_update [OF g(1)] using mtx.agree_role [OF i(4)] o that by simp
  from i(5) gq(1) a show ?thesis
  proof (cases rule: sema.acquire_cases)
    case through
    then show ?thesis
      using i(6, 8) g inv ag [of Reading] w fine_update [OF i(11), of Reading g] rw_bal_racquire(1) [OF i(12) g]
      by (intro rw_core_sema [OF core, where cr' = "cr - 1" and qr' = qr and cw' = cw and qw' = qw])
        (auto simp: nth_list_update rcount_update)
  next
    case park
    then show ?thesis
      using i(6, 8) g inv ag [of RLockParked] w fine_update [OF i(11), of RLockParked g] rw_bal_racquire(2) [OF i(12) g]
      by (intro rw_core_sema [OF core, where cr' = 0 and qr' = "qr @ [g]" and cw' = cw and qw' = qw])
        (auto simp: nth_list_update rcount_update)
  qed
qed

lemma rw_wacquire_inv:
  assumes core: "rw_core s wt cr qr cw qw" and g: "g < length (rwpcs s)" "rwpcs s ! g = LockWait"
    and a: "sema_acquire (mstore (rw_w s)) (writer_sem s) g = (st', sm', parked)"
  shows "rw_inv (s\<lparr>rw_w := (rw_w s)\<lparr>mstore := st'\<rparr>, writer_sem := sm',
                 rwpcs := (rwpcs s)[g := if parked then LockParkedW else Writing]\<rparr>)" (is "rw_inv ?s'")
proof -
  note i = rw_coreD [OF core]
  have ins: "mphase (rw_w s) g = Inside" using rw_holder_inside [OF core g(1)] g(2) by simp
  note al = rw_alone [OF core g(1) ins]
  have gq: "g \<notin> set qr" "g \<notin> set qw" using i(6, 8) g(2) by simp_all
  have inv: "mutex_inv ((rw_w s)\<lparr>mstore := st'\<rparr>)"
    by (rule mutex_acquire_frame [OF i(3) i(7) a]) (use ins rw_readers_outside(2) [OF core] in auto)
  have r: "sema_rep st' (reader_sem s) cr qr"
    using sema.acquire_frame [OF i(7, 5) _ gq(1)] rw_disjoint [OF core] a by (simp add: inf_commute)
  have ag: "agree mphase (role_at rwrole ((rwpcs s)[g := p])) (rw_w s)" if "rwrole p = Holding" for p
    unfolding role_at_update [OF g(1)] using mtx.agree_role [OF i(4)] ins that by simp
  from i(7) gq(2) a show ?thesis
  proof (cases rule: sema.acquire_cases)
    case through
    then show ?thesis
      using i(6, 8) g inv ag [of Writing] r fine_update [OF i(11), of Writing g] rw_bal_wacquire(1) [OF i(12) g(1) al g(2)]
      by (intro rw_core_sema [OF core, where cr' = cr and qr' = qr and cw' = "cw - 1" and qw' = qw])
        (auto simp: nth_list_update rcount_update)
  next
    case park
    then show ?thesis
      using i(6, 8) g inv ag [of LockParkedW] r fine_update [OF i(11), of LockParkedW g]
        rw_bal_wacquire(2) [OF i(12) g(1) al g(2)]
      by (intro rw_core_sema [OF core, where cr' = cr and qr' = qr and cw' = 0 and qw' = "qw @ [g]"])
        (auto simp: nth_list_update rcount_update)
  qed
qed

lemma rw_wake_inv:
  assumes core: "rw_core s wt cr qr cw qw" and g: "g < length (rwpcs s)" "rwpcs s ! g = RUnlockWake"
    and rel: "sema_release (mstore (rw_w s)) (writer_sem s) = (sm', Some h)"
  shows "rw_inv (s\<lparr>writer_sem := sm', rwpcs := (rwpcs s)[g := RwIdle, h := Writing]\<rparr>)"
proof -
  note i = rw_coreD [OF core]
  obtain q' where q: "qw = h # q'" "sema_rep (mstore (rw_w s)) sm' cw q'"
    using i(7) rel by (cases rule: sema.release_cases) auto
  have h: "h < length (rwpcs s)" "rwpcs s ! h = LockParkedW" "h \<notin> set q'" "h \<noteq> g"
    using i(8) [rule_format, of h] q(1) sema.rep_distinct [OF i(7)] g(2) by auto
  have ph: "mphase (rw_w s) g = Outside" "mphase (rw_w s) h = Inside"
    using rw_outside [OF core g(1)] rw_holder_inside [OF core h(1)] g(2) h(2) by simp_all
  have ag: "agree mphase (role_at rwrole ((rwpcs s)[g := RwIdle, h := Writing])) (rw_w s)"
    using mtx.agree_role [OF mtx.agree_role [OF i(4), of Apart g], of Holding h] ph g(1) h(1)
    by (simp add: role_at_update)
  have fine: "\<forall>p \<in> set ((rwpcs s)[g := RwIdle, h := Writing]). rwpc_fine p"
    by (rule fine_update [OF fine_update [OF i(11)]]) simp_all
  have "x \<in> set q' \<longleftrightarrow> x < length (rwpcs s) \<and> (rwpcs s)[g := RwIdle, h := Writing] ! x = LockParkedW" for x
    using i(8) [rule_format, of x] q(1) g h by (cases "x = h"; cases "x = g") simp_all
  moreover have "x \<in> set qr \<longleftrightarrow> x < length (rwpcs s) \<and> (rwpcs s)[g := RwIdle, h := Writing] ! x = RLockParked" for x
    using i(6) [rule_format, of x] g h by (cases "x = h"; cases "x = g") simp_all
  ultimately show ?thesis
    using i(3, 5) q(2) g h ag fine rw_bal_wake(2) [OF i(12) g rw_credits(2) [OF core] h(1, 2)]
    by (intro rw_core_sema [OF core, where cr' = cr and qr' = qr and cw' = cw and qw' = q']) (simp_all add: rcount_update)
qed

lemma rw_store_inv:
  assumes core: "rw_core s wt cr qr cw qw" and g: "g < length (rwpcs s)" "rwpcs s ! g = RUnlockWake"
    and rel: "sema_release (mstore (rw_w s)) (writer_sem s) = (sm', None)"
  shows "rw_inv (s\<lparr>writer_sem := sm', rwpcs := (rwpcs s)[g := RwIdle]\<rparr>)"
proof -
  note i = rw_coreD [OF core]
  have q: "qw = []" "sema_rep (mstore (rw_w s)) sm' (cw + 1) []"
    using i(7) rel by (cases rule: sema.release_cases; auto)+
  have "agree mphase (role_at rwrole ((rwpcs s)[g := RwIdle])) (rw_w s)"
    using mtx.agree_role [OF i(4), of Apart g] rw_outside [OF core g(1)] g by (simp add: role_at_update)
  then show ?thesis
    using i(3, 5, 6, 8) q g fine_update [OF i(11), of RwIdle g] rw_bal_wake(1) [OF i(12) g rw_credits(2) [OF core]]
    by (intro rw_core_sema [OF core, where cr' = cr and qr' = qr and cw' = "cw + 1" and qw' = "[]"])
      (auto simp: nth_list_update rcount_update)
qed

lemma rw_release_wake_inv:
  assumes core: "rw_core s wt cr qr cw qw" and g: "g < length (rwpcs s)" "rwpcs s ! g = UnlockRelease n"
    and rel: "sema_release_iter (mstore (rw_w s)) (reader_sem s) n = (sm', Some h)"
  defines "p' \<equiv> if n - 1 = 0 then UnlockW else UnlockRelease (n - 1)"
  shows "rw_inv (s\<lparr>reader_sem := sm', rwpcs := (rwpcs s)[g := p', h := Reading]\<rparr>)"
proof -
  note i = rw_coreD [OF core]
  have n: "0 < n" using rw_fine [OF core g(1)] g(2) by simp
  then obtain q' where q: "qr = h # q'" "sema_rep (mstore (rw_w s)) sm' cr q'"
    using sema_release_iter_cases [OF i(5) rel] by auto
  have h: "h < length (rwpcs s)" "rwpcs s ! h = RLockParked" "h \<notin> set q'" "h \<noteq> g"
    using i(6) [rule_format, of h] q(1) sema.rep_distinct [OF i(5)] g(2) by auto
  have ins: "mphase (rw_w s) g = Inside" "mphase (rw_w s) h = Outside"
    using rw_holder_inside [OF core g(1)] rw_outside [OF core h(1)] g(2) h(2) by simp_all
  have p: "allowed (rwrole p') Inside" "rwpc_fine p'" "p' \<noteq> LockParkedW" "p' \<noteq> RLockParked" "rshare p' = 0"
    using n by (simp_all add: p'_def)
  have "agree mphase (role_at rwrole ((rwpcs s)[g := p', h := Reading])) (rw_w s)"
    using mtx.agree_role [OF mtx.agree_role [OF i(4), of "rwrole p'" g], of Apart h] ins p(1) g(1) h(1)
    by (simp add: role_at_update)
  moreover have "\<forall>p \<in> set ((rwpcs s)[g := p', h := Reading]). rwpc_fine p"
    by (rule fine_update [OF fine_update [OF i(11) p(2)]]) simp
  moreover have "x \<in> set q' \<longleftrightarrow> x < length (rwpcs s) \<and> (rwpcs s)[g := p', h := Reading] ! x = RLockParked" for x
    using i(6) [rule_format, of x] q(1) g h p by (cases "x = h"; cases "x = g") simp_all
  moreover have "x \<in> set qw \<longleftrightarrow> x < length (rwpcs s) \<and> (rwpcs s)[g := p', h := Reading] ! x = LockParkedW" for x
    using i(8) [rule_format, of x] g h p by (cases "x = h"; cases "x = g") simp_all
  moreover have "rw_bal wt cr cw ((rwpcs s)[g := p', h := Reading])"
    unfolding p'_def by (rule rw_bal_release(2) [OF i(12) g(1) rw_alone [OF core g(1) ins(1)] g(2) h(1, 2)])
  ultimately show ?thesis
    using i(3, 7) q(2) g h p(5)
    by (intro rw_core_sema [OF core, where cr' = cr and qr' = q' and cw' = cw and qw' = qw]) (simp_all add: rcount_update)
qed

lemma rw_release_store_inv:
  assumes core: "rw_core s wt cr qr cw qw" and g: "g < length (rwpcs s)" "rwpcs s ! g = UnlockRelease n"
    and rel: "sema_release_iter (mstore (rw_w s)) (reader_sem s) n = (sm', None)"
  shows "rw_inv (s\<lparr>reader_sem := sm', rwpcs := (rwpcs s)[g := UnlockW]\<rparr>)"
proof -
  note i = rw_coreD [OF core]
  have n: "0 < n" using rw_fine [OF core g(1)] g(2) by simp
  then have q: "qr = []" "sema_rep (mstore (rw_w s)) sm' (cr + n) []"
    using sema_release_iter_cases [OF i(5) rel] by auto
  have ins: "mphase (rw_w s) g = Inside" using rw_holder_inside [OF core g(1)] g(2) by simp
  have "agree mphase (role_at rwrole ((rwpcs s)[g := UnlockW])) (rw_w s)"
    using mtx.agree_role [OF i(4), of Releasing g] ins g by (simp add: role_at_update)
  then show ?thesis
    using i(3, 6, 7, 8) q g fine_update [OF i(11), of UnlockW g] rw_bal_release(1) [OF i(12) g(1) rw_alone [OF core g(1) ins] g(2)]
    by (intro rw_core_sema [OF core, where cr' = "cr + n" and qr' = "[]" and cw' = cw and qw' = qw])
      (auto simp: nth_list_update rcount_update)
qed

section \<open>The steps of the inner mutex\<close>

lemma rw_mutex_inv:
  assumes core: "rw_core s wt cr qr cw qw" and m: "mutex_step (rw_w s) m"
    and ag: "agree mphase (role_at rwrole (rwpcs s')) m"
    and s': "rw_w s' = m" "reader_sem s' = reader_sem s" "writer_sem s' = writer_sem s" "reader_count s' = reader_count s"
      "reader_wait s' = reader_wait s" "rwpcs s' = (rwpcs s)[g := p']"
    and p': "g < length (rwpcs s)" "p' = rwpcs s ! g \<or> neutral (rwpcs s ! g) \<and> neutral p' \<and> rwpc_fine p'"
  shows "rw_inv s'"
proof (rule rw_core_sema [OF core, where cr' = cr and qr' = qr and cw' = cw and qw' = qw])
  note i = rw_coreD [OF core]
  show "length (mpcs (rw_w s')) = length (mpcs (rw_w s))" "mutex_inv (rw_w s')"
    using mutex_step_length [OF m] mtx.step_inv [OF i(3) m] s'(1) by simp_all
  show "sema_rep (mstore (rw_w s')) (reader_sem s') cr qr" "sema_rep (mstore (rw_w s')) (writer_sem s') cw qw"
    unfolding s'(1-3)
    by (rule mutex_step_frame [OF m i(3) i(5)], use rw_readers_outside(1) [OF core] in simp)
      (rule mutex_step_frame [OF m i(3) i(7)], use rw_readers_outside(2) [OF core] in simp)
  have np: "neutral p \<Longrightarrow> p \<noteq> RLockParked \<and> p \<noteq> LockParkedW \<and> rshare p = 0" for p
    using neutral_none by blast
  have "(rwpcs s' ! x = RLockParked) = (rwpcs s ! x = RLockParked)" "(rwpcs s' ! x = LockParkedW) = (rwpcs s ! x = LockParkedW)" for x
    using p' np by (cases "x = g"; force simp: s'(6))+
  then show "x \<in> set qr \<longleftrightarrow> x < length (rwpcs s) \<and> rwpcs s' ! x = RLockParked"
    "x \<in> set qw \<longleftrightarrow> x < length (rwpcs s) \<and> rwpcs s' ! x = LockParkedW" for x
    using i(6, 8) by simp_all
  show "rw_bal wt cr cw (rwpcs s')" "rcount (rwpcs s') = rcount (rwpcs s)"
    using p' i(12) np rw_bal_neutral [OF p'(1)] by (auto simp: s'(6) rcount_update)
  show "\<forall>p \<in> set (rwpcs s'). rwpc_fine p"
    using fine_update [OF i(11), of p' g] p' rw_fine [OF core p'(1)] s'(6) by auto
qed (use ag s' in simp_all)

lemma mutex_step_nonempty: "mutex_step m m' \<Longrightarrow> 0 < length (mpcs m)"
  by (cases rule: mutex_step.cases) auto

lemma rw_in_mutex_inv:
  assumes core: "rw_core s wt cr qr cw qw" and m: "mutex_step (rw_w s) m"
    and gd: "guarded mphase (role_at rwrole (rwpcs s)) (rw_w s) m"
  shows "rw_inv (s\<lparr>rw_w := m\<rparr>)"
proof (rule rw_mutex_inv [OF core m, where g = 0 and p' = "rwpcs s ! 0"])
  show "agree mphase (role_at rwrole (rwpcs (s\<lparr>rw_w := m\<rparr>))) m"
    using mtx.agree_step [OF rw_coreD(3) [OF core] m gd rw_coreD(4) [OF core]] by simp
  show "0 < length (rwpcs s)" using mutex_step_nonempty [OF m] rw_coreD(1) [OF core] by simp
qed simp_all

lemma rw_try_lock_inv:
  assumes core: "rw_core s wt cr qr cw qw" and g: "g < length (rwpcs s)" "rwpcs s ! g = RwIdle"
    and t: "mutex_try_lock (mword (rw_w s)) = (w', p)"
  shows "rw_inv (s\<lparr>rw_w := mset_pc (rw_w s) g (w', p),
                 rwpcs := (rwpcs s)[g := if p = Held then TryLockW else RwIdle]\<rparr>)"
proof -
  let ?m = "mset_pc (rw_w s) g (w', p)" and ?p = "if p = Held then TryLockW else RwIdle"
  have gm: "g < length (mpcs (rw_w s))" using g(1) rw_coreD(1) [OF core] by simp
  have "mphase (rw_w s) g = Outside" using rw_outside [OF core g(1)] g(2) by simp
  then have "phase_of (mpcs (rw_w s) ! g) = Outside" using gm by (simp add: mphase_def)
  then have "mpcs (rw_w s) ! g = Idle" by (cases "mpcs (rw_w s) ! g") simp_all
  from mutex_step.try_lock [OF gm this] t have m: "mutex_step (rw_w s) ?m" by simp
  have p: "p = Held \<or> p = Idle" using t by (auto simp: mutex_ops split: if_splits)
  have "allowed (role_at rwrole ((rwpcs s)[g := ?p]) x) (mphase ?m x)" for x
    using rw_coreD(4) [OF core] p g(1)
    by (cases "x = g") (auto simp: agree_def role_at_update mphase_set_pc [OF gm])
  then have "agree mphase (role_at rwrole ((rwpcs s)[g := ?p])) ?m" unfolding agree_def by blast
  then show ?thesis
    by (intro rw_mutex_inv [OF core m, where g = g and p' = ?p]) (use g in simp_all)
qed

lemma rw_invE: "rw_inv s \<Longrightarrow> (\<And>wt cr qr cw qw. rw_core s wt cr qr cw qw \<Longrightarrow> P) \<Longrightarrow> P"
  unfolding rw_inv_def by blast

lemma rw_step_inv: "rw_step s s' \<Longrightarrow> rw_inv s \<Longrightarrow> rw_inv s'"
proof (induction rule: rw_step.induct)
  case (rlock g s)
  then show ?case using rw_rlock_inv rw_outside unfolding rw_inv_def by fastforce
next
  case (try_rlock g s)
  then obtain wt cr qr cw qw where core: "rw_core s wt cr qr cw qw" unfolding rw_inv_def by blast
  show ?case
    by (rule rw_neutral_inv [OF core try_rlock.hyps(1), where p' = "rw_try_rlock_load (reader_count s)"])
      (use try_rlock.hyps rw_outside [OF core try_rlock.hyps(1)] in \<open>auto simp: rw_try_rlock_load_def\<close>)
next
  case (lock g s)
  then obtain wt cr qr cw qw where core: "rw_core s wt cr qr cw qw" unfolding rw_inv_def by blast
  show ?case
    by (rule rw_neutral_inv [OF core lock.hyps(1), where p' = LockW])
      (use lock.hyps rw_outside [OF core lock.hyps(1)] in simp_all)
next
  case (unlocked g s)
  then obtain wt cr qr cw qw where core: "rw_core s wt cr qr cw qw" unfolding rw_inv_def by blast
  show ?case
    by (rule rw_neutral_inv [OF core unlocked.hyps(1), where p' = RwIdle]) (use unlocked.hyps in simp_all)
next
  case (lock_flip g s)
  then show ?case using rw_flip_inv unfolding rw_inv_def by fastforce
qed (erule rw_invE,
  blast intro: rw_racquire_inv rw_try_cas_inv rw_runlock_inv rw_slow_inv rw_wake_inv rw_store_inv rw_in_mutex_inv
    rw_add_inv rw_wacquire_inv rw_try_lock_inv rw_try_lock_cas_inv rw_unlock_inv rw_release_wake_inv rw_release_store_inv)+

lemma rw_reach_inv:
  assumes "rw_step\<^sup>*\<^sup>* (rw_new st n) s" "int n < 2 ^ 30"
  shows "rw_inv s"
  using assms(1)
proof (induction rule: rtranclp_induct)
  case base
  have "rw_bal 0 0 0 (replicate n RwIdle)"
    using isum_zero [of "replicate n RwIdle" to_release] isum_zero [of "replicate n RwIdle" r_active]
    by (simp add: rw_bal_def)
  moreover have "rcount (replicate n RwIdle) = 0" by (simp add: rcount_def)
  moreover have "agree mphase (role_at rwrole (replicate n RwIdle)) (mutex_init st n)"
    by (rule agree_init) simp
  moreover have "mutex_inv (mutex_init st n)" using assms(2) by (intro mutex_init_inv) simp
  ultimately have "rw_core (rw_new st n) 0 0 [] 0 []"
    using assms(2) sema_rep_new by (simp add: rw_core_def rw_new_def mutex_init_def)
  then show ?case unfolding rw_inv_def by blast
qed (simp add: rw_step_inv)

section \<open>Properties\<close>

lemma rw_writer_alone:
  assumes core: "rw_core s wt cr qr cw qw" and g: "g < length (rwpcs s)" "rwpcs s ! g = Writing"
  shows "cnt ((=) Writing) (rwpcs s) = 1" "cnt ((=) Reading) (rwpcs s) = 0"
proof -
  have "mphase (rw_w s) g = Inside" using rw_holder_inside [OF core g(1)] g(2) by simp
  from rw_alone [OF core g(1) this] have al: "alone (rwpcs s) g" .
  from writing_alone [OF rw_coreD(12) [OF core] g(1) al g(2) rw_credits(1) [OF core]] al g(2)
  show "cnt ((=) Writing) (rwpcs s) = 1" "cnt ((=) Reading) (rwpcs s) = 0" by (simp_all add: alone_def)
qed

text \<open>A reader that sleeps is waiting for a writer that holds the inner mutex.\<close>

lemma rw_reader_owed:
  assumes core: "rw_core s wt cr qr cw qw" and g: "g < length (rwpcs s)" "rwpcs s ! g = RLockParked"
  shows "\<exists>p \<in> set (rwpcs s). rwrole p = Holding"
proof -
  have q: "g \<in> set qr" using rw_coreD(6) [OF core] g by simp
  then have "cr = 0" using sema.rep_credit [OF rw_coreD(5) [OF core]] by (metis empty_iff less_le list.set(1))
  moreover have "1 \<le> cnt waits (rwpcs s)" using cnt_pos [of g "rwpcs s" waits] g by simp
  ultimately have "cnt flipped (rwpcs s) \<noteq> 0 \<or> isum to_release (rwpcs s) \<noteq> 0"
    using rw_balD(4) [OF rw_coreD(12) [OF core]] by auto
  then show ?thesis
    using isum_zero [of "rwpcs s" to_release] flipped_holds release_holds unfolding cnt_zero by metis
qed

text \<open>A writer that sleeps is waiting for a reader that has not left, or that is about to wake it.\<close>

lemma rw_writer_owed:
  assumes core: "rw_core s wt cr qr cw qw" and g: "g < length (rwpcs s)" "rwpcs s ! g = LockParkedW"
  shows "\<exists>p \<in> set (rwpcs s). p \<in> {Reading, RLockWait, RUnlockWake} \<or> unlocking p"
proof -
  note b = rw_balD [OF rw_coreD(12) [OF core]]
  have al: "alone (rwpcs s) g" using rw_alone [OF core g(1)] rw_holder_inside [OF core g(1)] g(2) by simp
  have "g \<in> set qw" using rw_coreD(8) [OF core] g by simp
  then have cw: "cw = 0" using sema.rep_credit [OF rw_coreD(7) [OF core]] by (metis empty_iff less_le list.set(1))
  have ex: "\<exists>p \<in> set (rwpcs s). P p" if "cnt P (rwpcs s) \<noteq> 0" for P
    using that unfolding cnt_zero by blast
  consider "wt = 0" | "cnt ((=) Reading) (rwpcs s) \<noteq> 0 \<or> cnt unlocking (rwpcs s) \<noteq> 0" | "0 < cr"
    using b(5) al g(2) rw_credits(1) [OF core] by (fastforce simp: alone_def)
  then show ?thesis
  proof cases
    case 1
    then have "cnt ((=) RUnlockWake) (rwpcs s) \<noteq> 0" using b(8) cw al g(2) by (simp add: alone_def)
    then show ?thesis using ex [of "(=) RUnlockWake"] by blast
  next
    case 2
    then show ?thesis using ex [of "(=) Reading"] ex [of unlocking] by blast
  next
    case 3
    then have "qr = []" using sema.rep_credit [OF rw_coreD(5) [OF core]] by blast
    then have np: "RLockParked \<notin> set (rwpcs s)" using rw_coreD(6) [OF core] by (auto simp: in_set_conv_nth)
    have "cnt waits (rwpcs s) \<noteq> 0" using 3 b(1) to_release_nonneg [OF core] by linarith
    then obtain p where p: "p \<in> set (rwpcs s)" "waits p" using ex [of waits] by blast
    have "waits p \<Longrightarrow> p = RLockWait \<or> p = RLockParked" by (cases p) simp_all
    then show ?thesis using np p by blast
  qed
qed


text \<open>The first of two goroutines writes.\<close>

definition rw_at :: "u32 \<Rightarrow> mpc \<Rightarrow> i32 \<Rightarrow> rwpc \<Rightarrow> rw_sys" where
  "rw_at w mp c p =
     \<lparr>rw_w = \<lparr>mstore = idle_store, mword = w, msema = sema_new, mpcs = [mp, Idle]\<rparr>, writer_sem = sema_new,
      reader_sem = sema_new, reader_count = c, reader_wait = 0, rwpcs = [p, RwIdle]\<rparr>"

lemma rw_at_run: "rw_step\<^sup>*\<^sup>* (rw_new idle_store 2) (rw_at M_LOCKED Held (- RW_MAX_READERS) Writing)"
proof -
  have "rw_new idle_store 2 = rw_at 0 Idle 0 RwIdle"
    by (simp add: rw_new_def rw_at_def mutex_init_def numeral_2_eq_2)
  moreover have "rw_step (rw_at 0 Idle 0 RwIdle) (rw_at 0 Idle 0 LockW)"
    using rw_step.lock [of 0 "rw_at 0 Idle 0 RwIdle"] by (simp add: rw_at_def)
  moreover have "rw_step (rw_at 0 Idle 0 LockW) (rw_at M_LOCKED Held 0 LockW)"
  proof -
    let ?s = "rw_at 0 Idle 0 LockW" and ?m = "mset_pc (rw_w (rw_at 0 Idle 0 LockW)) 0 (M_LOCKED, Held)"
    have "mutex_step (rw_w ?s) ?m"
      using mutex_step.lock [of 0 "rw_w ?s"] by (simp add: rw_at_def mutex_ops)
    moreover have "guarded mphase (role_at rwrole (rwpcs ?s)) (rw_w ?s) ?m"
      by (rule guarded_set_pc) (simp_all add: rw_at_def role_at_def)
    ultimately have "rw_step ?s (?s\<lparr>rw_w := ?m\<rparr>)" by (rule rw_step.in_mutex)
    then show ?thesis by (simp add: rw_at_def mset_pc_def)
  qed
  moreover have "rw_step (rw_at M_LOCKED Held 0 LockW) (rw_at M_LOCKED Held (- RW_MAX_READERS) Writing)"
    using rw_step.lock_flip [of 0 "rw_at M_LOCKED Held 0 LockW"]
    by (simp add: rw_at_def rset_count_def rw_lock_flip_def mphase_def)
  ultimately show ?thesis by (metis converse_rtranclp_into_rtranclp rtranclp.rtrancl_refl)
qed


end
