(* ===== verification/Once.thy ===== *)
theory Once
  imports Mutex_Client
begin

text \<open>
  \<^verbatim>\<open>sync.Once\<close> (\<^verbatim>\<open>src/src/sync/once.rs\<close>) on top of the mutex: a flag that the fast path
  reads without the lock, and a mutex under which the flag is read again, \<^verbatim>\<open>f\<close> is called and the flag is set.
  A goroutine inside \<^verbatim>\<open>Do\<close> is at one of the program points \<open>opc\<close>; while it is in \<^verbatim>\<open>Lock\<close> or
  \<^verbatim>\<open>Unlock\<close> the steps are those of the mutex.  The call of \<^verbatim>\<open>f\<close> takes from \<open>ORun\<close> to
  \<open>ORan\<close>, with any steps of other goroutines in between, and may never end.
\<close>

section \<open>The program points\<close>

datatype opc = OOut | OLock | ORun | ORan | OUnlock | OReturned

definition once_do :: "bool \<Rightarrow> opc" where
  "once_do flag = (if \<not> flag then OLock else OReturned)"

definition once_do_slow :: "bool \<Rightarrow> opc" where
  "once_do_slow flag = (if \<not> flag then ORun else OUnlock)"

fun orole :: "opc \<Rightarrow> role" where
  "orole OLock = Acquiring"
| "orole ORun = Holding"
| "orole ORan = Holding"
| "orole OUnlock = Releasing"
| "orole _ = Apart"

section \<open>The system\<close>

text \<open>\<open>calls\<close> counts the calls of \<^verbatim>\<open>f\<close>.\<close>

record once_sys =
  odone :: bool
  omutex :: mutex_sys
  opcs :: "opc list"
  calls :: nat

definition once_new :: "gstore \<Rightarrow> nat \<Rightarrow> once_sys" where
  "once_new st n = \<lparr>odone = False, omutex = mutex_init st n, opcs = replicate n OOut, calls = 0\<rparr>"

inductive once_step :: "once_sys \<Rightarrow> once_sys \<Rightarrow> bool" where
  do_fast: "g < length (opcs s) \<Longrightarrow> opcs s ! g \<in> {OOut, OReturned} \<Longrightarrow>
    once_step s (s\<lparr>opcs := (opcs s)[g := once_do (odone s)]\<rparr>)"
| in_mutex: "mutex_step (omutex s) m \<Longrightarrow> guarded mphase (role_at orole (opcs s)) (omutex s) m \<Longrightarrow>
    once_step s (s\<lparr>omutex := m\<rparr>)"
| recheck: "g < length (opcs s) \<Longrightarrow> opcs s ! g = OLock \<Longrightarrow> mphase (omutex s) g = Inside \<Longrightarrow>
    once_step s (s\<lparr>opcs := (opcs s)[g := once_do_slow (odone s)],
                   calls := calls s + (if once_do_slow (odone s) = ORun then 1 else 0)\<rparr>)"
| f_returns: "g < length (opcs s) \<Longrightarrow> opcs s ! g = ORun \<Longrightarrow>
    once_step s (s\<lparr>opcs := (opcs s)[g := ORan]\<rparr>)"
| store: "g < length (opcs s) \<Longrightarrow> opcs s ! g = ORan \<Longrightarrow>
    once_step s (s\<lparr>odone := True, opcs := (opcs s)[g := OUnlock]\<rparr>)"
| returns: "g < length (opcs s) \<Longrightarrow> opcs s ! g = OUnlock \<Longrightarrow> mphase (omutex s) g = Outside \<Longrightarrow>
    once_step s (s\<lparr>opcs := (opcs s)[g := OReturned]\<rparr>)"

section \<open>The invariant\<close>

fun calling :: "opc \<Rightarrow> bool" where
  "calling ORun = True" | "calling ORan = True" | "calling _ = False"

fun after :: "opc \<Rightarrow> bool" where
  "after OUnlock = True" | "after OReturned = True" | "after _ = False"

definition once_inv :: "once_sys \<Rightarrow> bool" where
  "once_inv s \<longleftrightarrow>
     mutex_inv (omutex s) \<and> agree mphase (role_at orole (opcs s)) (omutex s) \<and>
     int (calls s) = (if odone s then 1 else cnt calling (opcs s)) \<and>
     (odone s \<longrightarrow> cnt calling (opcs s) = 0) \<and>
     (\<not> odone s \<longrightarrow> cnt after (opcs s) = 0)"

lemma once_invD:
  assumes "once_inv s"
  shows "mutex_inv (omutex s)" "agree mphase (role_at orole (opcs s)) (omutex s)"
    "int (calls s) = (if odone s then 1 else cnt calling (opcs s))"
    "odone s \<Longrightarrow> cnt calling (opcs s) = 0" "\<not> odone s \<Longrightarrow> cnt after (opcs s) = 0"
  using assms unfolding once_inv_def by simp_all

lemma calling_holds: "calling p \<Longrightarrow> orole p = Holding"
  by (cases p) simp_all

lemma once_inside:
  assumes "once_inv s" "g < length (opcs s)" "mphase (omutex s) g = Inside"
  shows "cnt calling (opcs s) = (if calling (opcs s ! g) then 1 else 0)"
  using cnt_sole [OF once_invD(1, 2) [OF assms(1)] assms(3, 2)] calling_holds by blast

lemma once_holding_inside:
  assumes "once_inv s" "g < length (opcs s)" "calling (opcs s ! g)"
  shows "mphase (omutex s) g = Inside"
  using agree_holding [OF once_invD(2) [OF assms(1)] assms(2) calling_holds [OF assms(3)]] .

text \<open>A step of one goroutine outside the mutex: only its program point, the flag and the count change.\<close>

lemma once_inv_pc:
  assumes inv: "once_inv s" and g: "g < length (opcs s)" and r: "allowed (orole p') (mphase (omutex s) g)"
    and s': "omutex s' = omutex s" "opcs s' = (opcs s)[g := p']"
    and bal: "int (calls s') = (if odone s' then 1 else cnt calling ((opcs s)[g := p']))"
      "odone s' \<Longrightarrow> cnt calling ((opcs s)[g := p']) = 0" "\<not> odone s' \<Longrightarrow> cnt after ((opcs s)[g := p']) = 0"
  shows "once_inv s'"
  using once_invD(1, 2) [OF inv] mtx.agree_role [OF _ r] bal g
  unfolding once_inv_def s' by (simp add: role_at_update)

lemma once_phase:
  assumes "once_inv s" "g < length (opcs s)"
  shows "allowed (orole (opcs s ! g)) (mphase (omutex s) g)"
  using once_invD(2) [OF assms(1)] assms(2) unfolding agree_def role_at_def by metis

lemma once_step_inv: "once_step s s' \<Longrightarrow> once_inv s \<Longrightarrow> once_inv s'"
proof (induction rule: once_step.induct)
  case (do_fast g s)
  have "1 \<le> cnt after (opcs s)" if "opcs s ! g = OReturned"
    using cnt_pos [of g "opcs s" after] that do_fast.hyps(1) by simp
  with do_fast show ?case
    using once_invD(3-5) [OF do_fast.prems] once_phase [OF do_fast.prems, of g]
    by - (rule once_inv_pc [where s = s and g = g and p' = "once_do (odone s)"]; auto simp: once_do_def cnt_update)
next
  case (in_mutex s m)
  have "mutex_inv m" "agree mphase (role_at orole (opcs s)) m"
    using once_invD(1, 2) [OF in_mutex.prems] in_mutex.hyps mtx.step_inv mtx.agree_step by blast+
  with once_invD(3-5) [OF in_mutex.prems] show ?case unfolding once_inv_def by simp
next
  case (recheck g s)
  have "cnt calling (opcs s) = 0" using once_inside [OF recheck.prems] recheck.hyps by simp
  then show ?case
    using once_invD(3-5) [OF recheck.prems] recheck
    by - (rule once_inv_pc [where s = s and g = g and p' = "once_do_slow (odone s)"]; auto simp: once_do_slow_def cnt_update)
next
  case (f_returns g s)
  then show ?case
    using once_invD(3-5) [OF f_returns.prems] once_holding_inside [OF f_returns.prems, of g]
    by - (rule once_inv_pc [where s = s and g = g and p' = "ORan"]; auto simp: cnt_update)
next
  case (store g s)
  have i: "mphase (omutex s) g = Inside" using once_holding_inside [OF store.prems] store.hyps by simp
  then have c: "cnt calling (opcs s) = 1" using once_inside [OF store.prems store.hyps(1)] store.hyps by simp
  then have "\<not> odone s" using once_invD(4) [OF store.prems] by auto
  then show ?case
    using once_invD(3) [OF store.prems] store i c
    by - (rule once_inv_pc [where s = s and g = g and p' = "OUnlock"]; auto simp: cnt_update)
next
  case (returns g s)
  then have "1 \<le> cnt after (opcs s)" using cnt_pos [of g "opcs s" after] by simp
  then have "odone s" using once_invD(5) [OF returns.prems] by fastforce
  then show ?case
    using once_invD(3-5) [OF returns.prems] returns
    by - (rule once_inv_pc [where s = s and g = g and p' = "OReturned"]; auto simp: cnt_update)
qed

lemma once_reach_inv:
  "once_step\<^sup>*\<^sup>* (once_new st n) s \<Longrightarrow> int n < 2 ^ 31 - 1 \<Longrightarrow> once_inv s"
proof (induction rule: rtranclp_induct)
  case base
  then show ?case
    using mutex_init_inv [of n st] agree_init [of orole OOut n st] by (simp add: once_inv_def once_new_def)
qed (simp add: once_step_inv)

section \<open>Properties\<close>

text \<open>
  C13: \<^verbatim>\<open>Once\<close> runs its function exactly once.  In every state that any number of goroutines reach by
  calling \<^verbatim>\<open>Do\<close> in any interleaving, \<^verbatim>\<open>f\<close> has been called at most once; and as soon as one
  call of \<^verbatim>\<open>Do\<close> has returned, \<^verbatim>\<open>f\<close> has been called exactly once and that call is over.
\<close>

theorem once_exactly_once:
  assumes "once_step\<^sup>*\<^sup>* (once_new st n) s" "int n < 2 ^ 31 - 1"
  shows "calls s \<le> 1 \<and> (OReturned \<in> set (opcs s) \<longrightarrow> calls s = 1 \<and> ORun \<notin> set (opcs s) \<and> ORan \<notin> set (opcs s))"
proof
  note i = once_invD [OF once_reach_inv [OF assms]]
  have "cnt calling (opcs s) \<le> 1" using cnt_holding [OF i(1, 2) calling_holds] .
  then show "calls s \<le> 1" using i(3) by (auto split: if_splits)
  show "OReturned \<in> set (opcs s) \<longrightarrow> calls s = 1 \<and> ORun \<notin> set (opcs s) \<and> ORan \<notin> set (opcs s)"
  proof
    assume "OReturned \<in> set (opcs s)"
    then have "cnt after (opcs s) \<noteq> 0" unfolding cnt_zero by force
    then have "odone s" using i(5) by blast
    with i(3, 4) show "calls s = 1 \<and> ORun \<notin> set (opcs s) \<and> ORan \<notin> set (opcs s)"
      unfolding cnt_zero by force
  qed
qed

text \<open>The first of two goroutines has called \<^verbatim>\<open>Do\<close> and returned.\<close>

definition once_at :: "bool \<Rightarrow> u32 \<Rightarrow> mpc \<Rightarrow> opc \<Rightarrow> nat \<Rightarrow> once_sys" where
  "once_at d w mp p k =
     \<lparr>odone = d, omutex = \<lparr>mstore = idle_store, mword = w, msema = sema_new, mpcs = [mp, Idle]\<rparr>, opcs = [p, OOut], calls = k\<rparr>"

lemma once_at_mutex:
  assumes "mutex_step (omutex (once_at d w mp p k)) (mset_pc (omutex (once_at d w mp p k)) 0 (w', mp'))"
    "phase_of mp = Outside \<and> orole p = Acquiring \<or> phase_of mp = Inside \<and> orole p = Releasing"
  shows "once_step (once_at d w mp p k) (once_at d w' mp' p k)"
proof -
  have "guarded mphase (role_at orole (opcs (once_at d w mp p k))) (omutex (once_at d w mp p k))
      (mset_pc (omutex (once_at d w mp p k)) 0 (w', mp'))"
    using assms(2) by (intro guarded_set_pc) (auto simp: once_at_def role_at_def)
  from once_step.in_mutex [OF assms(1) this] show ?thesis by (simp add: once_at_def mset_pc_def)
qed

lemma once_at_run: "once_step\<^sup>*\<^sup>* (once_new idle_store 2) (once_at True 0 Idle OReturned 1)"
proof -
  have "once_new idle_store 2 = once_at False 0 Idle OOut 0"
    by (simp add: once_new_def once_at_def mutex_init_def numeral_2_eq_2)
  moreover have "once_step (once_at False 0 Idle OOut 0) (once_at False 0 Idle OLock 0)"
    using once_step.do_fast [of 0 "once_at False 0 Idle OOut 0"] by (simp add: once_at_def once_do_def)
  moreover have "once_step (once_at False 0 Idle OLock 0) (once_at False M_LOCKED Held OLock 0)"
    using mutex_step.lock [of 0 "omutex (once_at False 0 Idle OLock 0)"]
    by (intro once_at_mutex) (simp_all add: once_at_def mutex_ops)
  moreover have "once_step (once_at False M_LOCKED Held OLock 0) (once_at False M_LOCKED Held ORun 1)"
    using once_step.recheck [of 0 "once_at False M_LOCKED Held OLock 0"]
    by (simp add: once_at_def once_do_slow_def mphase_def)
  moreover have "once_step (once_at False M_LOCKED Held ORun 1) (once_at False M_LOCKED Held ORan 1)"
    using once_step.f_returns [of 0 "once_at False M_LOCKED Held ORun 1"] by (simp add: once_at_def)
  moreover have "once_step (once_at False M_LOCKED Held ORan 1) (once_at True M_LOCKED Held OUnlock 1)"
    using once_step.store [of 0 "once_at False M_LOCKED Held ORan 1"] by (simp add: once_at_def)
  moreover have "once_step (once_at True M_LOCKED Held OUnlock 1) (once_at True 0 Idle OUnlock 1)"
    using mutex_step.unlock [of 0 "omutex (once_at True M_LOCKED Held OUnlock 1)"]
    by (intro once_at_mutex) (simp_all add: once_at_def mutex_ops)
  moreover have "once_step (once_at True 0 Idle OUnlock 1) (once_at True 0 Idle OReturned 1)"
    using once_step.returns [of 0 "once_at True 0 Idle OUnlock 1"] by (simp add: once_at_def mphase_def)
  ultimately show ?thesis by (metis converse_rtranclp_into_rtranclp rtranclp.rtrancl_refl)
qed

theorem once_exactly_once_witness:
  "once_step\<^sup>*\<^sup>* (once_new idle_store 2) (once_at True 0 Idle OReturned 1) \<and>
   OReturned \<in> set (opcs (once_at True 0 Idle OReturned 1)) \<and> calls (once_at True 0 Idle OReturned 1) = 1 \<and>
   ORun \<notin> set (opcs (once_at True 0 Idle OReturned 1))"
  using once_exactly_once [OF once_at_run] once_at_run by (simp add: once_at_def)

end
