(* ===== verification/WaitGroup.thy ===== *)
theory WaitGroup
  imports Sema
begin

text \<open>
  The wait group (\<^verbatim>\<open>src/src/sync/waitgroup.rs\<close>): a 64-bit word, the task counter in the high
  half and the number of waiters in the low half, and a semaphore.  A goroutine inside
  \<^verbatim>\<open>Add\<close>, \<^verbatim>\<open>Done\<close> or \<^verbatim>\<open>Wait\<close> is at one of the program points \<open>wpc\<close>; every
  atomic access to the word and every iteration of the semaphore's \<^verbatim>\<open>release_n\<close> is one step,
  and the steps of all goroutines interleave freely.  \<^verbatim>\<open>Go\<close> is \<^verbatim>\<open>Add(1)\<close>, the task on a
  new goroutine, and \<^verbatim>\<open>Done\<close> at its end; \<^verbatim>\<open>Drop\<close> is \<^verbatim>\<open>Wait\<close>.

  \<open>zeroed\<close> is not in the code: it is the set of goroutines in \<^verbatim>\<open>Wait\<close> that registered before
  the counter was last seen at zero.
\<close>

section \<open>The word and the operations\<close>

definition WG_WAITER_MASK :: u64 where "WG_WAITER_MASK = push_bit 32 1 - 1"

datatype wpc =
    WIdle
  | AddCas u64 int
  | AddRelease int
  | WgFatal
  | WaitLoad
  | WaitCas u64
  | WaitAcquire
  | WaitParked

text \<open>\<^verbatim>\<open>(x >> 32) as i64\<close>, and \<^verbatim>\<open>(x & MASK) as u32 as i64\<close>.\<close>

definition wg_counter :: "u64 \<Rightarrow> int" where
  "wg_counter x = sint (drop_bit 32 x)"

definition wg_waiters :: "u64 \<Rightarrow> int" where
  "wg_waiters x = uint (ucast (x AND WG_WAITER_MASK) :: u32)"

definition wg_add :: "u64 \<Rightarrow> u64 \<Rightarrow> u64 \<times> wpc" where
  "wg_add delta state =
     (let raw_delta = push_bit 32 delta; new_state = state + raw_delta;
          counter = wg_counter new_state; wn = wg_waiters new_state
      in (new_state,
          if counter < 0 then WgFatal
          else if counter > 0 \<or> wn = 0 then WIdle
          else AddCas new_state wn))"

definition wg_add_cas :: "u64 \<Rightarrow> int \<Rightarrow> u64 \<Rightarrow> u64 \<times> wpc" where
  "wg_add_cas new_state wn state =
     (if state = new_state then (0, if wn \<le> 0 then WIdle else AddRelease wn) else (state, WIdle))"

definition wg_done :: "u64 \<Rightarrow> u64 \<times> wpc" where
  "wg_done state = wg_add (- 1) state"

definition wg_try_wait :: "u64 \<Rightarrow> bool" where
  "wg_try_wait state \<longleftrightarrow> wg_counter state = 0"

definition wg_wait_load :: "u64 \<Rightarrow> wpc" where
  "wg_wait_load state = (if wg_counter state = 0 then WIdle else WaitCas state)"

definition wg_wait_cas :: "u64 \<Rightarrow> u64 \<Rightarrow> u64 \<times> wpc" where
  "wg_wait_cas old state = (if state = old then (old + 1, WaitAcquire) else (state, WaitLoad))"

section \<open>The system\<close>

record wg_sys =
  wstore :: gstore
  wstate :: u64
  wsema :: sema
  wpcs :: "wpc list"
  zeroed :: "gr set"

definition wg_new :: "gstore \<Rightarrow> nat \<Rightarrow> wg_sys" where
  "wg_new st n = \<lparr>wstore = st, wstate = 0, wsema = sema_new, wpcs = replicate n WIdle, zeroed = {}\<rparr>"

definition wset_pc :: "wg_sys \<Rightarrow> gr \<Rightarrow> u64 \<times> wpc \<Rightarrow> wg_sys" where
  "wset_pc s g x = s\<lparr>wstate := fst x, wpcs := (wpcs s)[g := snd x]\<rparr>"

definition waiting :: "wpc \<Rightarrow> bool" where
  "waiting p \<longleftrightarrow> p = WaitAcquire \<or> p = WaitParked"

fun rel_left :: "wpc \<Rightarrow> int" where
  "rel_left (AddRelease n) = n"
| "rel_left _ = 0"

text \<open>The wake-ups that are under way.\<close>

definition pending :: "wg_sys \<Rightarrow> int" where
  "pending s = isum rel_left (wpcs s) + credit (wsema s)"

text \<open>
  With \<open>strict\<close> the system keeps the rule that a wait group is used for a new round of waiting
  only after all previous \<^verbatim>\<open>Wait\<close> calls have returned.
\<close>

inductive wg_step :: "bool \<Rightarrow> wg_sys \<Rightarrow> wg_sys \<Rightarrow> bool" for strict where
  add: "g < length (wpcs s) \<Longrightarrow> wpcs s ! g = WIdle \<Longrightarrow> wg_step strict s (wset_pc s g (wg_add delta (wstate s)))"
| add_cas: "g < length (wpcs s) \<Longrightarrow> wpcs s ! g = AddCas ns w \<Longrightarrow>
    wg_step strict s ((wset_pc s g (wg_add_cas ns w (wstate s)))
      \<lparr>zeroed := if wstate s = ns then {h. h < length (wpcs s) \<and> waiting (wpcs s ! h)} else zeroed s\<rparr>)"
| release_wake: "g < length (wpcs s) \<Longrightarrow> wpcs s ! g = AddRelease n \<Longrightarrow>
    sema_release_iter (wstore s) (wsema s) n = (sm', Some h) \<Longrightarrow>
    wg_step strict s (s\<lparr>wsema := sm', wpcs := (wpcs s)[g := if n - 1 = 0 then WIdle else AddRelease (n - 1), h := WIdle]\<rparr>)"
| release_store: "g < length (wpcs s) \<Longrightarrow> wpcs s ! g = AddRelease n \<Longrightarrow>
    sema_release_iter (wstore s) (wsema s) n = (sm', None) \<Longrightarrow>
    wg_step strict s (s\<lparr>wsema := sm', wpcs := (wpcs s)[g := WIdle]\<rparr>)"
| wait: "g < length (wpcs s) \<Longrightarrow> wpcs s ! g = WIdle \<or> wpcs s ! g = WaitLoad \<Longrightarrow>
    wg_step strict s (wset_pc s g (wstate s, wg_wait_load (wstate s)))"
| wait_cas: "g < length (wpcs s) \<Longrightarrow> wpcs s ! g = WaitCas old \<Longrightarrow>
    (strict \<Longrightarrow> wstate s = old \<Longrightarrow> pending s = 0) \<Longrightarrow>
    wg_step strict s ((wset_pc s g (wg_wait_cas old (wstate s)))\<lparr>zeroed := zeroed s - {g}\<rparr>)"
| wait_acquire: "g < length (wpcs s) \<Longrightarrow> wpcs s ! g = WaitAcquire \<Longrightarrow>
    sema_acquire (wstore s) (wsema s) g = (st', sm', parked) \<Longrightarrow>
    wg_step strict s (s\<lparr>wstore := st', wsema := sm', wpcs := (wpcs s)[g := if parked then WaitParked else WIdle]\<rparr>)"

inductive wg_reachable :: "bool \<Rightarrow> nat \<Rightarrow> wg_sys \<Rightarrow> bool" for strict n where
  new: "wg_reachable strict n (wg_new st n)"
| step: "wg_reachable strict n s \<Longrightarrow> wg_step strict s s' \<Longrightarrow> wg_reachable strict n s'"

section \<open>The two halves of the word\<close>

lemma uint_div_mod: "uint (x :: u64) = 2 ^ 32 * (uint x div 2 ^ 32) + uint x mod 2 ^ 32"
  by simp

lemma wg_counter_eq: "wg_counter x = uint x div 2 ^ 32"
proof -
  have u: "uint (drop_bit 32 x) = uint x div 2 ^ 32"
    by (simp only: uint_nat unat_drop_bit zdiv_int of_nat_power of_nat_numeral)
  moreover have "uint x div 2 ^ 32 < 2 ^ 32" "0 \<le> uint x div 2 ^ 32"
    using uint_lt2p [of x] by (simp_all add: pos_imp_zdiv_nonneg_iff)
  ultimately show ?thesis
    by (simp add: wg_counter_def sint_uint signed_take_bit_int_eq_self_iff)
qed

lemma wg_waiters_eq: "wg_waiters x = uint x mod 2 ^ 32"
proof -
  have m: "WG_WAITER_MASK = mask 32"
    by (simp add: WG_WAITER_MASK_def mask_eq_exp_minus_1 push_bit_eq_mult)
  have "unat (ucast (x AND mask 32) :: u32) = unat (x AND mask 32) mod 2 ^ 32"
    by (simp only: unsigned_ucast_eq take_bit_eq_mod) simp
  also have "\<dots> = unat x mod 2 ^ 32"
    by (simp only: unat_and_mask mod_mod_trivial)
  finally show ?thesis
    unfolding wg_waiters_def m by (simp only: uint_nat zmod_int of_nat_power of_nat_numeral)
qed

lemma wg_counter_nonneg [simp]: "0 \<le> wg_counter x"
  by (simp add: wg_counter_eq pos_imp_zdiv_nonneg_iff)

lemma wg_waiters_bounds [simp]: "0 \<le> wg_waiters x" "wg_waiters x < 2 ^ 32"
  by (simp_all add: wg_waiters_eq)

lemma wg_halves_0 [simp]: "wg_counter 0 = 0" "wg_waiters 0 = 0"
  by (simp_all add: wg_counter_eq wg_waiters_eq)

lemma wg_waiters_add: "wg_waiters (x + push_bit 32 d) = wg_waiters x"
proof -
  have "uint (push_bit 32 d) = 2 ^ 32 * uint d mod 2 ^ 64"
    by (simp add: push_bit_eq_mult uint_word_ariths mult.commute)
  then have "uint (x + push_bit 32 d) mod 2 ^ 32 = (uint x + 2 ^ 32 * uint d) mod 2 ^ 64 mod 2 ^ 32"
    by (simp add: uint_word_ariths mod_simps)
  also have "\<dots> = (uint x + 2 ^ 32 * uint d) mod 2 ^ 32"
    by (rule mod_mod_cancel) (simp add: le_imp_power_dvd)
  also have "\<dots> = uint x mod 2 ^ 32"
    by simp
  finally show ?thesis
    by (simp add: wg_waiters_eq)
qed

lemma wg_halves_inc:
  assumes "wg_waiters x < 2 ^ 32 - 1"
  shows "wg_counter (x + 1) = wg_counter x" "wg_waiters (x + 1) = wg_waiters x + 1"
proof -
  define q m where "q = uint x div 2 ^ 32" and "m = uint x mod 2 ^ 32"
  have x: "uint x = m + 2 ^ 32 * q"
    by (simp only: q_def m_def mod_mult_div_eq)
  have m: "0 \<le> m + 1" "m + 1 < 2 ^ 32"
    using assms by (simp_all add: m_def wg_waiters_eq)
  have "q < 2 ^ 32"
    using uint_lt2p [of x] by (simp add: q_def)
  then have "uint x + 1 < 2 ^ 64"
    using m unfolding x by simp
  then have "uint (x + 1) = uint x + 1"
    using uint_add_lem [of x 1] by simp
  then have u: "uint (x + 1) = (m + 1) + 2 ^ 32 * q"
    using x by simp
  show "wg_counter (x + 1) = wg_counter x"
    unfolding wg_counter_eq u q_def [symmetric] using m by (simp only: div_mult_self2) simp
  show "wg_waiters (x + 1) = wg_waiters x + 1"
    unfolding wg_waiters_eq u m_def [symmetric] using m by (simp only: mod_mult_self2) simp
qed

section \<open>The invariant\<close>

fun wpc_fine :: "wpc \<Rightarrow> bool" where
  "wpc_fine (AddCas ns w) \<longleftrightarrow> wg_counter ns = 0 \<and> w = wg_waiters ns \<and> 0 < w"
| "wpc_fine (AddRelease n) \<longleftrightarrow> 0 < n"
| "wpc_fine (WaitCas old) \<longleftrightarrow> wg_counter old \<noteq> 0"
| "wpc_fine WgFatal \<longleftrightarrow> False"
| "wpc_fine _ \<longleftrightarrow> True"

text \<open>
  Every goroutine that registered in the word and still waits is counted once: in the word, in a
  release under way, or as a credit.  A word with the counter at zero and waiters belongs to an
  \<^verbatim>\<open>Add\<close> that is about to take them.
\<close>

definition wg_core :: "wg_sys \<Rightarrow> int \<Rightarrow> gr list \<Rightarrow> bool" where
  "wg_core s c q \<longleftrightarrow>
     int (length (wpcs s)) < 2 ^ 32 - 1 \<and>
     sema_rep (wstore s) (wsema s) c q \<and>
     (\<forall>g. g \<in> set q \<longleftrightarrow> g < length (wpcs s) \<and> wpcs s ! g = WaitParked) \<and>
     wg_waiters (wstate s) + isum rel_left (wpcs s) + c = cnt waiting (wpcs s) \<and>
     (\<forall>p \<in> set (wpcs s). wpc_fine p) \<and>
     (wg_counter (wstate s) = 0 \<and> 0 < wg_waiters (wstate s) \<longrightarrow> (\<exists>w. AddCas (wstate s) w \<in> set (wpcs s)))"

lemma wg_coreD:
  assumes "wg_core s c q"
  shows "int (length (wpcs s)) < 2 ^ 32 - 1" "sema_rep (wstore s) (wsema s) c q"
    "\<forall>g. g \<in> set q \<longleftrightarrow> g < length (wpcs s) \<and> wpcs s ! g = WaitParked"
    "wg_waiters (wstate s) + isum rel_left (wpcs s) + c = cnt waiting (wpcs s)"
    "\<forall>p \<in> set (wpcs s). wpc_fine p"
    "wg_counter (wstate s) = 0 \<and> 0 < wg_waiters (wstate s) \<longrightarrow> (\<exists>w. AddCas (wstate s) w \<in> set (wpcs s))"
  using assms unfolding wg_core_def by simp_all

definition unit_if :: "bool \<Rightarrow> int" where
  "unit_if b = (if b then 1 else 0)"

lemma cnt_upd: "g < length ps \<Longrightarrow> cnt P (ps[g := p]) = cnt P ps - unit_if (P (ps ! g)) + unit_if (P p)"
  by (simp add: cnt_update unit_if_def)

lemma rel_left_nonneg: "wg_core s c q \<Longrightarrow> 0 \<le> isum rel_left (wpcs s)"
proof (rule isum_nonneg)
  fix p assume "wg_core s c q" "p \<in> set (wpcs s)"
  then have "wpc_fine p"
    using wg_coreD(5) by blast
  then show "0 \<le> rel_left p"
    by (cases p) simp_all
qed

lemma wg_waiters_small:
  assumes "wg_core s c q"
  shows "wg_waiters (wstate s) < 2 ^ 32 - 1"
  using wg_coreD(1, 4) [OF assms] sema.rep_credit [OF wg_coreD(2) [OF assms]] rel_left_nonneg [OF assms]
    cnt_le_length [of waiting "wpcs s"] by linarith

text \<open>A step that touches only the word and the program point of a goroutine that does not sleep.\<close>

lemma wg_core_pc:
  assumes core: "wg_core s c q" and g: "g < length (wpcs s)" "wpcs s ! g \<noteq> WaitParked"
    and p': "p' \<noteq> WaitParked" "wpc_fine p'"
    and n: "wg_waiters w' + rel_left p' - unit_if (waiting p')
      = wg_waiters (wstate s) + rel_left (wpcs s ! g) - unit_if (waiting (wpcs s ! g))"
    and live: "wg_counter w' = 0 \<and> 0 < wg_waiters w' \<longrightarrow> (\<exists>w. AddCas w' w \<in> set ((wpcs s)[g := p']))"
  shows "wg_core (wset_pc s g (w', p')) c q"
proof -
  note i = wg_coreD [OF core]
  let ?ps = "(wpcs s)[g := p']"
  have "\<forall>h. h \<in> set q \<longleftrightarrow> h < length ?ps \<and> ?ps ! h = WaitParked"
    using i(3) g p'(1) by (auto simp: nth_list_update)
  moreover have "wg_waiters w' + isum rel_left ?ps + c = cnt waiting ?ps"
    using i(4) n isum_update [OF g(1), of rel_left p'] cnt_upd [OF g(1), of waiting p'] by linarith
  moreover have "\<forall>p \<in> set ?ps. wpc_fine p"
    using i(5) p'(2) set_update_subset_insert [of "wpcs s" g p'] by blast
  ultimately show ?thesis
    using i(1, 2) live unfolding wg_core_def wset_pc_def by simp
qed

lemma AddCas_stays:
  "AddCas x w \<in> set ps \<Longrightarrow> ps ! g \<noteq> AddCas x w \<Longrightarrow> AddCas x w \<in> set (ps[g := p])"
  by (metis in_set_conv_nth length_list_update nth_list_update_neq)

lemma wg_core_zeroed [simp]: "wg_core (s\<lparr>zeroed := z\<rparr>) c q = wg_core s c q"
  by (simp add: wg_core_def)

section \<open>Every step keeps the invariant\<close>

lemma wg_add_core:
  assumes "wg_core s c q" "g < length (wpcs s)" "wpcs s ! g = WIdle"
  shows "wg_core (wset_pc s g (wg_add delta (wstate s))) c q"
proof -
  let ?ns = "wstate s + push_bit 32 delta"
  define p' where "p' = (if wg_counter ?ns > 0 \<or> wg_waiters ?ns = 0 then WIdle else AddCas ?ns (wg_waiters ?ns))"
  have pos: "0 < wg_waiters ?ns" "wg_counter ?ns = 0"
    if "\<not> (wg_counter ?ns > 0 \<or> wg_waiters ?ns = 0)"
    using that wg_waiters_bounds(1) [of ?ns] wg_counter_nonneg [of ?ns] by linarith+
  have "wg_add delta (wstate s) = (?ns, p')"
    using wg_counter_nonneg [of ?ns] unfolding wg_add_def Let_def p'_def by (simp only: not_less [symmetric]) simp
  moreover have "wg_core (wset_pc s g (?ns, p')) c q"
    using assms pos set_update_memI [OF assms(2)]
    by (intro wg_core_pc) (auto simp: p'_def wg_waiters_add waiting_def)
  ultimately show ?thesis
    by simp
qed

lemma wg_add_cas_core:
  assumes core: "wg_core s c q" and g: "g < length (wpcs s)" "wpcs s ! g = AddCas ns w"
  shows "wg_core (wset_pc s g (wg_add_cas ns w (wstate s))) c q"
proof -
  have fine: "wg_counter ns = 0" "w = wg_waiters ns" "0 < w"
    using wg_coreD(5) [OF core] nth_mem [OF g(1)] g(2) by force+
  show ?thesis
  proof (cases "wstate s = ns")
    case True
    then show ?thesis
      using g fine by (auto simp: wg_add_cas_def waiting_def intro!: wg_core_pc [OF core])
  next
    case False
    then have "wg_core (wset_pc s g (wstate s, WIdle)) c q"
      using g wg_coreD(6) [OF core] AddCas_stays [of "wstate s" _ "wpcs s" g WIdle]
      by (intro wg_core_pc [OF core]) (auto simp: waiting_def)
    then show ?thesis
      using False by (simp add: wg_add_cas_def)
  qed
qed

lemma wg_wait_core:
  assumes core: "wg_core s c q" and g: "g < length (wpcs s)" "wpcs s ! g = WIdle \<or> wpcs s ! g = WaitLoad"
  shows "wg_core (wset_pc s g (wstate s, wg_wait_load (wstate s))) c q"
proof -
  have "AddCas x w \<in> set ((wpcs s)[g := p])" if "AddCas x w \<in> set (wpcs s)" for x w p
    using AddCas_stays [OF that] g(2) by auto
  then have "wg_counter (wstate s) = 0 \<and> 0 < wg_waiters (wstate s) \<longrightarrow>
      (\<exists>w. AddCas (wstate s) w \<in> set ((wpcs s)[g := wg_wait_load (wstate s)]))"
    using wg_coreD(6) [OF core] by blast
  then show ?thesis
    using g by (intro wg_core_pc [OF core]) (auto simp: waiting_def wg_wait_load_def)
qed

lemma wg_wait_cas_core:
  assumes core: "wg_core s c q" and g: "g < length (wpcs s)" "wpcs s ! g = WaitCas old"
  shows "wg_core (wset_pc s g (wg_wait_cas old (wstate s))) c q"
proof -
  have fine: "wg_counter old \<noteq> 0"
    using wg_coreD(5) [OF core] nth_mem [OF g(1)] g(2) by force
  show ?thesis
  proof (cases "wstate s = old")
    case True
    then show ?thesis
      using g fine wg_halves_inc [OF wg_waiters_small [OF core]]
      by (auto simp: wg_wait_cas_def waiting_def unit_if_def intro!: wg_core_pc [OF core])
  next
    case False
    then have "wg_core (wset_pc s g (wstate s, WaitLoad)) c q"
      using g wg_coreD(6) [OF core] AddCas_stays [of "wstate s" _ "wpcs s" g WaitLoad]
      by (intro wg_core_pc [OF core]) (auto simp: waiting_def)
    then show ?thesis
      using False by (simp add: wg_wait_cas_def)
  qed
qed

text \<open>The steps on the semaphore.\<close>

lemma wg_core_sema:
  assumes core: "wg_core s c q" and ps: "length ps = length (wpcs s)"
    and rep: "sema_rep st' sm' c' q'"
    and q: "\<forall>g. g \<in> set q' \<longleftrightarrow> g < length ps \<and> ps ! g = WaitParked"
    and n: "isum rel_left ps + c' - cnt waiting ps = isum rel_left (wpcs s) + c - cnt waiting (wpcs s)"
    and fine: "\<forall>p \<in> set ps. wpc_fine p"
    and cas: "\<And>x w. AddCas x w \<in> set (wpcs s) \<Longrightarrow> AddCas x w \<in> set ps"
  shows "wg_core (s\<lparr>wstore := st', wsema := sm', wpcs := ps\<rparr>) c' q'"
proof -
  have "wg_counter (wstate s) = 0 \<and> 0 < wg_waiters (wstate s) \<longrightarrow> (\<exists>w. AddCas (wstate s) w \<in> set ps)"
    using wg_coreD(6) [OF core] cas by blast
  then show ?thesis
    using wg_coreD(1-5) [OF core] rep q n fine ps unfolding wg_core_def by simp
qed

lemma wg_acquire_core:
  assumes core: "wg_core s c q" and g: "g < length (wpcs s)" "wpcs s ! g = WaitAcquire"
    and acq: "sema_acquire (wstore s) (wsema s) g = (st', sm', parked)"
  defines "s' \<equiv> s\<lparr>wstore := st', wsema := sm', wpcs := (wpcs s)[g := if parked then WaitParked else WIdle]\<rparr>"
  obtains (through) "0 < c" "\<not> parked" "wg_core s' (c - 1) q"
  | (park) "c = 0" "parked" "wg_core s' 0 (q @ [g])"
proof -
  note i = wg_coreD [OF core]
  have gq: "g \<notin> set q"
    using i(3) g(2) by simp
  have fine: "\<forall>p \<in> set ((wpcs s)[g := x]). wpc_fine p" if "wpc_fine x" for x
    using i(5) that set_update_subset_insert [of "wpcs s" g x] by blast
  have cas: "AddCas x w \<in> set ((wpcs s)[g := y])" if "AddCas x w \<in> set (wpcs s)" for x w y
    using AddCas_stays [OF that] g(2) by simp
  note upd = isum_update [OF g(1), of rel_left] cnt_upd [OF g(1), of waiting]
  from i(2) gq acq show thesis
  proof (cases rule: sema.acquire_cases)
    case through
    then have "wg_core s' (c - 1) q"
      unfolding s'_def using g i(3) upd fine [of WIdle] cas
      by (intro wg_core_sema [OF core]) (auto simp: nth_list_update waiting_def unit_if_def)
    then show thesis
      using through that(1) by simp
  next
    case park
    then have "wg_core s' 0 (q @ [g])"
      unfolding s'_def using g i(3) upd fine [of WaitParked] cas
      by (intro wg_core_sema [OF core]) (auto simp: nth_list_update waiting_def unit_if_def)
    then show thesis
      using park that(2) by simp
  qed
qed

lemma wg_release_wake_core:
  assumes core: "wg_core s c q" and g: "g < length (wpcs s)" "wpcs s ! g = AddRelease n"
    and rel: "sema_release_iter (wstore s) (wsema s) n = (sm', Some h)"
  shows "h < length (wpcs s)" "wpcs s ! h = WaitParked"
    "isum rel_left ((wpcs s)[g := if n - 1 = 0 then WIdle else AddRelease (n - 1), h := WIdle])
      = isum rel_left (wpcs s) - 1"
    "\<exists>q'. wg_core (s\<lparr>wsema := sm', wpcs := (wpcs s)[g := if n - 1 = 0 then WIdle else AddRelease (n - 1), h := WIdle]\<rparr>) c q'"
proof -
  note i = wg_coreD [OF core]
  let ?p = "if n - 1 = 0 then WIdle else AddRelease (n - 1)"
  have n: "0 < n" "0 \<le> n"
    using i(5) nth_mem [OF g(1)] g(2) by force+
  from i(2) rel n(2) obtain q' where q: "q = h # q'" and rep: "sema_rep (wstore s) sm' c q'"
    by (cases rule: sema_release_iter_cases) auto
  show h: "h < length (wpcs s)" "wpcs s ! h = WaitParked"
    using i(3) q by auto
  have hg: "h \<noteq> g" and hq: "h \<notin> set q'"
    using h g sema.rep_distinct [OF i(2)] q by auto
  let ?ps = "(wpcs s)[g := ?p, h := WIdle]"
  show sum: "isum rel_left ?ps = isum rel_left (wpcs s) - 1"
    using g h hg isum_update [OF g(1), of rel_left ?p]
      isum_update [of h "(wpcs s)[g := ?p]" rel_left WIdle] n by auto
  have sum': "cnt waiting ?ps = cnt waiting (wpcs s) - 1"
    using g h hg cnt_upd [OF g(1), of waiting ?p] cnt_upd [of h "(wpcs s)[g := ?p]" waiting WIdle]
    by (auto simp: waiting_def unit_if_def)
  have fine: "\<forall>p \<in> set ?ps. wpc_fine p"
    using i(5) n set_update_subset_insert [of "(wpcs s)[g := ?p]" h WIdle]
      set_update_subset_insert [of "wpcs s" g ?p] by fastforce
  have cas: "AddCas x w \<in> set ?ps" if "AddCas x w \<in> set (wpcs s)" for x w
    using that g h hg by (intro AddCas_stays) (auto simp: nth_list_update)
  have "k \<in> set q' \<longleftrightarrow> k < length ?ps \<and> ?ps ! k = WaitParked" for k
    using i(3) [rule_format, of k] q hq g h hg by (cases "k = h"; cases "k = g") simp_all
  then have "wg_core (s\<lparr>wstore := wstore s, wsema := sm', wpcs := ?ps\<rparr>) c q'"
    using rep sum sum' fine cas by (intro wg_core_sema [OF core]) simp_all
  then show "\<exists>q'. wg_core (s\<lparr>wsema := sm', wpcs := ?ps\<rparr>) c q'"
    by auto
qed

lemma wg_release_store_core:
  assumes core: "wg_core s c q" and g: "g < length (wpcs s)" "wpcs s ! g = AddRelease n"
    and rel: "sema_release_iter (wstore s) (wsema s) n = (sm', None)"
  shows "wg_core (s\<lparr>wsema := sm', wpcs := (wpcs s)[g := WIdle]\<rparr>) (c + n) []"
proof -
  note i = wg_coreD [OF core]
  have n: "0 < n" "0 \<le> n"
    using i(5) nth_mem [OF g(1)] g(2) by force+
  from i(2) rel n(2) have "q = [] \<and> sema_rep (wstore s) sm' (c + n) []"
    by (cases rule: sema_release_iter_cases) auto
  then have q: "q = []" and rep: "sema_rep (wstore s) sm' (c + n) []"
    by simp_all
  have "wg_core (s\<lparr>wstore := wstore s, wsema := sm', wpcs := (wpcs s)[g := WIdle]\<rparr>) (c + n) []"
  proof (rule wg_core_sema [OF core _ rep])
    show "\<forall>h. h \<in> set [] \<longleftrightarrow> h < length ((wpcs s)[g := WIdle]) \<and> (wpcs s)[g := WIdle] ! h = WaitParked"
      using i(3) q g by (auto simp: nth_list_update)
    show "\<forall>p \<in> set ((wpcs s)[g := WIdle]). wpc_fine p"
      using i(5) set_update_subset_insert [of "wpcs s" g WIdle] by force
  qed (use g AddCas_stays isum_update [OF g(1), of rel_left WIdle] cnt_upd [OF g(1), of waiting WIdle]
       in \<open>simp_all add: waiting_def unit_if_def\<close>)
  then show ?thesis
    by simp
qed

section \<open>Rounds of waiting\<close>

text \<open>While wake-ups are under way nobody is registered in the word, and everyone who still waits
  registered before the counter was at zero.\<close>

definition round_ok :: "wg_sys \<Rightarrow> bool" where
  "round_ok s \<longleftrightarrow> (0 < pending s \<longrightarrow> wg_waiters (wstate s) = 0
     \<and> (\<forall>g. g < length (wpcs s) \<and> waiting (wpcs s ! g) \<longrightarrow> g \<in> zeroed s))"

lemma round_ok_pc:
  assumes "round_ok s" "g < length (wpcs s)" "rel_left p' = rel_left (wpcs s ! g)" "\<not> waiting p'"
    "wg_waiters w' = wg_waiters (wstate s)"
  shows "round_ok (wset_pc s g (w', p'))"
  using assms isum_update [OF assms(2), of rel_left p']
  by (auto simp: round_ok_def pending_def wset_pc_def nth_list_update)

definition wg_inv :: "bool \<Rightarrow> wg_sys \<Rightarrow> bool" where
  "wg_inv strict s \<longleftrightarrow> (\<exists>c q. wg_core s c q) \<and> (strict \<longrightarrow> round_ok s)"

lemma credit_rep: "sema_rep st sm c q \<Longrightarrow> credit sm = c"
  by (simp add: sema_rep_def)

lemma round_add:
  assumes "round_ok s" "g < length (wpcs s)" "wpcs s ! g = WIdle"
  shows "round_ok (wset_pc s g (wg_add delta (wstate s)))"
  unfolding wg_add_def Let_def using assms
  by (intro round_ok_pc) (simp_all add: waiting_def wg_waiters_add)

lemma round_add_cas:
  assumes "round_ok s" "g < length (wpcs s)" "wpcs s ! g = AddCas ns w"
  shows "round_ok ((wset_pc s g (wg_add_cas ns w (wstate s)))
    \<lparr>zeroed := if wstate s = ns then {h. h < length (wpcs s) \<and> waiting (wpcs s ! h)} else zeroed s\<rparr>)"
proof (cases "wstate s = ns")
  case True
  then show ?thesis
    using assms by (auto simp: round_ok_def wset_pc_def wg_add_cas_def nth_list_update waiting_def)
next
  case False
  then have "round_ok (wset_pc s g (wstate s, WIdle))"
    using assms by (intro round_ok_pc) (simp_all add: waiting_def)
  then show ?thesis
    using False by (simp add: wg_add_cas_def wset_pc_def round_ok_def pending_def)
qed

lemma round_wait_cas:
  assumes "round_ok s" "g < length (wpcs s)" "wpcs s ! g = WaitCas old" "wstate s = old \<Longrightarrow> pending s = 0"
  shows "round_ok ((wset_pc s g (wg_wait_cas old (wstate s)))\<lparr>zeroed := zeroed s - {g}\<rparr>)"
proof (cases "wstate s = old")
  case True
  then show ?thesis
    using assms isum_update [OF assms(2), of rel_left WaitAcquire]
    by (auto simp: round_ok_def wset_pc_def wg_wait_cas_def pending_def)
next
  case False
  then have "round_ok (wset_pc s g (wstate s, WaitLoad))"
    using assms by (intro round_ok_pc) (simp_all add: waiting_def)
  then show ?thesis
    using False assms(2) by (auto simp: wg_wait_cas_def wset_pc_def round_ok_def pending_def nth_list_update waiting_def)
qed

lemma round_less:
  assumes "round_ok s" "wstate s' = wstate s" "zeroed s' = zeroed s" "pending s' \<le> pending s"
    "length (wpcs s') = length (wpcs s)"
    "\<And>h. h < length (wpcs s) \<Longrightarrow> waiting (wpcs s' ! h) \<Longrightarrow> waiting (wpcs s ! h)"
  shows "round_ok s'"
  using assms unfolding round_ok_def by simp

lemma waiting_update:
  "waiting (ps[g := p] ! h) \<Longrightarrow> \<not> waiting p \<or> waiting (ps ! g) \<Longrightarrow> h < length ps \<Longrightarrow> waiting (ps ! h)"
  by (cases "h = g") auto

lemma round_release_wake:
  assumes core: "wg_core s c q" and g: "g < length (wpcs s)" "wpcs s ! g = AddRelease n"
    and rel: "sema_release_iter (wstore s) (wsema s) n = (sm', Some h)" and round: "round_ok s"
  shows "round_ok (s\<lparr>wsema := sm', wpcs := (wpcs s)[g := if n - 1 = 0 then WIdle else AddRelease (n - 1), h := WIdle]\<rparr>)"
    (is "round_ok ?s")
proof (rule round_less [OF round])
  note wake = wg_release_wake_core [OF core g rel]
  obtain q' where core': "wg_core ?s c q'"
    using wake(4) by blast
  show "pending ?s \<le> pending s"
    using credit_rep [OF wg_coreD(2) [OF core]] credit_rep [OF wg_coreD(2) [OF core']] wake(3)
    by (simp add: pending_def)
  show "waiting (wpcs s ! k)" if "k < length (wpcs s)" "waiting (wpcs ?s ! k)" for k
    using that g wake(1, 2) by (cases "k = h"; cases "k = g") (auto simp: waiting_def split: if_splits)
qed simp_all

lemma round_release_store:
  assumes core: "wg_core s c q" and g: "g < length (wpcs s)" "wpcs s ! g = AddRelease n"
    and rel: "sema_release_iter (wstore s) (wsema s) n = (sm', None)" and round: "round_ok s"
  shows "round_ok (s\<lparr>wsema := sm', wpcs := (wpcs s)[g := WIdle]\<rparr>)" (is "round_ok ?s")
proof (rule round_less [OF round])
  note core' = wg_release_store_core [OF core g rel]
  show "pending ?s \<le> pending s"
    using credit_rep [OF wg_coreD(2) [OF core]] credit_rep [OF wg_coreD(2) [OF core']]
      isum_update [OF g(1), of rel_left WIdle] g(2) by (simp add: pending_def)
  show "waiting (wpcs s ! k)" if "k < length (wpcs s)" "waiting (wpcs ?s ! k)" for k
    using that waiting_update [of "wpcs s" g WIdle k] by (simp add: waiting_def)
qed simp_all

lemma round_acquire:
  assumes core: "wg_core s c q" and g: "g < length (wpcs s)" "wpcs s ! g = WaitAcquire"
    and acq: "sema_acquire (wstore s) (wsema s) g = (st', sm', parked)"
  defines "s' \<equiv> s\<lparr>wstore := st', wsema := sm', wpcs := (wpcs s)[g := if parked then WaitParked else WIdle]\<rparr>"
  shows "\<exists>c' q'. wg_core s' c' q'" "round_ok s \<Longrightarrow> round_ok s'"
proof -
  from core g acq obtain c' q' where core': "wg_core s' c' q'" "c' \<le> c"
    unfolding s'_def by (cases rule: wg_acquire_core) auto
  then show "\<exists>c' q'. wg_core s' c' q'"
    by blast
  show "round_ok s'" if "round_ok s"
  proof (rule round_less [OF that])
    show "pending s' \<le> pending s"
      using credit_rep [OF wg_coreD(2) [OF core]] credit_rep [OF wg_coreD(2) [OF core'(1)]] core'(2)
        isum_update [OF g(1), of rel_left "if parked then WaitParked else WIdle"] g(2)
      by (simp add: pending_def s'_def)
    show "waiting (wpcs s ! k)" if "k < length (wpcs s)" "waiting (wpcs s' ! k)" for k
      using that waiting_update [of "wpcs s" g _ k] g(2) by (auto simp: s'_def waiting_def)
  qed (simp_all add: s'_def)
qed

lemma wg_inv_step:
  assumes "wg_step strict s s'" "wg_inv strict s"
  shows "wg_inv strict s'"
  using assms
proof (induction rule: wg_step.induct)
  case (add g s delta)
  then show ?case
    unfolding wg_inv_def using wg_add_core round_add by blast
next
  case (add_cas g s ns w)
  then show ?case
    unfolding wg_inv_def using wg_add_cas_core round_add_cas wg_core_zeroed by blast
next
  case (release_wake g s n sm' h)
  from release_wake obtain c q where core: "wg_core s c q"
    unfolding wg_inv_def by blast
  note wake = wg_release_wake_core [OF core release_wake.hyps]
  show ?case
    using wake(4) round_release_wake [OF core release_wake.hyps] release_wake.prems
    unfolding wg_inv_def by blast
next
  case (release_store g s n sm')
  from release_store obtain c q where core: "wg_core s c q"
    unfolding wg_inv_def by blast
  note core' = wg_release_store_core [OF core release_store.hyps]
  show ?case
    using core' round_release_store [OF core release_store.hyps] release_store.prems
    unfolding wg_inv_def by blast
next
  case (wait g s)
  then have "round_ok (wset_pc s g (wstate s, wg_wait_load (wstate s)))" if "round_ok s"
    using that by (intro round_ok_pc) (auto simp: waiting_def wg_wait_load_def)
  then show ?case
    using wait wg_wait_core unfolding wg_inv_def by blast
next
  case (wait_cas g s old)
  then show ?case
    unfolding wg_inv_def using wg_wait_cas_core round_wait_cas wg_core_zeroed by blast
next
  case (wait_acquire g s st' sm' parked)
  from wait_acquire obtain c q where core: "wg_core s c q"
    unfolding wg_inv_def by blast
  show ?case
    using round_acquire [OF core wait_acquire.hyps] wait_acquire.prems unfolding wg_inv_def by blast
qed

lemma wg_inv_new:
  assumes "int n < 2 ^ 32 - 1"
  shows "wg_inv strict (wg_new st n)"
proof -
  have "isum rel_left (replicate n WIdle) = 0"
    by (rule isum_zero) auto
  then have "wg_core (wg_new st n) 0 []"
    using assms by (simp add: wg_core_def wg_new_def sema_rep_new waiting_def)
  moreover have "round_ok (wg_new st n)"
    by (simp add: round_ok_def wg_new_def waiting_def)
  ultimately show ?thesis
    unfolding wg_inv_def by blast
qed

lemma wg_reachable_inv:
  "wg_reachable strict n s \<Longrightarrow> int n < 2 ^ 32 - 1 \<Longrightarrow> wg_inv strict s"
  by (induction rule: wg_reachable.induct) (simp_all add: wg_inv_new wg_inv_step)

section \<open>Properties\<close>

text \<open>
  C17: No waiter sleeps for ever.  However the atomic steps of any number of goroutines (below
  \<open>2 ^ 32 - 1\<close>) interleave in \<open>Add\<close>, \<open>Done\<close> and \<open>Wait\<close>: once the counter is zero and no call
  of \<open>Add\<close> or \<open>Done\<close> is under way, no goroutine is parked in \<open>Wait\<close>, and every one that is
  about to enter the semaphore finds a credit there.
\<close>

theorem waitgroup_wakes_all:
  assumes "wg_reachable strict n s" "int n < 2 ^ 32 - 1" "wg_try_wait (wstate s)"
    and "\<forall>p \<in> set (wpcs s). \<forall>ns w. p \<noteq> AddCas ns w \<and> p \<noteq> AddRelease w"
  shows "WaitParked \<notin> set (wpcs s) \<and> cnt ((=) WaitAcquire) (wpcs s) = credit (wsema s)"
proof -
  obtain c q where core: "wg_core s c q"
    using wg_reachable_inv [OF assms(1, 2)] unfolding wg_inv_def by blast
  note i = wg_coreD [OF core]
  have "wg_waiters (wstate s) = 0"
    using i(6) assms(3, 4) wg_waiters_bounds(1) [of "wstate s"]
    unfolding wg_try_wait_def by (metis order_le_less)
  moreover have "isum rel_left (wpcs s) = 0"
  proof -
    have "rel_left p = 0" if "p \<in> set (wpcs s)" for p
      using assms(4) that by (cases p) auto
    then show ?thesis
      by (rule isum_zero)
  qed
  moreover have "cnt waiting (wpcs s) = cnt ((=) WaitAcquire) (wpcs s) + cnt ((=) WaitParked) (wpcs s)"
  proof -
    have "waiting = (\<lambda>p. WaitAcquire = p \<or> WaitParked = p)"
      by (auto simp: waiting_def)
    then show ?thesis
      using cnt_disj [of "(=) WaitAcquire" "(=) WaitParked" "wpcs s"] by auto
  qed
  ultimately have sum: "c = cnt ((=) WaitAcquire) (wpcs s) + cnt ((=) WaitParked) (wpcs s)"
    using i(4) by linarith
  have "q = []"
  proof (rule ccontr)
    assume "q \<noteq> []"
    then obtain h where "h < length (wpcs s)" "wpcs s ! h = WaitParked"
      using i(3) by (metis list.set_intros(1) neq_Nil_conv)
    then have "1 \<le> cnt ((=) WaitParked) (wpcs s)"
      by (intro cnt_pos) auto
    then have "0 < c"
      using sum cnt_nonneg [of "(=) WaitAcquire" "wpcs s"] by linarith
    then show False
      using sema.rep_credit [OF i(2)] \<open>q \<noteq> []\<close> by blast
  qed
  then have np: "WaitParked \<notin> set (wpcs s)"
    using i(3) by (auto simp: in_set_conv_nth)
  then have "cnt ((=) WaitParked) (wpcs s) = 0"
    by (auto simp: cnt_zero)
  then show ?thesis
    using np sum credit_rep [OF i(2)] by simp
qed


text \<open>
  C18: A negative counter goes unnoticed.  The counter half is read as an unsigned 32-bit number,
  so that the test for a negative counter never fires: \<open>Add\<close> with any delta on any state does
  not reach the fatal error, and one \<open>Done\<close> too many on a fresh wait group leaves the counter
  at \<open>2 ^ 32 - 1\<close>, so that the next \<open>Wait\<close> registers as a waiter instead of returning.
\<close>

theorem waitgroup_negative_unnoticed:
  "snd (wg_add delta state) \<noteq> WgFatal \<and> snd (wg_done 0) = WIdle
   \<and> wg_counter (fst (wg_done 0)) = 2 ^ 32 - 1
   \<and> wg_wait_load (fst (wg_done 0)) = WaitCas (fst (wg_done 0))"
proof -
  have "snd (wg_add delta state) \<noteq> WgFatal"
    unfolding wg_add_def Let_def using wg_counter_nonneg by (auto simp: not_less [symmetric])
  moreover have "wg_counter (push_bit 32 (- 1)) = 2 ^ 32 - 1"
    by (simp add: wg_counter_eq push_bit_eq_mult uint_word_ariths)
  ultimately show ?thesis
    by (simp add: wg_done_def wg_add_def wg_wait_load_def Let_def)
qed

section \<open>Examples\<close>

text \<open>Goroutine 0 adds a task; goroutine 1 waits; goroutine 0 finishes the task and wakes it.\<close>

definition wg_ex1 :: wg_sys where
  "wg_ex1 = wset_pc (wg_new idle_store 2) 0 (wg_add 1 (wstate (wg_new idle_store 2)))"
definition wg_ex2 :: wg_sys where
  "wg_ex2 = wset_pc wg_ex1 1 (wstate wg_ex1, wg_wait_load (wstate wg_ex1))"
definition wg_ex3 :: wg_sys where
  "wg_ex3 = (wset_pc wg_ex2 1 (wg_wait_cas (2 ^ 32) (wstate wg_ex2)))\<lparr>zeroed := zeroed wg_ex2 - {1}\<rparr>"
definition wg_ex4 :: wg_sys where
  "wg_ex4 = wset_pc wg_ex3 0 (wg_add (- 1) (wstate wg_ex3))"
definition wg_ex5 :: wg_sys where
  "wg_ex5 = (wset_pc wg_ex4 0 (wg_add_cas 1 1 (wstate wg_ex4)))
     \<lparr>zeroed := if wstate wg_ex4 = 1 then {h. h < length (wpcs wg_ex4) \<and> waiting (wpcs wg_ex4 ! h)} else zeroed wg_ex4\<rparr>"
definition wg_ex6 :: wg_sys where
  "wg_ex6 = wg_ex5\<lparr>wsema := sema_new\<lparr>credit := 1\<rparr>, wpcs := (wpcs wg_ex5)[0 := WIdle]\<rparr>"
definition wg_ex7 :: wg_sys where
  "wg_ex7 = wg_ex6\<lparr>wstore := idle_store, wsema := sema_new,
     wpcs := (wpcs wg_ex6)[1 := if False then WaitParked else WIdle]\<rparr>"

lemma two_idle: "replicate 2 WIdle = [WIdle, WIdle]"
  by (simp add: numeral_2_eq_2)

lemma wg_ex1_eq [simp]: "wstate wg_ex1 = 2 ^ 32" "wpcs wg_ex1 = [WIdle, WIdle]" "wsema wg_ex1 = sema_new"
  "wstore wg_ex1 = idle_store"
  by (simp_all add: wg_ex1_def wg_new_def wset_pc_def wg_add_def Let_def wg_counter_eq wg_waiters_eq
      push_bit_eq_mult two_idle)

lemma wg_ex2_eq [simp]: "wstate wg_ex2 = 2 ^ 32" "wpcs wg_ex2 = [WIdle, WaitCas (2 ^ 32)]"
  "wsema wg_ex2 = sema_new" "wstore wg_ex2 = idle_store" "pending wg_ex2 = 0"
  by (simp_all add: wg_ex2_def wset_pc_def wg_wait_load_def wg_counter_eq pending_def isum_def sema_new_def)

lemma wg_ex3_eq [simp]: "wstate wg_ex3 = 2 ^ 32 + 1" "wpcs wg_ex3 = [WIdle, WaitAcquire]"
  "wsema wg_ex3 = sema_new" "wstore wg_ex3 = idle_store"
  by (simp_all add: wg_ex3_def wset_pc_def wg_wait_cas_def)

lemma wg_ex4_eq [simp]: "wstate wg_ex4 = 1" "wpcs wg_ex4 = [AddCas 1 1, WaitAcquire]"
  "wsema wg_ex4 = sema_new" "wstore wg_ex4 = idle_store"
  by (simp_all add: wg_ex4_def wset_pc_def wg_add_def Let_def wg_counter_eq wg_waiters_eq push_bit_eq_mult)

lemma wg_ex5_eq [simp]: "wstate wg_ex5 = 0" "wpcs wg_ex5 = [AddRelease 1, WaitAcquire]"
  "wsema wg_ex5 = sema_new" "wstore wg_ex5 = idle_store"
  by (simp_all add: wg_ex5_def wset_pc_def wg_add_cas_def)

lemma wg_ex6_eq [simp]: "wstate wg_ex6 = 0" "wpcs wg_ex6 = [WIdle, WaitAcquire]"
  "wsema wg_ex6 = sema_new\<lparr>credit := 1\<rparr>" "wstore wg_ex6 = idle_store"
  by (simp_all add: wg_ex6_def)

lemma wg_ex6_reachable: "wg_reachable strict 2 wg_ex6"
proof -
  have "wg_step strict (wg_new idle_store 2) wg_ex1"
    unfolding wg_ex1_def by (rule wg_step.add) (simp_all add: wg_new_def)
  moreover have "wg_step strict wg_ex1 wg_ex2"
    unfolding wg_ex2_def by (rule wg_step.wait) simp_all
  moreover have "wg_step strict wg_ex2 wg_ex3"
    unfolding wg_ex3_def by (rule wg_step.wait_cas) simp_all
  moreover have "wg_step strict wg_ex3 wg_ex4"
    unfolding wg_ex4_def by (rule wg_step.add) simp_all
  moreover have "wg_step strict wg_ex4 wg_ex5"
    unfolding wg_ex5_def by (rule wg_step.add_cas) simp_all
  moreover have "wg_step strict wg_ex5 wg_ex6"
    unfolding wg_ex6_def
    by (rule wg_step.release_store [of _ _ 1])
      (simp_all add: sema_release_iter_def pop_head_def sema_new_def gq_empty_def)
  ultimately show ?thesis
    by (meson wg_reachable.intros)
qed

lemma wg_ex7_step: "wg_step strict wg_ex6 wg_ex7" "wpcs wg_ex7 ! 1 = WIdle"
  unfolding wg_ex7_def
  by (rule wg_step.wait_acquire) (simp_all add: sema_acquire_def sema_new_def)

theorem waitgroup_wakes_all_witness:
  "wg_try_wait (wstate wg_ex6) \<and> WaitParked \<notin> set (wpcs wg_ex6)
   \<and> cnt ((=) WaitAcquire) (wpcs wg_ex6) = credit (wsema wg_ex6)"
  using waitgroup_wakes_all [OF wg_ex6_reachable] by (simp add: wg_try_wait_def)


end
