(* ===== verification/NotifyList.thy ===== *)
theory NotifyList
  imports Sema "HOL-Library.Monad_Syntax"
begin

text \<open>
  The notification list behind condition variables (\<^verbatim>\<open>src/src/sync/notifylist.rs\<close>) and
  \<^verbatim>\<open>Cond\<close> (\<^verbatim>\<open>src/src/sync/cond.rs\<close>).  A waiter takes a ticket from the 32-bit counter
  \<^verbatim>\<open>wait\<close>; tickets below \<^verbatim>\<open>notify\<close> are notified.  Waiting goroutines form a chain through
  \<^verbatim>\<open>g.sema_next\<close>.  The bodies under the list's spin lock are functions of the store and the
  list; the unlocked fast paths and \<^verbatim>\<open>Add\<close> are steps of their own, so that all goroutines
  interleave between them.  The locker of a \<^verbatim>\<open>Cond\<close> takes part only by when a goroutine calls
  which operation, and any order is allowed here.

  \<open>issued\<close> and \<open>served\<close> are not in the code: they count the tickets handed out and notified; the
  words of the code are these counts modulo \<open>2 ^ 32\<close>.  A program point that holds a ticket holds
  its count.
\<close>

section \<open>The list\<close>

record notify_list =
  nl_wait :: u32
  nl_notify :: u32
  nl_q :: gqueue

definition nl_new :: notify_list where
  "nl_new = \<lparr>nl_wait = 0, nl_notify = 0, nl_q = gq_empty\<rparr>"

definition less_ticket :: "u32 \<Rightarrow> u32 \<Rightarrow> bool" where
  "less_ticket a b \<longleftrightarrow> sint (a - b) < 0"

definition nl_Add :: "notify_list \<Rightarrow> u32 \<times> notify_list" where
  "nl_Add l = (nl_wait l, l\<lparr>nl_wait := nl_wait l + 1\<rparr>)"

text \<open>\<open>True\<close>: the caller is queued and parks.\<close>

definition nl_Wait :: "gstore \<Rightarrow> notify_list \<Rightarrow> gr \<Rightarrow> u32 \<Rightarrow> gstore \<times> notify_list \<times> bool" where
  "nl_Wait st l g t =
     (if less_ticket t (nl_notify l) then (st, l, False)
      else let st1 = st\<lparr>notify_ticket := (notify_ticket st)(g := t)\<rparr>;
               (st', q') = gq_append st1 (nl_q l) g
           in (st', l\<lparr>nl_q := q'\<rparr>, True))"

text \<open>\<^verbatim>\<open>NotifyAll\<close> under the lock: the old head, from which the chain is walked and readied.\<close>

definition nl_take_all :: "notify_list \<Rightarrow> notify_list \<times> gr option" where
  "nl_take_all l = (l\<lparr>nl_q := gq_empty, nl_notify := nl_wait l\<rparr>, qhead (nl_q l))"

partial_function (option) nl_ready_all :: "gstore \<Rightarrow> gr option \<Rightarrow> (gstore \<times> gr list) option" where
  [code]: "nl_ready_all st g =
     (case g of
        None \<Rightarrow> Some (st, [])
      | Some x \<Rightarrow>
          Option.bind (nl_ready_all (st\<lparr>sema_next := (sema_next st)(x := None)\<rparr>) (sema_next st x))
            (\<lambda>(st', gs). Some (st', x # gs)))"

text \<open>\<^verbatim>\<open>NotifyOne\<close> under the lock: the walk for the ticket, and the unlinking of what it finds.\<close>

partial_function (option) nl_find :: "gstore \<Rightarrow> u32 \<Rightarrow> gr option \<Rightarrow> gr option \<Rightarrow> (gr option \<times> gr option) option" where
  [code]: "nl_find st t prev cur =
     (case cur of
        None \<Rightarrow> Some (prev, None)
      | Some x \<Rightarrow> if notify_ticket st x = t then Some (prev, Some x) else nl_find st t cur (sema_next st x))"

definition nl_unlink :: "gstore \<Rightarrow> gqueue \<Rightarrow> gr option \<Rightarrow> gr \<Rightarrow> gstore \<times> gqueue" where
  "nl_unlink st q prev cur =
     (let next = sema_next st cur;
          (st1, q1) = (case prev of
             None \<Rightarrow> (st, q\<lparr>qhead := next\<rparr>)
           | Some p \<Rightarrow> (st\<lparr>sema_next := (sema_next st)(p := next)\<rparr>, q));
          q2 = (if qtail q1 = Some cur then q1\<lparr>qtail := prev\<rparr> else q1)
      in (st1\<lparr>sema_next := (sema_next st1)(cur := None)\<rparr>, q2))"

definition nl_notify_one :: "gstore \<Rightarrow> notify_list \<Rightarrow> (gstore \<times> notify_list \<times> gr option) option" where
  "nl_notify_one st l =
     (let t = nl_notify l in
      if t = nl_wait l then Some (st, l, None)
      else let l1 = l\<lparr>nl_notify := t + 1\<rparr> in
        Option.bind (nl_find st t None (qhead (nl_q l))) (\<lambda>(prev, found).
          case found of
            None \<Rightarrow> Some (st, l1, None)
          | Some cur \<Rightarrow>
              let (st', q') = nl_unlink st (nl_q l) prev cur in Some (st', l1\<lparr>nl_q := q'\<rparr>, Some cur)))"

fun nl_count :: "nat \<Rightarrow> gstore \<Rightarrow> gr option \<Rightarrow> nat" where
  "nl_count 0 st h = 0"
| "nl_count (Suc n) st h = (case h of None \<Rightarrow> 0 | Some g \<Rightarrow> Suc (nl_count n st (sema_next st g)))"

definition nl_debug_state :: "gstore \<Rightarrow> notify_list \<Rightarrow> u32 \<times> u32 \<times> nat" where
  "nl_debug_state st l = (nl_wait l, nl_notify l, nl_count 1024 st (qhead (nl_q l)))"

section \<open>The system\<close>

text \<open>A goroutine in \<^verbatim>\<open>Cond::Wait\<close> holds a ticket (\<open>CTicket\<close>) until it returns or parks; one in
  \<^verbatim>\<open>Broadcast\<close> or \<^verbatim>\<open>Signal\<close> has loaded \<^verbatim>\<open>wait\<close> (\<open>CAllLoaded\<close>, \<open>COneLoaded\<close>), then is about
  to take the lock.\<close>

datatype cpc =
    CIdle
  | CTicket nat
  | CParked nat
  | CAllLoaded u32
  | CAllLock
  | COneLoaded u32
  | COneLock

record cond_sys =
  cstore :: gstore
  clist :: notify_list
  cpcs :: "cpc list"
  issued :: nat
  served :: nat

definition NewCond :: "gstore \<Rightarrow> nat \<Rightarrow> cond_sys" where
  "NewCond st n = \<lparr>cstore = st, clist = nl_new, cpcs = replicate n CIdle, issued = 0, served = 0\<rparr>"

definition wake :: "gr list \<Rightarrow> cpc list \<Rightarrow> cpc list" where
  "wake gs ps = map (\<lambda>i. if i \<in> set gs then CIdle else ps ! i) [0..<length ps]"

inductive cond_step :: "cond_sys \<Rightarrow> cond_sys \<Rightarrow> bool" where
  add: "g < length (cpcs s) \<Longrightarrow> cpcs s ! g = CIdle \<Longrightarrow>
    cond_step s (s\<lparr>clist := snd (nl_Add (clist s)), issued := issued s + 1, cpcs := (cpcs s)[g := CTicket (issued s)]\<rparr>)"
| wait: "g < length (cpcs s) \<Longrightarrow> cpcs s ! g = CTicket k \<Longrightarrow> served s - k < 2 ^ 31 \<Longrightarrow>
    nl_Wait (cstore s) (clist s) g (of_nat k) = (st', l', parked) \<Longrightarrow>
    cond_step s (s\<lparr>cstore := st', clist := l', cpcs := (cpcs s)[g := if parked then CParked k else CIdle]\<rparr>)"
| all_load: "g < length (cpcs s) \<Longrightarrow> cpcs s ! g = CIdle \<Longrightarrow>
    cond_step s (s\<lparr>cpcs := (cpcs s)[g := CAllLoaded (nl_wait (clist s))]\<rparr>)"
| all_check: "g < length (cpcs s) \<Longrightarrow> cpcs s ! g = CAllLoaded w \<Longrightarrow>
    cond_step s (s\<lparr>cpcs := (cpcs s)[g := if w = nl_notify (clist s) then CIdle else CAllLock]\<rparr>)"
| all: "g < length (cpcs s) \<Longrightarrow> cpcs s ! g = CAllLock \<Longrightarrow>
    nl_take_all (clist s) = (l', head) \<Longrightarrow> nl_ready_all (cstore s) head = Some (st', gs) \<Longrightarrow>
    cond_step s (s\<lparr>cstore := st', clist := l', served := issued s, cpcs := wake gs ((cpcs s)[g := CIdle])\<rparr>)"
| one_load: "g < length (cpcs s) \<Longrightarrow> cpcs s ! g = CIdle \<Longrightarrow>
    cond_step s (s\<lparr>cpcs := (cpcs s)[g := COneLoaded (nl_wait (clist s))]\<rparr>)"
| one_check: "g < length (cpcs s) \<Longrightarrow> cpcs s ! g = COneLoaded w \<Longrightarrow>
    cond_step s (s\<lparr>cpcs := (cpcs s)[g := if w = nl_notify (clist s) then CIdle else COneLock]\<rparr>)"
| one: "g < length (cpcs s) \<Longrightarrow> cpcs s ! g = COneLock \<Longrightarrow>
    nl_notify_one (cstore s) (clist s) = Some (st', l', found) \<Longrightarrow>
    cond_step s (s\<lparr>cstore := st', clist := l', served := if served s = issued s then served s else served s + 1,
      cpcs := wake (case found of None \<Rightarrow> [] | Some h \<Rightarrow> [h]) ((cpcs s)[g := CIdle])\<rparr>)"

inductive cond_reachable :: "nat \<Rightarrow> cond_sys \<Rightarrow> bool" for n where
  new: "cond_reachable n (NewCond st n)"
| step: "cond_reachable n s \<Longrightarrow> cond_step s s' \<Longrightarrow> cond_reachable n s'"

section \<open>The chain\<close>

lemma path_split: "path nx h (ys @ x # zs) \<Longrightarrow> path nx (Some x) (x # zs)"
  by (induction ys arbitrary: h) auto

lemma nl_ready_all_path:
  "path (sema_next st) h xs \<Longrightarrow> distinct xs \<Longrightarrow>
    \<exists>st'. nl_ready_all st h = Some (st', xs) \<and> notify_ticket st' = notify_ticket st"
proof (induction xs arbitrary: st h)
  case Nil
  then show ?case
    by (subst nl_ready_all.simps) simp
next
  case (Cons x xs)
  have "path (sema_next (st\<lparr>sema_next := (sema_next st)(x := None)\<rparr>)) (sema_next st x) xs"
    using Cons.prems by (simp add: path_outside)
  with Cons.IH [OF this] Cons.prems show ?case
    by (subst nl_ready_all.simps) auto
qed

definition prev_of :: "'a option \<Rightarrow> 'a list \<Rightarrow> 'a option" where
  "prev_of p xs = (if xs = [] then p else Some (last xs))"

lemma nl_find_found:
  "path (sema_next st) h (ys @ x # zs) \<Longrightarrow> notify_ticket st x = t \<Longrightarrow>
    (\<And>y. y \<in> set ys \<Longrightarrow> notify_ticket st y \<noteq> t) \<Longrightarrow> nl_find st t prev h = Some (prev_of prev ys, Some x)"
proof (induction ys arbitrary: h prev)
  case Nil
  then show ?case
    by (subst nl_find.simps) (simp add: prev_of_def)
next
  case (Cons y ys)
  then have "nl_find st t h (sema_next st y) = Some (prev_of h ys, Some x)"
    by (intro Cons.IH) auto
  then show ?case
    using Cons.prems by (subst nl_find.simps) (auto simp: prev_of_def)
qed

lemma nl_find_none:
  "path (sema_next st) h xs \<Longrightarrow> (\<And>y. y \<in> set xs \<Longrightarrow> notify_ticket st y \<noteq> t) \<Longrightarrow>
    nl_find st t prev h = Some (prev_of prev xs, None)"
proof (induction xs arbitrary: h prev)
  case Nil
  then show ?case
    by (subst nl_find.simps) (simp add: prev_of_def)
next
  case (Cons y ys)
  then have "nl_find st t h (sema_next st y) = Some (prev_of h ys, None)"
    by (intro Cons.IH) auto
  then show ?case
    using Cons.prems by (subst nl_find.simps) (auto simp: prev_of_def)
qed

lemma path_remove:
  "path nx h (ys @ p # x # zs) \<Longrightarrow> distinct (ys @ p # x # zs) \<Longrightarrow>
    path (nx(p := nx x, x := None)) h (ys @ p # zs)"
  by (induction ys arbitrary: h) (auto simp: path_outside)

lemma nl_unlink_rep:
  assumes "gq_rep st q (ys @ x # zs)" "nl_unlink st q (prev_of None ys) x = (st', q')"
  shows "gq_rep st' q' (ys @ zs) \<and> notify_ticket st' = notify_ticket st"
proof (cases ys rule: rev_cases)
  case Nil
  then show ?thesis
    using assms by (cases zs) (auto simp: gq_rep_def nl_unlink_def prev_of_def Let_def path_outside)
next
  case (snoc ys' p)
  have path: "path (sema_next st) (qhead q) (ys' @ p # x # zs)" and d: "distinct (ys' @ p # x # zs)"
    using assms(1) snoc by (simp_all add: gq_rep_def)
  have "last (x # zs) = x \<longleftrightarrow> zs = []"
    using d by (cases zs rule: rev_cases) auto
  then show ?thesis
    using assms snoc path_remove [OF path d] d
    by (auto simp: gq_rep_def nl_unlink_def prev_of_def Let_def)
qed

lemma nl_notify_one_rep:
  assumes "gq_rep st (nl_q l) xs" "nl_notify l \<noteq> nl_wait l"
  shows "\<exists>st' l'. nl_notify_one st l = Some (st', l', find (\<lambda>g. notify_ticket st g = nl_notify l) xs)
    \<and> nl_notify l' = nl_notify l + 1 \<and> nl_wait l' = nl_wait l \<and> notify_ticket st' = notify_ticket st
    \<and> gq_rep st' (nl_q l') (case find (\<lambda>g. notify_ticket st g = nl_notify l) xs of
        None \<Rightarrow> xs | Some g \<Rightarrow> remove1 g xs)"
proof (cases "find (\<lambda>g. notify_ticket st g = nl_notify l) xs")
  case None
  then have "nl_find st (nl_notify l) None (qhead (nl_q l)) = Some (prev_of None xs, None)"
    using assms(1) by (intro nl_find_none) (auto simp: gq_rep_def find_None_iff)
  then show ?thesis
    using None assms by (simp add: nl_notify_one_def Let_def)
next
  case (Some g)
  then obtain i where i: "i < length xs" "g = xs ! i" "notify_ticket st g = nl_notify l"
      "\<And>j. j < i \<Longrightarrow> notify_ticket st (xs ! j) \<noteq> nl_notify l"
    by (auto simp: find_Some_iff)
  define ys zs where "ys = take i xs" and "zs = drop (Suc i) xs"
  have xs: "xs = ys @ g # zs" and ys: "\<And>y. y \<in> set ys \<Longrightarrow> notify_ticket st y \<noteq> nl_notify l"
    using i id_take_nth_drop [OF i(1)] by (auto simp: ys_def zs_def in_set_conv_nth)
  have find: "nl_find st (nl_notify l) None (qhead (nl_q l)) = Some (prev_of None ys, Some g)"
    using assms(1) xs i(3) ys by (intro nl_find_found) (auto simp: gq_rep_def)
  obtain st' q' where un: "nl_unlink st (nl_q l) (prev_of None ys) g = (st', q')"
    by fastforce
  have "remove1 g xs = ys @ zs"
    using xs gq_rep_distinct [OF assms(1)] by (simp add: remove1_append)
  then show ?thesis
    using nl_unlink_rep [OF _ un] assms xs find un Some by (simp add: nl_notify_one_def Let_def)
qed

section \<open>Tickets\<close>

lemma less_ticket_iff:
  assumes "V - k < 2 ^ 31" "k - V < 2 ^ 31"
  shows "less_ticket (of_nat k) (of_nat V) \<longleftrightarrow> k < V"
proof (cases "k < V")
  case True
  then have "(of_nat k :: u32) - of_nat V = - of_nat (V - k)"
    by (simp add: of_nat_diff)
  then show ?thesis
    using sint_minus_of_nat_neg [of "V - k", where 'a = 32] True assms(1) by (simp add: less_ticket_def)
next
  case False
  then have "(of_nat k :: u32) - of_nat V = of_nat (k - V)"
    by (simp add: of_nat_diff)
  then show ?thesis
    using sint_of_nat_small [of "k - V", where 'a = 32] False assms(2) by (simp add: less_ticket_def)
qed

definition holds :: "nat \<Rightarrow> cpc \<Rightarrow> bool" where
  "holds k p \<longleftrightarrow> p = CTicket k \<or> p = CParked k"

text \<open>Every ticket that is not notified has exactly one holder, and every goroutine that sleeps
  holds one of them.\<close>

definition tickets_ok :: "cpc list \<Rightarrow> nat \<Rightarrow> nat \<Rightarrow> bool" where
  "tickets_ok ps V I \<longleftrightarrow> V \<le> I
     \<and> (\<forall>g k. g < length ps \<and> ps ! g = CParked k \<longrightarrow> V \<le> k)
     \<and> (\<forall>g k. g < length ps \<and> holds k (ps ! g) \<longrightarrow> k < I)
     \<and> (\<forall>k. V \<le> k \<and> k < I \<longrightarrow> (\<exists>g < length ps. holds k (ps ! g)))
     \<and> (\<forall>g h k. g < length ps \<and> h < length ps \<and> holds k (ps ! g) \<and> holds k (ps ! h) \<longrightarrow> g = h)"

lemma tickets_okD:
  assumes "tickets_ok ps V I"
  shows "V \<le> I" "g < length ps \<Longrightarrow> ps ! g = CParked k \<Longrightarrow> V \<le> k"
    "g < length ps \<Longrightarrow> holds k (ps ! g) \<Longrightarrow> k < I"
    "V \<le> k \<Longrightarrow> k < I \<Longrightarrow> \<exists>g < length ps. holds k (ps ! g)"
    "g < length ps \<Longrightarrow> h < length ps \<Longrightarrow> holds k (ps ! g) \<Longrightarrow> holds k (ps ! h) \<Longrightarrow> g = h"
  using assms unfolding tickets_ok_def by blast+

lemma tickets_few:
  assumes "tickets_ok ps V I"
  shows "I - V \<le> length ps"
proof -
  have "\<forall>k \<in> {V..<I}. \<exists>g. g < length ps \<and> holds k (ps ! g)"
    using tickets_okD(4) [OF assms] by auto
  from bchoice [OF this] obtain f where f: "\<And>k. k \<in> {V..<I} \<Longrightarrow> f k < length ps \<and> holds k (ps ! f k)"
    by blast
  have "inj_on f {V..<I}"
  proof (rule inj_onI)
    fix k k' assume "k \<in> {V..<I}" "k' \<in> {V..<I}" "f k = f k'"
    then have "holds k (ps ! f k)" "holds k' (ps ! f k)"
      using f [of k] f [of k'] by simp_all
    then show "k = k'"
      by (auto simp: holds_def)
  qed
  moreover have "f ` {V..<I} \<subseteq> {..<length ps}"
    using f by auto
  ultimately have "card {V..<I} \<le> card {..<length ps}"
    by (intro card_inj_on_le) auto
  then show ?thesis
    by simp
qed

lemma tickets_add:
  assumes "tickets_ok ps V I" "g < length ps" "ps ! g = CIdle"
  shows "tickets_ok (ps[g := CTicket I]) V (Suc I)"
proof -
  note t = tickets_okD [OF assms(1)]
  let ?ps = "ps[g := CTicket I]"
  have new: "holds k (?ps ! h) \<longleftrightarrow> (if h = g then k = I else holds k (ps ! h))" if "h < length ps" for h k
    using that assms(2) by (auto simp: holds_def)
  have old: "h \<noteq> g" if "holds k (ps ! h)" for h k
    using that assms(3) by (auto simp: holds_def)
  have "V \<le> k" if "h < length ps" "?ps ! h = CParked k" for h k
    using that t(2) [of h k] assms(2) by (cases "h = g") simp_all
  moreover have "k < Suc I" if "h < length ps" "holds k (?ps ! h)" for h k
    using that t(3) [of h k] new [of h k] by (cases "h = g") simp_all
  moreover have "\<exists>h < length ps. holds k (?ps ! h)" if kk: "V \<le> k" "k < Suc I" for k
  proof (cases "k = I")
    case True
    then show ?thesis
      using new [of g k] assms(2) by (intro exI [of _ g]) simp
  next
    case False
    then obtain h where "h < length ps" "holds k (ps ! h)"
      using t(4) [of k] kk by auto
    then show ?thesis
      using new [of h k] old [of k h] by (intro exI [of _ h]) simp
  qed
  moreover have "h = h'" if "h < length ps" "h' < length ps" "holds k (?ps ! h)" "holds k (?ps ! h')" for h h' k
    using that t(5) [of h h' k] t(3) [of h k] t(3) [of h' k] new [of h k] new [of h' k]
    by (cases "h = g"; cases "h' = g") simp_all
  ultimately show ?thesis
    using t(1) unfolding tickets_ok_def length_list_update by (simp add: le_SucI) blast
qed

lemma tickets_mono:
  assumes "tickets_ok ps V I" "length ps' = length ps" "V \<le> V'" "V' \<le> I"
    "\<And>g k. g < length ps \<Longrightarrow> holds k (ps' ! g) \<Longrightarrow> holds k (ps ! g)"
    "\<And>g k. g < length ps \<Longrightarrow> V' \<le> k \<Longrightarrow> holds k (ps ! g) \<Longrightarrow> holds k (ps' ! g)"
    "\<And>g k. g < length ps \<Longrightarrow> ps' ! g = CParked k \<Longrightarrow> V' \<le> k"
  shows "tickets_ok ps' V' I"
proof -
  note t = tickets_okD [OF assms(1)]
  have "\<exists>h < length ps. holds k (ps' ! h)" if "V' \<le> k" "k < I" for k
    using t(4) [of k] that assms(3, 6) by (meson order_trans)
  moreover have "h = h'" if "h < length ps" "h' < length ps" "holds k (ps' ! h)" "holds k (ps' ! h')" for h h' k
    using t(5) that assms(5) by blast
  moreover have "k < I" if "h < length ps" "holds k (ps' ! h)" for h k
    using t(3) that assms(5) by blast
  ultimately show ?thesis
    using assms(2, 4, 7) unfolding tickets_ok_def by auto
qed

section \<open>The invariant\<close>

definition cond_core :: "cond_sys \<Rightarrow> gr list \<Rightarrow> bool" where
  "cond_core s xs \<longleftrightarrow> length (cpcs s) < 2 ^ 31
     \<and> nl_wait (clist s) = of_nat (issued s) \<and> nl_notify (clist s) = of_nat (served s)
     \<and> gq_rep (cstore s) (nl_q (clist s)) xs
     \<and> (\<forall>g. g \<in> set xs \<longleftrightarrow> g < length (cpcs s) \<and> (\<exists>k. cpcs s ! g = CParked k))
     \<and> (\<forall>g k. g < length (cpcs s) \<and> cpcs s ! g = CParked k \<longrightarrow> notify_ticket (cstore s) g = of_nat k)
     \<and> tickets_ok (cpcs s) (served s) (issued s)"

lemma cond_coreD:
  assumes "cond_core s xs"
  shows "length (cpcs s) < 2 ^ 31" "nl_wait (clist s) = of_nat (issued s)"
    "nl_notify (clist s) = of_nat (served s)" "gq_rep (cstore s) (nl_q (clist s)) xs"
    "g \<in> set xs \<longleftrightarrow> g < length (cpcs s) \<and> (\<exists>k. cpcs s ! g = CParked k)"
    "g < length (cpcs s) \<Longrightarrow> cpcs s ! g = CParked k \<Longrightarrow> notify_ticket (cstore s) g = of_nat k"
    "tickets_ok (cpcs s) (served s) (issued s)"
  using assms unfolding cond_core_def by blast+

lemma cond_few: "cond_core s xs \<Longrightarrow> issued s - served s < 2 ^ 31"
  using tickets_few [OF cond_coreD(7), of s xs] cond_coreD(1) by fastforce

text \<open>A goroutine that is not asleep changes its program point, holding the same ticket or a
  notified one.\<close>

lemma cond_core_pc:
  assumes core: "cond_core s xs" and g: "g < length (cpcs s)"
    and p: "\<And>k. cpcs s ! g \<noteq> CParked k" "\<And>k. p \<noteq> CParked k" "\<And>k. holds k p \<Longrightarrow> holds k (cpcs s ! g)"
      "\<And>k. served s \<le> k \<Longrightarrow> holds k (cpcs s ! g) \<Longrightarrow> holds k p"
  shows "cond_core (s\<lparr>cpcs := (cpcs s)[g := p]\<rparr>) xs"
proof -
  note i = cond_coreD [OF core]
  let ?ps = "(cpcs s)[g := p]"
  have park: "?ps ! h = CParked k \<longleftrightarrow> cpcs s ! h = CParked k" if "h < length (cpcs s)" for h k
    using that g p(1, 2) by (cases "h = g") simp_all
  have "tickets_ok ?ps (served s) (issued s)"
  proof (rule tickets_mono [OF i(7)])
    show "holds k (cpcs s ! h)" if "h < length (cpcs s)" "holds k (?ps ! h)" for h k
      using that g p(3) by (cases "h = g") simp_all
    show "holds k (?ps ! h)" if "h < length (cpcs s)" "served s \<le> k" "holds k (cpcs s ! h)" for h k
      using that g p(4) by (cases "h = g") simp_all
    show "served s \<le> k" if "h < length (cpcs s)" "?ps ! h = CParked k" for h k
      using that park tickets_okD(2) [OF i(7)] by simp
  qed (use tickets_okD(1) [OF i(7)] in simp_all)
  then show ?thesis
    using i(1-6) park unfolding cond_core_def by simp blast
qed

section \<open>Every step keeps the invariant\<close>

lemma cond_add_core:
  assumes core: "cond_core s xs" and g: "g < length (cpcs s)" "cpcs s ! g = CIdle"
  shows "cond_core (s\<lparr>clist := snd (nl_Add (clist s)), issued := issued s + 1,
    cpcs := (cpcs s)[g := CTicket (issued s)]\<rparr>) xs"
proof -
  note i = cond_coreD [OF core]
  have park: "(cpcs s)[g := CTicket (issued s)] ! h = CParked k \<longleftrightarrow> cpcs s ! h = CParked k"
    if "h < length (cpcs s)" for h k
    using that g by (cases "h = g") simp_all
  show ?thesis
    using i(1-6) park tickets_add [OF i(7) g] unfolding cond_core_def nl_Add_def
    by (simp add: add.commute) blast
qed

lemma gq_rep_ticket [simp]: "gq_rep (st\<lparr>notify_ticket := f\<rparr>) q xs = gq_rep st q xs"
  by (simp add: gq_rep_def)

lemma gq_append_ticket: "notify_ticket (fst (gq_append st q g)) = notify_ticket st"
  by (simp add: gq_append_def Let_def split: option.splits)

lemma cond_park_core:
  assumes core: "cond_core s xs" and g: "g < length (cpcs s)" "cpcs s ! g = CTicket k" and k: "served s \<le> k"
    and app: "gq_append (cstore s\<lparr>notify_ticket := (notify_ticket (cstore s))(g := of_nat k)\<rparr>) (nl_q (clist s)) g = (st', q')"
  shows "cond_core (s\<lparr>cstore := st', clist := clist s\<lparr>nl_q := q'\<rparr>, cpcs := (cpcs s)[g := CParked k]\<rparr>) (xs @ [g])"
proof -
  note i = cond_coreD [OF core]
  let ?ps = "(cpcs s)[g := CParked k]"
  have gx: "g \<notin> set xs"
    using i(5) [of g] g(2) by simp
  have rep: "gq_rep st' q' (xs @ [g])" and tk: "notify_ticket st' = (notify_ticket (cstore s))(g := of_nat k)"
    using gq_append_rep [of "cstore s\<lparr>notify_ticket := (notify_ticket (cstore s))(g := of_nat k)\<rparr>" "nl_q (clist s)" xs g] i(4) gx app
      gq_append_ticket [of "cstore s\<lparr>notify_ticket := (notify_ticket (cstore s))(g := of_nat k)\<rparr>" "nl_q (clist s)" g]
    by simp_all
  have "tickets_ok ?ps (served s) (issued s)"
  proof (rule tickets_mono [OF i(7)])
    show "holds j (cpcs s ! h)" if "h < length (cpcs s)" "holds j (?ps ! h)" for h j
      using that g by (cases "h = g") (auto simp: holds_def)
    show "holds j (?ps ! h)" if "h < length (cpcs s)" "served s \<le> j" "holds j (cpcs s ! h)" for h j
      using that g by (cases "h = g") (auto simp: holds_def)
    show "served s \<le> j" if "h < length (cpcs s)" "?ps ! h = CParked j" for h j
      using that g k tickets_okD(2) [OF i(7), of h j] by (cases "h = g") simp_all
  qed (use tickets_okD(1) [OF i(7)] in simp_all)
  moreover have "h \<in> set (xs @ [g]) \<longleftrightarrow> h < length (cpcs s) \<and> (\<exists>j. ?ps ! h = CParked j)" for h
    using i(5) [of h] g by (cases "h = g") simp_all
  moreover have "notify_ticket st' h = of_nat j" if "h < length (cpcs s)" "?ps ! h = CParked j" for h j
    using that i(6) [of h j] g tk by (cases "h = g") simp_all
  ultimately show ?thesis
    using i(1-3) rep unfolding cond_core_def by simp
qed

lemma cond_wait_core:
  assumes core: "cond_core s xs" and g: "g < length (cpcs s)" "cpcs s ! g = CTicket k" "served s - k < 2 ^ 31"
    and w: "nl_Wait (cstore s) (clist s) g (of_nat k) = (st', l', parked)"
  shows "\<exists>xs'. cond_core (s\<lparr>cstore := st', clist := l', cpcs := (cpcs s)[g := if parked then CParked k else CIdle]\<rparr>) xs'"
    and "parked \<longleftrightarrow> served s \<le> k"
proof -
  note i = cond_coreD [OF core]
  have "k < issued s"
    using tickets_okD(3) [OF i(7) g(1), of k] g(2) by (simp add: holds_def)
  then have "k - served s < 2 ^ 31"
    using cond_few [OF core] by linarith
  then have less: "less_ticket (of_nat k) (nl_notify (clist s)) \<longleftrightarrow> k < served s"
    using less_ticket_iff g(3) i(3) by simp
  show "parked \<longleftrightarrow> served s \<le> k"
    using w less by (auto simp: nl_Wait_def Let_def not_le split: if_splits prod.splits)
  show "\<exists>xs'. cond_core (s\<lparr>cstore := st', clist := l', cpcs := (cpcs s)[g := if parked then CParked k else CIdle]\<rparr>) xs'"
  proof (cases "k < served s")
    case True
    then have "st' = cstore s" "l' = clist s" "\<not> parked"
      using w less by (auto simp: nl_Wait_def)
    moreover have "cond_core (s\<lparr>cpcs := (cpcs s)[g := CIdle]\<rparr>) xs"
      using g True by (intro cond_core_pc [OF core]) (auto simp: holds_def)
    ultimately show ?thesis
      by auto
  next
    case False
    then obtain q' where "gq_append (cstore s\<lparr>notify_ticket := (notify_ticket (cstore s))(g := of_nat k)\<rparr>)
        (nl_q (clist s)) g = (st', q')" "l' = clist s\<lparr>nl_q := q'\<rparr>" "parked"
      using w less by (auto simp: nl_Wait_def Let_def split: prod.splits)
    then show ?thesis
      using cond_park_core [OF core g(1, 2)] False by auto
  qed
qed

lemma nth_wake [simp]: "i < length ps \<Longrightarrow> wake gs ps ! i = (if i \<in> set gs then CIdle else ps ! i)"
  by (simp add: wake_def)

lemma length_wake [simp]: "length (wake gs ps) = length ps"
  by (simp add: wake_def)

text \<open>What the two notifications share: the tickets below \<open>V\<close> become notified, and exactly the
  sleepers that hold one of them leave the chain.\<close>

lemma cond_notify_core:
  assumes core: "cond_core s xs" and g: "g < length (cpcs s)" "cpcs s ! g = CAllLock \<or> cpcs s ! g = COneLock"
    and V: "served s \<le> V" "V \<le> issued s"
    and l': "nl_wait l' = nl_wait (clist s)" "nl_notify l' = of_nat V" "notify_ticket st' = notify_ticket (cstore s)"
      "gq_rep st' (nl_q l') ys" "set ys = set xs - set gs" "set gs \<subseteq> set xs"
    and gs: "\<And>h k. h \<in> set xs \<Longrightarrow> cpcs s ! h = CParked k \<Longrightarrow> h \<in> set gs \<longleftrightarrow> k < V"
  shows "cond_core (s\<lparr>cstore := st', clist := l', served := V, cpcs := wake gs ((cpcs s)[g := CIdle])\<rparr>) ys"
proof -
  note i = cond_coreD [OF core]
  let ?ps = "wake gs ((cpcs s)[g := CIdle])"
  have gg: "g \<notin> set xs" "\<not> holds k (cpcs s ! g)" for k
    using i(5) [of g] g(2) by (auto simp: holds_def)
  have at: "?ps ! h = (if h \<in> set gs \<or> h = g then CIdle else cpcs s ! h)" if "h < length (cpcs s)" for h
    using that by (cases "h = g") simp_all
  have woken: "\<exists>k < V. cpcs s ! h = CParked k" if "h \<in> set gs" for h
  proof -
    have "h \<in> set xs"
      using that l'(6) by blast
    then show ?thesis
      using that i(5) [of h] gs [of h] by auto
  qed
  have "tickets_ok ?ps V (issued s)"
  proof (rule tickets_mono [OF i(7) _ V])
    show "holds k (cpcs s ! h)" if "h < length (cpcs s)" "holds k (?ps ! h)" for h k
      using that at [OF that(1)] by (auto simp: holds_def split: if_splits)
    show "holds k (?ps ! h)" if "h < length (cpcs s)" "V \<le> k" "holds k (cpcs s ! h)" for h k
      using that at [OF that(1)] gg(2) [of k] woken [of h] by (cases "h = g"; cases "h \<in> set gs") (auto simp: holds_def)
    show "V \<le> k" if "h < length (cpcs s)" "?ps ! h = CParked k" for h k
      using that at [OF that(1)] gs [of h k] i(5) [of h] by (cases "h = g"; cases "h \<in> set gs") (simp_all add: not_less)
  qed simp
  moreover have "h \<in> set ys \<longleftrightarrow> h < length (cpcs s) \<and> (\<exists>k. ?ps ! h = CParked k)" for h
    unfolding l'(5) using at [of h] i(5) [of h] gg(1) by (cases "h < length (cpcs s)"; cases "h = g"; cases "h \<in> set gs") simp_all
  moreover have "notify_ticket st' h = of_nat k" if "h < length (cpcs s)" "?ps ! h = CParked k" for h k
    using that at [OF that(1)] i(6) [of h k] l'(3) by (simp split: if_splits)
  ultimately show ?thesis
    using i(1-3) l'(1, 2, 4) unfolding cond_core_def by (simp del: nth_wake)
qed

lemma cond_all_core:
  assumes core: "cond_core s xs" and g: "g < length (cpcs s)" "cpcs s ! g = CAllLock"
    and all: "nl_take_all (clist s) = (l', head)" "nl_ready_all (cstore s) head = Some (st', gs)"
  shows "cond_core (s\<lparr>cstore := st', clist := l', served := issued s, cpcs := wake gs ((cpcs s)[g := CIdle])\<rparr>) []"
proof -
  note i = cond_coreD [OF core]
  have l': "l' = clist s\<lparr>nl_q := gq_empty, nl_notify := nl_wait (clist s)\<rparr>" and head: "head = qhead (nl_q (clist s))"
    using all(1) by (simp_all add: nl_take_all_def)
  have "path (sema_next (cstore s)) head xs" "distinct xs"
    using i(4) head by (simp_all add: gq_rep_def)
  then have gs: "gs = xs" "notify_ticket st' = notify_ticket (cstore s)"
    using nl_ready_all_path all(2) by fastforce+
  have "k < issued s" if "h \<in> set xs" "cpcs s ! h = CParked k" for h k
    using that i(5) [of h] tickets_okD(3) [OF i(7), of h k] by (simp add: holds_def)
  then show ?thesis
    using g gs l' i(2) tickets_okD(1) [OF i(7)]
    by (intro cond_notify_core [OF core]) (auto simp: gq_rep_def gq_empty_def)
qed

text \<open>Tickets that are handed out and not notified are different words.\<close>

lemma ticket_word_eq:
  assumes "V \<le> k" "k \<le> I" "I - V < 2 ^ 31"
  shows "(of_nat k :: u32) = of_nat V \<longleftrightarrow> k = V"
proof
  assume "(of_nat k :: u32) = of_nat V"
  then have "(of_nat (k - V) :: u32) = 0"
    using assms(1) by (simp add: of_nat_diff)
  moreover have "k - V < 2 ^ 32"
    using assms by simp
  ultimately show "k = V"
    using assms(1) unat_of_nat [of "k - V", where 'a = 32] by simp
qed simp

lemma find_unique:
  assumes "distinct xs" "\<And>h h'. h \<in> set xs \<Longrightarrow> h' \<in> set xs \<Longrightarrow> P h \<Longrightarrow> P h' \<Longrightarrow> h = h'"
  shows "set (case find P xs of None \<Rightarrow> [] | Some h \<Rightarrow> [h]) = {h \<in> set xs. P h}"
    and "set (case find P xs of None \<Rightarrow> xs | Some h \<Rightarrow> remove1 h xs) = set xs - {h \<in> set xs. P h}"
proof -
  have some: "h \<in> set xs \<and> P h \<and> {h \<in> set xs. P h} = {h}" if "find P xs = Some h" for h
  proof -
    have "h \<in> set xs" "P h"
      using that by (auto simp: find_Some_iff)
    then show ?thesis
      using assms(2) by blast
  qed
  have none: "{h \<in> set xs. P h} = {}" if "find P xs = None"
    using that by (auto simp: find_None_iff)
  show "set (case find P xs of None \<Rightarrow> [] | Some h \<Rightarrow> [h]) = {h \<in> set xs. P h}"
    using some none by (cases "find P xs") simp_all
  show "set (case find P xs of None \<Rightarrow> xs | Some h \<Rightarrow> remove1 h xs) = set xs - {h \<in> set xs. P h}"
    using some none assms(1) by (cases "find P xs") auto
qed

lemma cond_one_core:
  assumes core: "cond_core s xs" and g: "g < length (cpcs s)" "cpcs s ! g = COneLock"
    and one: "nl_notify_one (cstore s) (clist s) = Some (st', l', found)"
  shows "\<exists>ys. cond_core (s\<lparr>cstore := st', clist := l', served := if served s = issued s then served s else served s + 1,
      cpcs := wake (case found of None \<Rightarrow> [] | Some h \<Rightarrow> [h]) ((cpcs s)[g := CIdle])\<rparr>) ys"
proof (cases "served s = issued s")
  case True
  have ge: "served s \<le> k" if "h \<in> set xs" "cpcs s ! h = CParked k" for h k
    using that cond_coreD(5) [OF core, of h] tickets_okD(2) [OF cond_coreD(7) [OF core], of h k] by simp
  have "st' = cstore s" "l' = clist s" "found = None"
    using True one cond_coreD(2, 3) [OF core] by (auto simp: nl_notify_one_def)
  then have "cond_core (s\<lparr>cstore := st', clist := l', served := served s, cpcs := wake [] ((cpcs s)[g := CIdle])\<rparr>) xs"
    using g(2) True ge cond_coreD(3, 4) [OF core] by (intro cond_notify_core [OF core g(1)]) (simp_all add: not_less)
  then show ?thesis
    using True \<open>found = None\<close> by auto
next
  case False
  note i = cond_coreD [OF core]
  let ?P = "\<lambda>h. notify_ticket (cstore s) h = nl_notify (clist s)"
  have ne: "served s < issued s"
    using False tickets_okD(1) [OF i(7)] by simp
  have "nl_notify (clist s) \<noteq> nl_wait (clist s)"
    using ticket_word_eq [of "served s" "issued s" "issued s"] ne cond_few [OF core] i(2, 3) by simp
  from nl_notify_one_rep [OF i(4) this] one
  have l': "nl_notify l' = nl_notify (clist s) + 1" "nl_wait l' = nl_wait (clist s)"
      "notify_ticket st' = notify_ticket (cstore s)" "found = find ?P xs"
      "gq_rep st' (nl_q l') (case find ?P xs of None \<Rightarrow> xs | Some h \<Rightarrow> remove1 h xs)"
    by auto
  have P: "?P h \<longleftrightarrow> k = served s" if "h \<in> set xs" "cpcs s ! h = CParked k" for h k
    using that i(3) i(5) [of h] i(6) [of h k] tickets_okD(2, 3) [OF i(7), of h k] cond_few [OF core]
      ticket_word_eq [of "served s" k "issued s"] by (simp add: holds_def less_imp_le)
  have "distinct xs"
    using i(4) by (simp add: gq_rep_def)
  have uniq: "h = h'" if hh: "h \<in> set xs" "h' \<in> set xs" "?P h" "?P h'" for h h'
  proof -
    obtain k k' where "h < length (cpcs s)" "cpcs s ! h = CParked k" "h' < length (cpcs s)" "cpcs s ! h' = CParked k'"
      using hh(1, 2) i(5) [of h] i(5) [of h'] by blast
    with P [OF hh(1)] P [OF hh(2)] hh(3, 4) show ?thesis
      using tickets_okD(5) [OF i(7), of h h' "served s"] by (simp add: holds_def)
  qed
  have ge: "served s \<le> k" if "h \<in> set xs" "cpcs s ! h = CParked k" for h k
    using that i(5) [of h] tickets_okD(2) [OF i(7), of h k] by simp
  let ?gs = "case found of None \<Rightarrow> [] | Some h \<Rightarrow> [h]"
  let ?ys = "case found of None \<Rightarrow> xs | Some h \<Rightarrow> remove1 h xs"
  have f: "set ?gs = {h \<in> set xs. ?P h}" "set ?ys = set xs - {h \<in> set xs. ?P h}"
    unfolding l'(4) by (rule find_unique [of xs ?P, OF \<open>distinct xs\<close>], erule (3) uniq)+
  have gs: "h \<in> set ?gs \<longleftrightarrow> k < served s + 1" if "h \<in> set xs" "cpcs s ! h = CParked k" for h k
    unfolding f(1) using P [OF that] ge [OF that] that(1) by auto
  have n: "nl_notify l' = of_nat (served s + 1)"
    using l'(1) i(3) by (simp add: add.commute)
  have sub: "set ?ys = set xs - set ?gs" "set ?gs \<subseteq> set xs"
    unfolding f by auto
  have "cond_core (s\<lparr>cstore := st', clist := l', served := served s + 1, cpcs := wake ?gs ((cpcs s)[g := CIdle])\<rparr>) ?ys"
    using g(2) ne by (intro cond_notify_core [OF core g(1) _ _ _ l'(2) n l'(3) l'(5) [folded l'(4)] sub gs]) simp_all
  then show ?thesis
    using False by auto
qed

lemma cond_step_core:
  assumes core: "cond_core s xs" and step: "cond_step s s'"
  shows "length (cpcs s') = length (cpcs s) \<and> (\<exists>ys. cond_core s' ys)"
  using step
proof cases
  case add
  then show ?thesis
    using cond_add_core [OF core] by auto
next
  case wait
  then show ?thesis
    using cond_wait_core(1) [OF core] by auto
next
  case (all_load g)
  then show ?thesis
    using cond_core_pc [OF core, of g] by (auto simp: holds_def)
next
  case (all_check g w)
  then show ?thesis
    using cond_core_pc [OF core, of g] by (auto simp: holds_def)
next
  case all
  then show ?thesis
    using cond_all_core [OF core] by auto
next
  case (one_load g)
  then show ?thesis
    using cond_core_pc [OF core, of g] by (auto simp: holds_def)
next
  case (one_check g w)
  then show ?thesis
    using cond_core_pc [OF core, of g] by (auto simp: holds_def)
next
  case one
  then show ?thesis
    using cond_one_core [OF core] by auto
qed

lemma cond_new_core: "n < 2 ^ 31 \<Longrightarrow> cond_core (NewCond st n) []"
  by (auto simp: cond_core_def NewCond_def nl_new_def gq_rep_def gq_empty_def tickets_ok_def holds_def)

lemma cond_reachable_core:
  assumes "cond_reachable n s" "n < 2 ^ 31"
  shows "length (cpcs s) = n \<and> (\<exists>xs. cond_core s xs)"
  using assms(1)
proof induction
  case (new st)
  then show ?case
    using cond_new_core [OF assms(2)] by (auto simp: NewCond_def)
next
  case (step s s')
  then show ?case
    using cond_step_core by fastforce
qed

section \<open>Properties\<close>


text \<open>
  C15: \<^verbatim>\<open>NotifyOne\<close> wakes the holder of the next ticket, wherever it stands in the chain.  If the
  list represents the goroutines \<open>xs\<close> and some of them hold the ticket \<^verbatim>\<open>notify\<close>, the first such
  goroutine is unlinked and returned and the others stay in order; if none does, the chain is left
  alone and nobody is woken, the ticket being marked as notified for the waiter that has yet to
  park.
\<close>

theorem notify_one_wakes_ticket:
  assumes "gq_rep st (nl_q l) xs" "nl_notify l \<noteq> nl_wait l"
  shows "\<exists>st' l'. nl_notify_one st l = Some (st', l', find (\<lambda>g. notify_ticket st g = nl_notify l) xs)
    \<and> nl_notify l' = nl_notify l + 1 \<and> nl_wait l' = nl_wait l \<and> notify_ticket st' = notify_ticket st
    \<and> gq_rep st' (nl_q l') (case find (\<lambda>g. notify_ticket st g = nl_notify l) xs of
        None \<Rightarrow> xs | Some g \<Rightarrow> remove1 g xs)"
  by (rule nl_notify_one_rep [OF assms])

section \<open>Witnesses\<close>

definition cond_ex1 :: cond_sys where
  "cond_ex1 = (let s = NewCond idle_store 2 in
     s\<lparr>clist := snd (nl_Add (clist s)), issued := issued s + 1, cpcs := (cpcs s)[0 := CTicket (issued s)]\<rparr>)"

definition cond_ex2 :: cond_sys where
  "cond_ex2 = (case nl_Wait (cstore cond_ex1) (clist cond_ex1) 0 (of_nat 0) of (st', l', parked) \<Rightarrow>
     cond_ex1\<lparr>cstore := st', clist := l', cpcs := (cpcs cond_ex1)[0 := if parked then CParked 0 else CIdle]\<rparr>)"

lemma cond_ex1_eq [simp]: "cpcs cond_ex1 = [CTicket 0, CIdle]" "served cond_ex1 = 0" "issued cond_ex1 = 1"
  "cstore cond_ex1 = idle_store" "clist cond_ex1 = nl_new\<lparr>nl_wait := 1\<rparr>"
  by (simp_all add: cond_ex1_def NewCond_def nl_Add_def nl_new_def numeral_2_eq_2 Let_def)

lemma cond_ex2_eq [simp]: "cpcs cond_ex2 = [CParked 0, CIdle]" "served cond_ex2 = 0" "issued cond_ex2 = 1"
  by (simp_all add: cond_ex2_def nl_Wait_def less_ticket_def nl_new_def gq_append_def gq_empty_def Let_def)

lemma cond_ex2_reachable: "cond_reachable 2 cond_ex2"
proof -
  have "cond_step (NewCond idle_store 2) cond_ex1"
    unfolding cond_ex1_def Let_def by (rule cond_step.add) (simp_all add: NewCond_def)
  moreover have "cond_step cond_ex1 cond_ex2"
    unfolding cond_ex2_def using cond_step.wait [of 0 cond_ex1 0] by (simp split: prod.split)
  ultimately show ?thesis
    by (meson cond_reachable.intros)
qed


definition nl_ex_store :: gstore where
  "nl_ex_store = \<lparr>sema_next = (\<lambda>g. if g = 7 then Some 8 else None), notify_ticket = (\<lambda>g. if g = 7 then 5 else 4)\<rparr>"

definition nl_ex :: notify_list where
  "nl_ex = \<lparr>nl_wait = 6, nl_notify = 4, nl_q = \<lparr>qhead = Some 7, qtail = Some 8\<rparr>\<rparr>"

theorem notify_one_wakes_ticket_witness:
  "gq_rep nl_ex_store (nl_q nl_ex) [7, 8]
   \<and> (\<exists>st' l'. nl_notify_one nl_ex_store nl_ex = Some (st', l', Some 8) \<and> nl_notify l' = 5 \<and> gq_rep st' (nl_q l') [7])"
proof -
  have rep: "gq_rep nl_ex_store (nl_q nl_ex) [7, 8]"
    by (simp add: gq_rep_def nl_ex_store_def nl_ex_def)
  have f: "find (\<lambda>g. notify_ticket nl_ex_store g = nl_notify nl_ex) [7, 8] = Some 8"
    by (simp add: nl_ex_store_def nl_ex_def)
  have "nl_notify nl_ex \<noteq> nl_wait nl_ex" "nl_notify nl_ex + 1 = 5"
    by (simp_all add: nl_ex_def)
  then show ?thesis
    using rep notify_one_wakes_ticket [OF rep] unfolding f by auto
qed

end
