(* ===== verification/Bits.thy ===== *)
theory Bits
  imports Goish_Prelude
begin

text \<open>
  Bit counting and wide arithmetic (\<^verbatim>\<open>src/src/math/bits/bits.rs\<close>) on machine words:
  the counting and permuting functions, addition and subtraction with carry, the double-width
  product and Knuth's division of a double word.  The intrinsic methods of Rust's integers that the code
  calls come first; \<^verbatim>\<open>uint\<close> is 64 bits wide and \<^verbatim>\<open>int\<close> results, which are at most 64,
  are integers.  A panic is \<open>None\<close>.
\<close>

section \<open>Intrinsics of the language\<close>

definition leading_zeros :: "'a::len word \<Rightarrow> nat" where
  "leading_zeros x = length (takeWhile (\<lambda>n. \<not> bit x n) (rev [0..<LENGTH('a)]))"

definition trailing_zeros :: "'a::len word \<Rightarrow> nat" where
  "trailing_zeros x = length (takeWhile (\<lambda>n. \<not> bit x n) [0..<LENGTH('a)])"

definition count_ones :: "'a::len word \<Rightarrow> nat" where
  "count_ones x = length (filter (bit x) [0..<LENGTH('a)])"

definition swap_bytes :: "'a::len word \<Rightarrow> 'a word" where
  "swap_bytes x =
     horner_sum of_bool 2 (map (\<lambda>n. bit x (LENGTH('a) - 8 - 8 * (n div 8) + n mod 8)) [0..<LENGTH('a)])"

section \<open>Counting and permuting\<close>

definition UintSize :: int where "UintSize = 64"

definition LeadingZeros8 :: "u8 \<Rightarrow> int" where "LeadingZeros8 x = int (leading_zeros x)"
definition LeadingZeros16 :: "u16 \<Rightarrow> int" where "LeadingZeros16 x = int (leading_zeros x)"
definition LeadingZeros32 :: "u32 \<Rightarrow> int" where "LeadingZeros32 x = int (leading_zeros x)"
definition LeadingZeros64 :: "u64 \<Rightarrow> int" where "LeadingZeros64 x = int (leading_zeros x)"
definition LeadingZeros :: "u64 \<Rightarrow> int" where "LeadingZeros x = LeadingZeros64 x"

definition TrailingZeros8 :: "u8 \<Rightarrow> int" where
  "TrailingZeros8 x = (if x = 0 then 8 else int (trailing_zeros x))"
definition TrailingZeros16 :: "u16 \<Rightarrow> int" where
  "TrailingZeros16 x = (if x = 0 then 16 else int (trailing_zeros x))"
definition TrailingZeros32 :: "u32 \<Rightarrow> int" where
  "TrailingZeros32 x = (if x = 0 then 32 else int (trailing_zeros x))"
definition TrailingZeros64 :: "u64 \<Rightarrow> int" where
  "TrailingZeros64 x = (if x = 0 then 64 else int (trailing_zeros x))"
definition TrailingZeros :: "u64 \<Rightarrow> int" where "TrailingZeros x = TrailingZeros64 x"

definition OnesCount8 :: "u8 \<Rightarrow> int" where "OnesCount8 x = int (count_ones x)"
definition OnesCount16 :: "u16 \<Rightarrow> int" where "OnesCount16 x = int (count_ones x)"
definition OnesCount32 :: "u32 \<Rightarrow> int" where "OnesCount32 x = int (count_ones x)"
definition OnesCount64 :: "u64 \<Rightarrow> int" where "OnesCount64 x = int (count_ones x)"
definition OnesCount :: "u64 \<Rightarrow> int" where "OnesCount x = OnesCount64 x"

definition RotateLeft8 :: "u8 \<Rightarrow> int \<Rightarrow> u8" where "RotateLeft8 x k = word_rotl (nat (k mod 8)) x"
definition RotateLeft16 :: "u16 \<Rightarrow> int \<Rightarrow> u16" where "RotateLeft16 x k = word_rotl (nat (k mod 16)) x"
definition RotateLeft32 :: "u32 \<Rightarrow> int \<Rightarrow> u32" where "RotateLeft32 x k = word_rotl (nat (k mod 32)) x"
definition RotateLeft64 :: "u64 \<Rightarrow> int \<Rightarrow> u64" where "RotateLeft64 x k = word_rotl (nat (k mod 64)) x"
definition RotateLeft :: "u64 \<Rightarrow> int \<Rightarrow> u64" where "RotateLeft x k = RotateLeft64 x k"

definition Reverse8 :: "u8 \<Rightarrow> u8" where "Reverse8 x = word_reverse x"
definition Reverse16 :: "u16 \<Rightarrow> u16" where "Reverse16 x = word_reverse x"
definition Reverse32 :: "u32 \<Rightarrow> u32" where "Reverse32 x = word_reverse x"
definition Reverse64 :: "u64 \<Rightarrow> u64" where "Reverse64 x = word_reverse x"
definition Reverse :: "u64 \<Rightarrow> u64" where "Reverse x = Reverse64 x"

definition ReverseBytes16 :: "u16 \<Rightarrow> u16" where "ReverseBytes16 x = swap_bytes x"
definition ReverseBytes32 :: "u32 \<Rightarrow> u32" where "ReverseBytes32 x = swap_bytes x"
definition ReverseBytes64 :: "u64 \<Rightarrow> u64" where "ReverseBytes64 x = swap_bytes x"
definition ReverseBytes :: "u64 \<Rightarrow> u64" where "ReverseBytes x = ReverseBytes64 x"

definition Len8 :: "u8 \<Rightarrow> int" where "Len8 x = 8 - int (leading_zeros x)"
definition Len16 :: "u16 \<Rightarrow> int" where "Len16 x = 16 - int (leading_zeros x)"
definition Len32 :: "u32 \<Rightarrow> int" where "Len32 x = 32 - int (leading_zeros x)"
definition Len64 :: "u64 \<Rightarrow> int" where "Len64 x = 64 - int (leading_zeros x)"
definition Len :: "u64 \<Rightarrow> int" where "Len x = Len64 x"

section \<open>Addition, subtraction, multiplication\<close>

definition Add32 :: "u32 \<Rightarrow> u32 \<Rightarrow> u32 \<Rightarrow> u32 \<times> u32" where
  "Add32 x y carry =
     (let sum64 = ucast x + ucast y + ucast carry :: u64 in (ucast sum64, ucast (drop_bit 32 sum64)))"

definition Add64 :: "u64 \<Rightarrow> u64 \<Rightarrow> u64 \<Rightarrow> u64 \<times> u64" where
  "Add64 x y carry =
     (let sum = x + y + carry in (sum, drop_bit 63 ((x AND y) OR ((x OR y) AND NOT sum))))"

definition Add :: "u64 \<Rightarrow> u64 \<Rightarrow> u64 \<Rightarrow> u64 \<times> u64" where "Add x y carry = Add64 x y carry"

definition Sub32 :: "u32 \<Rightarrow> u32 \<Rightarrow> u32 \<Rightarrow> u32 \<times> u32" where
  "Sub32 x y borrow =
     (let diff = x - y - borrow in (diff, drop_bit 31 ((NOT x AND y) OR (NOT (x XOR y) AND diff))))"

definition Sub64 :: "u64 \<Rightarrow> u64 \<Rightarrow> u64 \<Rightarrow> u64 \<times> u64" where
  "Sub64 x y borrow =
     (let diff = x - y - borrow in (diff, drop_bit 63 ((NOT x AND y) OR (NOT (x XOR y) AND diff))))"

definition Sub :: "u64 \<Rightarrow> u64 \<Rightarrow> u64 \<Rightarrow> u64 \<times> u64" where "Sub x y borrow = Sub64 x y borrow"

definition Mul32 :: "u32 \<Rightarrow> u32 \<Rightarrow> u32 \<times> u32" where
  "Mul32 x y = (let tmp = ucast x * ucast y :: u64 in (ucast (drop_bit 32 tmp), ucast tmp))"

definition Mul64 :: "u64 \<Rightarrow> u64 \<Rightarrow> u64 \<times> u64" where
  "Mul64 x y =
     (let mask32 = push_bit 32 1 - 1;
          x0 = x AND mask32; x1 = drop_bit 32 x;
          y0 = y AND mask32; y1 = drop_bit 32 y;
          w0 = x0 * y0;
          t = x1 * y0 + drop_bit 32 w0;
          w1 = (t AND mask32) + x0 * y1;
          w2 = drop_bit 32 t;
          hi = x1 * y1 + w2 + drop_bit 32 w1;
          lo = x * y
      in (hi, lo))"

definition Mul :: "u64 \<Rightarrow> u64 \<Rightarrow> u64 \<times> u64" where "Mul x y = Mul64 x y"

section \<open>Division\<close>

definition Div32 :: "u32 \<Rightarrow> u32 \<Rightarrow> u32 \<Rightarrow> (u32 \<times> u32) option" where
  "Div32 hi lo y =
     (if y = 0 then None
      else if y \<le> hi then None
      else let z = push_bit 32 (ucast hi) OR ucast lo :: u64; yy = ucast y in
        Some (ucast (z div yy), ucast (z mod yy)))"

definition two32 :: u64 where "two32 = push_bit 32 1"

text \<open>The loop that corrects a quotient digit; it is entered twice.\<close>

function div_correct :: "u64 \<Rightarrow> u64 \<Rightarrow> u64 \<Rightarrow> u64 \<Rightarrow> u64 \<Rightarrow> u64 \<times> u64" where
  "div_correct yn1 yn0 un q rhat =
     (if q \<ge> two32 \<or> q * yn0 > two32 * rhat + un then
        (let q = q - 1; rhat = rhat + yn1 in
         if rhat \<ge> two32 then (q, rhat) else div_correct yn1 yn0 un q rhat)
      else (q, rhat))"
  by pat_completeness auto
termination
proof (relation "measure (\<lambda>(yn1, yn0, un, q, rhat). unat q)", goal_cases)
  case 1
  then show ?case by simp
next
  case (2 yn1 yn0 un q rhat x xa)
  then have "q \<noteq> 0" by (auto simp: two32_def)
  with 2 show ?case by (auto simp: unat_minus_one unat_gt_0)
qed

declare div_correct.simps [simp del]

definition Div64 :: "u64 \<Rightarrow> u64 \<Rightarrow> u64 \<Rightarrow> (u64 \<times> u64) option" where
  "Div64 hi lo y0 =
     (if y0 = 0 then None
      else if y0 \<le> hi then None
      else if hi = 0 then Some (lo div y0, lo mod y0)
      else
        let s = nat (LeadingZeros64 y0);
            y = push_bit s y0;
            mask32 = two32 - 1;
            yn1 = drop_bit 32 y; yn0 = y AND mask32;
            un32 = (if s = 0 then hi else push_bit s hi OR drop_bit (64 - s) lo);
            un10 = push_bit s lo;
            un1 = drop_bit 32 un10; un0 = un10 AND mask32;
            q1 = un32 div yn1;
            rhat = un32 - q1 * yn1;
            (q1, _) = div_correct yn1 yn0 un1 q1 rhat;
            un21 = un32 * two32 + un1 - q1 * y;
            q0 = un21 div yn1;
            rhat = un21 - q0 * yn1;
            (q0, _) = div_correct yn1 yn0 un0 q0 rhat;
            quo = q1 * two32 + q0;
            rem = drop_bit s (un21 * two32 + un0 - q0 * y)
        in Some (quo, rem))"

definition Div :: "u64 \<Rightarrow> u64 \<Rightarrow> u64 \<Rightarrow> (u64 \<times> u64) option" where "Div hi lo y = Div64 hi lo y"

definition Rem32 :: "u32 \<Rightarrow> u32 \<Rightarrow> u32 \<Rightarrow> u32 option" where
  "Rem32 hi lo y =
     (if y = 0 then None else Some (ucast ((push_bit 32 (ucast hi) OR ucast lo :: u64) mod ucast y)))"

definition Rem64 :: "u64 \<Rightarrow> u64 \<Rightarrow> u64 \<Rightarrow> u64 option" where
  "Rem64 hi lo y = (if y = 0 then None else map_option snd (Div64 (hi mod y) lo y))"

definition Rem :: "u64 \<Rightarrow> u64 \<Rightarrow> u64 \<Rightarrow> u64 option" where "Rem hi lo y = Rem64 hi lo y"

end
