(* ===== verification/Bits_Props.thy ===== *)
theory Bits_Props
  imports Bits
begin

text \<open>
  Correctness of \<^verbatim>\<open>math/bits\<close>: carries, borrows and double-width products are the exact
  results of integer arithmetic, the long division returns quotient and remainder of the double word, and the
  counting and permuting functions meet their documentation.
\<close>

section \<open>One digit of the long division\<close>

lemma digit_upper:
  fixes b n1 n0 u :: nat
  assumes "0 < n1 * b + n0" "q * n0 \<le> b * r + u"
  shows "q \<le> ((q * n1 + r) * b + u) div (n1 * b + n0)"
proof -
  have "q * (n1 * b + n0) \<le> (q * n1 + r) * b + u" using assms(2) by (simp add: algebra_simps)
  with assms(1) show ?thesis by (simp add: less_eq_div_iff_mult_less_eq)
qed

lemma digit_lower:
  fixes b n1 n0 u :: nat
  assumes "0 < n1 * b + n0" "b * r + u < q * n0"
  shows "((q * n1 + r) * b + u) div (n1 * b + n0) < q"
proof -
  have "(q * n1 + r) * b + u < q * (n1 * b + n0)" using assms(2) by (simp add: algebra_simps)
  with assms(1) show ?thesis by (simp add: div_less_iff_less_mult)
qed

lemma digit_bound:
  fixes b n1 n0 u :: nat
  assumes "u < b" "v < n1 * b + n0"
  shows "(v * b + u) div (n1 * b + n0) < b"
proof -
  have "v * b + u < (v + 1) * b" using assms(1) by simp
  also have "\<dots> \<le> (n1 * b + n0) * b" using assms(2) by (intro mult_right_mono) simp_all
  finally have "v * b + u < b * (n1 * b + n0)" by (simp only: mult.commute)
  moreover have "0 < n1 * b + n0" using assms(2) by linarith
  ultimately show ?thesis by (simp add: div_less_iff_less_mult)
qed

lemma digit_guess:
  fixes b n1 n0 u :: nat
  assumes "0 < b" "n0 < b" "b \<le> 2 * n1" "v < n1 * b + n0"
  shows "v div n1 \<le> b + 1"
proof -
  have "n1 * b + n0 \<le> n1 * (b + 2)" using assms(2,3) by (simp add: algebra_simps)
  then have "v < (b + 2) * n1" using assms(4) by (simp add: mult.commute)
  moreover have "0 < n1" using assms(1,3) by simp
  ultimately have "v div n1 < b + 2" by (simp add: div_less_iff_less_mult)
  then show ?thesis by simp
qed

lemma digit_guess_upper:
  fixes b n1 n0 u :: nat
  assumes "u < b" "0 < n1"
  shows "(v * b + u) div (n1 * b + n0) \<le> v div n1"
proof -
  let ?D = "(v * b + u) div (n1 * b + n0)"
  have "?D * (n1 * b) \<le> ?D * (n1 * b + n0)" by simp
  also have "\<dots> \<le> v * b + u" by (rule div_times_less_eq_dividend)
  also have "\<dots> < (v + 1) * b" using assms(1) by simp
  finally have "(?D * n1) * b < (v + 1) * b" by (simp only: mult.assoc)
  then have "?D * n1 < v + 1" by (simp only: mult_less_cancel2)
  then have "?D * n1 \<le> v" by simp
  with assms(2) show ?thesis by (simp add: less_eq_div_iff_mult_less_eq)
qed

lemma unat_two32: "unat two32 = 2 ^ 32"
  by (simp add: two32_def)

lemma div_correct_guard:
  assumes "unat yn0 < 2 ^ 32" "unat un < 2 ^ 32" "unat rhat < 2 ^ 32"
  shows "(q \<ge> two32 \<or> q * yn0 > two32 * rhat + un) \<longleftrightarrow>
         (2 ^ 32 \<le> unat q \<or> 2 ^ 32 * unat rhat + unat un < unat q * unat yn0)"
proof (cases "2 ^ 32 \<le> unat q")
  case True
  then show ?thesis by (simp add: word_le_nat_alt unat_two32)
next
  case False
  then have "unat q * unat yn0 < 2 ^ 32 * 2 ^ 32" using assms(1) by (intro mult_strict_mono) simp_all
  then have q: "unat (q * yn0) = unat q * unat yn0" by (intro unat_mult_small) simp
  have r: "unat rhat * 2 ^ 32 + unat un < 2 ^ 64" using assms(2,3) by simp
  then have "unat (two32 * rhat) = 2 ^ 32 * unat rhat" by (subst unat_mult_small) (simp_all add: unat_two32)
  then have "unat (two32 * rhat + un) = 2 ^ 32 * unat rhat + unat un" using r
    by (subst unat_add_small) simp_all
  with q False show ?thesis by (simp add: word_le_nat_alt word_less_nat_alt unat_two32)
qed

lemma div_correct_digit:
  assumes "2 ^ 31 \<le> unat yn1" "unat yn1 < 2 ^ 32" "unat yn0 < 2 ^ 32" "unat un < 2 ^ 32"
    "unat rhat < 2 ^ 32" "unat q \<le> 2 ^ 32 + 1"
    "unat q * unat yn1 + unat rhat = v" "v < unat yn1 * 2 ^ 32 + unat yn0"
    "(v * 2 ^ 32 + unat un) div (unat yn1 * 2 ^ 32 + unat yn0) \<le> unat q"
  shows "unat (fst (div_correct yn1 yn0 un q rhat)) = (v * 2 ^ 32 + unat un) div (unat yn1 * 2 ^ 32 + unat yn0)"
  using assms
proof (induction yn1 yn0 un q rhat rule: div_correct.induct)
  case (1 yn1 yn0 un q rhat)
  let ?b = "2 ^ 32 :: nat" and ?Y = "unat yn1 * 2 ^ 32 + unat yn0"
  let ?D = "(v * ?b + unat un) div ?Y"
  have pos: "0 < ?Y" using 1(2) by simp
  note guard = div_correct_guard [OF 1(4,5,6), of q]
  show ?case
  proof (cases "q \<ge> two32 \<or> q * yn0 > two32 * rhat + un")
    case False
    then have "unat q * unat yn0 \<le> ?b * unat rhat + unat un" using guard by simp
    from digit_upper [OF pos this] 1(8,10) have "unat q = ?D" by simp
    then show ?thesis using False by (simp add: div_correct.simps [of yn1 yn0 un q])
  next
    case True
    have D: "?D < unat q"
    proof (cases "?b \<le> unat q")
      case True
      then show ?thesis using digit_bound [OF 1(5,9)] by simp
    next
      case False
      then have "?b * unat rhat + unat un < unat q * unat yn0" using True guard by simp
      from digit_lower [OF pos this] show ?thesis using 1(8) by simp
    qed
    then have q: "unat (q - 1) = unat q - 1" by (intro unat_minus_one) auto
    have r: "unat (rhat + yn1) = unat rhat + unat yn1" using 1(3,6) by (intro unat_add_small) simp
    have v: "unat (q - 1) * unat yn1 + unat (rhat + yn1) = v" unfolding q r using D 1(8)
      by (cases "unat q") (simp_all add: algebra_simps)
    show ?thesis
    proof (cases "rhat + yn1 \<ge> two32")
      case ge: True
      then have big: "?b \<le> unat (rhat + yn1)" by (simp add: word_le_nat_alt unat_two32)
      have "unat (q - 1) * unat yn0 \<le> ?b * ?b" unfolding q using 1(4,7) by (intro mult_mono) simp_all
      also have "\<dots> \<le> ?b * unat (rhat + yn1) + unat un" using big by simp
      finally have "unat (q - 1) * unat yn0 \<le> ?b * unat (rhat + yn1) + unat un" .
      from digit_upper [OF pos this] have "unat (q - 1) \<le> ?D" unfolding v .
      then have "unat (q - 1) = ?D" using D q by simp
      then show ?thesis using True ge by (simp add: div_correct.simps [of yn1 yn0 un q] Let_def)
    next
      case lt: False
      then have "unat (rhat + yn1) < ?b" by (simp add: word_le_nat_alt unat_two32)
      from 1(1) [OF True refl refl lt 1(2-5) this _ v 1(9)] D q 1(7)
      show ?thesis using True lt by (simp add: div_correct.simps [of yn1 yn0 un q] Let_def)
    qed
  qed
qed

section \<open>The long division\<close>

text \<open>A guess, its correction and the rest: one step of the schoolbook division by a normalised divisor.\<close>

lemma div_step:
  fixes un32 y un :: u64
  assumes y: "2 ^ 63 \<le> unat y" and un: "unat un < 2 ^ 32" and lt: "unat un32 < unat y"
  defines "q \<equiv> fst (div_correct (drop_bit 32 y) (y AND mask 32) un (un32 div drop_bit 32 y)
                 (un32 - un32 div drop_bit 32 y * drop_bit 32 y))"
  shows "unat q = (unat un32 * 2 ^ 32 + unat un) div unat y"
    and "unat (un32 * two32 + un - q * y) = (unat un32 * 2 ^ 32 + unat un) mod unat y"
proof -
  let ?y1 = "drop_bit 32 y" and ?y0 = "y AND mask 32"
  have y1: "unat ?y1 = unat y div 2 ^ 32" by (rule unat_drop_bit)
  have y0: "unat ?y0 = unat y mod 2 ^ 32" by (rule unat_and_mask)
  have Y: "unat ?y1 * 2 ^ 32 + unat ?y0 = unat y" unfolding y1 y0 by simp
  have b1: "2 ^ 31 \<le> unat ?y1" unfolding y1 using y by (simp add: less_eq_div_iff_mult_less_eq)
  have b2: "unat ?y1 < 2 ^ 32" unfolding y1 using unat_less_exp [of y] by (simp add: div_less_iff_less_mult)
  have b3: "unat ?y0 < 2 ^ 32" unfolding y0 by simp
  let ?q = "un32 div ?y1" and ?r = "un32 - un32 div ?y1 * ?y1"
  have q: "unat ?q = unat un32 div unat ?y1" by (rule unat_div_distrib)
  have r: "?r = un32 mod ?y1" by (simp add: minus_div_mult_eq_mod)
  have r': "unat ?r = unat un32 mod unat ?y1" unfolding r by (rule unat_mod_distrib)
  have "unat ?r < unat ?y1" unfolding r' using b1 by (intro mod_less_divisor) simp
  with b2 have rb: "unat ?r < 2 ^ 32" by simp
  have qb: "unat ?q \<le> 2 ^ 32 + 1" unfolding q
    by (rule digit_guess [of _ "unat ?y0"]) (use b1 b3 lt Y in simp_all)
  have v: "unat ?q * unat ?y1 + unat ?r = unat un32" unfolding q r' by simp
  have dle: "(unat un32 * 2 ^ 32 + unat un) div (unat ?y1 * 2 ^ 32 + unat ?y0) \<le> unat ?q"
    unfolding q by (rule digit_guess_upper) (use un b1 in simp_all)
  show 1: "unat q = (unat un32 * 2 ^ 32 + unat un) div unat y"
    using div_correct_digit [OF b1 b2 b3 un rb qb v _ dle] lt unfolding Y q_def by simp
  show "unat (un32 * two32 + un - q * y) = (unat un32 * 2 ^ 32 + unat un) mod unat y"
  proof -
    let ?n = "unat un32 * 2 ^ 32 + unat un"
    have "un32 * two32 + un - q * y = of_nat ?n - of_nat (unat q * unat y)"
      by (simp add: two32_def)
    also have "\<dots> = of_nat (?n - unat q * unat y)" unfolding 1 by (simp only: of_nat_diff [OF div_times_less_eq_dividend])
    also have "?n - unat q * unat y = ?n mod unat y" unfolding 1 by (simp only: minus_div_mult_eq_mod)
    finally have e: "un32 * two32 + un - q * y = of_nat (?n mod unat y)" .
    have "?n mod unat y < unat y" using y by (intro mod_less_divisor) simp
    also have "\<dots> < 2 ^ 64" using unat_less_exp [of y] by simp
    finally show ?thesis unfolding e by (simp add: unat_of_nat)
  qed
qed

section \<open>Counting bits\<close>

lemma leading_zeros_le: "leading_zeros (x :: 'a::len word) \<le> LENGTH('a)"
proof -
  have "length (takeWhile (\<lambda>n. \<not> bit x n) (rev [0..<LENGTH('a)])) \<le> length (rev [0..<LENGTH('a)])"
    by (rule length_takeWhile_le)
  then show ?thesis by (simp add: leading_zeros_def)
qed

lemma leading_zeros_upper: "unat (x :: 'a::len word) < 2 ^ (LENGTH('a) - leading_zeros x)"
proof (rule unat_less_pow2I)
  fix n assume n: "LENGTH('a) - leading_zeros x \<le> n"
  show "\<not> bit x n"
  proof (cases "n < LENGTH('a)")
    case True
    let ?xs = "rev [0..<LENGTH('a)]" and ?i = "LENGTH('a) - Suc n"
    have i: "?i < length (takeWhile (\<lambda>n. \<not> bit x n) ?xs)"
      using n True leading_zeros_le [of x] unfolding leading_zeros_def by auto
    from takeWhile_nth [OF i] have "takeWhile (\<lambda>n. \<not> bit x n) ?xs ! ?i = n" using True by (simp add: rev_nth)
    with nth_mem [OF i] show ?thesis by (auto dest: set_takeWhileD)
  next
    case False
    then show ?thesis by (meson bit_imp_le_length)
  qed
qed

lemma leading_zeros_lower:
  assumes "x \<noteq> 0"
  shows "leading_zeros x < LENGTH('a)" "2 ^ (LENGTH('a) - Suc (leading_zeros x)) \<le> unat (x :: 'a::len word)"
proof -
  have "leading_zeros x \<noteq> LENGTH('a)"
    using leading_zeros_upper [of x] assms by (auto simp: unat_eq_zero)
  with leading_zeros_le [of x] show 1: "leading_zeros x < LENGTH('a)" by simp
  then have "length (takeWhile (\<lambda>n. \<not> bit x n) (rev [0..<LENGTH('a)])) < length (rev [0..<LENGTH('a)])"
    by (simp add: leading_zeros_def)
  from nth_length_takeWhile [OF this] have "bit x (LENGTH('a) - Suc (leading_zeros x))"
    using 1 by (simp add: rev_nth leading_zeros_def)
  then show "2 ^ (LENGTH('a) - Suc (leading_zeros x)) \<le> unat x" by (rule bit_imp_ge_pow2)
qed

lemma trailing_zeros_spec:
  assumes "x \<noteq> 0"
  shows "2 ^ trailing_zeros x dvd unat (x :: 'a::len word)" "\<not> 2 ^ Suc (trailing_zeros x) dvd unat x"
    "trailing_zeros x < LENGTH('a)"
proof -
  let ?xs = "[0..<LENGTH('a)]"
  have le: "trailing_zeros x \<le> LENGTH('a)"
    using length_takeWhile_le [of "\<lambda>n. \<not> bit x n" ?xs] by (simp add: trailing_zeros_def)
  have low: "\<not> bit x n" if "n < trailing_zeros x" for n
  proof -
    have n: "n < length (takeWhile (\<lambda>n. \<not> bit x n) ?xs)" using that by (simp add: trailing_zeros_def)
    from takeWhile_nth [OF n] have "takeWhile (\<lambda>n. \<not> bit x n) ?xs ! n = n" using that le by simp
    with nth_mem [OF n] show ?thesis by (auto dest: set_takeWhileD)
  qed
  have "trailing_zeros x \<noteq> LENGTH('a)"
    using low assms by (metis bit_imp_le_length bit_word_eqI bit_0_eq bot_apply bot_bool_def)
  with le show 1: "trailing_zeros x < LENGTH('a)" by simp
  then have b: "bit x (trailing_zeros x)"
    using nth_length_takeWhile [of "\<lambda>n. \<not> bit x n" ?xs] by (simp add: trailing_zeros_def)
  have "take_bit (trailing_zeros x) (unat x) = 0"
    by (rule bit_eqI) (auto simp: bit_take_bit_iff bit_unsigned_iff low)
  then show d: "2 ^ trailing_zeros x dvd unat x" by (simp add: take_bit_eq_0_iff)
  have "odd (unat x div 2 ^ trailing_zeros x)" using b by (simp add: bit_word_odd)
  then show "\<not> 2 ^ Suc (trailing_zeros x) dvd unat x"
    using d by (metis dvd_mult_div_cancel mult.commute mult_dvd_mono dvd_mult_cancel1 power_Suc2 nat_mult_dvd_cancel_disj power_not_zero zero_neq_numeral)
qed

section \<open>Division of a double word\<close>

lemma push_normalised:
  fixes y :: u64
  assumes "y \<noteq> 0"
  defines "s \<equiv> leading_zeros y"
  shows "unat (push_bit s y) = unat y * 2 ^ s" "2 ^ 63 \<le> unat (push_bit s y)" "s < 64"
proof -
  have s: "s < 64" "2 ^ (63 - s) \<le> unat y" "unat y < 2 ^ (64 - s)"
    using leading_zeros_lower [OF assms(1)] leading_zeros_upper [of y] unfolding s_def by simp_all
  have "unat y * 2 ^ s < 2 ^ (64 - s) * 2 ^ s" using s(3) by simp
  also have "\<dots> = 2 ^ 64" using s(1) by (simp flip: power_add)
  finally show e: "unat (push_bit s y) = unat y * 2 ^ s" by (intro unat_push_bit_small) simp
  have "2 ^ 63 = (2 :: nat) ^ (63 - s) * 2 ^ s" using s(1) by (simp flip: power_add)
  also have "\<dots> \<le> unat y * 2 ^ s" using s(2) by simp
  finally show "2 ^ 63 \<le> unat (push_bit s y)" unfolding e .
  show "s < 64" by (fact s(1))
qed

text \<open>Shifting a double word left by less than the leading zeros of a larger divisor.\<close>

lemma shift_double:
  fixes hi lo :: u64
  assumes s: "s < 64" and hi: "unat hi * 2 ^ s < 2 ^ 64"
  defines "h \<equiv> if s = 0 then hi else push_bit s hi OR drop_bit (64 - s) lo"
  shows "unat h * 2 ^ 64 + unat (push_bit s lo) = (unat hi * 2 ^ 64 + unat lo) * 2 ^ s"
proof (cases "s = 0")
  case True
  then show ?thesis by (simp add: h_def)
next
  case False
  have "push_bit s hi AND drop_bit (64 - s) lo = 0"
    by (rule bit_word_eqI) (use False in \<open>auto simp: bit_and_iff bit_push_bit_iff bit_drop_bit_eq dest: bit_imp_le_length\<close>)
  then have e1: "unat h = unat hi * 2 ^ s + unat lo div 2 ^ (64 - s)"
    using False hi by (simp add: h_def unat_or_disjoint unat_push_bit_small unat_drop_bit)
  have e2: "unat (push_bit s lo) = (unat lo mod 2 ^ (64 - s)) * 2 ^ s"
  proof -
    have "unat (push_bit s lo) = (unat lo * 2 ^ s) mod 2 ^ 64"
      by (simp only: unsigned_push_bit_eq) (simp add: push_bit_eq_mult take_bit_eq_mod)
    also have "(2 :: nat) ^ 64 = 2 ^ (64 - s) * 2 ^ s" using s by (simp flip: power_add)
    also have "(unat lo * 2 ^ s) mod (2 ^ (64 - s) * 2 ^ s) = (unat lo mod 2 ^ (64 - s)) * 2 ^ s"
      by (simp add: mod_mult2_eq mult.commute)
    finally show ?thesis .
  qed
  have e3: "(a + d) * 2 ^ 64 + m * 2 ^ s = a * 2 ^ 64 + (d * 2 ^ (64 - s) + m) * 2 ^ s" for a d m :: nat
  proof -
    have "(2 :: nat) ^ 64 = 2 ^ (64 - s) * 2 ^ s" using s by (simp flip: power_add)
    then have "d * 2 ^ 64 = d * 2 ^ (64 - s) * 2 ^ s" by (simp only: mult.assoc)
    then show ?thesis by (simp only: distrib_right add.assoc)
  qed
  have e4: "unat lo div 2 ^ (64 - s) * 2 ^ (64 - s) + unat lo mod 2 ^ (64 - s) = unat lo" by (rule div_mult_mod_eq)
  show ?thesis unfolding e1 e2 e3 e4 by (simp add: distrib_right)
qed

lemma two_digits:
  fixes Y :: nat
  assumes "u = h * 2 ^ 64 + d1 * 2 ^ 32 + d0" "q1 = (h * 2 ^ 32 + d1) div Y" "r1 = (h * 2 ^ 32 + d1) mod Y"
    "q0 = (r1 * 2 ^ 32 + d0) div Y" "r0 = (r1 * 2 ^ 32 + d0) mod Y" "0 < Y"
  shows "u div Y = q1 * 2 ^ 32 + q0" "u mod Y = r0"
proof -
  have "h * 2 ^ 32 + d1 = q1 * Y + r1" using assms(2,3) by simp
  then have "u = (q1 * Y + r1) * 2 ^ 32 + d0" using assms(1) by (simp add: algebra_simps)
  also have "\<dots> = q1 * 2 ^ 32 * Y + (r1 * 2 ^ 32 + d0)" by (simp add: algebra_simps)
  finally have u: "u = q1 * 2 ^ 32 * Y + (r1 * 2 ^ 32 + d0)" .
  show "u div Y = q1 * 2 ^ 32 + q0" unfolding u assms(4) using assms(6) by simp
  show "u mod Y = r0" unfolding u assms(5) by simp
qed

lemma Div64_long:
  assumes "hi < y" "hi \<noteq> 0"
  shows "\<exists>q r. Div64 hi lo y = Some (q, r) \<and> unat q = (unat hi * 2 ^ 64 + unat lo) div unat y \<and>
           unat r = (unat hi * 2 ^ 64 + unat lo) mod unat y"
proof -
  define s where "s = leading_zeros y"
  have y0: "y \<noteq> 0" using assms(1) by auto
  note n = push_normalised [OF y0, folded s_def]
  define Y where "Y = push_bit s y"
  define h where "h = (if s = 0 then hi else push_bit s hi OR drop_bit (64 - s) lo)"
  define l where "l = push_bit s lo"
  have lt: "unat hi < unat y" using assms(1) by (simp add: word_less_nat_alt)
  have hs: "unat hi * 2 ^ s < 2 ^ 64"
  proof -
    have "unat hi * 2 ^ s < unat y * 2 ^ s" using lt by simp
    also have "\<dots> < 2 ^ 64" using n(1) unat_less_exp [of "push_bit s y"] by simp
    finally show ?thesis .
  qed
  have e: "unat h * 2 ^ 64 + unat l = (unat hi * 2 ^ 64 + unat lo) * 2 ^ s"
    unfolding h_def l_def by (rule shift_double [OF n(3) hs])
  have hY: "unat h < unat Y"
  proof -
    have "unat h * 2 ^ 64 \<le> (unat hi * 2 ^ 64 + unat lo) * 2 ^ s" using e by simp
    also have "\<dots> < ((unat hi + 1) * 2 ^ 64) * 2 ^ s" using unat_less_exp [of lo] by simp
    also have "\<dots> \<le> (unat y * 2 ^ 64) * 2 ^ s" using lt by (intro mult_right_mono) simp_all
    also have "\<dots> = unat Y * 2 ^ 64" unfolding Y_def n(1) by simp
    finally show ?thesis by simp
  qed
  let ?d1 = "drop_bit 32 l" and ?d0 = "l AND mask 32"
  have d1: "unat ?d1 = unat l div 2 ^ 32" by (rule unat_drop_bit)
  have d0: "unat ?d0 = unat l mod 2 ^ 32" by (rule unat_and_mask)
  have b: "unat ?d1 < 2 ^ 32" "unat ?d0 < 2 ^ 32"
    using unat_less_exp [of l] unfolding d1 d0 by (simp_all add: div_less_iff_less_mult)
  have Y: "2 ^ 63 \<le> unat Y" using n(2) unfolding Y_def .
  define q1 where "q1 = fst (div_correct (drop_bit 32 Y) (Y AND mask 32) ?d1 (h div drop_bit 32 Y)
    (h - h div drop_bit 32 Y * drop_bit 32 Y))"
  define un21 where "un21 = h * two32 + ?d1 - q1 * Y"
  note s1 = div_step [OF Y b(1) hY, folded q1_def un21_def]
  have uY: "unat un21 < unat Y" unfolding s1(2) using Y by (intro mod_less_divisor) simp
  define q0 where "q0 = fst (div_correct (drop_bit 32 Y) (Y AND mask 32) ?d0 (un21 div drop_bit 32 Y)
    (un21 - un21 div drop_bit 32 Y * drop_bit 32 Y))"
  note s2 = div_step [OF Y b(2) uY, folded q0_def]
  have u: "(unat hi * 2 ^ 64 + unat lo) * 2 ^ s = unat h * 2 ^ 64 + unat ?d1 * 2 ^ 32 + unat ?d0"
    unfolding e [symmetric] d1 d0 by simp
  have Y0: "0 < unat Y" using Y by simp
  note t = two_digits [OF u s1 s2 Y0]
  have m: "two32 - 1 = mask 32" by (simp add: two32_def mask_eq_exp_minus_1)
  have D: "Div64 hi lo y = Some (q1 * two32 + q0, drop_bit s (un21 * two32 + ?d0 - q0 * Y))"
    using assms y0 unfolding q0_def un21_def q1_def h_def l_def Y_def
    by (simp add: Div64_def Let_def LeadingZeros64_def s_def m not_le split_beta)
  let ?u = "unat hi * 2 ^ 64 + unat lo"
  have Ys: "unat Y = unat y * 2 ^ s" unfolding Y_def by (rule n(1))
  have "?u * 2 ^ s div unat Y = ?u div unat y" unfolding Ys by simp
  then have q: "unat q1 * 2 ^ 32 + unat q0 = ?u div unat y" using t(1) by simp
  have "?u < (unat hi + 1) * 2 ^ 64" using unat_less_exp [of lo] by simp
  also have "\<dots> \<le> unat y * 2 ^ 64" using lt by (intro mult_right_mono) simp_all
  finally have "?u div unat y < 2 ^ 64" using lt by (simp add: div_less_iff_less_mult mult.commute)
  then have "unat (q1 * two32 + q0) = ?u div unat y"
    unfolding q [symmetric] by (simp add: unat_word_ariths unat_two32)
  moreover have "unat (drop_bit s (un21 * two32 + ?d0 - q0 * Y)) = ?u mod unat y"
  proof -
    have "unat (un21 * two32 + ?d0 - q0 * Y) = ?u * 2 ^ s mod unat Y" using t(2) by simp
    also have "\<dots> = (?u mod unat y) * 2 ^ s" unfolding Ys by (simp add: mult_mod_left)
    finally show ?thesis by (simp add: unat_drop_bit)
  qed
  ultimately show ?thesis using D by blast
qed

lemma Div64_spec:
  assumes "hi < y"
  shows "\<exists>q r. Div64 hi lo y = Some (q, r) \<and> unat q = (unat hi * 2 ^ 64 + unat lo) div unat y \<and>
           unat r = (unat hi * 2 ^ 64 + unat lo) mod unat y"
proof (cases "hi = 0")
  case True
  with assms have "Div64 hi lo y = Some (lo div y, lo mod y)" by (auto simp: Div64_def not_le)
  with True show ?thesis by (simp add: unat_div_distrib unat_mod_distrib)
next
  case False
  with assms show ?thesis by (rule Div64_long)
qed

section \<open>Carries, borrows, products\<close>

lemma top_bit: "bit (x :: 'a::len word) (LENGTH('a) - 1) \<longleftrightarrow> 2 ^ (LENGTH('a) - 1) \<le> unat x"
proof -
  have "unat x < 2 ^ (LENGTH('a) - 1) * 2" using unat_less_exp [of x]
    by (metis One_nat_def Suc_pred len_gt_0 power_Suc2)
  then have "unat x div 2 ^ (LENGTH('a) - 1) < 2" by (simp add: div_less_iff_less_mult mult.commute)
  then have "odd (unat x div 2 ^ (LENGTH('a) - 1)) \<longleftrightarrow> unat x div 2 ^ (LENGTH('a) - 1) \<noteq> 0"
    by (metis One_nat_def even_zero less_2_cases odd_one)
  also have "\<dots> \<longleftrightarrow> 2 ^ (LENGTH('a) - 1) \<le> unat x" by (simp add: div_eq_0_iff not_less)
  finally show ?thesis by (simp add: bit_word_odd)
qed

lemma drop_top: "unat (drop_bit (LENGTH('a) - 1) (x :: 'a::len word)) = of_bool (bit x (LENGTH('a) - 1))"
proof -
  have "unat x < 2 ^ (LENGTH('a) - 1) * 2" using unat_less_exp [of x]
    by (metis One_nat_def Suc_pred len_gt_0 power_Suc2)
  then have "unat x div 2 ^ (LENGTH('a) - 1) < 2" by (simp add: div_less_iff_less_mult mult.commute)
  then have "unat x div 2 ^ (LENGTH('a) - 1) = of_bool (odd (unat x div 2 ^ (LENGTH('a) - 1)))"
    by (metis even_zero less_2_cases of_bool_eq(1) of_bool_eq(2) odd_one One_nat_def)
  then show ?thesis by (simp add: unat_drop_bit bit_word_odd)
qed

lemma carry_out:
  fixes x y c :: "'a::len word"
  assumes "unat c \<le> 1" "1 < LENGTH('a)"
  defines "z \<equiv> x + y + c" and "n \<equiv> LENGTH('a) - 1"
  shows "unat z + 2 ^ LENGTH('a) * unat (drop_bit n ((x AND y) OR ((x OR y) AND NOT z))) = unat x + unat y + unat c"
proof -
  let ?h = "2 ^ n :: nat"
  have E: "2 ^ LENGTH('a) = 2 * ?h" using assms(2) unfolding n_def by (metis One_nat_def Suc_pred len_gt_0 power_Suc)
  have b: "unat x < 2 * ?h" "unat y < 2 * ?h" using unat_less_exp [of x] unat_less_exp [of y] unfolding E .
  let ?S = "unat x + unat y + unat c"
  have z: "unat z = ?S mod (2 * ?h)" unfolding z_def by (simp add: unat_word_ariths E mod_add_left_eq)
  have z': "unat z = (if ?S < 2 * ?h then ?S else ?S - 2 * ?h)"
    using b assms(1) unfolding z by (auto simp: mod_if [of ?S])
  have n: "n < LENGTH('a)" unfolding n_def by simp
  have t: "bit x n \<longleftrightarrow> ?h \<le> unat x" "bit y n \<longleftrightarrow> ?h \<le> unat y" "bit z n \<longleftrightarrow> ?h \<le> unat z"
    unfolding n_def by (rule top_bit)+
  have d: "unat (drop_bit n ((x AND y) OR ((x OR y) AND NOT z))) = of_bool (bit x n \<and> bit y n \<or> (bit x n \<or> bit y n) \<and> \<not> bit z n)"
    using drop_top [of "(x AND y) OR ((x OR y) AND NOT z)"] n unfolding n_def
    by (simp add: bit_and_iff bit_or_iff bit_not_iff)
  show ?thesis unfolding d E t using z' b assms(1) by (auto split: if_splits)
qed

lemma borrow_out:
  fixes x y c :: "'a::len word"
  assumes "unat c \<le> 1" "1 < LENGTH('a)"
  defines "z \<equiv> x - y - c" and "n \<equiv> LENGTH('a) - 1"
  shows "unat x + 2 ^ LENGTH('a) * unat (drop_bit n ((NOT x AND y) OR (NOT (x XOR y) AND z))) = unat z + unat y + unat c"
proof -
  let ?h = "2 ^ n :: nat"
  have E: "2 ^ LENGTH('a) = 2 * ?h" using assms(2) unfolding n_def by (metis One_nat_def Suc_pred len_gt_0 power_Suc)
  have b: "unat x < 2 * ?h" "unat y < 2 * ?h" "unat z < 2 * ?h"
    using unat_less_exp [of x] unat_less_exp [of y] unat_less_exp [of z] unfolding E .
  have h: "1 \<le> ?h" by simp
  have "x = z + y + c" unfolding z_def by simp
  then have "unat x = (unat z + unat y + unat c) mod (2 * ?h)" by (metis E mod_add_left_eq unat_word_ariths(1))
  then have x': "unat x = (if unat z + unat y + unat c < 2 * ?h then unat z + unat y + unat c
      else unat z + unat y + unat c - 2 * ?h)"
    using b assms(1) h by (auto simp: mod_if [of "unat z + unat y + unat c"])
  have n: "n < LENGTH('a)" unfolding n_def by simp
  have t: "bit x n \<longleftrightarrow> ?h \<le> unat x" "bit y n \<longleftrightarrow> ?h \<le> unat y" "bit z n \<longleftrightarrow> ?h \<le> unat z"
    unfolding n_def by (rule top_bit)+
  have d: "unat (drop_bit n ((NOT x AND y) OR (NOT (x XOR y) AND z))) =
      of_bool (\<not> bit x n \<and> bit y n \<or> (bit x n = bit y n) \<and> bit z n)"
    using drop_top [of "(NOT x AND y) OR (NOT (x XOR y) AND z)"] n unfolding n_def
    by (simp add: bit_and_iff bit_or_iff bit_not_iff bit_xor_iff)
  show ?thesis unfolding d E t using x' b assms(1) by (auto split: if_splits)
qed

lemma mul_halves:
  fixes b :: nat
  assumes "x0 < b" "x1 < b" "y0 < b" "y1 < b"
  defines "w0 \<equiv> x0 * y0" and "t \<equiv> x1 * y0 + x0 * y0 div b" and "w1 \<equiv> (x1 * y0 + x0 * y0 div b) mod b + x0 * y1"
  shows "(x1 * b + x0) * (y1 * b + y0) div (b * b) = x1 * y1 + t div b + w1 div b" "t < b * b" "w1 < b * b" "w0 < b * b"
proof -
  have b0: "0 < b" using assms(1) by simp
  have p: "u * v \<le> (b - 1) * (b - 1)" if "u < b" "v < b" for u v
    using that by (intro mult_mono) simp_all
  have sq: "(b - 1) * (b - 1) + (b - 1) < b * b"
    using b0 by (cases b) (simp_all add: algebra_simps)
  show w0: "w0 < b * b" using p [OF assms(1,3)] sq unfolding w0_def by simp
  then have "w0 div b \<le> b - 1" using b0 by (simp add: div_less_iff_less_mult less_Suc_eq_le [symmetric])
  then show "t < b * b" using p [OF assms(2,3)] sq unfolding t_def w0_def [symmetric] by linarith
  have "t mod b \<le> b - 1" using b0 by (simp add: less_Suc_eq_le [symmetric])
  then show w1: "w1 < b * b" using p [OF assms(1,4)] sq unfolding w1_def t_def [symmetric] by linarith
  let ?r = "w1 mod b * b + w0 mod b"
  have "?r < b * b"
  proof -
    have "w1 mod b * b \<le> (b - 1) * b" using b0 by (intro mult_right_mono) (simp_all add: less_Suc_eq_le [symmetric])
    moreover have "w0 mod b < b" using b0 by simp
    moreover have "(b - 1) * b + b = b * b" using b0 by (cases b) simp_all
    ultimately show ?thesis by linarith
  qed
  moreover have "(x1 * b + x0) * (y1 * b + y0) = (x1 * y1 + t div b + w1 div b) * (b * b) + ?r"
  proof -
    have 0: "w0 = w0 div b * b + w0 mod b" and 1: "t = t div b * b + t mod b" and 2: "w1 = w1 div b * b + w1 mod b" by simp_all
    have "(x1 * b + x0) * (y1 * b + y0) = x1 * y1 * (b * b) + (x1 * y0) * b + (x0 * y1) * b + w0"
      by (simp add: w0_def algebra_simps)
    also have "\<dots> = x1 * y1 * (b * b) + (x1 * y0 + w0 div b) * b + (x0 * y1) * b + w0 mod b"
      using 0 by (simp add: distrib_right)
    also have "\<dots> = x1 * y1 * (b * b) + t * b + (x0 * y1) * b + w0 mod b" by (simp add: t_def w0_def)
    also have "\<dots> = x1 * y1 * (b * b) + t div b * (b * b) + (t mod b + x0 * y1) * b + w0 mod b"
      using 1 by (metis (no_types, lifting) add.assoc distrib_right mult.assoc)
    also have "\<dots> = x1 * y1 * (b * b) + t div b * (b * b) + w1 * b + w0 mod b" by (simp add: w1_def t_def)
    also have "\<dots> = x1 * y1 * (b * b) + t div b * (b * b) + w1 div b * (b * b) + w1 mod b * b + w0 mod b"
      using 2 by (metis (no_types, lifting) add.assoc distrib_right mult.assoc)
    finally show ?thesis by (simp only: distrib_right add.assoc)
  qed
  ultimately show "(x1 * b + x0) * (y1 * b + y0) div (b * b) = x1 * y1 + t div b + w1 div b"
    using b0 by simp
qed

lemma Mul64_spec: "unat (fst (Mul64 x y)) = unat x * unat y div 2 ^ 64" "unat (snd (Mul64 x y)) = unat x * unat y mod 2 ^ 64"
proof -
  let ?x0 = "x AND mask 32" and ?x1 = "drop_bit 32 x" and ?y0 = "y AND mask 32" and ?y1 = "drop_bit 32 y"
  have u: "unat ?x0 = unat x mod 2 ^ 32" "unat ?y0 = unat y mod 2 ^ 32"
    "unat ?x1 = unat x div 2 ^ 32" "unat ?y1 = unat y div 2 ^ 32"
    by (rule unat_and_mask unat_drop_bit)+
  have b: "unat ?x0 < 2 ^ 32" "unat ?x1 < 2 ^ 32" "unat ?y0 < 2 ^ 32" "unat ?y1 < 2 ^ 32"
    using unat_less_exp [of x] unat_less_exp [of y] unfolding u by (simp_all add: div_less_iff_less_mult)
  note m = mul_halves [OF b]
  define w0 where "w0 = ?x0 * ?y0"
  define t where "t = ?x1 * ?y0 + drop_bit 32 w0"
  define w1 where "w1 = (t AND mask 32) + ?x0 * ?y1"
  have w0: "unat w0 = unat ?x0 * unat ?y0" unfolding w0_def using m(4) by (intro unat_mult_small) simp
  have d: "unat (drop_bit 32 w0) = unat ?x0 * unat ?y0 div 2 ^ 32" by (simp only: unat_drop_bit w0)
  have "unat (?x1 * ?y0) = unat ?x1 * unat ?y0" using m(2) by (intro unat_mult_small) simp
  then have t: "unat t = unat ?x1 * unat ?y0 + unat ?x0 * unat ?y0 div 2 ^ 32"
    unfolding t_def using m(2) d by (subst unat_add_small) simp_all
  have "unat (?x0 * ?y1) = unat ?x0 * unat ?y1" using m(3) by (intro unat_mult_small) simp
  then have w1: "unat w1 = unat t mod 2 ^ 32 + unat ?x0 * unat ?y1"
    unfolding w1_def using m(3) t unat_and_mask [of t 32] by (subst unat_add_small) simp_all
  let ?hi = "?x1 * ?y1 + drop_bit 32 t + drop_bit 32 w1"
  have S: "unat x * unat y div 2 ^ 64 = unat ?x1 * unat ?y1 + unat t div 2 ^ 32 + unat w1 div 2 ^ 32"
  proof -
    have "unat ?x1 * 2 ^ 32 + unat ?x0 = unat x" "unat ?y1 * 2 ^ 32 + unat ?y0 = unat y" unfolding u by simp_all
    with m(1) show ?thesis unfolding w1 t by simp
  qed
  have "unat x * unat y < 2 ^ 64 * 2 ^ 64" by (intro mult_strict_mono) (use unat_less_exp [of x] unat_less_exp [of y] in simp_all)
  then have lt: "unat x * unat y div 2 ^ 64 < 2 ^ 64" by (simp add: div_less_iff_less_mult)
  have "unat ?hi = (unat ?x1 * unat ?y1 + unat t div 2 ^ 32 + unat w1 div 2 ^ 32) mod 2 ^ 64"
    by (simp add: unat_word_ariths mod_simps unat_drop_bit)
  then have h: "unat ?hi = unat x * unat y div 2 ^ 64" unfolding S [symmetric] using lt by simp
  have k: "push_bit 32 1 - 1 = (mask 32 :: u64)" by (simp add: mask_eq_exp_minus_1)
  show "unat (fst (Mul64 x y)) = unat x * unat y div 2 ^ 64"
    using h unfolding w1_def t_def w0_def by (simp only: Mul64_def Let_def k fst_conv)
  show "unat (snd (Mul64 x y)) = unat x * unat y mod 2 ^ 64"
    by (simp add: Mul64_def Let_def unat_word_ariths)
qed

section \<open>Reversals and rotations\<close>

lemma bit_swap_bytes: "bit (swap_bytes (x :: 'a::len word)) n \<longleftrightarrow>
    n < LENGTH('a) \<and> bit x (LENGTH('a) - 8 - 8 * (n div 8) + n mod 8)"
  by (auto simp: swap_bytes_def bit_horner_sum_bit_word_iff)

lemma swap_bytes_involution:
  assumes "8 dvd LENGTH('a)"
  shows "swap_bytes (swap_bytes x) = (x :: 'a::len word)"
proof (rule bit_word_eqI)
  fix n assume n: "n < LENGTH('a)"
  obtain m where m: "LENGTH('a) = 8 * m" using assms by blast
  obtain a r where a: "n = 8 * a + r" "r < 8" using mod_less_divisor [of 8 n] by (metis mult_div_mod_eq zero_less_numeral)
  have "a < m" using n m a by simp
  then obtain k where k: "m = Suc (a + k)" using less_iff_Suc_add by auto
  have "LENGTH('a) - 8 - 8 * (n div 8) + n mod 8 = 8 * k + r" using m a k by simp
  moreover have "8 * k + r < LENGTH('a)" using m k a(2) by simp
  moreover have "LENGTH('a) - 8 - 8 * ((8 * k + r) div 8) + (8 * k + r) mod 8 = n" using m a k by simp
  ultimately show "bit (swap_bytes (swap_bytes x)) n = bit x n" using n by (simp add: bit_swap_bytes)
qed

lemma word_rotr_cycle: "LENGTH('a) dvd m \<Longrightarrow> word_rotr m x = (x :: 'a::len word)"
  by (rule bit_word_eqI) (auto simp: bit_word_rotr_iff elim!: dvdE)

lemma rotl_rotl_back:
  assumes "int LENGTH('a) = L"
  shows "word_rotl (nat (- k mod L)) (word_rotl (nat (k mod L)) x) = (x :: 'a::len word)"
proof -
  have L: "0 < L" using assms by (metis len_gt_0 of_nat_0_less_iff)
  let ?a = "nat (- k mod L)" and ?b = "nat (k mod L)" and ?l = "LENGTH('a)"
  have lt: "?a < ?l" "?b < ?l" using pos_mod_bound [OF L] pos_mod_sign [OF L] assms by (metis nat_less_iff nat_int of_nat_less_iff)+
  have "?a + ?b = 0 \<or> ?a + ?b = ?l"
  proof (cases "k mod L = 0")
    case True
    then have "- k mod L = 0" by (simp add: zmod_zminus1_eq_if)
    with True show ?thesis by simp
  next
    case False
    then have "- k mod L + k mod L = L" by (simp add: zmod_zminus1_eq_if)
    moreover have "0 \<le> - k mod L" "0 \<le> k mod L" using L by simp_all
    ultimately show ?thesis using assms by (metis nat_add_distrib nat_int)
  qed
  then have "(?l - ?a) + (?l - ?b) = 2 * ?l \<or> (?l - ?a) + (?l - ?b) = ?l" using lt by linarith
  then have "?l dvd (?l - ?a) + (?l - ?b)" by (elim disjE) (simp_all only: dvd_refl dvd_triv_right)
  then show ?thesis using lt
    by (simp add: word_rotl_eq_word_rotr word_rotr_word_rotr_eq word_rotr_cycle)
qed

section \<open>Properties\<close>

text \<open>
  C25: the long division.  \<^verbatim>\<open>Div64\<close> panics exactly when the divisor is zero or the quotient would not
  fit, and otherwise returns quotient and remainder of the 128-bit dividend, although every intermediate value has
  64 bits and wraps.  The correction loops end.
\<close>

theorem Div64_correct:
  "case Div64 hi lo y of
     None \<Rightarrow> y = 0 \<or> y \<le> hi
   | Some (q, r) \<Rightarrow> y \<noteq> 0 \<and> hi < y \<and> unat hi * 2 ^ 64 + unat lo = unat q * unat y + unat r \<and> unat r < unat y"
proof (cases "hi < y")
  case True
  then obtain q r where d: "Div64 hi lo y = Some (q, r)" "unat q = (unat hi * 2 ^ 64 + unat lo) div unat y"
    "unat r = (unat hi * 2 ^ 64 + unat lo) mod unat y"
    using Div64_spec by blast
  have "0 < unat y" using True by (auto simp: word_less_nat_alt)
  then show ?thesis using True d by auto
next
  case False
  then have "y \<le> hi" by simp
  then have "Div64 hi lo y = None" by (auto simp: Div64_def)
  with \<open>y \<le> hi\<close> show ?thesis by simp
qed

text \<open>
  C26: the double-width product is exact, and the long division takes it apart again: dividing it by a nonzero
  factor gives the other factor and no remainder.
\<close>

theorem Mul64_Div64_roundtrip:
  assumes "Mul64 x y = (hi, lo)"
  shows "unat hi * 2 ^ 64 + unat lo = unat x * unat y \<and> (y \<noteq> 0 \<longrightarrow> Div64 hi lo y = Some (x, 0))"
proof -
  have e: "unat hi * 2 ^ 64 + unat lo = unat x * unat y"
    using Mul64_spec [of x y] unfolding assms fst_conv snd_conv by (simp only: div_mult_mod_eq)
  have "Div64 hi lo y = Some (x, 0)" if y: "y \<noteq> 0"
  proof -
    have pos: "0 < unat y" using y by (simp add: unat_gt_0)
    have "unat hi * 2 ^ 64 \<le> unat x * unat y" using e by simp
    also have "\<dots> < 2 ^ 64 * unat y" using unat_less_exp [of x] pos by (intro mult_strict_right_mono) simp_all
    finally have "unat hi < unat y" by (simp only: mult.commute [of "unat hi"] mult_less_cancel1)
    then have "hi < y" by (simp only: word_less_nat_alt)
    then obtain q r where d: "Div64 hi lo y = Some (q, r)" "unat q = unat x * unat y div unat y"
      "unat r = unat x * unat y mod unat y"
      using Div64_spec [of hi y lo] unfolding e by blast
    then have "unat q = unat x" "unat r = 0" using pos by simp_all
    then have "q = x" "r = 0" by (simp_all only: word_unat_eq_iff unsigned_0)
    with d(1) show ?thesis by simp
  qed
  with e show ?thesis by blast
qed

theorem Mul64_Div64_roundtrip_witness:
  "Mul64 0x8000000000000001 6 = (3, 6) \<and> Div64 3 6 6 = Some (0x8000000000000001, 0)"
proof -
  have m: "Mul64 0x8000000000000001 6 = (3, 6)" by code_simp
  with Mul64_Div64_roundtrip [OF m] show ?thesis by simp
qed

text \<open>
  C27: carries and borrows are exact.  With a carry of at most one, sum and carry out of \<^verbatim>\<open>Add64\<close> and
  \<^verbatim>\<open>Add32\<close>, and difference and borrow out of \<^verbatim>\<open>Sub64\<close> and \<^verbatim>\<open>Sub32\<close>, are those of
  the unbounded integers: no overflow is lost.
\<close>

theorem carry_exact:
  assumes "unat c \<le> 1" "unat d \<le> 1"
  shows "(case Add64 x y c of (s, co) \<Rightarrow> unat s + 2 ^ 64 * unat co = unat x + unat y + unat c) \<and>
         (case Sub64 x y c of (s, bo) \<Rightarrow> unat x + 2 ^ 64 * unat bo = unat s + unat y + unat c) \<and>
         (case Add32 u v d of (s, co) \<Rightarrow> unat s + 2 ^ 32 * unat co = unat u + unat v + unat d) \<and>
         (case Sub32 u v d of (s, bo) \<Rightarrow> unat u + 2 ^ 32 * unat bo = unat s + unat v + unat d)"
proof (intro conjI)
  show "case Add64 x y c of (s, co) \<Rightarrow> unat s + 2 ^ 64 * unat co = unat x + unat y + unat c"
    using carry_out [OF assms(1), of x y] by (simp add: Add64_def Let_def)
  show "case Sub64 x y c of (s, bo) \<Rightarrow> unat x + 2 ^ 64 * unat bo = unat s + unat y + unat c"
    using borrow_out [OF assms(1), of x y] by (simp add: Sub64_def Let_def)
  show "case Sub32 u v d of (s, bo) \<Rightarrow> unat u + 2 ^ 32 * unat bo = unat s + unat v + unat d"
    using borrow_out [OF assms(2), of u v] by (simp add: Sub32_def Let_def)
  have "unat (ucast u + ucast v + ucast d :: u64) = unat u + unat v + unat d"
    using unat_less_exp [of u] unat_less_exp [of v] unat_less_exp [of d]
    by (simp add: unat_word_ariths unsigned_ucast_eq take_bit_nat_eq_self)
  then show "case Add32 u v d of (s, co) \<Rightarrow> unat s + 2 ^ 32 * unat co = unat u + unat v + unat d"
    using unat_less_exp [of u] unat_less_exp [of v] unat_less_exp [of d]
    by (simp add: Add32_def Let_def unsigned_ucast_eq unat_drop_bit take_bit_eq_mod div_less_iff_less_mult)
qed

theorem carry_exact_witness:
  "Add64 (- 1) 0 1 = (0, 1) \<and> Sub64 0 (- 1) 1 = (0, 1) \<and> Add32 (- 1) (- 1) 1 = (- 1, 1) \<and> Sub32 0 1 1 = (- 2, 1) \<and>
   (case Add64 (- 1) 0 1 of (s, co) \<Rightarrow> unat s + 2 ^ 64 * unat co = unat (- 1 :: u64) + unat (0 :: u64) + unat (1 :: u64))"
proof -
  have "unat (1 :: u64) \<le> 1" "unat (1 :: u32) \<le> 1" by simp_all
  from carry_exact [OF this, of "- 1" 0 0 1]
  have "case Add64 (- 1) 0 1 of (s, co) \<Rightarrow> unat s + 2 ^ 64 * unat co = unat (- 1 :: u64) + unat (0 :: u64) + unat (1 :: u64)"
    by (rule conjunct1)
  moreover have "Add64 (- 1) 0 1 = (0, 1)" by code_simp
  moreover have "Sub64 0 (- 1) 1 = (0, 1)" by code_simp
  moreover have "Add32 (- 1) (- 1) 1 = (- 1, 1)" by code_simp
  moreover have "Sub32 0 1 1 = (- 2, 1)" by code_simp
  ultimately show ?thesis by blast
qed

text \<open>
  C28: the counts.  \<^verbatim>\<open>Len64\<close> is the least number of bits that represents \<open>x\<close>, the leading zeros are
  the rest of the word, and a nonzero \<open>x\<close> is divisible by two exactly \<^verbatim>\<open>TrailingZeros64\<close> times.
\<close>

theorem bit_counts:
  "unat x < 2 ^ nat (Len64 x) \<and> (x = 0 \<longrightarrow> Len64 x = 0) \<and> (x \<noteq> 0 \<longrightarrow> 2 ^ (nat (Len64 x) - 1) \<le> unat x) \<and>
   LeadingZeros64 x + Len64 x = 64 \<and> 0 \<le> Len64 x \<and>
   (if x = 0 then TrailingZeros64 x = 64
    else 2 ^ nat (TrailingZeros64 x) dvd unat x \<and> \<not> 2 ^ Suc (nat (TrailingZeros64 x)) dvd unat x)"
proof -
  have le: "leading_zeros x \<le> 64" using leading_zeros_le [of x] by simp
  then have n: "nat (Len64 x) = 64 - leading_zeros x" by (simp add: Len64_def)
  have "leading_zeros (0 :: u64) = 64" by (simp add: leading_zeros_def takeWhile_eq_all_conv [THEN iffD2])
  moreover have "2 ^ (nat (Len64 x) - 1) \<le> unat x" if "x \<noteq> 0"
    using leading_zeros_lower(2) [OF that] unfolding n by simp
  ultimately show ?thesis
    using leading_zeros_upper [of x] le trailing_zeros_spec [of x] unfolding n
    by (auto simp: Len64_def LeadingZeros64_def TrailingZeros64_def)
qed

theorem bit_counts_witness:
  "Len64 40 = 6 \<and> TrailingZeros64 40 = 3 \<and> unat (40 :: u64) < 2 ^ nat (Len64 40)"
proof -
  have "Len64 40 = 6" by code_simp
  moreover have "TrailingZeros64 40 = 3" by code_simp
  ultimately show ?thesis using bit_counts [of 40] by blast
qed


end
