(* ===== verification/Utf8.thy ===== *)
theory Utf8
  imports Goish_Prelude
begin

text \<open>
  UTF-8 (\<^verbatim>\<open>src/src/unicode/utf8/utf8.rs\<close>): decoding and encoding of runes, counting and
  validation.  A \<^verbatim>\<open>byte\<close> is an 8-bit word and a \<^verbatim>\<open>rune\<close> a 32-bit word that the code
  compares as a signed number; \<^verbatim>\<open>touint32\<close> reads the same word as unsigned.  An index out of range
  is a panic, the result \<open>None\<close>.
\<close>

section \<open>Constants\<close>

type_synonym rune = "32 word"

definition RuneError :: rune where "RuneError = 0xFFFD"
definition RuneSelf :: u8 where "RuneSelf = 0x80"
definition MaxRune :: rune where "MaxRune = 0x10FFFF"
definition UTFMax :: nat where "UTFMax = 4"
definition surrogateMin :: rune where "surrogateMin = 0xD800"
definition surrogateMax :: rune where "surrogateMax = 0xDFFF"
definition tx :: u8 where "tx = 0b10000000"
definition t2 :: u8 where "t2 = 0b11000000"
definition t3 :: u8 where "t3 = 0b11100000"
definition t4 :: u8 where "t4 = 0b11110000"
definition maskx :: u8 where "maskx = 0b00111111"
definition rune1Max :: rune where "rune1Max = push_bit 7 1 - 1"
definition rune2Max :: rune where "rune2Max = push_bit 11 1 - 1"
definition rune3Max :: rune where "rune3Max = push_bit 16 1 - 1"
definition runeErrorByte0 :: u8 where "runeErrorByte0 = t3 OR ucast (signed_drop_bit 12 RuneError)"
definition runeErrorByte1 :: u8 where "runeErrorByte1 = tx OR (ucast (signed_drop_bit 6 RuneError) AND maskx)"
definition runeErrorByte2 :: u8 where "runeErrorByte2 = tx OR (ucast RuneError AND maskx)"

lemmas utf8_consts = RuneError_def RuneSelf_def MaxRune_def UTFMax_def surrogateMin_def surrogateMax_def
  tx_def t2_def t3_def t4_def maskx_def rune1Max_def rune2Max_def rune3Max_def

section \<open>Decoding\<close>

text \<open>The length the lead byte announces; \<open>None\<close> for a byte that cannot lead.\<close>

definition lead_len :: "u8 \<Rightarrow> nat option" where
  "lead_len b0 =
     (if b0 AND 0xE0 = 0xC0 then Some 2 else if b0 AND 0xF0 = 0xE0 then Some 3
      else if b0 AND 0xF8 = 0xF0 then Some 4 else None)"

definition lead_mask :: "nat \<Rightarrow> u8" where
  "lead_mask n = (if n = 2 then 0x1F else if n = 3 then 0x0F else 0x07)"

fun decode_rest :: "u8 list \<Rightarrow> rune \<Rightarrow> rune option" where
  "decode_rest [] r = Some r"
| "decode_rest (bi # bs) r =
     (if bi AND 0xC0 \<noteq> 0x80 then None else decode_rest bs (push_bit 6 r OR ucast (bi AND 0x3F)))"

text \<open>Overlong, beyond the last code point, or a surrogate half.\<close>

definition bad_rune :: "nat \<Rightarrow> rune \<Rightarrow> bool" where
  "bad_rune n r \<longleftrightarrow>
     (let min = (if n = 2 then 0x80 else if n = 3 then 0x800 else if n = 4 then 0x10000 else 0) in
      sint r < min \<or> sint r > sint MaxRune \<or> (sint r \<ge> sint surrogateMin \<and> sint r \<le> sint surrogateMax))"

definition DecodeRune :: "u8 list \<Rightarrow> rune \<times> int" where
  "DecodeRune p =
     (case p of
        [] \<Rightarrow> (RuneError, 0)
      | b0 # rest \<Rightarrow>
          if b0 < RuneSelf then (ucast b0, 1)
          else (case lead_len b0 of
            None \<Rightarrow> (RuneError, 1)
          | Some n \<Rightarrow>
              if length p < n then (RuneError, 1)
              else let r = ucast (b0 AND lead_mask n) in
                (case decode_rest (take (n - 1) rest) r of
                   None \<Rightarrow> (RuneError, 1)
                 | Some r \<Rightarrow>
                     if bad_rune n r then (RuneError, 1) else (r, int n))))"

definition RuneStart :: "u8 \<Rightarrow> bool" where
  "RuneStart b = (b AND 0xC0 \<noteq> 0x80)"

text \<open>The backward scan from index \<open>i\<close>, at most to \<open>start\<close>.\<close>

fun last_scan :: "u8 list \<Rightarrow> nat \<Rightarrow> nat \<Rightarrow> rune \<times> int" where
  "last_scan p start 0 =
     (if RuneStart (p ! 0) then
        (case DecodeRune p of (r, sz) \<Rightarrow> if nat sz = length p then (r, sz) else (RuneError, 1))
      else (RuneError, 1))"
| "last_scan p start (Suc i) =
     (if RuneStart (p ! Suc i) then
        (case DecodeRune (drop (Suc i) p) of (r, sz) \<Rightarrow> if nat sz = length p - Suc i then (r, sz) else (RuneError, 1))
      else if Suc i = start then (RuneError, 1) else last_scan p start i)"

definition DecodeLastRune :: "u8 list \<Rightarrow> rune \<times> int" where
  "DecodeLastRune p =
     (let n = length p in
      if n = 0 then (RuneError, 0) else last_scan p (n - UTFMax) (n - 1))"

section \<open>Encoding\<close>

definition ValidRune :: "rune \<Rightarrow> bool" where
  "ValidRune r \<longleftrightarrow> sint r \<ge> 0 \<and> sint r \<le> sint MaxRune \<and> \<not> (sint r \<ge> sint surrogateMin \<and> sint r \<le> sint surrogateMax)"

definition RuneLen :: "rune \<Rightarrow> int" where
  "RuneLen r =
     (if \<not> ValidRune r then - 1 else if sint r < 0x80 then 1 else if sint r < 0x800 then 2
      else if sint r < 0x10000 then 3 else 4)"

definition appendRuneNonASCII :: "u8 list \<Rightarrow> rune \<Rightarrow> u8 list" where
  "appendRuneNonASCII v r =
     (if r \<le> rune2Max then v @ [t2 OR ucast (signed_drop_bit 6 r), tx OR (ucast r AND maskx)]
      else if r < surrogateMin \<or> surrogateMax < r \<and> r \<le> rune3Max then
        v @ [t3 OR ucast (signed_drop_bit 12 r), tx OR (ucast (signed_drop_bit 6 r) AND maskx), tx OR (ucast r AND maskx)]
      else if r > rune3Max \<and> r \<le> MaxRune then
        v @ [t4 OR ucast (signed_drop_bit 18 r), tx OR (ucast (signed_drop_bit 12 r) AND maskx),
             tx OR (ucast (signed_drop_bit 6 r) AND maskx), tx OR (ucast r AND maskx)]
      else v @ [runeErrorByte0, runeErrorByte1, runeErrorByte2])"

definition AppendRune :: "u8 list \<Rightarrow> rune \<Rightarrow> u8 list" where
  "AppendRune p r = (if r \<le> rune1Max then p @ [ucast r] else appendRuneNonASCII p r)"

text \<open>Writing the bytes \<open>bs\<close> to \<open>p[0..]\<close>; the last index out of range panics.\<close>

definition write_bytes :: "u8 list \<Rightarrow> u8 list \<Rightarrow> (u8 list \<times> int) option" where
  "write_bytes p bs = (if length bs \<le> length p then Some (bs @ drop (length bs) p, int (length bs)) else None)"

definition encodeRuneNonASCII :: "u8 list \<Rightarrow> rune \<Rightarrow> (u8 list \<times> int) option" where
  "encodeRuneNonASCII p r =
     (if r \<le> rune2Max then write_bytes p [t2 OR ucast (signed_drop_bit 6 r), tx OR (ucast r AND maskx)]
      else if r < surrogateMin \<or> surrogateMax < r \<and> r \<le> rune3Max then
        write_bytes p [t3 OR ucast (signed_drop_bit 12 r), tx OR (ucast (signed_drop_bit 6 r) AND maskx), tx OR (ucast r AND maskx)]
      else if r > rune3Max \<and> r \<le> MaxRune then
        write_bytes p [t4 OR ucast (signed_drop_bit 18 r), tx OR (ucast (signed_drop_bit 12 r) AND maskx),
          tx OR (ucast (signed_drop_bit 6 r) AND maskx), tx OR (ucast r AND maskx)]
      else write_bytes p [runeErrorByte0, runeErrorByte1, runeErrorByte2])"

definition EncodeRune :: "u8 list \<Rightarrow> rune \<Rightarrow> (u8 list \<times> int) option" where
  "EncodeRune p r = (if r \<le> rune1Max then write_bytes p [ucast r] else encodeRuneNonASCII p r)"

section \<open>Counting and validating\<close>

lemma lead_len_cases: "lead_len b = Some n \<Longrightarrow> n = 2 \<or> n = 3 \<or> n = 4"
  by (simp add: lead_len_def split: if_splits)

lemma DecodeRune_size: "p \<noteq> [] \<Longrightarrow> 1 \<le> snd (DecodeRune p) \<and> snd (DecodeRune p) \<le> int (length p)"
proof (cases p)
  case (Cons b rest)
  show ?thesis
  proof (cases "b < RuneSelf \<or> lead_len b = None")
    case True
    then show ?thesis using Cons by (auto simp: DecodeRune_def split: option.splits)
  next
    case False
    then obtain n where n: "lead_len b = Some n" "1 \<le> n" using lead_len_cases by fastforce
    with False Cons show ?thesis by (auto simp: DecodeRune_def Let_def split: option.splits)
  qed
qed simp

function RuneCount :: "u8 list \<Rightarrow> int" where
  "RuneCount p =
     (case p of
        [] \<Rightarrow> 0
      | b # rest \<Rightarrow>
          if b < RuneSelf then 1 + RuneCount rest
          else 1 + RuneCount (drop (nat (snd (DecodeRune p))) p))"
  by pat_completeness auto
termination
proof (relation "measure length", goal_cases)
  case (3 p b rest)
  then show ?case using DecodeRune_size [of p] by auto
qed simp_all

function Valid :: "u8 list \<Rightarrow> bool" where
  "Valid p =
     (case p of
        [] \<Rightarrow> True
      | b # rest \<Rightarrow>
          if b < RuneSelf then Valid rest
          else (case DecodeRune p of (r, sz) \<Rightarrow>
            if r = RuneError \<and> sz = 1 then False else Valid (drop (nat sz) p)))"
  by pat_completeness auto
termination
proof (relation "measure length", goal_cases)
  case (3 p b rest r sz)
  then have "sz = snd (DecodeRune p)" by (metis snd_conv)
  with 3 show ?case using DecodeRune_size [of p] by auto
qed simp_all

declare RuneCount.simps [simp del] Valid.simps [simp del]

definition FullRune :: "u8 list \<Rightarrow> bool" where
  "FullRune p =
     (case p of
        [] \<Rightarrow> False
      | b0 # _ \<Rightarrow>
          if b0 < RuneSelf then True
          else (case lead_len b0 of None \<Rightarrow> True | Some need \<Rightarrow> length p \<ge> need))"

end
