(* ===== verification/Utf8_Props.thy ===== *)
theory Utf8_Props
  imports Utf8
begin

text \<open>
  UTF-8 encoding and decoding are inverse to each other: every valid rune comes back from its bytes, the
  decoder accepts no other bytes, and validation and counting agree with the decoding.  Each byte test and each shift is first
  read as arithmetic on the natural numbers the words stand for.
\<close>

section \<open>The bytes as numbers\<close>

lemma and_high_eq:
  fixes b c :: u8
  assumes "k + m = 8" "unat c < 2 ^ m"
  shows "b AND push_bit k (mask m) = push_bit k c \<longleftrightarrow> unat b div 2 ^ k = unat c"
proof -
  have "b AND push_bit k (mask m) = push_bit k (drop_bit k b)"
    by (rule bit_word_eqI) (use assms(1) in \<open>auto simp: bit_and_iff bit_push_bit_iff bit_drop_bit_eq bit_mask_iff\<close>)
  moreover have "push_bit k (drop_bit k b) = push_bit k c \<longleftrightarrow> drop_bit k b = c"
  proof
    assume e: "push_bit k (drop_bit k b) = push_bit k c"
    have "drop_bit k (push_bit k x) = x" if "unat x < 2 ^ m" for x :: u8
    proof (rule bit_word_eqI)
      fix n assume "n < LENGTH(8)"
      have "\<not> bit x n" if "m \<le> n"
        using bit_imp_ge_pow2 [of x n] \<open>unat x < 2 ^ m\<close> power_increasing [OF that, of "2 :: nat"] by fastforce
      then show "bit (drop_bit k (push_bit k x)) n = bit x n"
        using assms(1) by (cases "m \<le> n") (auto simp: bit_drop_bit_eq bit_push_bit_iff)
    qed
    moreover have "unat (drop_bit k b) < 2 ^ m"
    proof -
      have "(2 :: nat) ^ m * 2 ^ k = 2 ^ 8" using assms(1) by (metis add.commute power_add)
      then show ?thesis using unat_less_exp [of b] by (simp add: unat_drop_bit div_less_iff_less_mult)
    qed
    ultimately show "drop_bit k b = c" using e assms(2) by metis
  qed simp
  ultimately show ?thesis by (simp add: word_unat_eq_iff unat_drop_bit)
qed

lemma byte_tests:
  fixes b :: u8
  shows "b AND 0xE0 = 0xC0 \<longleftrightarrow> unat b div 32 = 6" "b AND 0xF0 = 0xE0 \<longleftrightarrow> unat b div 16 = 14"
    "b AND 0xF8 = 0xF0 \<longleftrightarrow> unat b div 8 = 30" "b AND 0xC0 = 0x80 \<longleftrightarrow> unat b div 64 = 2"
    "b < RuneSelf \<longleftrightarrow> unat b < 128"
  using and_high_eq [of 5 3 6 b] and_high_eq [of 4 4 14 b] and_high_eq [of 3 5 30 b] and_high_eq [of 6 2 2 b]
  by (simp_all add: mask_eq_exp_minus_1 RuneSelf_def word_less_nat_alt)

lemma byte_parts:
  fixes b :: u8
  shows "unat (b AND 0x1F) = unat b mod 32" "unat (b AND 0x0F) = unat b mod 16" "unat (b AND 0x07) = unat b mod 8"
    "unat (b AND 0x3F) = unat b mod 64"
  using unat_and_mask [of b 5] unat_and_mask [of b 4] unat_and_mask [of b 3] unat_and_mask [of b 6]
  by (simp_all add: mask_eq_exp_minus_1)

lemma unat_shift_in:
  fixes r :: rune and b :: u8
  assumes "unat r < 2 ^ 26"
  shows "unat (push_bit 6 r OR ucast (b AND 0x3F)) = unat r * 64 + unat b mod 64"
proof -
  have p: "unat (push_bit 6 r) = unat r * 64" using assms unat_push_bit_small [of r 6] by simp
  have c: "unat (ucast (b AND 0x3F) :: rune) = unat b mod 64"
    by (simp add: unsigned_ucast_eq byte_parts take_bit_nat_eq_self)
  have "unat (push_bit 6 r OR ucast (b AND 0x3F)) = unat (push_bit 6 r) + unat (ucast (b AND 0x3F) :: rune)"
    by (rule unat_or_high [of _ 6]) (simp_all only: p c, simp_all)
  then show ?thesis using p c by simp
qed

section \<open>Runes as numbers\<close>

definition valid_code :: "nat \<Rightarrow> bool" where
  "valid_code n \<longleftrightarrow> n \<le> 0x10FFFF \<and> \<not> (0xD800 \<le> n \<and> n \<le> 0xDFFF)"

lemma sint_rune: "unat (r :: rune) < 2 ^ 31 \<Longrightarrow> sint r = int (unat r)"
  using sint_of_nat_small [of "unat r", where 'a = 32] by simp

lemma sint_rune_neg: "2 ^ 31 \<le> unat (r :: rune) \<Longrightarrow> sint r < 0"
proof -
  assume a: "2 ^ 31 \<le> unat r"
  let ?n = "2 ^ 32 - unat r"
  have "(of_nat ?n :: rune) = - r"
    using unat_less_exp [of r] by (simp add: of_nat_diff)
  then have e: "- of_nat ?n = r" by simp
  have "sint (- of_nat ?n :: rune) < 0"
    by (rule sint_minus_of_nat_neg) (use a unat_less_exp [of r] in simp_all)
  then show ?thesis unfolding e .
qed

lemma ValidRune_code: "ValidRune r \<longleftrightarrow> valid_code (unat r)"
proof (cases "unat r < 2 ^ 31")
  case True
  have "sint MaxRune = 1114111" "sint surrogateMin = 55296" "sint surrogateMax = 57343"
    by (simp_all add: utf8_consts)
  then show ?thesis unfolding ValidRune_def valid_code_def sint_rune [OF True] by linarith
next
  case False
  then show ?thesis using sint_rune_neg [of r] by (simp add: ValidRune_def valid_code_def)
qed

lemma signed_drop_bit_rune: "unat (r :: rune) < 2 ^ 31 \<Longrightarrow> signed_drop_bit n r = drop_bit n r"
proof -
  assume "unat r < 2 ^ 31"
  then have "\<not> bit r 31" using bit_imp_ge_pow2 [of r 31] by auto
  then show ?thesis
    by (intro bit_word_eqI) (auto simp: bit_signed_drop_bit_iff bit_drop_bit_eq dest: bit_imp_le_length)
qed

text \<open>The encoding form of the Unicode standard.\<close>

definition utf8_enc :: "nat \<Rightarrow> nat list" where
  "utf8_enc n =
     (if n < 0x80 then [n]
      else if n < 0x800 then [0xC0 + n div 64, 0x80 + n mod 64]
      else if n < 0x10000 then [0xE0 + n div 4096, 0x80 + n div 64 mod 64, 0x80 + n mod 64]
      else [0xF0 + n div 262144, 0x80 + n div 4096 mod 64, 0x80 + n div 64 mod 64, 0x80 + n mod 64])"

lemma unat_low_byte: "unat (r :: rune) < 2 ^ 31 \<Longrightarrow> unat (ucast (signed_drop_bit k r) :: u8) = unat r div 2 ^ k mod 256"
  by (simp add: signed_drop_bit_rune unsigned_ucast_eq unat_drop_bit take_bit_eq_mod)

lemma unat_cont: "unat (tx OR (b AND maskx)) = 0x80 + unat b mod 64"
proof -
  have "unat (b AND maskx) = unat b mod 64" using byte_parts(4) [of b] by (simp add: maskx_def)
  then show ?thesis using unat_or_high [of "b AND maskx" 6 tx] by (simp add: tx_def)
qed

lemma unat_cont_shift:
  assumes "unat (r :: rune) < 2 ^ 31"
  shows "unat (tx OR (ucast (signed_drop_bit k r) AND maskx)) = 0x80 + unat r div 2 ^ k mod 64"
proof -
  have "unat r div 2 ^ k mod 256 mod 64 = unat r div 2 ^ k mod 64" by (simp add: mod_mod_cancel)
  then show ?thesis by (simp only: unat_cont unat_low_byte [OF assms])
qed

lemma unat_cont_0:
  assumes "unat (r :: rune) < 2 ^ 31"
  shows "unat (tx OR (ucast r AND maskx)) = 0x80 + unat r mod 64"
  using unat_cont_shift [OF assms, of 0] by simp

lemma unat_lead:
  assumes "unat (r :: rune) < 2 ^ 31" "unat r div 2 ^ k < 2 ^ m" "2 ^ m dvd unat (t :: u8)" "m \<le> 8"
  shows "unat (t OR ucast (signed_drop_bit k r)) = unat t + unat r div 2 ^ k"
proof -
  have "2 ^ m \<le> (2 :: nat) ^ 8" using assms(4) by (intro power_increasing) simp_all
  then have u: "unat (ucast (signed_drop_bit k r) :: u8) = unat r div 2 ^ k"
    using assms(2) unat_low_byte [OF assms(1), of k] by simp
  have "unat (t OR ucast (signed_drop_bit k r)) = unat t + unat (ucast (signed_drop_bit k r) :: u8)"
    by (rule unat_or_high [of _ m]) (use u assms in simp_all)
  with u show ?thesis by simp
qed

lemma rune_order:
  "r \<le> rune1Max \<longleftrightarrow> unat r < 0x80" "r \<le> rune2Max \<longleftrightarrow> unat r < 0x800" "r \<le> rune3Max \<longleftrightarrow> unat r < 0x10000"
  "r < surrogateMin \<longleftrightarrow> unat r < 0xD800" "surrogateMax < r \<longleftrightarrow> 0xDFFF < unat r"
  "rune3Max < r \<longleftrightarrow> 0x10000 \<le> unat r" "r \<le> MaxRune \<longleftrightarrow> unat r \<le> 0x10FFFF"
  by (auto simp: word_le_nat_alt word_less_nat_alt utf8_consts)

lemma AppendRune_enc:
  assumes "valid_code (unat r)"
  shows "map unat (AppendRune [] r) = utf8_enc (unat r)"
proof -
  have lt: "unat r < 2 ^ 31" using assms by (simp add: valid_code_def)
  consider "unat r < 0x80" | "0x80 \<le> unat r" "unat r < 0x800"
    | "0x800 \<le> unat r" "unat r < 0x10000" | "0x10000 \<le> unat r" by linarith
  then show ?thesis
  proof cases
    case 1
    then show ?thesis
      by (simp add: AppendRune_def rune_order utf8_enc_def unsigned_ucast_eq take_bit_nat_eq_self)
  next
    case 2
    then have "unat (t2 OR ucast (signed_drop_bit 6 r)) = 0xC0 + unat r div 64"
      using unat_lead [OF lt, of 6 5 t2] by (simp add: t2_def div_less_iff_less_mult)
    with 2 show ?thesis
      by (simp add: AppendRune_def appendRuneNonASCII_def rune_order utf8_enc_def unat_cont_0 [OF lt])
  next
    case 3
    then have "unat (t3 OR ucast (signed_drop_bit 12 r)) = 0xE0 + unat r div 4096"
      using unat_lead [OF lt, of 12 4 t3] by (simp add: t3_def div_less_iff_less_mult)
    with 3 assms show ?thesis
      by (auto simp: AppendRune_def appendRuneNonASCII_def rune_order utf8_enc_def valid_code_def
          unat_cont_0 [OF lt] unat_cont_shift [OF lt])
  next
    case 4
    then have "unat (t4 OR ucast (signed_drop_bit 18 r)) = 0xF0 + unat r div 262144"
      using unat_lead [OF lt, of 18 3 t4] assms by (simp add: t4_def div_less_iff_less_mult valid_code_def)
    with 4 assms show ?thesis
      by (auto simp: AppendRune_def appendRuneNonASCII_def rune_order utf8_enc_def valid_code_def
          unat_cont_0 [OF lt] unat_cont_shift [OF lt])
  qed
qed

section \<open>The decoder on numbers\<close>

definition shift_in :: "nat \<Rightarrow> u8 \<Rightarrow> nat" where
  "shift_in a b = a * 64 + unat b mod 64"

lemma decode_rest_num:
  "(unat r + 1) * 64 ^ length bs \<le> 2 ^ 32 \<Longrightarrow>
   case decode_rest bs r of
     None \<Rightarrow> \<exists>b \<in> set bs. unat b div 64 \<noteq> 2
   | Some r' \<Rightarrow> (\<forall>b \<in> set bs. unat b div 64 = 2) \<and> unat r' = foldl shift_in (unat r) bs"
proof (induction bs arbitrary: r)
  case Nil
  then show ?case by simp
next
  case (Cons b bs)
  let ?r = "push_bit 6 r OR ucast (b AND 0x3F)"
  have "(unat r + 1) * 64 * 1 \<le> (unat r + 1) * 64 * 64 ^ length bs" by (intro mult_left_mono) simp_all
  also have "\<dots> \<le> 2 ^ 32" using Cons.prems by (simp add: algebra_simps)
  finally have "unat r < 2 ^ 26" by simp
  then have u: "unat ?r = shift_in (unat r) b" unfolding shift_in_def by (rule unat_shift_in)
  have "(unat ?r + 1) * 64 ^ length bs \<le> ((unat r + 1) * 64) * 64 ^ length bs"
    unfolding u shift_in_def by (intro mult_right_mono) (simp_all add: less_Suc_eq_le [symmetric])
  also have "\<dots> \<le> 2 ^ 32" using Cons.prems by (simp add: algebra_simps)
  finally have "(unat ?r + 1) * 64 ^ length bs \<le> 2 ^ 32" .
  from Cons.IH [OF this] u show ?case by (auto simp: byte_tests split: option.splits)
qed

lemma bad_rune_num:
  assumes "unat r < 2 ^ 31"
  shows "bad_rune n r \<longleftrightarrow>
    unat r < (if n = 2 then 0x80 else if n = 3 then 0x800 else if n = 4 then 0x10000 else 0) \<or> \<not> valid_code (unat r)"
proof -
  have c: "sint MaxRune = 1114111" "sint surrogateMin = 55296" "sint surrogateMax = 57343"
    by (simp_all add: utf8_consts)
  show ?thesis unfolding bad_rune_def valid_code_def sint_rune [OF assms] c Let_def by (simp del: of_nat_unat) linarith
qed

lemma foldl_shift_bound: "foldl shift_in a bs + 1 \<le> (a + 1) * 64 ^ length bs"
proof (induction bs arbitrary: a)
  case (Cons b bs)
  have "foldl shift_in (shift_in a b) bs + 1 \<le> (shift_in a b + 1) * 64 ^ length bs" by (rule Cons)
  also have "\<dots> \<le> ((a + 1) * 64) * 64 ^ length bs"
    unfolding shift_in_def by (intro mult_right_mono) (simp_all add: less_Suc_eq_le [symmetric])
  finally show ?case by (simp add: algebra_simps)
qed simp

text \<open>One lemma per length of the sequence: what the decoder makes of it.\<close>

lemma lead_len_num:
  "lead_len b = (if unat b div 32 = 6 then Some 2 else if unat b div 16 = 14 then Some 3
                 else if unat b div 8 = 30 then Some 4 else None)"
  by (simp add: lead_len_def byte_tests)

definition lead_mod :: "nat \<Rightarrow> nat" where
  "lead_mod n = (if n = 2 then 32 else if n = 3 then 16 else 8)"

definition lead_min :: "nat \<Rightarrow> nat" where
  "lead_min n = (if n = 2 then 0x80 else if n = 3 then 0x800 else 0x10000)"

lemma lead_simps:
  "lead_mod 2 = 32" "lead_mod 3 = 16" "lead_mod 4 = 8" "lead_min 2 = 0x80" "lead_min 3 = 0x800" "lead_min 4 = 0x10000"
  by (simp_all add: lead_mod_def lead_min_def)

lemma lead_bits:
  assumes "lead_len b = Some n"
  shows "unat (ucast (b AND lead_mask n) :: rune) = unat b mod lead_mod n"
  using lead_len_cases [OF assms]
  by (auto simp: lead_mask_def lead_simps unsigned_ucast_eq byte_parts take_bit_nat_eq_self)

lemma DecodeRune_multi:
  assumes b: "\<not> unat b < 128" and n: "lead_len b = Some n" and l: "length rest \<ge> n - 1"
  defines "v \<equiv> foldl shift_in (unat b mod lead_mod n) (take (n - 1) rest)"
  shows "DecodeRune (b # rest) =
    (if (\<forall>x \<in> set (take (n - 1) rest). unat x div 64 = 2) \<and> valid_code v \<and>
        lead_min n \<le> v
     then (of_nat v, int n) else (RuneError, 1))"
proof -
  let ?r = "ucast (b AND lead_mask n) :: rune"
  have n234: "n = 2 \<or> n = 3 \<or> n = 4" by (rule lead_len_cases [OF n])
  have len: "length (take (n - 1) rest) = n - 1" using l by simp
  have r: "unat ?r = unat b mod lead_mod n" by (rule lead_bits [OF n])
  then have small: "(unat ?r + 1) * 64 ^ length (take (n - 1) rest) \<le> 2 ^ 21"
    unfolding len using n234 by (auto simp: lead_simps less_Suc_eq_le [symmetric] intro: order_trans [OF mult_right_mono])
  have v: "v = foldl shift_in (unat ?r) (take (n - 1) rest)" unfolding v_def r ..
  have "v + 1 \<le> 2 ^ 21" unfolding v by (rule order_trans [OF foldl_shift_bound small])
  then have vb: "v < 2 ^ 31" by simp
  have big: "(unat ?r + 1) * 64 ^ length (take (n - 1) rest) \<le> 2 ^ 32" using small by simp
  have D: "DecodeRune (b # rest) = (case decode_rest (take (n - 1) rest) ?r of None \<Rightarrow> (RuneError, 1)
      | Some r \<Rightarrow> if bad_rune n r then (RuneError, 1) else (r, int n))"
    using b n l n234 by (auto simp: DecodeRune_def byte_tests Let_def)
  show ?thesis
  proof (cases "decode_rest (take (n - 1) rest) ?r")
    case None
    with decode_rest_num [OF big] show ?thesis unfolding D by auto
  next
    case (Some r')
    with decode_rest_num [OF big] have c: "\<forall>x \<in> set (take (n - 1) rest). unat x div 64 = 2" "unat r' = v"
      unfolding v by auto
    then have "r' = of_nat v" by (simp flip: c(2))
    moreover have "bad_rune n r' \<longleftrightarrow> \<not> (valid_code v \<and> lead_min n \<le> v)"
      using bad_rune_num [of r' n] vb n234 unfolding c(2) by (auto simp: lead_min_def)
    ultimately show ?thesis unfolding D Some using c(1) by auto
  qed
qed

lemma of_nat_rune: "unat (r :: rune) = n \<Longrightarrow> of_nat n = r"
  by auto

lemma DecodeRune_ascii: "unat b < 128 \<Longrightarrow> DecodeRune (b # rest) = (of_nat (unat b), 1)"
  by (simp add: DecodeRune_def byte_tests)

lemma digit_64: "l < 64 \<Longrightarrow> (x * 64 + l) div 64 = x" "l < 64 \<Longrightarrow> (x * 64 + l) mod 64 = l" for l x :: nat
  by simp_all

lemma div_64_64: "x div 4096 = x div 64 div 64" "x div 262144 = x div 64 div 64 div 64" for x :: nat
  by (simp_all flip: div_mult2_eq)

lemma enc_digits:
  assumes "m < 64" "l < 64"
  shows "q < 32 \<Longrightarrow> 0x80 \<le> q * 64 + m \<Longrightarrow> utf8_enc (q * 64 + m) = [192 + q, 128 + m]"
    and "q < 16 \<Longrightarrow> 0x800 \<le> (q * 64 + m) * 64 + l \<Longrightarrow>
      utf8_enc ((q * 64 + m) * 64 + l) = [224 + q, 128 + m, 128 + l]"
    and "k < 64 \<Longrightarrow> q < 8 \<Longrightarrow> 0x10000 \<le> ((q * 64 + k) * 64 + m) * 64 + l \<Longrightarrow>
      utf8_enc (((q * 64 + k) * 64 + m) * 64 + l) = [240 + q, 128 + k, 128 + m, 128 + l]"
proof -
  show "utf8_enc (q * 64 + m) = [192 + q, 128 + m]" if "q < 32" "0x80 \<le> q * 64 + m"
    using that assms by (simp add: utf8_enc_def)
  let ?n = "(q * 64 + m) * 64 + l"
  have n: "?n div 64 = q * 64 + m" "?n div 4096 = q" "?n mod 64 = l"
    unfolding div_64_64 by (simp_all only: digit_64 assms)
  show "utf8_enc ?n = [224 + q, 128 + m, 128 + l]" if "q < 16" "0x800 \<le> ?n"
    using that assms unfolding utf8_enc_def n by simp
  let ?n = "((q * 64 + k) * 64 + m) * 64 + l"
  show "utf8_enc ?n = [240 + q, 128 + k, 128 + m, 128 + l]" if "k < 64" "q < 8" "0x10000 \<le> ?n"
  proof -
    have N: "?n div 64 = (q * 64 + k) * 64 + m" "?n div 4096 = q * 64 + k" "?n div 262144 = q" "?n mod 64 = l"
      unfolding div_64_64 by (simp_all only: digit_64 assms that(1))
    have M: "((q * 64 + k) * 64 + m) mod 64 = m" "(q * 64 + k) mod 64 = k"
      by (simp_all only: digit_64 assms that(1))
    have "\<not> ?n < 0x80" "\<not> ?n < 0x800" "\<not> ?n < 0x10000" using that(3) by linarith+
    then show ?thesis unfolding utf8_enc_def N M by (simp only: if_False)
  qed
qed

lemma digit_split: "n = c * b + q \<Longrightarrow> q < b \<Longrightarrow> n mod b = q \<and> n div b = c" for n q b c :: nat
  by simp

lemma byte_digits:
  fixes q m :: nat
  shows "q < 32 \<Longrightarrow> (192 + q) mod 32 = q \<and> (192 + q) div 32 = 6"
    "q < 16 \<Longrightarrow> (224 + q) mod 16 = q \<and> (224 + q) div 16 = 14 \<and> (224 + q) div 32 = 7"
    "q < 8 \<Longrightarrow> (240 + q) mod 8 = q \<and> (240 + q) div 8 = 30 \<and> (240 + q) div 16 = 15 \<and> (240 + q) div 32 = 7"
    "m < 64 \<Longrightarrow> (128 + m) mod 64 = m \<and> (128 + m) div 64 = 2"
proof -
  show "q < 32 \<Longrightarrow> (192 + q) mod 32 = q \<and> (192 + q) div 32 = 6" by (rule digit_split) simp_all
  show "m < 64 \<Longrightarrow> (128 + m) mod 64 = m \<and> (128 + m) div 64 = 2" by (rule digit_split) simp_all
  have "(224 + q) mod 16 = q \<and> (224 + q) div 16 = 14" "(224 + q) mod 32 = q \<and> (224 + q) div 32 = 7" if "q < 16"
    by (rule digit_split; use that in simp)+
  then show "q < 16 \<Longrightarrow> (224 + q) mod 16 = q \<and> (224 + q) div 16 = 14 \<and> (224 + q) div 32 = 7" by blast
  have "(240 + q) mod 8 = q \<and> (240 + q) div 8 = 30" "(240 + q) mod 16 = q \<and> (240 + q) div 16 = 15"
    "(240 + q) mod 32 = q + 16 \<and> (240 + q) div 32 = 7" if "q < 8"
    by (rule digit_split; use that in simp)+
  then show "q < 8 \<Longrightarrow> (240 + q) mod 8 = q \<and> (240 + q) div 8 = 30 \<and> (240 + q) div 16 = 15 \<and> (240 + q) div 32 = 7"
    by blast
qed

lemma DecodeRune_multiI:
  assumes "\<not> unat b < 128" "lead_len b = Some n" "take (n - 1) rest = bs" "length bs = n - 1"
    "\<forall>x \<in> set bs. unat x div 64 = 2" "foldl shift_in (unat b mod lead_mod n) bs = v"
    "valid_code v" "lead_min n \<le> v"
  shows "DecodeRune (b # rest) = (of_nat v, int n)"
proof -
  have "n - 1 \<le> length rest" using assms(3,4) by (metis length_take min.cobounded1)
  from DecodeRune_multi [OF assms(1,2) this] assms(3,5-8) show ?thesis by metis
qed

lemma DecodeRune_2:
  assumes "q < 32" "m < 64" "0x80 \<le> q * 64 + m" "valid_code (q * 64 + m)" "unat b0 = 192 + q" "unat b1 = 128 + m"
  shows "DecodeRune (b0 # b1 # rest) = (of_nat (q * 64 + m), int 2)"
proof (rule DecodeRune_multiI [of _ _ _ "[b1]"])
  show "lead_len b0 = Some 2" using assms(5) byte_digits(1) [OF assms(1)] by (simp add: lead_len_num)
  show "foldl shift_in (unat b0 mod lead_mod 2) [b1] = q * 64 + m"
    using byte_digits(1) [OF assms(1)] byte_digits(4) [OF assms(2)] assms(5,6) by (simp only: shift_in_def foldl.simps lead_simps)
  show "\<forall>x \<in> set [b1]. unat x div 64 = 2" using byte_digits(4) [OF assms(2)] assms(6) by simp
  show "lead_min 2 \<le> q * 64 + m" using assms(3) by (simp only: lead_simps)
  show "valid_code (q * 64 + m)" by (fact assms(4))
  show "\<not> unat b0 < 128" using assms(5) by linarith
qed simp_all

lemma DecodeRune_3:
  assumes "q < 16" "m < 64" "l < 64" "0x800 \<le> (q * 64 + m) * 64 + l" "valid_code ((q * 64 + m) * 64 + l)"
    "unat b0 = 224 + q" "unat b1 = 128 + m" "unat b2 = 128 + l"
  shows "DecodeRune (b0 # b1 # b2 # rest) = (of_nat ((q * 64 + m) * 64 + l), int 3)"
proof (rule DecodeRune_multiI [of _ _ _ "[b1, b2]"])
  show "lead_len b0 = Some 3" using assms(6) byte_digits(2) [OF assms(1)] by (simp add: lead_len_num)
  show "foldl shift_in (unat b0 mod lead_mod 3) [b1, b2] = (q * 64 + m) * 64 + l"
    using byte_digits(2) [OF assms(1)] byte_digits(4) [OF assms(2)] byte_digits(4) [OF assms(3)] assms(6-8)
    by (simp only: shift_in_def foldl.simps lead_simps)
  show "\<forall>x \<in> set [b1, b2]. unat x div 64 = 2"
    using byte_digits(4) [OF assms(2)] byte_digits(4) [OF assms(3)] assms(7,8) by simp
  show "lead_min 3 \<le> (q * 64 + m) * 64 + l"
    using assms(4) by (simp only: lead_simps)
  show "valid_code ((q * 64 + m) * 64 + l)" by (fact assms(5))
  show "\<not> unat b0 < 128" using assms(6) by linarith
qed (simp_all add: numeral_eq_Suc)

lemma DecodeRune_4:
  assumes "q < 8" "k < 64" "m < 64" "l < 64" "0x10000 \<le> ((q * 64 + k) * 64 + m) * 64 + l"
    "valid_code (((q * 64 + k) * 64 + m) * 64 + l)"
    "unat b0 = 240 + q" "unat b1 = 128 + k" "unat b2 = 128 + m" "unat b3 = 128 + l"
  shows "DecodeRune (b0 # b1 # b2 # b3 # rest) = (of_nat (((q * 64 + k) * 64 + m) * 64 + l), int 4)"
proof (rule DecodeRune_multiI [of _ _ _ "[b1, b2, b3]"])
  show "lead_len b0 = Some 4" using assms(7) byte_digits(3) [OF assms(1)] by (simp add: lead_len_num)
  show "foldl shift_in (unat b0 mod lead_mod 4) [b1, b2, b3] =
      ((q * 64 + k) * 64 + m) * 64 + l"
    using byte_digits(3) [OF assms(1)] byte_digits(4) [OF assms(2)] byte_digits(4) [OF assms(3)] byte_digits(4) [OF assms(4)] assms(7-10)
    by (simp only: shift_in_def foldl.simps lead_simps)
  show "\<forall>x \<in> set [b1, b2, b3]. unat x div 64 = 2"
    using byte_digits(4) [OF assms(2)] byte_digits(4) [OF assms(3)] byte_digits(4) [OF assms(4)] assms(8-10) by simp
  show "lead_min 4 \<le> ((q * 64 + k) * 64 + m) * 64 + l"
    using assms(5) by (simp only: lead_simps)
  show "valid_code (((q * 64 + k) * 64 + m) * 64 + l)" by (fact assms(6))
  show "\<not> unat b0 < 128" using assms(7) by linarith
qed (simp_all add: numeral_eq_Suc)

lemma digits_2: "n = n div 64 * 64 + n mod 64" for n :: nat
  by (rule div_mult_mod_eq [symmetric])

lemma digits_3: "n = (n div 4096 * 64 + n div 64 mod 64) * 64 + n mod 64" for n :: nat
  by (simp only: div_64_64 div_mult_mod_eq)

lemma digits_4: "n = ((n div 262144 * 64 + n div 4096 mod 64) * 64 + n div 64 mod 64) * 64 + n mod 64" for n :: nat
  by (simp only: div_64_64 div_mult_mod_eq)

lemma DecodeRune_enc:
  assumes "valid_code n" "map unat p = utf8_enc n @ xs"
  shows "DecodeRune p = (of_nat n, int (length (utf8_enc n)))"
proof -
  consider "n < 0x80" | "0x80 \<le> n" "n < 0x800" | "0x800 \<le> n" "n < 0x10000" | "0x10000 \<le> n" "n < 0x110000"
    using assms(1) unfolding valid_code_def by linarith
  then show ?thesis
  proof cases
    case 1
    then obtain b0 rest where "p = b0 # rest" "unat b0 = n" using assms(2) by (auto simp: utf8_enc_def map_eq_Cons_conv)
    with 1 show ?thesis by (auto simp: DecodeRune_ascii utf8_enc_def)
  next
    case 2
    then obtain b0 b1 rest where p: "p = b0 # b1 # rest" "unat b0 = 192 + n div 64" "unat b1 = 128 + n mod 64"
      using assms(2) by (auto simp: utf8_enc_def map_eq_Cons_conv)
    have q: "n div 64 < 32" using 2 by (simp add: div_less_iff_less_mult)
    have "DecodeRune p = (of_nat (n div 64 * 64 + n mod 64), int 2)" unfolding p(1)
      by (rule DecodeRune_2 [OF q]) (use 2 assms(1) p in simp_all)
    moreover have "length (utf8_enc n) = 2" using 2 by (simp add: utf8_enc_def)
    ultimately show ?thesis unfolding digits_2 [symmetric] by simp
  next
    case 3
    then obtain b0 b1 b2 rest where p: "p = b0 # b1 # b2 # rest" "unat b0 = 224 + n div 4096"
      "unat b1 = 128 + n div 64 mod 64" "unat b2 = 128 + n mod 64"
      using assms(2) by (auto simp: utf8_enc_def map_eq_Cons_conv)
    have q: "n div 4096 < 16" using 3 by (simp add: div_less_iff_less_mult)
    have "DecodeRune p = (of_nat ((n div 4096 * 64 + n div 64 mod 64) * 64 + n mod 64), int 3)" unfolding p(1)
      by (rule DecodeRune_3 [OF q], unfold digits_3 [symmetric]) (use 3 assms(1) p in simp_all)
    moreover have "length (utf8_enc n) = 3" using 3 by (simp add: utf8_enc_def)
    ultimately show ?thesis unfolding digits_3 [symmetric] by simp
  next
    case 4
    then obtain b0 b1 b2 b3 rest where p: "p = b0 # b1 # b2 # b3 # rest" "unat b0 = 240 + n div 262144"
      "unat b1 = 128 + n div 4096 mod 64" "unat b2 = 128 + n div 64 mod 64" "unat b3 = 128 + n mod 64"
      using assms(2) by (auto simp: utf8_enc_def map_eq_Cons_conv)
    have q: "n div 262144 < 8" using 4 by (simp add: div_less_iff_less_mult)
    have "DecodeRune p = (of_nat (((n div 262144 * 64 + n div 4096 mod 64) * 64 + n div 64 mod 64) * 64 + n mod 64), int 4)"
      unfolding p(1)
      by (rule DecodeRune_4 [OF q], unfold digits_4 [symmetric]) (use 4 assms(1) p in simp_all)
    moreover have "length (utf8_enc n) = 4" using 4 by (simp add: utf8_enc_def)
    ultimately show ?thesis unfolding digits_4 [symmetric] by simp
  qed
qed

lemma DecodeRune_sound:
  assumes "p \<noteq> []" "DecodeRune p = (r, k)" "\<not> (r = RuneError \<and> k = 1)"
  shows "valid_code (unat r) \<and> map unat (take (nat k) p) = utf8_enc (unat r) \<and> k = int (length (utf8_enc (unat r)))"
proof -
  obtain b rest where p: "p = b # rest" using assms(1) by (cases p) auto
  show ?thesis
  proof (cases "unat b < 128")
    case True
    then have "r = of_nat (unat b)" "k = 1" using assms(2) p by (simp_all add: DecodeRune_ascii)
    moreover from this True have "unat r = unat b" by (simp add: unsigned_ucast_eq take_bit_nat_eq_self)
    ultimately show ?thesis using True p by (simp add: valid_code_def utf8_enc_def)
  next
    case False
    have "DecodeRune p = (RuneError, 1)" if "lead_len b = None"
      using that False p by (simp add: DecodeRune_def byte_tests)
    then have "lead_len b \<noteq> None" using assms(2,3) by auto
    then obtain n where n: "lead_len b = Some n" by auto
    have "DecodeRune p = (RuneError, 1)" if "length rest < n - 1"
    proof -
      have "length p < n" using that p by simp
      then show ?thesis using False p n by (simp add: DecodeRune_def byte_tests)
    qed
    then have l: "n - 1 \<le> length rest" using assms(2,3) by fastforce
    let ?v = "foldl shift_in (unat b mod lead_mod n) (take (n - 1) rest)"
    have D: "\<forall>x \<in> set (take (n - 1) rest). unat x div 64 = 2" "valid_code ?v"
      "lead_min n \<le> ?v" "r = of_nat ?v" "k = int n"
      using DecodeRune_multi [OF False n l] assms(2,3) unfolding p by (auto split: if_splits)
    have u: "unat r = ?v" using D(2) unfolding D(4) by (simp add: unat_of_nat valid_code_def)
    consider (2) b1 xs where "n = 2" "rest = b1 # xs" | (3) b1 b2 xs where "n = 3" "rest = b1 # b2 # xs"
      | (4) b1 b2 b3 xs where "n = 4" "rest = b1 # b2 # b3 # xs"
      using lead_len_cases [OF n] l
      by (cases rest; cases "tl rest"; cases "tl (tl rest)") auto
    then have "map unat (take n p) = utf8_enc ?v \<and> n = length (utf8_enc ?v)"
    proof cases
      case 2
      then have "unat b div 32 = 6" using n by (simp add: lead_len_num split: if_splits)
      then have e: "192 + unat b mod 32 = unat b" using div_mult_mod_eq [of "unat b" 32] by simp
      have "128 + unat b1 mod 64 = unat b1" using D(1) 2 div_mult_mod_eq [of "unat b1" 64] by simp
      with e show ?thesis using 2 p D(3) enc_digits(1) [of "unat b1 mod 64" 0 "unat b mod 32"]
        by (simp add: shift_in_def lead_simps)
    next
      case 3
      then have t: "take (n - 1) rest = [b1, b2]" by (simp add: numeral_eq_Suc)
      from 3 have "unat b div 16 = 14" using n by (simp add: lead_len_num split: if_splits)
      then have e: "224 + unat b mod 16 = unat b" using div_mult_mod_eq [of "unat b" 16] by simp
      have "128 + unat b1 mod 64 = unat b1" "128 + unat b2 mod 64 = unat b2"
        using D(1) t div_mult_mod_eq [of "unat b1" 64] div_mult_mod_eq [of "unat b2" 64] by simp_all
      with e show ?thesis using 3 p D(3) t 
          enc_digits(2) [where q = "unat b mod 16" and m = "unat b1 mod 64" and l = "unat b2 mod 64"]
        by (simp add: shift_in_def lead_simps)
    next
      case 4
      then have t: "take (n - 1) rest = [b1, b2, b3]" by (simp add: numeral_eq_Suc)
      from 4 have "unat b div 8 = 30" using n by (simp add: lead_len_num split: if_splits)
      then have e: "240 + unat b mod 8 = unat b" using div_mult_mod_eq [of "unat b" 8] by simp
      have "128 + unat b1 mod 64 = unat b1" "128 + unat b2 mod 64 = unat b2" "128 + unat b3 mod 64 = unat b3"
        using D(1) t div_mult_mod_eq [of "unat b1" 64] div_mult_mod_eq [of "unat b2" 64] div_mult_mod_eq [of "unat b3" 64]
        by simp_all
      with e show ?thesis using 4 p D(3) t
          enc_digits(3) [where q = "unat b mod 8" and k = "unat b1 mod 64" and m = "unat b2 mod 64" and l = "unat b3 mod 64"]
        by (simp add: shift_in_def lead_simps)
    qed
    with u D(2,5) show ?thesis by simp
  qed
qed

section \<open>Sequences\<close>

lemma AppendRune_append: "AppendRune v r = v @ AppendRune [] r"
  by (simp add: AppendRune_def appendRuneNonASCII_def)

lemma AppendRune_invalid: "\<not> ValidRune r \<Longrightarrow> AppendRune v r = AppendRune v RuneError"
proof -
  assume a: "\<not> ValidRune r"
  have e: "unat RuneError = 0xFFFD" by (simp add: RuneError_def)
  have "AppendRune v RuneError = v @ [runeErrorByte0, runeErrorByte1, runeErrorByte2]"
    by (simp add: AppendRune_def appendRuneNonASCII_def rune_order e runeErrorByte0_def runeErrorByte1_def runeErrorByte2_def)
  moreover have "AppendRune v r = v @ [runeErrorByte0, runeErrorByte1, runeErrorByte2]"
    using a by (auto simp: AppendRune_def appendRuneNonASCII_def rune_order ValidRune_code valid_code_def)
  ultimately show ?thesis by simp
qed

lemma RuneLen_enc: "ValidRune r \<Longrightarrow> RuneLen r = int (length (utf8_enc (unat r)))"
proof -
  assume v: "ValidRune r"
  then have "unat r < 2 ^ 31" by (simp add: ValidRune_code valid_code_def)
  then have s: "sint r = int (unat r)" by (rule sint_rune)
  show ?thesis using v unfolding RuneLen_def s utf8_enc_def by (simp del: of_nat_unat)
qed

lemma AppendRune_eqI: "map unat bs = utf8_enc (unat r) \<Longrightarrow> ValidRune r \<Longrightarrow> bs = AppendRune [] r"
  using AppendRune_enc [of r] by (metis ValidRune_code inj_map_eq_map inj_onI word_unat_eq_iff)

lemma Decode_Append: "ValidRune r \<Longrightarrow> DecodeRune (AppendRune [] r @ rest) = (r, RuneLen r)"
  using DecodeRune_enc [of "unat r" "AppendRune [] r @ rest"] AppendRune_enc [of r] RuneLen_enc [of r]
  by (simp add: ValidRune_code)

lemma DecodeRune_canonical:
  assumes "p \<noteq> []" "DecodeRune p = (r, k)" "\<not> (r = RuneError \<and> k = 1)"
  shows "ValidRune r \<and> k = RuneLen r \<and> take (nat k) p = AppendRune [] r"
proof -
  have "ValidRune r" "map unat (take (nat k) p) = utf8_enc (unat r)" "k = int (length (utf8_enc (unat r)))"
    using DecodeRune_sound [OF assms] unfolding ValidRune_code by blast+
  then show ?thesis using AppendRune_eqI RuneLen_enc by metis
qed

lemma AppendRune_ne: "AppendRune [] r \<noteq> []"
  by (simp add: AppendRune_def appendRuneNonASCII_def)

lemma foldl_AppendRune: "foldl AppendRune v rs = v @ concat (map (AppendRune []) rs)"
proof (induction rs arbitrary: v)
  case (Cons r rs)
  show ?case using Cons [of "AppendRune v r"] AppendRune_append [of v r] by simp
qed simp

lemma RuneError_enc: "ValidRune r \<Longrightarrow> \<not> (r = RuneError \<and> RuneLen r = 1)"
  by (auto simp: RuneLen_def RuneError_def)

lemma AppendRune_length: "ValidRune r \<Longrightarrow> length (AppendRune [] r) = nat (RuneLen r)"
  using AppendRune_enc [of r] RuneLen_enc [of r] by (metis ValidRune_code length_map nat_int)

lemma Valid_step:
  assumes "ValidRune r"
  shows "Valid (AppendRune [] r @ p) = Valid p" "RuneCount (AppendRune [] r @ p) = 1 + RuneCount p"
proof -
  let ?q = "AppendRune [] r @ p"
  obtain b rest where q: "?q = b # rest" using AppendRune_ne [of r] by (cases ?q) auto
  have D: "DecodeRune ?q = (r, RuneLen r)" by (rule Decode_Append [OF assms])
  have d: "drop (nat (RuneLen r)) ?q = p" using AppendRune_length [OF assms] by simp
  have a: "rest = p" if "b < RuneSelf"
  proof -
    have "RuneLen r = 1" using D that unfolding q by (simp add: DecodeRune_def)
    with d q show ?thesis by simp
  qed
  show "Valid ?q = Valid p"
    using D d a RuneError_enc [OF assms] unfolding q by (subst Valid.simps) auto
  show "RuneCount ?q = 1 + RuneCount p"
    using D d a unfolding q by (subst RuneCount.simps) auto
qed

section \<open>Properties\<close>

text \<open>
  C30: what is encoded can be decoded.  For every 32-bit value, whatever bytes follow, decoding the appended bytes
  gives the value back with its length if it is a Unicode scalar value, and the replacement character (three bytes)
  if it is negative, too large or a surrogate half.
\<close>

theorem utf8_roundtrip:
  "DecodeRune (AppendRune [] r @ rest) = (if ValidRune r then (r, RuneLen r) else (RuneError, 3))"
proof (cases "ValidRune r")
  case False
  have "ValidRune RuneError" "RuneLen RuneError = 3"
    by (simp_all add: ValidRune_def RuneLen_def utf8_consts)
  then show ?thesis using False AppendRune_invalid [OF False] Decode_Append [of RuneError rest] by simp
qed (simp add: Decode_Append)

text \<open>
  C31: the decoder accepts only the shortest form.  Whenever it does not report an error of width one, the rune is a
  Unicode scalar value, the width is the rune's length, and the bytes it read are exactly the encoding of that rune: no
  overlong form, no surrogate and no value beyond the last code point gets through.
\<close>

theorem utf8_decode_canonical:
  assumes "p \<noteq> []" "DecodeRune p = (r, k)" "\<not> (r = RuneError \<and> k = 1)"
  shows "ValidRune r \<and> k = RuneLen r \<and> take (nat k) p = AppendRune [] r"
  by (rule DecodeRune_canonical [OF assms])

theorem utf8_decode_canonical_witness:
  "DecodeRune [0xE2, 0x82, 0xAC, 0x21] = (0x20AC, 3) \<and> AppendRune [] 0x20AC = [0xE2, 0x82, 0xAC]"
proof -
  have "DecodeRune [0xE2, 0x82, 0xAC, 0x21] = (0x20AC, 3)" by code_simp
  from utf8_decode_canonical [OF _ this] this show ?thesis by (simp add: RuneError_def numeral_eq_Suc)
qed


text \<open>
  C33: \<^verbatim>\<open>FullRune\<close> asks for bytes that cannot change the outcome.  After the two bytes E0 41 the decoder
  reports an error of width one whatever follows, so no further byte is needed; \<^verbatim>\<open>FullRune\<close> still answers
  that the rune is not full, where the comment in the code calls an input full as soon as the decoder can produce a
  result without more bytes.
\<close>

theorem FullRune_waits_for_nothing:
  "\<not> FullRune [0xE0, 0x41] \<and> DecodeRune ([0xE0, 0x41] @ rest) = (RuneError, 1)"
proof -
  have l: "lead_len 0xE0 = Some 3" "\<not> 0xE0 < RuneSelf" by (simp_all add: lead_len_def RuneSelf_def)
  have "decode_rest (take (3 - 1) (0x41 # rest)) r = None" for r by (simp add: take_Cons')
  then show ?thesis using l by (simp add: FullRune_def DecodeRune_def)
qed

end
