(* ===== verification/Varint.thy ===== *)
theory Varint
  imports Goish_Prelude
begin

unbundle bit_operations_syntax

text \<open>
  Variable-length integers (\<^verbatim>\<open>src/src/encoding/binary/varint.rs\<close>): seven bits per byte, low group first, the
  high bit set on every byte but the last; signed numbers are zig-zagged first.  The encoders append to a buffer or write into
  one, where an index out of range panics (\<open>None\<close>); the decoders read a slice or any \<^verbatim>\<open>io.ByteReader\<close>.  The
  interface \<open>byte_source\<close> states what a reader promises; the reader over a byte slice
  (\<^verbatim>\<open>src/src/bytes/reader.rs\<close>) is an instance.  An \<open>int64\<close> is a word read with \<open>sint\<close>.
\<close>

section \<open>The encoders\<close>

definition MaxVarintLen64 :: int where "MaxVarintLen64 = 10"

lemma drop_bit_7_less: "\<not> x < 0x80 \<Longrightarrow> unat (drop_bit 7 x) < unat (x :: u64)"
proof -
  assume "\<not> x < 0x80"
  then have "128 \<le> unat x" by (simp add: word_le_nat_alt not_less)
  moreover have "unat (drop_bit 7 x) = unat x div 128" by (simp only: unat_drop_bit) simp
  ultimately show ?thesis by simp
qed

function append_loop :: "u8 list \<Rightarrow> u64 \<Rightarrow> u8 list" where
  "append_loop out x =
     (if \<not> x < 0x80 then append_loop (out @ [ucast x OR 0x80]) (drop_bit 7 x) else out @ [ucast x])"
  by auto
termination by (relation "measure (\<lambda>(out, x). unat x)") (simp_all add: drop_bit_7_less)

declare append_loop.simps [simp del]

definition AppendUvarint :: "u8 list \<Rightarrow> u64 \<Rightarrow> u8 list" where
  "AppendUvarint buf x = append_loop buf x"

function put_loop :: "u8 list \<Rightarrow> u64 \<Rightarrow> nat \<Rightarrow> (u8 list \<times> int) option" where
  "put_loop buf x i =
     (if \<not> x < 0x80
      then if i < length buf then put_loop (buf[i := ucast x OR 0x80]) (drop_bit 7 x) (i + 1) else None
      else if i < length buf then Some (buf[i := ucast x], int i + 1) else None)"
  by auto
termination by (relation "measure (\<lambda>(buf, x, i). unat x)") (simp_all add: drop_bit_7_less)

declare put_loop.simps [simp del]

definition PutUvarint :: "u8 list \<Rightarrow> u64 \<Rightarrow> (u8 list \<times> int) option" where
  "PutUvarint buf x = put_loop buf x 0"

definition zigzag :: "u64 \<Rightarrow> u64" where
  "zigzag x = (let ux = push_bit 1 x in if sint x < 0 then NOT ux else ux)"

definition AppendVarint :: "u8 list \<Rightarrow> u64 \<Rightarrow> u8 list" where
  "AppendVarint buf x = AppendUvarint buf (zigzag x)"

definition PutVarint :: "u8 list \<Rightarrow> u64 \<Rightarrow> (u8 list \<times> int) option" where
  "PutVarint buf x = PutUvarint buf (zigzag x)"

section \<open>The decoders of slices\<close>

fun uvarint_loop :: "u64 \<Rightarrow> nat \<Rightarrow> int \<Rightarrow> u8 list \<Rightarrow> u64 \<times> int" where
  "uvarint_loop x s i [] = (0, 0)"
| "uvarint_loop x s i (b # bs) =
     (if i = MaxVarintLen64 then (0, - (i + 1))
      else if b < 0x80
        then if i = MaxVarintLen64 - 1 \<and> b > 1 then (0, - (i + 1)) else (x OR push_bit s (ucast b), i + 1)
      else uvarint_loop (x OR push_bit s (ucast (b AND 0x7f))) (s + 7) (i + 1) bs)"

definition Uvarint :: "u8 list \<Rightarrow> u64 \<times> int" where
  "Uvarint buf = uvarint_loop 0 0 0 buf"

definition unzigzag :: "u64 \<Rightarrow> u64" where
  "unzigzag ux = (let x = drop_bit 1 ux in if ux AND 1 \<noteq> 0 then NOT x else x)"

definition Varint :: "u8 list \<Rightarrow> u64 \<times> int" where
  "Varint buf = (case Uvarint buf of (ux, n) \<Rightarrow> (unzigzag ux, n))"

section \<open>The decoders of readers\<close>

datatype io_error = EOF | ErrUnexpectedEOF | errOverflow | OtherError string

type_synonym 'r ReadByte = "'r \<Rightarrow> u8 \<times> io_error option \<times> 'r"

function read_loop :: "'r ReadByte \<Rightarrow> u64 \<Rightarrow> nat \<Rightarrow> int \<Rightarrow> 'r \<Rightarrow> u64 \<times> io_error option \<times> 'r" where
  "read_loop rd x s i r =
     (if \<not> i < MaxVarintLen64 then (x, Some errOverflow, r)
      else case rd r of
        (b, Some err, r') \<Rightarrow> if i > 0 \<and> err = EOF then (x, Some ErrUnexpectedEOF, r') else (x, Some err, r')
      | (b, None, r') \<Rightarrow>
          if b < 0x80
          then if i = MaxVarintLen64 - 1 \<and> b > 1 then (x, Some errOverflow, r')
               else (x OR push_bit s (ucast b), None, r')
          else read_loop rd (x OR push_bit s (ucast (b AND 0x7f))) (s + 7) (i + 1) r')"
  by auto
termination by (relation "measure (\<lambda>(rd, x, s, i, r). nat (MaxVarintLen64 - i))") auto

declare read_loop.simps [simp del]

definition ReadUvarint :: "'r ReadByte \<Rightarrow> 'r \<Rightarrow> u64 \<times> io_error option \<times> 'r" where
  "ReadUvarint rd r = read_loop rd 0 0 0 r"

definition ReadVarint :: "'r ReadByte \<Rightarrow> 'r \<Rightarrow> u64 \<times> io_error option \<times> 'r" where
  "ReadVarint rd r = (case ReadUvarint rd r of (ux, err, r') \<Rightarrow> (unzigzag ux, err, r'))"

section \<open>The reader over a byte slice\<close>

record Reader =
  rs :: "u8 list"
  ri :: nat
  prev_rune :: int

definition Reader_Len :: "Reader \<Rightarrow> int" where
  "Reader_Len r = (if ri r \<ge> length (rs r) then 0 else int (length (rs r) - ri r))"

definition Reader_Size :: "Reader \<Rightarrow> int" where
  "Reader_Size r = int (length (rs r))"

definition Reader_Reset :: "Reader \<Rightarrow> u8 list \<Rightarrow> Reader" where
  "Reader_Reset r b = r\<lparr>rs := b, ri := 0, prev_rune := - 1\<rparr>"

definition Reader_ReadByte :: "Reader ReadByte" where
  "Reader_ReadByte r =
     (let r = r\<lparr>prev_rune := - 1\<rparr> in
      if ri r \<ge> length (rs r) then (0, Some EOF, r)
      else (rs r ! ri r, None, r\<lparr>ri := ri r + 1\<rparr>))"

definition Reader_UnreadByte :: "Reader \<Rightarrow> io_error option \<times> Reader" where
  "Reader_UnreadByte r =
     (if ri r = 0 then (Some (OtherError ''bytes.Reader.UnreadByte: at beginning of slice''), r)
      else (None, r\<lparr>prev_rune := - 1, ri := ri r - 1\<rparr>))"

definition unread :: "Reader \<Rightarrow> u8 list" where
  "unread r = drop (ri r) (rs r)"

section \<open>What a reader promises\<close>

lemma uvarint_loop_count: "uvarint_loop x s i bs = (y, n) \<Longrightarrow> 0 \<le> i \<Longrightarrow> n \<le> 0 \<or> i < n"
  by (induction bs arbitrary: x s i) (force split: if_splits)+

text \<open>\<open>todo\<close> is what is left to read: a byte is taken off it, or there is none and the reader reports \<open>EOF\<close>.\<close>

locale byte_source =
  fixes rd :: "'r ReadByte" and todo :: "'r \<Rightarrow> u8 list"
  assumes read_byte: "todo r = b # bs \<Longrightarrow> \<exists>r'. rd r = (b, None, r') \<and> todo r' = bs"
    and read_eof: "todo r = [] \<Longrightarrow> \<exists>b r'. rd r = (b, Some EOF, r') \<and> todo r' = []"
begin

text \<open>A reader decodes the same number as the slice decoder and stops behind it.\<close>

lemma read_loop_slice:
  "todo r = bs \<Longrightarrow> uvarint_loop x s i bs = (y, n) \<Longrightarrow> i < n \<Longrightarrow> 0 \<le> i \<Longrightarrow> i \<le> MaxVarintLen64 \<Longrightarrow>
   \<exists>r'. read_loop rd x s i r = (y, None, r') \<and> todo r' = drop (nat (n - i)) bs"
proof (induction bs arbitrary: x s i r)
  case (Cons b bs)
  obtain r1 where r1: "rd r = (b, None, r1)" "todo r1 = bs" using read_byte [OF Cons.prems(1)] by blast
  have i: "i < MaxVarintLen64" using Cons.prems(2, 3, 4, 5) by (cases "i = MaxVarintLen64") auto
  show ?case
  proof (cases "b < 0x80")
    case True
    with Cons.prems i have "y = x OR push_bit s (ucast b)" "n = i + 1" "\<not> (i = MaxVarintLen64 - 1 \<and> b > 1)"
      by (auto split: if_splits)
    then show ?thesis using True i r1 by (auto simp: read_loop.simps [of rd x s i r])
  next
    case False
    let ?x = "x OR push_bit s (ucast (b AND 0x7f))"
    have u: "uvarint_loop ?x (s + 7) (i + 1) bs = (y, n)" using Cons.prems(2) False i by auto
    have n: "i + 1 < n" using uvarint_loop_count [OF u] Cons.prems(3, 4) by auto
    then obtain r' where r': "read_loop rd ?x (s + 7) (i + 1) r1 = (y, None, r')" "todo r' = drop (nat (n - (i + 1))) bs"
      using Cons.IH [OF r1(2) u] Cons.prems(4) i by auto
    moreover have "nat (n - i) = Suc (nat (n - (i + 1)))" using n by simp
    ultimately show ?thesis using False i r1(1) by (simp add: read_loop.simps [of rd x s i r])
  qed
qed simp

text \<open>Bytes that end before their number does: \<open>EOF\<close> only if there was no byte at all.\<close>

lemma read_loop_truncated:
  "todo r = bs \<Longrightarrow> \<forall>b \<in> set bs. \<not> b < 0x80 \<Longrightarrow> 0 \<le> i \<Longrightarrow> i + int (length bs) < MaxVarintLen64 \<Longrightarrow>
   \<exists>y r'. read_loop rd x s i r = (y, Some (if 0 < i + int (length bs) then ErrUnexpectedEOF else EOF), r')"
proof (induction bs arbitrary: x s i r)
  case Nil
  then show ?case using read_eof [of r] by (auto simp: read_loop.simps [of rd x s i r])
next
  case (Cons b bs)
  obtain r1 where r1: "rd r = (b, None, r1)" "todo r1 = bs" using read_byte [OF Cons.prems(1)] by blast
  have "\<exists>y r'. read_loop rd (x OR push_bit s (ucast (b AND 0x7f))) (s + 7) (i + 1) r1 =
      (y, Some (if 0 < i + 1 + int (length bs) then ErrUnexpectedEOF else EOF), r')"
    by (rule Cons.IH [OF r1(2)]) (use Cons.prems in auto)
  then show ?case using Cons.prems r1(1) by (auto simp: read_loop.simps [of rd x s i r] add.assoc)
qed

end

interpretation slice_reader: byte_source Reader_ReadByte unread
proof unfold_locales
  fix r b bs
  assume a: "unread r = b # bs"
  then have i: "ri r < length (rs r)" unfolding unread_def by (metis drop_all list.discI not_less)
  then have "unread r = rs r ! ri r # drop (ri r + 1) (rs r)" unfolding unread_def by (simp add: Cons_nth_drop_Suc)
  with a i show "\<exists>r'. Reader_ReadByte r = (b, None, r') \<and> unread r' = bs"
    by (simp add: Reader_ReadByte_def Let_def unread_def)
next
  fix r
  assume "unread r = []"
  then show "\<exists>b r'. Reader_ReadByte r = (b, Some EOF, r') \<and> unread r' = []"
    by (simp add: Reader_ReadByte_def unread_def Let_def)
qed

lemma ReadUvarint_truncated:
  "\<forall>b \<in> set (unread r). \<not> b < 0x80 \<Longrightarrow> length (unread r) < 10 \<Longrightarrow>
   \<exists>y r'. ReadUvarint Reader_ReadByte r = (y, Some (if unread r = [] then EOF else ErrUnexpectedEOF), r')"
  using slice_reader.read_loop_truncated [of r "unread r" 0 0 0]
  by (cases "unread r = []") (simp_all add: ReadUvarint_def MaxVarintLen64_def)

lemma Reader_UnreadByte_undoes:
  "Reader_ReadByte r = (b, None, r') \<Longrightarrow> Reader_UnreadByte r' = (None, r\<lparr>prev_rune := - 1\<rparr>)"
  by (auto simp: Reader_ReadByte_def Reader_UnreadByte_def Let_def split: if_splits)

lemma Reader_Len_unread: "Reader_Len r = int (length (unread r))"
  by (simp add: Reader_Len_def unread_def)

end
