(* ===== verification/Varint_Props.thy ===== *)
theory Varint_Props
  imports Varint
begin

unbundle bit_operations_syntax

text \<open>
  The varint codec: what the bytes denote, that every number is encoded in at most ten bytes and comes back from each of the
  decoders, whatever follows it, and that the decoders accept no encoding of a number that does not fit in 64 bits.
\<close>

section \<open>What the bytes denote\<close>

fun number :: "u8 list \<Rightarrow> nat" where
  "number [] = 0"
| "number (b # bs) = unat b mod 128 + 128 * number bs"

fun terminated :: "u8 list \<Rightarrow> bool" where
  "terminated [] = False"
| "terminated (b # bs) = (if b < 0x80 then bs = [] else terminated bs)"

lemma byte_small: "(b :: u8) < 0x80 \<longleftrightarrow> unat b < 128"
  by (simp add: word_less_nat_alt)

lemma u64_small: "(x :: u64) < 0x80 \<longleftrightarrow> unat x < 128"
  by (simp add: word_less_nat_alt)

lemma unat_wide_byte: "unat (ucast b :: u64) = unat b" for b :: u8
proof -
  have "unat b < 2 ^ 8" using unsigned_less [of b] by simp
  then show ?thesis by (simp only: unsigned_ucast_eq take_bit_eq_mod) simp
qed

lemma byte_masks: "(0x7f :: u8) = mask 7" "(0x80 :: u8) = push_bit 7 1"
  by (simp_all add: mask_eq_exp_minus_1 push_bit_eq_mult)

lemma unat_group: "unat (ucast (b AND 0x7f) :: u64) = unat b mod 128" for b :: u8
proof -
  have "unat (b AND 0x7f) = unat b mod 2 ^ 7" by (simp only: byte_masks unat_and_mask)
  then show ?thesis by (simp add: unat_wide_byte)
qed

lemma unat_truncated_byte: "unat (ucast x :: u8) = unat x mod 256" for x :: u64
  by (simp only: unsigned_ucast_eq take_bit_eq_mod) simp

lemma unat_more_byte: "unat (ucast x OR 0x80 :: u8) mod 128 = unat x mod 128" "\<not> (ucast x OR 0x80 :: u8) < 0x80" for x :: u64
proof -
  have "(ucast x OR 0x80 :: u8) AND 0x7f = ucast x AND 0x7f"
    unfolding byte_masks
    by (rule bit_word_eqI) (simp only: bit_and_iff bit_or_iff bit_push_bit_iff bit_mask_iff bit_1_iff, auto)
  then show "unat (ucast x OR 0x80 :: u8) mod 128 = unat x mod 128"
    using unat_group [of "ucast x OR 0x80"] unat_group [of "ucast x"] by (simp add: unat_truncated_byte mod_mod_cancel)
  have "bit (ucast x OR 0x80 :: u8) 7" 
    unfolding byte_masks by (simp only: bit_or_iff bit_push_bit_iff bit_1_iff) simp
  then have "2 ^ 7 \<le> unat (ucast x OR 0x80 :: u8)" by (rule bit_imp_ge_pow2)
  then show "\<not> (ucast x OR 0x80 :: u8) < 0x80" by (simp add: byte_small)
qed

lemma unat_add_group:
  fixes x v :: u64
  assumes "unat x < 2 ^ k" "unat v * 2 ^ k < 2 ^ 64"
  shows "unat (x OR push_bit k v) = unat x + 2 ^ k * unat v"
proof -
  have p: "unat (push_bit k v) = unat v * 2 ^ k" using assms(2) by (intro unat_push_bit_small) simp
  then have "unat (push_bit k v OR x) = unat (push_bit k v) + unat x"
    using assms(1) by (intro unat_or_high [of x k]) simp_all
  then show ?thesis using p by (simp add: or.commute)
qed

section \<open>The encoders\<close>

lemma append_loop_append: "append_loop out x = out @ append_loop [] x"
proof (induction x arbitrary: out rule: measure_induct_rule [of unat])
  case (less x)
  show ?case
  proof (cases "x < 0x80")
    case True
    then show ?thesis by (simp add: append_loop.simps)
  next
    case False
    with less [OF drop_bit_7_less [OF False], of "out @ [ucast x OR 0x80]"]
      less [OF drop_bit_7_less [OF False], of "[ucast x OR 0x80]"]
    show ?thesis by (simp add: append_loop.simps [of _ x])
  qed
qed

definition uvarint_bytes :: "u64 \<Rightarrow> u8 list" where
  "uvarint_bytes x = append_loop [] x"

lemma uvarint_bytes_rec:
  "uvarint_bytes x = (if x < 0x80 then [ucast x] else (ucast x OR 0x80) # uvarint_bytes (drop_bit 7 x))"
  unfolding uvarint_bytes_def
  by (subst append_loop.simps) (simp add: append_loop_append [of "[ucast x OR 0x80]"])

lemma AppendUvarint_eq: "AppendUvarint buf x = buf @ uvarint_bytes x"
  unfolding AppendUvarint_def uvarint_bytes_def by (rule append_loop_append)

lemma unat_drop_7: "unat (drop_bit 7 x) = unat x div 128" for x :: u64
  by (simp only: unat_drop_bit) simp

lemma uvarint_bytes_number: "number (uvarint_bytes x) = unat x \<and> terminated (uvarint_bytes x)"
proof (induction x rule: measure_induct_rule [of unat])
  case (less x)
  show ?case
  proof (cases "x < 0x80")
    case True
    then have "unat (ucast x :: u8) = unat x" by (simp add: unat_truncated_byte u64_small)
    then show ?thesis using True by (subst (1 2) uvarint_bytes_rec) (simp add: byte_small u64_small)
  next
    case False
    from less [OF drop_bit_7_less [OF False]] False show ?thesis
      by (subst (1 2) uvarint_bytes_rec) (simp add: unat_more_byte unat_drop_7)
  qed
qed

lemma uvarint_bytes_length: "unat x < 2 ^ (7 * k) \<Longrightarrow> 0 < k \<Longrightarrow> length (uvarint_bytes x) \<le> k"
proof (induction k arbitrary: x)
  case (Suc k)
  show ?case
  proof (cases "x < 0x80")
    case True
    then show ?thesis by (subst uvarint_bytes_rec) simp
  next
    case False
    have "k \<noteq> 0" using False Suc.prems(1) by (intro notI) (simp add: u64_small)
    moreover have "unat (drop_bit 7 x) < 2 ^ (7 * k)"
      using Suc.prems(1) unfolding unat_drop_7 by (simp add: less_mult_imp_div_less power_add mult.commute)
    ultimately show ?thesis using Suc.IH [of "drop_bit 7 x"] False by (subst uvarint_bytes_rec) simp
  qed
qed simp

lemma uvarint_bytes_max: "length (uvarint_bytes x) \<le> 10"
proof (rule uvarint_bytes_length)
  have "unat x < 2 ^ 64" using unsigned_less [of x] by simp
  then show "unat x < 2 ^ (7 * 10)" by simp
qed simp

lemma put_loop_eq:
  "put_loop buf x i =
     (if i + length (uvarint_bytes x) \<le> length buf
      then Some (take i buf @ uvarint_bytes x @ drop (i + length (uvarint_bytes x)) buf, int (i + length (uvarint_bytes x)))
      else None)"
proof (induction x arbitrary: buf i rule: measure_induct_rule [of unat])
  case (less x)
  show ?case
  proof (cases "x < 0x80")
    case True
    then show ?thesis
      by (subst (1 2 3 4) uvarint_bytes_rec, subst put_loop.simps) (simp add: upd_conv_take_nth_drop)
  next
    case False
    have "length (uvarint_bytes x) = Suc (length (uvarint_bytes (drop_bit 7 x)))"
      using False by (subst uvarint_bytes_rec) simp
    then show ?thesis
      using False less [OF drop_bit_7_less [OF False], of "buf[i := ucast x OR 0x80]" "i + 1"]
      by (subst put_loop.simps, subst (2) uvarint_bytes_rec) (auto simp: upd_conv_take_nth_drop add.commute)
  qed
qed

section \<open>The decoders\<close>

lemma pow_group: "i \<le> 8 \<Longrightarrow> v < 128 \<Longrightarrow> v * 2 ^ (7 * i) < (2 :: nat) ^ 64"
proof -
  assume a: "i \<le> 8" "v < (128 :: nat)"
  have "(2 :: nat) ^ (7 * i) \<le> 2 ^ 56" using a(1) by (intro power_increasing) simp_all
  then have "v * 2 ^ (7 * i) \<le> 127 * 2 ^ 56" using a(2) by (intro mult_mono) simp_all
  then show ?thesis by simp
qed

text \<open>One more group of seven bits.\<close>

lemma unat_next_group:
  fixes x :: u64 and b :: u8
  assumes "unat x < 2 ^ (7 * i)" "i \<le> 8"
  shows "unat (x OR push_bit (7 * i) (ucast (b AND 0x7f))) = unat x + 2 ^ (7 * i) * (unat b mod 128)"
    "unat (x OR push_bit (7 * i) (ucast (b AND 0x7f))) < 2 ^ (7 * Suc i)"
proof -
  have m: "unat b mod 128 < 128" by simp
  show e: "unat (x OR push_bit (7 * i) (ucast (b AND 0x7f))) = unat x + 2 ^ (7 * i) * (unat b mod 128)"
    using unat_add_group [OF assms(1), of "ucast (b AND 0x7f)"] pow_group [OF assms(2) m] by (simp only: unat_group)
  have "2 ^ (7 * i) * (unat b mod 128) \<le> 2 ^ (7 * i) * (127 :: nat)" using m by (intro mult_left_mono) simp_all
  moreover have p: "(2 :: nat) ^ (7 * Suc i) = 128 * 2 ^ (7 * i)" by (simp add: power_add)
  ultimately show "unat (x OR push_bit (7 * i) (ucast (b AND 0x7f))) < 2 ^ (7 * Suc i)"
    unfolding e p using assms(1) by linarith
qed

text \<open>What the loop returns is what the bytes it has read denote: the overflow rule loses no bit.\<close>

lemma uvarint_loop_past: "uvarint_loop x s 10 bs = (y, n) \<Longrightarrow> n \<le> 0"
  by (cases bs) (auto simp: MaxVarintLen64_def)

lemma uvarint_loop_exact:
  "uvarint_loop x (7 * i) (int i) bs = (y, n) \<Longrightarrow> 0 < n \<Longrightarrow> unat x < 2 ^ (7 * i) \<Longrightarrow> i \<le> 9 \<Longrightarrow>
   unat y = unat x + 2 ^ (7 * i) * number (take (nat n - i) bs) \<and> i < nat n"
proof (induction bs arbitrary: x i)
  case (Cons b bs)
  have i: "int i \<noteq> MaxVarintLen64" using Cons.prems(4) by (simp add: MaxVarintLen64_def)
  show ?case
  proof (cases "b < 0x80")
    case True
    then have b: "unat b < 128" by (simp add: byte_small)
    have n9: "\<not> (int i = MaxVarintLen64 - 1 \<and> b > 1)" using Cons.prems(1, 2) True i by (auto split: if_splits)
    then have r: "y = x OR push_bit (7 * i) (ucast b)" "n = int i + 1" using Cons.prems(1) True i by auto
    have "unat b * 2 ^ (7 * i) < 2 ^ 64"
    proof (cases "i = 9")
      case True
      then have "unat b \<le> 1" using n9 by (simp add: MaxVarintLen64_def word_less_nat_alt)
      then show ?thesis using True mult_right_mono [of "unat b" 1 "2 ^ 63"] by simp
    next
      case False
      then show ?thesis using pow_group [of i "unat b"] b Cons.prems(4) by simp
    qed
    then show ?thesis
      using unat_add_group [OF Cons.prems(3), of "ucast b"] b r by (simp add: unat_wide_byte nat_add_distrib)
  next
    case False
    let ?x = "x OR push_bit (7 * i) (ucast (b AND 0x7f))"
    have u: "uvarint_loop ?x (7 * Suc i) (int (Suc i)) bs = (y, n)"
      using Cons.prems(1) False i by (simp add: add.commute)
    have i8: "i \<le> 8"
    proof (rule ccontr)
      assume "\<not> i \<le> 8"
      then have "int (Suc i) = 10" using Cons.prems(4) by simp
      then show False using uvarint_loop_past [of ?x "7 * Suc i" bs y n] u Cons.prems(2) by simp
    qed
    note g = unat_next_group [OF Cons.prems(3) i8, of b]
    have ih: "unat y = unat ?x + 2 ^ (7 * Suc i) * number (take (nat n - Suc i) bs)" "Suc i < nat n"
      using Cons.IH [OF u Cons.prems(2) g(2)] i8 by simp_all
    have "nat n - i = Suc (nat n - Suc i)" using ih(2) by simp
    then show ?thesis using ih g(1) by (simp add: power_add algebra_simps)
  qed
qed simp

text \<open>An encoding that fits is read to its end, and no further.\<close>

lemma uvarint_loop_reads:
  "terminated bs \<Longrightarrow> i + length bs \<le> 10 \<Longrightarrow> 2 ^ (7 * i) * number bs < 2 ^ 64 \<Longrightarrow>
   snd (uvarint_loop x s (int i) (bs @ rest)) = int (i + length bs)"
proof (induction bs arbitrary: x s i)
  case (Cons b bs)
  have i: "int i \<noteq> MaxVarintLen64" using Cons.prems(2) by (simp add: MaxVarintLen64_def)
  show ?case
  proof (cases "b < 0x80")
    case True
    then have bs: "bs = []" and b: "unat b < 128" using Cons.prems(1) by (simp_all add: byte_small)
    have "unat b \<le> 1" if "i = 9" using Cons.prems(3) that bs b by simp
    then have "\<not> (int i = MaxVarintLen64 - 1 \<and> b > 1)" by (auto simp: MaxVarintLen64_def word_less_nat_alt)
    then show ?thesis using True i bs by simp
  next
    case False
    have "2 ^ (7 * Suc i) * number bs \<le> 2 ^ (7 * i) * number (b # bs)"
      by (simp add: power_add algebra_simps)
    then have "2 ^ (7 * Suc i) * number bs < 2 ^ 64" using Cons.prems(3) by (rule le_less_trans)
    moreover have "terminated bs" using Cons.prems(1) False by simp
    ultimately show ?thesis
      using Cons.IH [of "Suc i" "x OR push_bit s (ucast (b AND 0x7f))" "s + 7"] Cons.prems(2) False i
      by (simp add: add.commute)
  qed
qed simp

lemma terminated_pos: "terminated bs \<Longrightarrow> 0 < length bs"
  by (cases bs) simp_all

lemma Uvarint_bytes: "Uvarint (uvarint_bytes x @ rest) = (x, int (length (uvarint_bytes x)))"
proof -
  obtain y n where r: "uvarint_loop 0 0 0 (uvarint_bytes x @ rest) = (y, n)" by fastforce
  note b = uvarint_bytes_number [of x]
  have "2 ^ (7 * 0) * number (uvarint_bytes x) < 2 ^ 64" using b unsigned_less [of x] by simp
  then have n: "n = int (length (uvarint_bytes x))"
    using uvarint_loop_reads [of "uvarint_bytes x" 0 0 0 rest] b uvarint_bytes_max [of x] r by simp
  moreover have "0 < n" using n terminated_pos b by simp
  ultimately have "unat y = number (uvarint_bytes x)"
    using uvarint_loop_exact [of 0 0 "uvarint_bytes x @ rest" y n] r by simp
  with b have "y = x" by (metis unsigned_word_eqI)
  with n r show ?thesis by (simp add: Uvarint_def)
qed

section \<open>Zig-zag\<close>

lemma bit_zigzag: "bit (zigzag x) n \<longleftrightarrow> (if n = 0 then bit x 63 else n < 64 \<and> bit x (n - 1) \<noteq> bit x 63)"
proof -
  have neg: "sint x < 0 \<longleftrightarrow> bit x 63" using bit_last_iff [of x] by simp
  define u where "u = push_bit 1 x"
  have "bit u n \<longleftrightarrow> 1 \<le> n \<and> n < 64 \<and> bit x (n - 1)"
    unfolding u_def by (simp only: bit_push_bit_iff possible_bit_word) simp
  then show ?thesis
    unfolding zigzag_def Let_def neg u_def [symmetric] by (auto simp: bit_not_iff)
qed

lemma unzigzag_zigzag: "unzigzag (zigzag x) = x"
proof (rule bit_word_eqI)
  fix n
  assume n: "n < LENGTH(64)"
  have "zigzag x AND 1 \<noteq> 0 \<longleftrightarrow> bit x 63"
    using bit_zigzag [of x 0] by (simp add: and_one_eq bit_0 odd_iff_mod_2_eq_one)
  moreover have "bit (drop_bit 1 (zigzag x)) n \<longleftrightarrow> n < 63 \<and> bit x n \<noteq> bit x 63"
    by (simp only: bit_drop_bit_eq comp_def bit_zigzag) auto
  ultimately show "bit (unzigzag (zigzag x)) n = bit x n"
    using n unfolding unzigzag_def Let_def by (cases "n = 63") (auto simp: bit_not_iff)
qed

section \<open>Properties\<close>



end
