(* ===== verification/Container_List.thy ===== *)
theory Container_List
  imports Goish_Prelude
begin

text \<open>
  The doubly linked list (\<^verbatim>\<open>src/src/container/list/list.rs\<close>): a slab of nodes keyed by
  identifiers, linked in a ring through the root node 0.  The value of a node lives in a cell it shares with the element handles;
  a cell is an address into a store of values.  An element names its list, its node and its cell; that its
  list is the one it is used with (\<^verbatim>\<open>Rc::ptr_eq\<close>) is equality of list addresses.  A failed
  \<^verbatim>\<open>expect\<close> is the result \<open>None\<close>.
\<close>

section \<open>The slab\<close>

definition ROOT_ID :: nat where "ROOT_ID = 0"

definition FIRST_REAL_ID :: nat where "FIRST_REAL_ID = 1"

record node =
  nnext :: nat
  nprev :: nat
  nvalue :: "nat option"

record list_inner =
  nodes :: "nat \<rightharpoonup> node"
  next_id :: nat
  llen :: int

definition li_new :: list_inner where
  "li_new = \<lparr>nodes = [ROOT_ID \<mapsto> \<lparr>nnext = ROOT_ID, nprev = ROOT_ID, nvalue = None\<rparr>],
             next_id = FIRST_REAL_ID, llen = 0\<rparr>"

text \<open>\<^verbatim>\<open>get_mut(k).expect(..).next = v\<close> and the same for \<^verbatim>\<open>prev\<close>.\<close>

definition set_next :: "(nat \<rightharpoonup> node) \<Rightarrow> nat \<Rightarrow> nat \<Rightarrow> (nat \<rightharpoonup> node) option" where
  "set_next N k v = (case N k of None \<Rightarrow> None | Some n \<Rightarrow> Some (N(k \<mapsto> n\<lparr>nnext := v\<rparr>)))"

definition set_prev :: "(nat \<rightharpoonup> node) \<Rightarrow> nat \<Rightarrow> nat \<Rightarrow> (nat \<rightharpoonup> node) option" where
  "set_prev N k v = (case N k of None \<Rightarrow> None | Some n \<Rightarrow> Some (N(k \<mapsto> n\<lparr>nprev := v\<rparr>)))"

definition li_insert :: "list_inner \<Rightarrow> nat \<Rightarrow> nat \<Rightarrow> (list_inner \<times> nat) option" where
  "li_insert l value at =
     (let new_id = next_id l in
      case nodes l at of
        None \<Rightarrow> None
      | Some a \<Rightarrow>
          (let at_next = nnext a;
               N = (nodes l)(new_id \<mapsto> \<lparr>nnext = at_next, nprev = at, nvalue = Some value\<rparr>) in
           case set_next N at new_id of
             None \<Rightarrow> None
           | Some N1 \<Rightarrow>
               (case set_prev N1 at_next new_id of
                  None \<Rightarrow> None
                | Some N2 \<Rightarrow> Some (\<lparr>nodes = N2, next_id = next_id l + 1, llen = llen l + 1\<rparr>, new_id))))"

definition insertValue :: "list_inner \<Rightarrow> nat \<Rightarrow> nat \<Rightarrow> (list_inner \<times> nat) option" where
  "insertValue l v at = li_insert l v at"

definition lazyInit :: "list_inner \<Rightarrow> list_inner" where
  "lazyInit l =
     (if nodes l ROOT_ID \<noteq> None then l
      else \<lparr>nodes = (nodes l)(ROOT_ID \<mapsto> \<lparr>nnext = ROOT_ID, nprev = ROOT_ID, nvalue = None\<rparr>),
            next_id = FIRST_REAL_ID, llen = 0\<rparr>)"

definition upd_next :: "(nat \<rightharpoonup> node) \<Rightarrow> nat \<Rightarrow> nat \<Rightarrow> (nat \<rightharpoonup> node)" where
  "upd_next N k v = (case N k of None \<Rightarrow> N | Some n \<Rightarrow> N(k \<mapsto> n\<lparr>nnext := v\<rparr>))"

definition upd_prev :: "(nat \<rightharpoonup> node) \<Rightarrow> nat \<Rightarrow> nat \<Rightarrow> (nat \<rightharpoonup> node)" where
  "upd_prev N k v = (case N k of None \<Rightarrow> N | Some n \<Rightarrow> N(k \<mapsto> n\<lparr>nprev := v\<rparr>))"

definition li_remove :: "list_inner \<Rightarrow> nat \<Rightarrow> list_inner" where
  "li_remove l e =
     (case nodes l e of
        None \<Rightarrow> l
      | Some n \<Rightarrow>
          (let N1 = upd_next (nodes l) (nprev n) (nnext n);
               N2 = upd_prev N1 (nnext n) (nprev n)
           in l\<lparr>nodes := N2(e := None), llen := llen l - 1\<rparr>))"

definition li_move :: "list_inner \<Rightarrow> nat \<Rightarrow> nat \<Rightarrow> list_inner option" where
  "li_move l e at =
     (if e = at then Some l
      else case nodes l e of
        None \<Rightarrow> None
      | Some n \<Rightarrow>
          (case set_next (nodes l) (nprev n) (nnext n) of
             None \<Rightarrow> None
           | Some N1 \<Rightarrow>
          (case set_prev N1 (nnext n) (nprev n) of
             None \<Rightarrow> None
           | Some N2 \<Rightarrow>
          (case N2 at of
             None \<Rightarrow> None
           | Some a \<Rightarrow>
              (let at_next = nnext a in
               case N2 e of
                 None \<Rightarrow> None
               | Some en \<Rightarrow>
                  (let N3 = N2(e \<mapsto> en\<lparr>nprev := at, nnext := at_next\<rparr>) in
                   case set_next N3 at e of
                     None \<Rightarrow> None
                   | Some N4 \<Rightarrow>
                       (case set_prev N4 at_next e of
                          None \<Rightarrow> None
                        | Some N5 \<Rightarrow> Some (l\<lparr>nodes := N5\<rparr>))))))))"

section \<open>Lists and elements\<close>

record element =
  el_list :: nat
  el_id :: nat
  el_cell :: nat

text \<open>The list at address \<open>a\<close> with content \<open>l\<close>; a new value is stored in the fresh cell \<open>c\<close>.\<close>

definition list_Init :: "list_inner \<Rightarrow> list_inner" where
  "list_Init l = \<lparr>nodes = [ROOT_ID \<mapsto> \<lparr>nnext = ROOT_ID, nprev = ROOT_ID, nvalue = None\<rparr>],
                  next_id = FIRST_REAL_ID, llen = 0\<rparr>"

definition list_Len :: "list_inner \<Rightarrow> int" where
  "list_Len l = llen l"

definition mk_element :: "(nat \<rightharpoonup> node) \<Rightarrow> nat \<Rightarrow> nat \<Rightarrow> element option" where
  "mk_element N a k =
     (case N k of None \<Rightarrow> None
      | Some n \<Rightarrow> (case nvalue n of None \<Rightarrow> None | Some c \<Rightarrow> Some \<lparr>el_list = a, el_id = k, el_cell = c\<rparr>))"

definition list_Front :: "nat \<Rightarrow> list_inner \<Rightarrow> element option" where
  "list_Front a l =
     (if llen l = 0 then None
      else case nodes l ROOT_ID of None \<Rightarrow> None | Some r \<Rightarrow> mk_element (nodes l) a (nnext r))"

definition list_Back :: "nat \<Rightarrow> list_inner \<Rightarrow> element option" where
  "list_Back a l =
     (if llen l = 0 then None
      else case nodes l ROOT_ID of None \<Rightarrow> None | Some r \<Rightarrow> mk_element (nodes l) a (nprev r))"

text \<open>\<^verbatim>\<open>Remove\<close> returns the value of the element's cell; here the cell.\<close>

definition list_Remove :: "nat \<Rightarrow> list_inner \<Rightarrow> element \<Rightarrow> list_inner \<times> nat" where
  "list_Remove a l e =
     (if el_list e = a \<and> nodes l (el_id e) \<noteq> None \<and> el_id e \<noteq> ROOT_ID
      then (li_remove l (el_id e), el_cell e) else (l, el_cell e))"

definition list_PushFront :: "nat \<Rightarrow> list_inner \<Rightarrow> nat \<Rightarrow> (list_inner \<times> element) option" where
  "list_PushFront a l c =
     (case insertValue (lazyInit l) c ROOT_ID of
        None \<Rightarrow> None
      | Some (l', i) \<Rightarrow> Some (l', \<lparr>el_list = a, el_id = i, el_cell = c\<rparr>))"

definition list_PushBack :: "nat \<Rightarrow> list_inner \<Rightarrow> nat \<Rightarrow> (list_inner \<times> element) option" where
  "list_PushBack a l c =
     (let l0 = lazyInit l in
      case nodes l0 ROOT_ID of
        None \<Rightarrow> None
      | Some r \<Rightarrow>
          (case insertValue l0 c (nprev r) of
             None \<Rightarrow> None
           | Some (l', i) \<Rightarrow> Some (l', \<lparr>el_list = a, el_id = i, el_cell = c\<rparr>)))"

text \<open>The result is the list and the new element, if any.\<close>

definition list_InsertBefore :: "nat \<Rightarrow> list_inner \<Rightarrow> nat \<Rightarrow> element \<Rightarrow> (list_inner \<times> element option) option" where
  "list_InsertBefore a l c mark =
     (if el_list mark \<noteq> a then Some (l, None)
      else case nodes l (el_id mark) of
        None \<Rightarrow> Some (l, None)
      | Some m \<Rightarrow>
          (case insertValue l c (nprev m) of
             None \<Rightarrow> None
           | Some (l', i) \<Rightarrow> Some (l', Some \<lparr>el_list = a, el_id = i, el_cell = c\<rparr>)))"

definition list_InsertAfter :: "nat \<Rightarrow> list_inner \<Rightarrow> nat \<Rightarrow> element \<Rightarrow> (list_inner \<times> element option) option" where
  "list_InsertAfter a l c mark =
     (if el_list mark \<noteq> a then Some (l, None)
      else if nodes l (el_id mark) = None then Some (l, None)
      else case insertValue l c (el_id mark) of
        None \<Rightarrow> None
      | Some (l', i) \<Rightarrow> Some (l', Some \<lparr>el_list = a, el_id = i, el_cell = c\<rparr>))"

definition list_MoveToFront :: "nat \<Rightarrow> list_inner \<Rightarrow> element \<Rightarrow> list_inner option" where
  "list_MoveToFront a l e =
     (if el_list e \<noteq> a then Some l
      else case nodes l ROOT_ID of
        None \<Rightarrow> Some l
      | Some r \<Rightarrow>
          if nnext r = el_id e then Some l
          else if nodes l (el_id e) = None \<or> el_id e = ROOT_ID then Some l
          else li_move l (el_id e) ROOT_ID)"

definition list_MoveToBack :: "nat \<Rightarrow> list_inner \<Rightarrow> element \<Rightarrow> list_inner option" where
  "list_MoveToBack a l e =
     (if el_list e \<noteq> a then Some l
      else case nodes l ROOT_ID of
        None \<Rightarrow> Some l
      | Some r \<Rightarrow>
          if nprev r = el_id e then Some l
          else if nodes l (el_id e) = None \<or> el_id e = ROOT_ID then Some l
          else li_move l (el_id e) (nprev r))"

definition list_MoveBefore :: "nat \<Rightarrow> list_inner \<Rightarrow> element \<Rightarrow> element \<Rightarrow> list_inner option" where
  "list_MoveBefore a l e mark =
     (if el_list e \<noteq> a \<or> el_id e = el_id mark \<or> el_list mark \<noteq> a then Some l
      else case nodes l (el_id mark) of
        None \<Rightarrow> Some l
      | Some m \<Rightarrow> if nodes l (el_id e) = None then Some l else li_move l (el_id e) (nprev m))"

definition list_MoveAfter :: "nat \<Rightarrow> list_inner \<Rightarrow> element \<Rightarrow> element \<Rightarrow> list_inner option" where
  "list_MoveAfter a l e mark =
     (if el_list e \<noteq> a \<or> el_id e = el_id mark \<or> el_list mark \<noteq> a then Some l
      else if nodes l (el_id e) = None \<or> nodes l (el_id mark) = None then Some l
      else li_move l (el_id e) (el_id mark))"

text \<open>The traversals; a ring that does not come back to the root would never be left.\<close>

partial_function (option) snap_from :: "(nat \<rightharpoonup> node) \<Rightarrow> (node \<Rightarrow> nat) \<Rightarrow> (nat \<Rightarrow> 'v) \<Rightarrow> nat \<Rightarrow> 'v list option" where
  "snap_from N dir cells cur =
     (if cur = ROOT_ID then Some []
      else case N cur of
        None \<Rightarrow> None
      | Some n \<Rightarrow>
          Option.bind (snap_from N dir cells (dir n))
            (\<lambda>vs. Some (case nvalue n of None \<Rightarrow> vs | Some c \<Rightarrow> cells c # vs)))"

definition snapshot_forward :: "list_inner \<Rightarrow> (nat \<Rightarrow> 'v) \<Rightarrow> 'v list option" where
  "snapshot_forward l cells =
     (case nodes l ROOT_ID of None \<Rightarrow> None | Some r \<Rightarrow> snap_from (nodes l) nnext cells (nnext r))"

definition snapshot_backward :: "list_inner \<Rightarrow> (nat \<Rightarrow> 'v) \<Rightarrow> 'v list option" where
  "snapshot_backward l cells =
     (case nodes l ROOT_ID of None \<Rightarrow> None | Some r \<Rightarrow> snap_from (nodes l) nprev cells (nprev r))"

text \<open>Appending the values of another list, each copied to a fresh cell \<open>c\<close>, \<open>c + 1\<close>, and so on.\<close>

fun push_back_all :: "list_inner \<Rightarrow> (nat \<Rightarrow> 'v) \<Rightarrow> nat \<Rightarrow> 'v list \<Rightarrow> (list_inner \<times> (nat \<Rightarrow> 'v)) option" where
  "push_back_all l cells c [] = Some (l, cells)"
| "push_back_all l cells c (v # vs) =
     (case nodes l ROOT_ID of
        None \<Rightarrow> None
      | Some r \<Rightarrow>
          (case insertValue l c (nprev r) of
             None \<Rightarrow> None
           | Some (l', _) \<Rightarrow> push_back_all l' (cells(c := v)) (c + 1) vs))"

fun push_front_all :: "list_inner \<Rightarrow> (nat \<Rightarrow> 'v) \<Rightarrow> nat \<Rightarrow> 'v list \<Rightarrow> (list_inner \<times> (nat \<Rightarrow> 'v)) option" where
  "push_front_all l cells c [] = Some (l, cells)"
| "push_front_all l cells c (v # vs) =
     (case insertValue l c ROOT_ID of
        None \<Rightarrow> None
      | Some (l', _) \<Rightarrow> push_front_all l' (cells(c := v)) (c + 1) vs)"

definition list_PushBackList :: "list_inner \<Rightarrow> list_inner \<Rightarrow> (nat \<Rightarrow> 'v) \<Rightarrow> nat \<Rightarrow> (list_inner \<times> (nat \<Rightarrow> 'v)) option" where
  "list_PushBackList l other cells c =
     (case snapshot_forward other cells of
        None \<Rightarrow> None | Some vs \<Rightarrow> push_back_all (lazyInit l) cells c vs)"

definition list_PushFrontList :: "list_inner \<Rightarrow> list_inner \<Rightarrow> (nat \<Rightarrow> 'v) \<Rightarrow> nat \<Rightarrow> (list_inner \<times> (nat \<Rightarrow> 'v)) option" where
  "list_PushFrontList l other cells c =
     (case snapshot_backward other cells of
        None \<Rightarrow> None | Some vs \<Rightarrow> push_front_all (lazyInit l) cells c vs)"

definition element_Value :: "(nat \<Rightarrow> 'v) \<Rightarrow> element \<Rightarrow> 'v" where
  "element_Value cells e = cells (el_cell e)"

definition element_SetValue :: "(nat \<Rightarrow> 'v) \<Rightarrow> element \<Rightarrow> 'v \<Rightarrow> (nat \<Rightarrow> 'v)" where
  "element_SetValue cells e v = cells(el_cell e := v)"

definition element_Next :: "list_inner \<Rightarrow> element \<Rightarrow> element option" where
  "element_Next l e =
     (case nodes l (el_id e) of
        None \<Rightarrow> None
      | Some n \<Rightarrow> if nnext n = ROOT_ID then None else mk_element (nodes l) (el_list e) (nnext n))"

definition element_Prev :: "list_inner \<Rightarrow> element \<Rightarrow> element option" where
  "element_Prev l e =
     (case nodes l (el_id e) of
        None \<Rightarrow> None
      | Some n \<Rightarrow> if nprev n = ROOT_ID then None else mk_element (nodes l) (el_list e) (nprev n))"

end
