(* ===== verification/Container_List_Props.thy ===== *)
theory Container_List_Props
  imports Container_List
begin

text \<open>
  The list is a sequence.  A slab in which the links form one ring through the root represents the sequence of
  its nodes; every operation keeps the ring and acts on the sequence as its documentation says.
\<close>

section \<open>Rings\<close>

fun chain :: "(nat \<Rightarrow> nat) \<Rightarrow> nat list \<Rightarrow> bool" where
  "chain f (x # y # zs) = (f x = y \<and> chain f (y # zs))"
| "chain f xs = True"

definition cycle :: "(nat \<Rightarrow> nat) \<Rightarrow> nat list \<Rightarrow> bool" where
  "cycle f ids = chain f (0 # ids @ [0])"

lemma chain_Cons: "chain f (x # ys) \<longleftrightarrow> (ys = [] \<or> f x = hd ys \<and> chain f ys)"
  by (cases ys) auto

lemma chain_append: "chain f (xs @ a # ys) \<longleftrightarrow> chain f (xs @ [a]) \<and> chain f (a # ys)"
proof (induction xs)
  case (Cons x xs)
  show ?case using Cons by (cases xs) (auto simp: chain_Cons)
qed simp

lemma chain_upd_outside: "x \<notin> set (butlast xs) \<Longrightarrow> chain (f(x := v)) xs = chain f xs"
proof (induction xs)
  case (Cons y xs)
  then show ?case by (cases xs) auto
qed simp

lemma ring_split: "cycle f (us @ vs) \<longleftrightarrow> chain f (0 # us) \<and> f (last (0 # us)) = hd (vs @ [0]) \<and> chain f (vs @ [0])"
proof -
  obtain xs a where x: "0 # us = xs @ [a]" by (metis append_butlast_last_id list.distinct(1))
  have e: "0 # (us @ vs) @ [0] = xs @ a # (vs @ [0])" using x by (metis append.assoc append_Cons append_Nil)
  have "chain f (a # vs @ [0]) \<longleftrightarrow> f a = hd (vs @ [0]) \<and> chain f (vs @ [0])" by (simp add: chain_Cons)
  then show ?thesis unfolding cycle_def e using chain_append [of f xs a "vs @ [0]"] by (simp only: x last_snoc)
qed

lemma ring_next: "cycle f (us @ vs) \<Longrightarrow> f (last (0 # us)) = hd (vs @ [0])"
  by (simp only: ring_split)

lemma last_notin_butlast: "distinct xs \<Longrightarrow> xs \<noteq> [] \<Longrightarrow> last xs \<notin> set (butlast xs)"
  by (metis append_butlast_last_id distinct_append disjoint_iff list.set_intros(1))

lemma ring_last:
  assumes "distinct (0 # us @ vs)"
  shows "last (0 # us) \<notin> set (butlast (0 # us))" "last (0 # us) \<notin> set vs" "last (0 # us) \<in> set (0 # us)"
proof -
  show 1: "last (0 # us) \<in> set (0 # us)" by (rule last_in_set) simp
  show "last (0 # us) \<notin> set (butlast (0 # us))" using assms by (intro last_notin_butlast) auto
  show "last (0 # us) \<notin> set vs" using 1 assms by auto
qed

lemma ring_insert:
  assumes r: "cycle f (us @ vs)" and d: "distinct (0 # us @ vs)" and n: "n \<notin> set (0 # us @ vs)"
  shows "cycle (f(last (0 # us) := n, n := hd (vs @ [0]))) (us @ n # vs)"
proof -
  let ?a = "last (0 # us)" and ?g = "f(last (0 # us) := n, n := hd (vs @ [0]))"
  note a = ring_last [OF d]
  have s: "chain f (0 # us)" "chain f (vs @ [0])" using r by (simp_all only: ring_split)
  have nb: "n \<notin> set (butlast (0 # us))" using n by (auto dest: in_set_butlastD simp del: butlast.simps)
  have "chain ?g (0 # us)" using s(1) a(1) nb by (simp only: chain_upd_outside not_False_eq_True)
  moreover have "chain ?g (vs @ [0])"
  proof -
    have "n \<notin> set (butlast (vs @ [0]))" "?a \<notin> set (butlast (vs @ [0]))" using a(2) n by (simp_all del: last.simps)
    with s(2) show ?thesis by (simp only: chain_upd_outside not_False_eq_True)
  qed
  moreover have "?a \<noteq> n" using a(3) n by auto
  ultimately show ?thesis by (simp add: ring_split chain_Cons del: last.simps)
qed

lemma ring_delete:
  assumes r: "cycle f (us @ e # vs)" and d: "distinct (0 # us @ e # vs)"
  shows "cycle (f(last (0 # us) := hd (vs @ [0]))) (us @ vs)"
proof -
  have d': "distinct (0 # us @ vs)" using d by auto
  note a = ring_last [OF d']
  have "chain f (0 # us)" "chain f (vs @ [0])" using r by (simp_all add: ring_split chain_Cons del: last.simps)
  then show ?thesis using a by (simp add: ring_split chain_upd_outside del: last.simps butlast.simps)
qed

lemma ring_outside: "x \<notin> set (0 # ids) \<Longrightarrow> cycle (f(x := v)) ids = cycle f ids"
  unfolding cycle_def by (rule chain_upd_outside) (simp add: butlast_append)

section \<open>The slab as a sequence\<close>

definition nxt :: "(nat \<rightharpoonup> node) \<Rightarrow> nat \<Rightarrow> nat" where "nxt N k = nnext (the (N k))"
definition prv :: "(nat \<rightharpoonup> node) \<Rightarrow> nat \<Rightarrow> nat" where "prv N k = nprev (the (N k))"
definition nvl :: "(nat \<rightharpoonup> node) \<Rightarrow> nat \<Rightarrow> nat option" where "nvl N k = nvalue (the (N k))"

lemma set_next_upd: "k \<in> dom N \<Longrightarrow> set_next N k v = Some (upd_next N k v)"
  by (auto simp: set_next_def upd_next_def)

lemma set_prev_upd: "k \<in> dom N \<Longrightarrow> set_prev N k v = Some (upd_prev N k v)"
  by (auto simp: set_prev_def upd_prev_def)

lemma upd_next_dom:
  assumes "k \<in> dom N"
  shows "dom (upd_next N k v) = dom N" "nxt (upd_next N k v) = (nxt N)(k := v)" "prv (upd_next N k v) = prv N"
    "nvl (upd_next N k v) = nvl N"
  using assms by (auto simp: upd_next_def nxt_def prv_def nvl_def fun_eq_iff split: if_splits)

lemma upd_prev_dom:
  assumes "k \<in> dom N"
  shows "dom (upd_prev N k v) = dom N" "nxt (upd_prev N k v) = nxt N" "prv (upd_prev N k v) = (prv N)(k := v)"
    "nvl (upd_prev N k v) = nvl N"
  using assms by (auto simp: upd_prev_def nxt_def prv_def nvl_def fun_eq_iff split: if_splits)

lemmas slab_upd = set_next_upd set_prev_upd upd_next_dom upd_prev_dom

text \<open>The list holds the nodes \<open>ps\<close>, each with its cell, in this order.\<close>

definition rings :: "(nat \<rightharpoonup> node) \<Rightarrow> (nat \<times> nat) list \<Rightarrow> bool" where
  "rings N ps \<longleftrightarrow>
     distinct (0 # map fst ps) \<and> dom N = set (0 # map fst ps) \<and> cycle (nxt N) (map fst ps) \<and>
     cycle (prv N) (rev (map fst ps)) \<and> (\<forall>p \<in> set ps. nvl N (fst p) = Some (snd p))"

definition lrep :: "list_inner \<Rightarrow> (nat \<times> nat) list \<Rightarrow> bool" where
  "lrep l ps \<longleftrightarrow> rings (nodes l) ps \<and> (\<forall>p \<in> set (0 # map fst ps). p < next_id l) \<and> llen l = int (length ps)"

lemma ringsD:
  assumes "rings N ps"
  shows "distinct (0 # map fst ps)" "dom N = set (0 # map fst ps)" "cycle (nxt N) (map fst ps)"
    "cycle (prv N) (rev (map fst ps))" "\<forall>p \<in> set ps. nvl N (fst p) = Some (snd p)"
  using assms by (simp_all add: rings_def)

lemma hd_rev_snoc: "hd (rev us @ [z]) = last (z # us)"
  by (induction us arbitrary: z rule: rev_induct) auto

lemma last_rev_Cons: "last (z # rev vs) = hd (vs @ [z])"
  by (cases vs) auto

text \<open>Inserting a node after \<open>us\<close>, with the two links of its neighbours redirected.\<close>

lemma rings_insert:
  assumes "rings N (us @ vs)" "n \<notin> set (0 # map fst (us @ vs))"
    and N': "dom N' = insert n (dom N)" "nvl N' = (nvl N)(n := Some c)"
      "nxt N' = (nxt N)(last (0 # map fst us) := n, n := hd (map fst vs @ [0]))"
      "prv N' = (prv N)(hd (map fst vs @ [0]) := n, n := last (0 # map fst us))"
  shows "rings N' (us @ (n, c) # vs)"
proof -
  note r = ringsD [OF assms(1)]
  have "cycle (nxt N') (map fst us @ n # map fst vs)"
    unfolding N'(3) using r(1,3) assms(2) by (intro ring_insert) (simp_all add: disjoint_iff)
  moreover have "cycle (prv N') (rev (map fst vs) @ n # rev (map fst us))"
  proof -
    have d: "distinct (0 # rev (map fst vs) @ rev (map fst us))" using r(1) by auto
    have "cycle (prv N) (rev (map fst vs) @ rev (map fst us))" using r(4) by simp
    from ring_insert [OF this d, of n] show ?thesis
      unfolding N'(4) last_rev_Cons hd_rev_snoc using assms(2) by simp
  qed
  moreover have "\<forall>p \<in> set (us @ (n, c) # vs). nvl N' (fst p) = Some (snd p)"
    using r(5) assms(2) unfolding N'(2) by (auto simp: image_iff)
  ultimately show ?thesis using r(1,2) assms(2) N'(1) unfolding rings_def by (auto simp: image_iff)
qed

lemma rings_delete:
  assumes "rings N (us @ (e, c) # vs)"
    and N': "dom N' = dom N - {e}" "\<forall>i. i \<noteq> e \<longrightarrow> nvl N' i = nvl N i"
      "\<forall>i. i \<noteq> e \<longrightarrow> nxt N' i = ((nxt N)(last (0 # map fst us) := hd (map fst vs @ [0]))) i"
      "\<forall>i. i \<noteq> e \<longrightarrow> prv N' i = ((prv N)(hd (map fst vs @ [0]) := last (0 # map fst us))) i"
  shows "rings N' (us @ vs)"
proof -
  note r = ringsD [OF assms(1)]
  have e: "e \<notin> set (0 # map fst (us @ vs))" using r(1) by auto
  have agree: "cycle f ids" if "cycle g ids" "\<forall>i. i \<noteq> e \<longrightarrow> f i = g i" "e \<notin> set (0 # ids)" for f g ids
  proof -
    have "f = g(e := f e)" using that(2) by (auto simp: fun_eq_iff)
    then show ?thesis using ring_outside [OF that(3), of g "f e"] that(1) by simp
  qed
  have "cycle ((nxt N)(last (0 # map fst us) := hd (map fst vs @ [0]))) (map fst us @ map fst vs)"
    using r(1,3) by (intro ring_delete [where e = e]) simp_all
  then have "cycle (nxt N') (map fst us @ map fst vs)" by (rule agree) (use N'(3) e in simp_all)
  moreover have "cycle (prv N') (rev (map fst vs) @ rev (map fst us))"
  proof -
    have d: "distinct (0 # rev (map fst vs) @ e # rev (map fst us))" using r(1) by auto
    have "cycle (prv N) (rev (map fst vs) @ e # rev (map fst us))" using r(4) by simp
    from ring_delete [OF this d] have "cycle ((prv N)(hd (map fst vs @ [0]) := last (0 # map fst us)))
        (rev (map fst vs) @ rev (map fst us))"
      unfolding last_rev_Cons hd_rev_snoc .
    then show ?thesis by (rule agree) (use N'(4) e in simp_all)
  qed
  moreover have "\<forall>p \<in> set (us @ vs). nvl N' (fst p) = Some (snd p)"
  proof
    fix p assume p: "p \<in> set (us @ vs)"
    then have "fst p \<noteq> e" using e by auto
    then show "nvl N' (fst p) = Some (snd p)" using N'(2) r(5) p by auto
  qed
  ultimately show ?thesis using r(1,2) e N'(1) unfolding rings_def by auto
qed

lemma last_in_ring: "last (0 # map fst us) \<in> set (0 # map fst (us @ vs))"
  using last_in_set [of "0 # map fst us"] by (auto simp del: last.simps)

lemma hd_in_ring: "hd (map fst vs @ [0]) \<in> set (0 # map fst (us @ vs))"
  by (cases vs) auto

lemma rings_links:
  assumes "rings N (us @ vs)"
  shows "nxt N (last (0 # map fst us)) = hd (map fst vs @ [0])" "prv N (hd (map fst vs @ [0])) = last (0 # map fst us)"
proof -
  note r = ringsD [OF assms]
  show "nxt N (last (0 # map fst us)) = hd (map fst vs @ [0])" using r(3) by (intro ring_next) simp
  have "cycle (prv N) (rev (map fst vs) @ rev (map fst us))" using r(4) by simp
  from ring_next [OF this] show "prv N (hd (map fst vs @ [0])) = last (0 # map fst us)"
    unfolding last_rev_Cons hd_rev_snoc .
qed

lemma li_insert_rep:
  assumes "lrep l (us @ vs)"
  shows "\<exists>l'. li_insert l c (last (0 # map fst us)) = Some (l', next_id l) \<and> lrep l' (us @ (next_id l, c) # vs) \<and>
           next_id l' = Suc (next_id l)"
proof -
  let ?N = "nodes l" and ?a = "last (0 # map fst us)" and ?b = "hd (map fst vs @ [0])" and ?n = "next_id l"
  have rg: "rings ?N (us @ vs)" and lt: "\<forall>p \<in> set (0 # map fst (us @ vs)). p < ?n" and len: "llen l = int (length (us @ vs))"
    using assms by (simp_all add: lrep_def)
  have a: "?a \<in> dom ?N" and b: "?b \<in> dom ?N"
    unfolding ringsD(2) [OF rg] by (rule last_in_ring, rule hd_in_ring)
  have fresh: "?n \<notin> set (0 # map fst (us @ vs))" using lt by blast
  then have na: "?a \<noteq> ?n" and nb: "?b \<noteq> ?n" using a b ringsD(2) [OF rg] by metis+
  let ?M = "?N(?n \<mapsto> \<lparr>nnext = ?b, nprev = ?a, nvalue = Some c\<rparr>)"
  let ?M1 = "upd_next ?M ?a ?n" and ?M2 = "upd_prev (upd_next ?M ?a ?n) ?b ?n"
  have Ma: "?a \<in> dom ?M" and Mb: "?b \<in> dom ?M1" using a b upd_next_dom(1) [of ?a ?M ?n] by auto
  obtain x where x: "?N ?a = Some x" using a by auto
  moreover have "nnext x = ?b" using rings_links(1) [OF rg] x by (simp add: nxt_def)
  ultimately have i: "li_insert l c ?a = Some (\<lparr>nodes = ?M2, next_id = ?n + 1, llen = llen l + 1\<rparr>, ?n)"
    using set_next_upd [OF Ma, of ?n] set_prev_upd [OF Mb, of ?n] by (simp add: li_insert_def Let_def del: last.simps)
  have M: "nxt ?M = (nxt ?N)(?n := ?b)" "prv ?M = (prv ?N)(?n := ?a)" "nvl ?M = (nvl ?N)(?n := Some c)"
    by (simp_all add: nxt_def prv_def nvl_def fun_eq_iff)
  have "rings ?M2 (us @ (?n, c) # vs)"
  proof (rule rings_insert [OF rg fresh])
    show "dom ?M2 = insert ?n (dom ?N)" unfolding upd_prev_dom(1) [OF Mb] upd_next_dom(1) [OF Ma] by simp
    show "nvl ?M2 = (nvl ?N)(?n := Some c)" unfolding upd_prev_dom(4) [OF Mb] upd_next_dom(4) [OF Ma] M ..
    show "nxt ?M2 = (nxt ?N)(?a := ?n, ?n := ?b)" unfolding upd_prev_dom(2) [OF Mb] upd_next_dom(2) [OF Ma] M
      using na by (simp add: fun_upd_twist del: last.simps)
    show "prv ?M2 = (prv ?N)(?b := ?n, ?n := ?a)" unfolding upd_prev_dom(3) [OF Mb] upd_next_dom(3) [OF Ma] M
      using nb by (simp add: fun_upd_twist del: last.simps)
  qed
  then show ?thesis using i lt len by (auto simp: lrep_def less_Suc_eq)
qed

lemma unlink_rings:
  assumes rg: "rings N (us @ (e, c) # vs)"
  defines "N2 \<equiv> upd_prev (upd_next N (prv N e) (nxt N e)) (nxt N e) (prv N e)"
  shows "rings (N2(e := None)) (us @ vs)" "dom N2 = dom N" "nvl N2 = nvl N"
    "prv N e \<in> dom N" "nxt N e \<in> dom (upd_next N (prv N e) (nxt N e))"
proof -
  let ?a = "last (0 # map fst us)" and ?b = "hd (map fst vs @ [0])"
  have rg2: "rings N ((us @ [(e, c)]) @ vs)" using rg by simp
  have nx: "nxt N e = ?b" "prv N e = ?a" using rings_links(1) [OF rg2] rings_links(2) [OF rg] by simp_all
  have a: "?a \<in> dom N" and b: "?b \<in> dom N" unfolding ringsD(2) [OF rg]
    using last_in_ring [of us "(e, c) # vs"] hd_in_ring [of vs "us @ [(e, c)]"] by simp_all
  have b1: "?b \<in> dom (upd_next N ?a ?b)" using b upd_next_dom(1) [OF a] by blast
  have N2: "N2 = upd_prev (upd_next N ?a ?b) ?b ?a" unfolding N2_def nx ..
  show "dom N2 = dom N" "nvl N2 = nvl N" unfolding N2 upd_prev_dom [OF b1] upd_next_dom [OF a] by (rule refl)+
  show "prv N e \<in> dom N" "nxt N e \<in> dom (upd_next N (prv N e) (nxt N e))" using a b1 unfolding nx .
  show "rings (N2(e := None)) (us @ vs)"
  proof (rule rings_delete [OF rg])
    show "dom (N2(e := None)) = dom N - {e}" using upd_prev_dom(1) [OF b1] upd_next_dom(1) [OF a] unfolding N2 by simp
    show "\<forall>i. i \<noteq> e \<longrightarrow> nvl (N2(e := None)) i = nvl N i"
      using upd_prev_dom(4) [OF b1] upd_next_dom(4) [OF a] unfolding N2 by (simp add: nvl_def fun_eq_iff)
    show "\<forall>i. i \<noteq> e \<longrightarrow> nxt (N2(e := None)) i = ((nxt N)(?a := ?b)) i"
      using upd_prev_dom(2) [OF b1] upd_next_dom(2) [OF a] unfolding N2 by (simp add: nxt_def fun_eq_iff del: last.simps)
    show "\<forall>i. i \<noteq> e \<longrightarrow> prv (N2(e := None)) i = ((prv N)(?b := ?a)) i"
      using upd_prev_dom(3) [OF b1] upd_next_dom(3) [OF a] unfolding N2 by (simp add: prv_def fun_eq_iff del: last.simps)
  qed
qed

lemma li_remove_rep:
  assumes "lrep l (us @ (e, c) # vs)"
  shows "lrep (li_remove l e) (us @ vs) \<and> next_id (li_remove l e) = next_id l"
proof -
  have rg: "rings (nodes l) (us @ (e, c) # vs)" and lt: "\<forall>p \<in> set (0 # map fst (us @ (e, c) # vs)). p < next_id l"
    and len: "llen l = int (length (us @ (e, c) # vs))"
    using assms by (simp_all add: lrep_def)
  obtain n where n: "nodes l e = Some n" using ringsD(2) [OF rg] by auto
  with unlink_rings(1) [OF rg] lt len show ?thesis
    by (simp add: lrep_def li_remove_def Let_def nxt_def prv_def)
qed

lemma li_move_rep:
  assumes "lrep l (us @ (e, c) # vs)" "us @ vs = us' @ vs'"
  shows "\<exists>l'. li_move l e (last (0 # map fst us')) = Some l' \<and> lrep l' (us' @ (e, c) # vs') \<and> next_id l' = next_id l"
proof -
  let ?N = "nodes l" and ?a = "last (0 # map fst us')" and ?b = "hd (map fst vs' @ [0])"
  have rg: "rings ?N (us @ (e, c) # vs)" and lt: "\<forall>p \<in> set (0 # map fst (us @ (e, c) # vs)). p < next_id l"
    and len: "llen l = int (length (us @ (e, c) # vs))"
    using assms by (simp_all add: lrep_def)
  define N2 where "N2 = upd_prev (upd_next ?N (prv ?N e) (nxt ?N e)) (nxt ?N e) (prv ?N e)"
  note u = unlink_rings [OF rg, folded N2_def]
  have K: "rings (N2(e := None)) (us' @ vs')" using u(1) assms(2) by simp
  have "e \<notin> set (0 # map fst (us @ vs))" using ringsD(1) [OF rg] by auto
  then have e: "e \<notin> set (0 # map fst (us' @ vs'))" unfolding assms(2) .
  have dK: "dom (N2(e := None)) = set (0 # map fst (us' @ vs'))" by (rule ringsD(2) [OF K])
  have "?a \<in> dom (N2(e := None))" "?b \<in> dom (N2(e := None))"
    unfolding dK by (rule last_in_ring, rule hd_in_ring)
  then have a: "?a \<in> dom N2" "?a \<noteq> e" and b: "?b \<in> dom N2" "?b \<noteq> e" by (simp_all del: last.simps)
  have ed: "e \<in> dom N2" unfolding u(2) ringsD(2) [OF rg] by simp
  then obtain en where en: "N2 e = Some en" by auto
  define N3 where "N3 = N2(e \<mapsto> en\<lparr>nprev := ?a, nnext := ?b\<rparr>)"
  have M: "nxt N3 = (nxt N2)(e := ?b)" "prv N3 = (prv N2)(e := ?a)" "nvl N3 = nvl N2" "dom N3 = dom N2"
    using en by (auto simp: N3_def nxt_def prv_def nvl_def fun_eq_iff simp del: last.simps)
  have a3: "?a \<in> dom N3" and b3: "?b \<in> dom (upd_next N3 ?a e)" using a b M(4) upd_next_dom(1) [of ?a N3 e] by simp_all
  let ?N5 = "upd_prev (upd_next N3 ?a e) ?b e"
  have mv: "li_move l e ?a = Some (l\<lparr>nodes := ?N5\<rparr>)"
  proof -
    obtain n where n: "?N e = Some n" using ed u(2) by auto
    obtain x where x: "N2 ?a = Some x" using a(1) by auto
    have "nxt N2 ?a = ?b" using rings_links(1) [OF K] a(2) by (simp add: nxt_def del: last.simps)
    then have xb: "nnext x = ?b" using x by (simp add: nxt_def)
    have "set_next ?N (nprev n) (nnext n) = Some (upd_next ?N (nprev n) (nnext n))"
      "set_prev (upd_next ?N (nprev n) (nnext n)) (nnext n) (nprev n) = Some N2"
      using set_next_upd [OF u(4), of "nxt ?N e"] set_prev_upd [OF u(5), of "prv ?N e"] n
      by (simp_all add: nxt_def prv_def N2_def)
    then show ?thesis
      using n x xb en a(2) set_next_upd [OF a3, of e] set_prev_upd [OF b3, of e]
      by (simp add: li_move_def Let_def N3_def del: last.simps)
  qed
  have "rings ?N5 (us' @ (e, c) # vs')"
  proof (rule rings_insert [OF K e])
    show "dom ?N5 = insert e (dom (N2(e := None)))" unfolding upd_prev_dom(1) [OF b3] upd_next_dom(1) [OF a3] M(4) using ed by auto
    have "nvl ?N e = Some c" using ringsD(5) [OF rg] by auto
    then show "nvl ?N5 = (nvl (N2(e := None)))(e := Some c)"
      unfolding upd_prev_dom(4) [OF b3] upd_next_dom(4) [OF a3] M(3) using u(3) by (simp add: nvl_def fun_eq_iff)
    show "nxt ?N5 = (nxt (N2(e := None)))(?a := e, e := ?b)"
      unfolding upd_prev_dom(2) [OF b3] upd_next_dom(2) [OF a3] M(1) using a(2) by (simp add: nxt_def fun_eq_iff del: last.simps)
    show "prv ?N5 = (prv (N2(e := None)))(?b := e, e := ?a)"
      unfolding upd_prev_dom(3) [OF b3] upd_next_dom(3) [OF a3] M(2) using b(2) by (simp add: prv_def fun_eq_iff del: last.simps)
  qed
  moreover have "set (0 # map fst (us' @ (e, c) # vs')) = set (0 # map fst (us @ (e, c) # vs))"
    "length (us' @ (e, c) # vs') = length (us @ (e, c) # vs)"
  proof -
    have "set (0 # map fst (xs @ (e, c) # ys)) = {0, e} \<union> set (map fst (xs @ ys))"
      "length (xs @ (e, c) # ys) = Suc (length (xs @ ys))" for xs ys :: "(nat \<times> nat) list" by auto
    then show "set (0 # map fst (us' @ (e, c) # vs')) = set (0 # map fst (us @ (e, c) # vs))"
      "length (us' @ (e, c) # vs') = length (us @ (e, c) # vs)" using assms(2) by metis+
  qed
  ultimately have "lrep (l\<lparr>nodes := ?N5\<rparr>) (us' @ (e, c) # vs')" using lt len unfolding lrep_def by simp
  with mv show ?thesis by simp
qed

section \<open>What the operations do to the sequence\<close>

definition upto :: "nat \<Rightarrow> (nat \<times> nat) list \<Rightarrow> (nat \<times> nat) list" where
  "upto k = takeWhile (\<lambda>p. fst p \<noteq> k)"

definition onward :: "nat \<Rightarrow> (nat \<times> nat) list \<Rightarrow> (nat \<times> nat) list" where
  "onward k = dropWhile (\<lambda>p. fst p \<noteq> k)"

definition without :: "nat \<Rightarrow> (nat \<times> nat) list \<Rightarrow> (nat \<times> nat) list" where
  "without k = filter (\<lambda>p. fst p \<noteq> k)"

datatype list_op =
    PushFront nat | PushBack nat | Remove element | InsertBefore nat element | InsertAfter nat element
  | MoveToFront element | MoveToBack element | MoveBefore element element | MoveAfter element element | Init

text \<open>On the sequence, with the next identifier to give; \<open>a\<close> is the list's address.\<close>

fun seq_exec :: "nat \<Rightarrow> list_op \<Rightarrow> (nat \<times> nat) list \<times> nat \<Rightarrow> (nat \<times> nat) list \<times> nat" where
  "seq_exec a (PushFront c) (ps, n) = ((n, c) # ps, Suc n)"
| "seq_exec a (PushBack c) (ps, n) = (ps @ [(n, c)], Suc n)"
| "seq_exec a (Remove e) (ps, n) = (if el_list e = a then without (el_id e) ps else ps, n)"
| "seq_exec a (InsertBefore c m) (ps, n) =
     (if el_list m = a \<and> el_id m \<in> fst ` set ps then (upto (el_id m) ps @ (n, c) # onward (el_id m) ps, Suc n) else (ps, n))"
| "seq_exec a (InsertAfter c m) (ps, n) =
     (if el_list m = a \<and> el_id m \<in> fst ` set ps
      then (upto (el_id m) ps @ hd (onward (el_id m) ps) # (n, c) # tl (onward (el_id m) ps), Suc n) else (ps, n))"
| "seq_exec a (MoveToFront e) (ps, n) =
     (if el_list e = a \<and> el_id e \<in> fst ` set ps then hd (onward (el_id e) ps) # without (el_id e) ps else ps, n)"
| "seq_exec a (MoveToBack e) (ps, n) =
     (if el_list e = a \<and> el_id e \<in> fst ` set ps then without (el_id e) ps @ [hd (onward (el_id e) ps)] else ps, n)"
| "seq_exec a (MoveBefore e m) (ps, n) =
     (if el_list e = a \<and> el_list m = a \<and> el_id e \<noteq> el_id m \<and> el_id e \<in> fst ` set ps \<and> el_id m \<in> fst ` set ps
      then (let qs = without (el_id e) ps in upto (el_id m) qs @ hd (onward (el_id e) ps) # onward (el_id m) qs) else ps, n)"
| "seq_exec a (MoveAfter e m) (ps, n) =
     (if el_list e = a \<and> el_list m = a \<and> el_id e \<noteq> el_id m \<and> el_id e \<in> fst ` set ps \<and> el_id m \<in> fst ` set ps
      then (let qs = without (el_id e) ps in
            upto (el_id m) qs @ hd (onward (el_id m) qs) # hd (onward (el_id e) ps) # tl (onward (el_id m) qs)) else ps, n)"
| "seq_exec a Init (ps, n) = ([], 1)"

fun list_exec :: "nat \<Rightarrow> list_op \<Rightarrow> list_inner \<Rightarrow> list_inner option" where
  "list_exec a (PushFront c) l = map_option fst (list_PushFront a l c)"
| "list_exec a (PushBack c) l = map_option fst (list_PushBack a l c)"
| "list_exec a (Remove e) l = Some (fst (list_Remove a l e))"
| "list_exec a (InsertBefore c m) l = map_option fst (list_InsertBefore a l c m)"
| "list_exec a (InsertAfter c m) l = map_option fst (list_InsertAfter a l c m)"
| "list_exec a (MoveToFront e) l = list_MoveToFront a l e"
| "list_exec a (MoveToBack e) l = list_MoveToBack a l e"
| "list_exec a (MoveBefore e m) l = list_MoveBefore a l e m"
| "list_exec a (MoveAfter e m) l = list_MoveAfter a l e m"
| "list_exec a Init l = Some (list_Init l)"

text \<open>No element handle names the root.\<close>

fun op_elems :: "list_op \<Rightarrow> element list" where
  "op_elems (Remove e) = [e]"
| "op_elems (InsertBefore c m) = [m]"
| "op_elems (InsertAfter c m) = [m]"
| "op_elems (MoveToFront e) = [e]"
| "op_elems (MoveToBack e) = [e]"
| "op_elems (MoveBefore e m) = [e, m]"
| "op_elems (MoveAfter e m) = [e, m]"
| "op_elems _ = []"

definition op_ok :: "list_op \<Rightarrow> bool" where
  "op_ok p \<longleftrightarrow> list_all (\<lambda>e. el_id e \<noteq> ROOT_ID) (op_elems p)"

lemma split_at:
  assumes "distinct (map fst ps)" "k \<in> fst ` set ps"
  obtains us c vs where "ps = us @ (k, c) # vs" "upto k ps = us" "onward k ps = (k, c) # vs" "without k ps = us @ vs"
proof -
  obtain c where "(k, c) \<in> set ps" using assms(2) by force
  then obtain us vs where ps: "ps = us @ (k, c) # vs" by (meson split_list)
  have n: "\<forall>p \<in> set us. fst p \<noteq> k" "\<forall>p \<in> set vs. fst p \<noteq> k" using assms(1) unfolding ps by auto
  have "upto k ps = us" "onward k ps = (k, c) # vs" "without k ps = us @ vs"
    using n unfolding ps upto_def onward_def without_def by (simp_all add: filter_True)
  with ps that show ?thesis by blast
qed

lemma upto_at:
  assumes "\<forall>p \<in> set us. fst p \<noteq> k"
  shows "upto k (us @ (k, c) # vs) = us" "onward k (us @ (k, c) # vs) = (k, c) # vs"
  using assms unfolding upto_def onward_def by simp_all

lemma without_id: "k \<notin> fst ` set ps \<Longrightarrow> without k ps = ps"
  unfolding without_def by (rule filter_True) auto

lemma lrep_nodes: "lrep l ps \<Longrightarrow> k \<noteq> 0 \<Longrightarrow> nodes l k \<noteq> None \<longleftrightarrow> k \<in> fst ` set ps"
proof -
  assume "lrep l ps" "k \<noteq> 0"
  then have "dom (nodes l) = insert 0 (fst ` set ps)" using ringsD(2) [of "nodes l" ps] by (simp add: lrep_def)
  then show ?thesis using domIff [of k "nodes l"] \<open>k \<noteq> 0\<close> by simp
qed

lemma lrep_root:
  assumes "lrep l ps"
  obtains r where "nodes l 0 = Some r" "nnext r = hd (map fst ps @ [0])" "nprev r = last (0 # map fst ps)"
proof -
  have rg: "rings (nodes l) ps" using assms by (simp add: lrep_def)
  obtain r where r: "nodes l 0 = Some r" using ringsD(2) [OF rg] by auto
  have "nxt (nodes l) 0 = hd (map fst ps @ [0])" "prv (nodes l) 0 = last (0 # map fst ps)"
    using rings_links(1) [of "nodes l" "[]" ps] rings_links(2) [of "nodes l" ps "[]"] rg by simp_all
  with r that show ?thesis by (simp add: nxt_def prv_def)
qed

lemma lrep_lazy: "lrep l ps \<Longrightarrow> lazyInit l = l"
  using ringsD(2) [of "nodes l" ps] by (auto simp: lrep_def lazyInit_def ROOT_ID_def)

lemma lrep_new: "lrep li_new []" "next_id li_new = 1"
  by (auto simp: lrep_def rings_def li_new_def cycle_def nxt_def prv_def ROOT_ID_def FIRST_REAL_ID_def)

definition sim :: "nat \<Rightarrow> list_op \<Rightarrow> list_inner \<Rightarrow> (nat \<times> nat) list \<Rightarrow> bool" where
  "sim a p l ps \<longleftrightarrow>
     (\<exists>l'. list_exec a p l = Some l' \<and> lrep l' (fst (seq_exec a p (ps, next_id l))) \<and>
        next_id l' = snd (seq_exec a p (ps, next_id l)))"

lemma lrep_distinct: "lrep l ps \<Longrightarrow> distinct (map fst ps)"
  using ringsD(1) [of "nodes l" ps] by (simp add: lrep_def)

lemma sim_push:
  assumes "lrep l ps"
  shows "sim a (PushFront c) l ps" "sim a (PushBack c) l ps"
proof -
  obtain r where r: "nodes l 0 = Some r" "nprev r = last (0 # map fst ps)" using lrep_root [OF assms] by metis
  show "sim a (PushFront c) l ps"
    using li_insert_rep [of l "[]" ps c] assms lrep_lazy [OF assms]
    by (auto simp: sim_def list_PushFront_def insertValue_def ROOT_ID_def)
  show "sim a (PushBack c) l ps"
    using li_insert_rep [of l ps "[]" c] assms lrep_lazy [OF assms] r
    by (auto simp: sim_def list_PushBack_def insertValue_def ROOT_ID_def Let_def simp del: last.simps)
qed

lemma sim_remove:
  assumes "lrep l ps" "el_id e \<noteq> 0"
  shows "sim a (Remove e) l ps"
proof (cases "el_list e = a \<and> el_id e \<in> fst ` set ps")
  case True
  then obtain us c vs where s: "ps = us @ (el_id e, c) # vs" "without (el_id e) ps = us @ vs"
    using split_at [OF lrep_distinct [OF assms(1)]] by metis
  have "nodes l (el_id e) \<noteq> None" using lrep_nodes [OF assms] True by blast
  then show ?thesis using True s li_remove_rep [of l us "el_id e" c vs] assms
    by (auto simp: sim_def list_Remove_def ROOT_ID_def)
next
  case False
  then have "el_list e \<noteq> a \<or> nodes l (el_id e) = None" using lrep_nodes [OF assms] by blast
  then show ?thesis using False assms without_id [of "el_id e" ps] by (auto simp: sim_def list_Remove_def)
qed

lemma map_fst_last: "last (0 # map fst (us @ [(k, c)])) = k"
  by simp

lemma sim_insert:
  assumes "lrep l ps" "el_id m \<noteq> 0"
  shows "sim a (InsertBefore c m) l ps" "sim a (InsertAfter c m) l ps"
proof -
  let ?k = "el_id m"
  show "sim a (InsertBefore c m) l ps"
  proof (cases "el_list m = a \<and> ?k \<in> fst ` set ps")
    case True
    then obtain us d vs where s: "ps = us @ (?k, d) # vs" "upto ?k ps = us" "onward ?k ps = (?k, d) # vs"
      using split_at [OF lrep_distinct [OF assms(1)]] by metis
    obtain x where x: "nodes l ?k = Some x" using lrep_nodes [OF assms] True by blast
    have "rings (nodes l) (us @ (?k, d) # vs)" using assms(1) s(1) by (simp add: lrep_def)
    from rings_links(2) [OF this] have "nprev x = last (0 # map fst us)" using x by (simp add: prv_def)
    then show ?thesis using True s x li_insert_rep [of l us "(?k, d) # vs" c] assms(1)
      by (auto simp: sim_def list_InsertBefore_def insertValue_def simp del: last.simps)
  next
    case False
    then have "el_list m \<noteq> a \<or> nodes l ?k = None" using lrep_nodes [OF assms] by blast
    then show ?thesis using False assms by (auto simp: sim_def list_InsertBefore_def)
  qed
  show "sim a (InsertAfter c m) l ps"
  proof (cases "el_list m = a \<and> ?k \<in> fst ` set ps")
    case True
    then obtain us d vs where s: "ps = us @ (?k, d) # vs" "upto ?k ps = us" "onward ?k ps = (?k, d) # vs"
      using split_at [OF lrep_distinct [OF assms(1)]] by metis
    have "nodes l ?k \<noteq> None" using lrep_nodes [OF assms] True by blast
    then show ?thesis using True s li_insert_rep [of l "us @ [(?k, d)]" vs c] assms(1) unfolding map_fst_last
      by (auto simp: sim_def list_InsertAfter_def insertValue_def simp del: last.simps)
  next
    case False
    then have "el_list m \<noteq> a \<or> nodes l ?k = None" using lrep_nodes [OF assms] by blast
    then show ?thesis using False assms by (auto simp: sim_def list_InsertAfter_def)
  qed
qed

lemma sim_move_ends:
  assumes "lrep l ps" "el_id e \<noteq> 0"
  shows "sim a (MoveToFront e) l ps" "sim a (MoveToBack e) l ps"
proof -
  let ?k = "el_id e"
  obtain r where r: "nodes l 0 = Some r" "nnext r = hd (map fst ps @ [0])" "nprev r = last (0 # map fst ps)"
    using lrep_root [OF assms(1)] by metis
  have "sim a (MoveToFront e) l ps \<and> sim a (MoveToBack e) l ps"
  proof (cases "el_list e = a \<and> ?k \<in> fst ` set ps")
    case True
    then obtain us c vs where s: "ps = us @ (?k, c) # vs" "onward ?k ps = (?k, c) # vs" "without ?k ps = us @ vs"
      using split_at [OF lrep_distinct [OF assms(1)]] by metis
    have nk: "nodes l ?k \<noteq> None" using lrep_nodes [OF assms] True by blast
    have d: "distinct (map fst us @ ?k # map fst vs)" using lrep_distinct [OF assms(1)] s(1) by simp
    have "sim a (MoveToFront e) l ps"
    proof (cases "us = []")
      case u: True
      then show ?thesis using True s r assms nk by (auto simp: sim_def list_MoveToFront_def ROOT_ID_def)
    next
      case False
      then have "hd (map fst ps @ [0]) \<noteq> ?k" using s(1) d by (cases us) auto
      then show ?thesis using True s r assms nk li_move_rep [of l us ?k c vs "[]" "us @ vs"]
        by (auto simp: sim_def list_MoveToFront_def ROOT_ID_def)
    qed
    moreover have "sim a (MoveToBack e) l ps"
    proof (cases "vs = []")
      case v: True
      then show ?thesis using True s r assms nk by (auto simp: sim_def list_MoveToBack_def ROOT_ID_def)
    next
      case False
      have l: "last (0 # map fst ps) = last (0 # map fst (us @ vs))" "last (0 # map fst ps) \<in> fst ` set vs"
        using s(1) \<open>vs \<noteq> []\<close> by (simp_all add: last_map)
      have "?k \<notin> fst ` set vs" using d by simp
      then have "nprev r \<noteq> ?k" using r(3) l(2) by metis
      then show ?thesis using True s r assms nk l(1) li_move_rep [of l us ?k c vs "us @ vs" "[]"]
        by (auto simp: sim_def list_MoveToBack_def ROOT_ID_def simp del: last.simps)
    qed
    ultimately show ?thesis ..
  next
    case False
    then have "el_list e \<noteq> a \<or> nodes l ?k = None" using lrep_nodes [OF assms] by blast
    then show ?thesis using False assms r
      by (auto simp: sim_def list_MoveToFront_def list_MoveToBack_def ROOT_ID_def)
  qed
  then show "sim a (MoveToFront e) l ps" "sim a (MoveToBack e) l ps" by simp_all
qed

text \<open>The node before \<open>m\<close>, once \<open>e\<close> is taken out.\<close>

lemma pred_without:
  assumes "last (0 # map fst pre) \<noteq> k"
  shows "last (0 # map fst (without k pre)) = last (0 # map fst pre)"
  using assms by (cases pre rule: rev_cases) (auto simp: without_def)

lemma sim_move_before:
  assumes "lrep l ps" "el_id e \<noteq> 0" "el_id m \<noteq> 0"
  shows "sim a (MoveBefore e m) l ps"
proof (cases "el_list e = a \<and> el_list m = a \<and> el_id e \<noteq> el_id m \<and> el_id e \<in> fst ` set ps \<and> el_id m \<in> fst ` set ps")
  case True
  let ?k = "el_id e" and ?m = "el_id m"
  obtain us c vs where s: "ps = us @ (?k, c) # vs" "onward ?k ps = (?k, c) # vs" "without ?k ps = us @ vs"
    using split_at [OF lrep_distinct [OF assms(1)]] True by metis
  obtain pre d post where t: "ps = pre @ (?m, d) # post" using True split_list by force
  have dis: "distinct (map fst (pre @ (?m, d) # post))" using lrep_distinct [OF assms(1)] t by simp
  have w: "without ?k ps = without ?k pre @ (?m, d) # without ?k post" using t True by (simp add: without_def)
  have "upto ?m (without ?k ps) = without ?k pre \<and> onward ?m (without ?k ps) = (?m, d) # without ?k post"
  proof -
    have "?m \<notin> fst ` set pre" using dis by simp
    then have "\<forall>p \<in> set (without ?k pre). fst p \<noteq> ?m" by (auto simp: without_def image_iff)
    then show ?thesis unfolding w by (simp add: upto_at)
  qed
  then have spec: "seq_exec a (MoveBefore e m) (ps, next_id l) = (without ?k pre @ (?k, c) # (?m, d) # without ?k post, next_id l)"
    using True s(2) by (simp add: Let_def)
  obtain x where x: "nodes l ?m = Some x" using lrep_nodes [OF assms(1,3)] True by blast
  have "rings (nodes l) (pre @ (?m, d) # post)" using assms(1) t by (simp add: lrep_def)
  from rings_links(2) [OF this] have px: "nprev x = last (0 # map fst pre)" using x by (simp add: prv_def)
  have nk: "nodes l ?k \<noteq> None" using lrep_nodes [OF assms(1,2)] True by blast
  have ex: "list_exec a (MoveBefore e m) l = li_move l ?k (last (0 # map fst pre))"
    using True x px nk by (auto simp: list_MoveBefore_def simp del: last.simps)
  show ?thesis
  proof (cases "last (0 # map fst pre) = ?k")
    case False
    then have "last (0 # map fst pre) = last (0 # map fst (without ?k pre))" by (rule pred_without [symmetric])
    then show ?thesis
      using li_move_rep [of l us ?k c vs "without ?k pre" "(?m, d) # without ?k post"] assms(1) s(1,3) w ex
      unfolding sim_def spec by (auto simp del: last.simps)
  next
    case eq: True
    then obtain pre' y where p: "pre = pre' @ [y]" "fst y = ?k" using assms(2) by (cases pre rule: rev_cases) auto
    have "y \<in> set ps" using t p(1) by simp
    moreover have "(?k, c) \<in> set ps" unfolding s(1) by simp
    ultimately have y: "y = (?k, c)" using p(2) lrep_distinct [OF assms(1)] by (metis eq_key_imp_eq_value prod.collapse)
    have "without ?k pre' = pre'" "without ?k post = post" using dis p y by (auto intro!: without_id)
    then have "without ?k pre @ (?k, c) # (?m, d) # without ?k post = ps" using t p y by (simp add: without_def)
    then show ?thesis using assms(1) ex eq unfolding sim_def spec by (simp add: li_move_def del: last.simps)
  qed
next
  case False
  then have "el_list e \<noteq> a \<or> el_id e = el_id m \<or> el_list m \<noteq> a \<or> nodes l (el_id e) = None \<or> nodes l (el_id m) = None"
    using lrep_nodes [OF assms(1,2)] lrep_nodes [OF assms(1,3)] by blast
  then have "list_MoveBefore a l e m = Some l" by (auto simp: list_MoveBefore_def split: option.splits)
  then show ?thesis using False assms(1) by (auto simp: sim_def)
qed

lemma sim_move_after:
  assumes "lrep l ps" "el_id e \<noteq> 0" "el_id m \<noteq> 0"
  shows "sim a (MoveAfter e m) l ps"
proof (cases "el_list e = a \<and> el_list m = a \<and> el_id e \<noteq> el_id m \<and> el_id e \<in> fst ` set ps \<and> el_id m \<in> fst ` set ps")
  case True
  let ?k = "el_id e" and ?m = "el_id m"
  obtain us c vs where s: "ps = us @ (?k, c) # vs" "onward ?k ps = (?k, c) # vs" "without ?k ps = us @ vs"
    using split_at [OF lrep_distinct [OF assms(1)]] True by metis
  have "distinct (map fst (us @ vs))" "?m \<in> fst ` set (us @ vs)"
    using lrep_distinct [OF assms(1)] True s(1) by auto
  then obtain us' d vs' where t: "us @ vs = us' @ (?m, d) # vs'" "upto ?m (us @ vs) = us'"
    "onward ?m (us @ vs) = (?m, d) # vs'"
    by (rule split_at)
  have "nodes l ?k \<noteq> None" "nodes l ?m \<noteq> None" using lrep_nodes [OF assms(1,2)] lrep_nodes [OF assms(1,3)] True by blast+
  then show ?thesis
    using True s t assms(1) li_move_rep [of l us ?k c vs "us' @ [(?m, d)]" vs'] unfolding map_fst_last
    by (auto simp: sim_def list_MoveAfter_def Let_def)
next
  case False
  then have "el_list e \<noteq> a \<or> el_id e = el_id m \<or> el_list m \<noteq> a \<or> nodes l (el_id e) = None \<or> nodes l (el_id m) = None"
    using lrep_nodes [OF assms(1,2)] lrep_nodes [OF assms(1,3)] by blast
  then have "list_MoveAfter a l e m = Some l" by (auto simp: list_MoveAfter_def)
  then show ?thesis using False assms(1) by (auto simp: sim_def)
qed

section \<open>Properties\<close>

lemma sim_op: "lrep l ps \<Longrightarrow> op_ok p \<Longrightarrow> sim a p l ps"
proof (cases p)
  case Init
  then show ?thesis using lrep_new by (simp add: sim_def list_Init_def li_new_def)
qed (auto simp: op_ok_def ROOT_ID_def sim_push sim_remove sim_insert sim_move_ends sim_move_before sim_move_after)

fun list_run :: "nat \<Rightarrow> list_op list \<Rightarrow> list_inner \<Rightarrow> list_inner option" where
  "list_run a [] l = Some l"
| "list_run a (p # ops) l = (case list_exec a p l of None \<Rightarrow> None | Some l' \<Rightarrow> list_run a ops l')"

lemma run_sim:
  "lrep l ps \<Longrightarrow> list_all op_ok ops \<Longrightarrow>
   \<exists>l'. list_run a ops l = Some l' \<and> lrep l' (fst (fold (seq_exec a) ops (ps, next_id l)))"
proof (induction ops arbitrary: l ps)
  case (Cons p ops)
  then have "sim a p l ps" by (intro sim_op) simp_all
  then obtain l' where l': "list_exec a p l = Some l'" "lrep l' (fst (seq_exec a p (ps, next_id l)))"
    "next_id l' = snd (seq_exec a p (ps, next_id l))"
    unfolding sim_def by blast
  have "(fst (seq_exec a p (ps, next_id l)), next_id l') = seq_exec a p (ps, next_id l)" using l'(3) by simp
  with Cons.IH [OF l'(2)] Cons.prems(2) l'(1) show ?case by auto
qed auto

lemma snap_ring:
  assumes "cycle (\<lambda>k. dir (the (N k))) (us @ ids)" "distinct (0 # us @ ids)" "set (us @ ids) \<subseteq> dom N"
    "\<forall>i \<in> set ids. nvalue (the (N i)) = Some (cell i)"
  shows "snap_from N dir cells (hd (ids @ [0])) = Some (map (\<lambda>i. cells (cell i)) ids)"
  using assms
proof (induction ids arbitrary: us)
  case Nil
  then show ?case by (simp add: snap_from.simps [of N dir cells] ROOT_ID_def)
next
  case (Cons i ids)
  have "cycle (\<lambda>k. dir (the (N k))) ((us @ [i]) @ ids)" using Cons.prems(1) by simp
  from ring_next [OF this] have d: "dir (the (N i)) = hd (ids @ [0])" by simp
  obtain n where n: "N i = Some n" using Cons.prems(3) by auto
  have "snap_from N dir cells (hd (ids @ [0])) = Some (map (\<lambda>i. cells (cell i)) ids)"
    using Cons.prems by (intro Cons.IH [of "us @ [i]"]) auto
  then show ?case using n d Cons.prems by (simp add: snap_from.simps [of N dir cells i] ROOT_ID_def)
qed

lemma lrep_snapshots:
  assumes "lrep l ps"
  shows "snapshot_forward l cells = Some (map (cells \<circ> snd) ps)" "snapshot_backward l cells = Some (rev (map (cells \<circ> snd) ps))"
proof -
  have rg: "rings (nodes l) ps" using assms by (simp add: lrep_def)
  note r = ringsD [OF rg]
  obtain x where x: "nodes l 0 = Some x" "nnext x = hd (map fst ps @ [0])" "nprev x = last (0 # map fst ps)"
    using lrep_root [OF assms] by metis
  have f: "(\<lambda>k. nnext (the (nodes l k))) = nxt (nodes l)" "(\<lambda>k. nprev (the (nodes l k))) = prv (nodes l)"
    by (simp_all add: fun_eq_iff nxt_def prv_def)
  let ?cell = "\<lambda>i. the (nvalue (the (nodes l i)))"
  have c: "\<forall>i \<in> set (map fst ps). nvalue (the (nodes l i)) = Some (?cell i)" using r(5) by (auto simp: nvl_def)
  have m: "map (\<lambda>i. cells (?cell i)) (map fst ps) = map (cells \<circ> snd) ps" using r(5) by (auto simp: nvl_def)
  have "snap_from (nodes l) nnext cells (hd (map fst ps @ [0])) = Some (map (\<lambda>i. cells (?cell i)) (map fst ps))"
    by (rule snap_ring [of nnext "nodes l" "[]"]) (use r c f in auto)
  with x m show "snapshot_forward l cells = Some (map (cells \<circ> snd) ps)" by (simp add: snapshot_forward_def ROOT_ID_def)
  have "snap_from (nodes l) nprev cells (hd (rev (map fst ps) @ [0])) = Some (map (\<lambda>i. cells (?cell i)) (rev (map fst ps)))"
    by (rule snap_ring [of nprev "nodes l" "[]"]) (use r c f in auto)
  with x m show "snapshot_backward l cells = Some (rev (map (cells \<circ> snd) ps))"
    unfolding hd_rev_snoc by (simp add: snapshot_backward_def ROOT_ID_def rev_map [symmetric] del: last.simps)
qed

lemma lrep_ends:
  assumes "lrep l ps"
  shows "list_Front a l = (if ps = [] then None else Some \<lparr>el_list = a, el_id = fst (hd ps), el_cell = snd (hd ps)\<rparr>)"
    "list_Back a l = (if ps = [] then None else Some \<lparr>el_list = a, el_id = fst (last ps), el_cell = snd (last ps)\<rparr>)"
    "list_Len l = int (length ps)"
proof -
  have rg: "rings (nodes l) ps" and len: "llen l = int (length ps)" using assms by (simp_all add: lrep_def)
  note r = ringsD [OF rg]
  obtain x where x: "nodes l 0 = Some x" "nnext x = hd (map fst ps @ [0])" "nprev x = last (0 # map fst ps)"
    using lrep_root [OF assms] by metis
  have mk: "mk_element (nodes l) a (fst p) = Some \<lparr>el_list = a, el_id = fst p, el_cell = snd p\<rparr>" if "p \<in> set ps" for p
  proof -
    have "fst p \<in> dom (nodes l)" unfolding r(2) using that by simp
    then obtain n where "nodes l (fst p) = Some n" by auto
    then show ?thesis using r(5) that by (auto simp: mk_element_def nvl_def)
  qed
  show "list_Front a l = (if ps = [] then None else Some \<lparr>el_list = a, el_id = fst (hd ps), el_cell = snd (hd ps)\<rparr>)"
    using x len mk [of "hd ps"] by (cases ps) (simp_all add: list_Front_def ROOT_ID_def)
  show "list_Back a l = (if ps = [] then None else Some \<lparr>el_list = a, el_id = fst (last ps), el_cell = snd (last ps)\<rparr>)"
    using x len mk [of "last ps"] by (cases ps rule: rev_cases) (simp_all add: list_Back_def ROOT_ID_def)
  show "list_Len l = int (length ps)" using len by (simp add: list_Len_def)
qed

text \<open>
  C35: the list is a sequence.  Any series of pushes, insertions, removals, moves and initialisations on a new list, with
  any element handles (also handles of other lists and of elements removed long ago), goes through without a failed
  \<^verbatim>\<open>expect\<close> and has the effect of the same operations on a plain sequence: the forward traversal
  ends and reads its values, the backward traversal reads them in reverse, \<^verbatim>\<open>Front\<close>, \<^verbatim>\<open>Back\<close> and
  \<^verbatim>\<open>Len\<close> agree with it.
\<close>

theorem list_is_sequence:
  assumes "list_all op_ok ops" "fst (fold (seq_exec a) ops ([], 1)) = ps"
  shows "\<exists>l. list_run a ops li_new = Some l \<and> list_Len l = int (length ps) \<and>
     snapshot_forward l cells = Some (map (cells \<circ> snd) ps) \<and>
     snapshot_backward l cells = Some (rev (map (cells \<circ> snd) ps)) \<and>
     list_Front a l = (if ps = [] then None else Some \<lparr>el_list = a, el_id = fst (hd ps), el_cell = snd (hd ps)\<rparr>) \<and>
     list_Back a l = (if ps = [] then None else Some \<lparr>el_list = a, el_id = fst (last ps), el_cell = snd (last ps)\<rparr>)"
proof -
  obtain l where "list_run a ops li_new = Some l" "lrep l ps"
    using run_sim [OF lrep_new(1) assms(1), of a] assms(2) lrep_new(2) by auto
  then show ?thesis using lrep_snapshots [of l ps cells] lrep_ends [of l ps] by blast
qed

theorem list_is_sequence_witness:
  "let ops = [PushBack 10, PushBack 11, PushFront 12, MoveToBack \<lparr>el_list = 7, el_id = 1, el_cell = 10\<rparr>,
              InsertBefore 13 \<lparr>el_list = 7, el_id = 2, el_cell = 11\<rparr>, Remove \<lparr>el_list = 7, el_id = 3, el_cell = 12\<rparr>] in
   list_all op_ok ops \<and>
   (\<exists>l. list_run 7 ops li_new = Some l \<and> snapshot_forward l (\<lambda>c. c + 100) = Some [113, 111, 110])"
proof -
  let ?ops = "[PushBack 10, PushBack 11, PushFront 12, MoveToBack \<lparr>el_list = 7, el_id = 1, el_cell = 10\<rparr>,
              InsertBefore 13 \<lparr>el_list = 7, el_id = 2, el_cell = 11\<rparr>, Remove \<lparr>el_list = 7, el_id = 3, el_cell = 12\<rparr>]"
  have o: "list_all op_ok ?ops" by (simp add: op_ok_def ROOT_ID_def)
  have "fst (fold (seq_exec 7) ?ops ([], 1)) = [(4, 13), (2, 11), (1, 10)]"
    by (simp add: upto_def onward_def without_def)
  from list_is_sequence [OF o this, of "\<lambda>c. c + 100"] o show ?thesis by (auto simp: Let_def)
qed

lemma list_Init_reuses_ids:
  "\<exists>l. list_run 7 [PushBack 10, Init, PushBack 20, Remove \<lparr>el_list = 7, el_id = 1, el_cell = 10\<rparr>] li_new = Some l \<and>
       snapshot_forward l (\<lambda>c. c) = Some []"
proof -
  have "lrep li_new []" "next_id li_new = 1" by (rule lrep_new)+
  from run_sim [OF this(1), of "[PushBack 10, Init, PushBack 20, Remove \<lparr>el_list = 7, el_id = 1, el_cell = 10\<rparr>]" 7]
  obtain l where "list_run 7 [PushBack 10, Init, PushBack 20, Remove \<lparr>el_list = 7, el_id = 1, el_cell = 10\<rparr>] li_new = Some l"
    "lrep l []"
    by (auto simp: op_ok_def ROOT_ID_def without_def)
  then show ?thesis using lrep_snapshots(1) [of l "[]"] by auto
qed

section \<open>Whole lists\<close>

lemma push_back_all_rep:
  "lrep l ps \<Longrightarrow> \<forall>p \<in> set ps. snd p < c \<Longrightarrow>
   \<exists>l' cells' ps'. push_back_all l cells c vs = Some (l', cells') \<and> lrep l' ps' \<and>
     map (cells' \<circ> snd) ps' = map (cells \<circ> snd) ps @ vs"
proof (induction vs arbitrary: l cells c ps)
  case Nil
  then show ?case by auto
next
  case (Cons v vs)
  obtain r where r: "nodes l 0 = Some r" "nprev r = last (0 # map fst ps)" using lrep_root [OF Cons.prems(1)] by metis
  obtain l1 where l1: "li_insert l c (nprev r) = Some (l1, next_id l)" "lrep l1 (ps @ [(next_id l, c)])"
    using li_insert_rep [of l ps "[]" c] Cons.prems(1) r(2) by (auto simp del: last.simps)
  have "map ((cells(c := v)) \<circ> snd) (ps @ [(next_id l, c)]) = map (cells \<circ> snd) ps @ [v]"
    using Cons.prems(2) by auto
  moreover have "\<forall>p \<in> set (ps @ [(next_id l, c)]). snd p < c + 1" using Cons.prems(2) by auto
  ultimately obtain l' cells' ps' where "push_back_all l1 (cells(c := v)) (c + 1) vs = Some (l', cells')" "lrep l' ps'"
    "map (cells' \<circ> snd) ps' = (map (cells \<circ> snd) ps @ [v]) @ vs"
    using Cons.IH [OF l1(2), of "c + 1" "cells(c := v)"] by metis
  then show ?case using l1(1) r(1)
    by (intro exI [of _ l'] exI [of _ cells'] exI [of _ ps']) (simp add: ROOT_ID_def insertValue_def comp_def)
qed

lemma push_front_all_rep:
  "lrep l ps \<Longrightarrow> \<forall>p \<in> set ps. snd p < c \<Longrightarrow>
   \<exists>l' cells' ps'. push_front_all l cells c vs = Some (l', cells') \<and> lrep l' ps' \<and>
     map (cells' \<circ> snd) ps' = rev vs @ map (cells \<circ> snd) ps"
proof (induction vs arbitrary: l cells c ps)
  case Nil
  then show ?case by auto
next
  case (Cons v vs)
  obtain l1 where l1: "li_insert l c 0 = Some (l1, next_id l)" "lrep l1 ((next_id l, c) # ps)"
    using li_insert_rep [of l "[]" ps c] Cons.prems(1) by auto
  have "map ((cells(c := v)) \<circ> snd) ((next_id l, c) # ps) = v # map (cells \<circ> snd) ps"
    using Cons.prems(2) by auto
  moreover have "\<forall>p \<in> set ((next_id l, c) # ps). snd p < c + 1" using Cons.prems(2) by auto
  ultimately obtain l' cells' ps' where "push_front_all l1 (cells(c := v)) (c + 1) vs = Some (l', cells')" "lrep l' ps'"
    "map (cells' \<circ> snd) ps' = rev vs @ v # map (cells \<circ> snd) ps"
    using Cons.IH [OF l1(2), of "c + 1" "cells(c := v)"] by metis
  then show ?case using l1(1)
    by (intro exI [of _ l'] exI [of _ cells'] exI [of _ ps']) (simp add: ROOT_ID_def insertValue_def comp_def)
qed

text \<open>
  C36: appending and prepending whole lists.  The values of the other list are copied to the end, or in their order to
  the front; the two lists may be the same one.
\<close>

theorem list_push_lists:
  assumes "lrep l ps" "lrep other qs" "\<forall>p \<in> set ps. snd p < c"
  shows "(\<exists>l' cells'. list_PushBackList l other cells c = Some (l', cells') \<and>
            snapshot_forward l' cells' = Some (map (cells \<circ> snd) ps @ map (cells \<circ> snd) qs)) \<and>
         (\<exists>l' cells'. list_PushFrontList l other cells c = Some (l', cells') \<and>
            snapshot_forward l' cells' = Some (map (cells \<circ> snd) qs @ map (cells \<circ> snd) ps))"
proof (intro conjI)
  note z = lrep_lazy [OF assms(1)] and o = lrep_snapshots [OF assms(2), of cells]
  obtain l' cells' ps' where b: "push_back_all l cells c (map (cells \<circ> snd) qs) = Some (l', cells')" "lrep l' ps'"
    "map (cells' \<circ> snd) ps' = map (cells \<circ> snd) ps @ map (cells \<circ> snd) qs"
    using push_back_all_rep [OF assms(1,3)] by metis
  show "\<exists>l' cells'. list_PushBackList l other cells c = Some (l', cells') \<and>
       snapshot_forward l' cells' = Some (map (cells \<circ> snd) ps @ map (cells \<circ> snd) qs)"
    unfolding list_PushBackList_def z o option.case b(1) using lrep_snapshots(1) [OF b(2), of cells'] b(3) by auto
  obtain l' cells' ps' where f: "push_front_all l cells c (rev (map (cells \<circ> snd) qs)) = Some (l', cells')" "lrep l' ps'"
    "map (cells' \<circ> snd) ps' = map (cells \<circ> snd) qs @ map (cells \<circ> snd) ps"
    using push_front_all_rep [OF assms(1,3), of cells "rev (map (cells \<circ> snd) qs)"] unfolding rev_rev_ident by metis
  show "\<exists>l' cells'. list_PushFrontList l other cells c = Some (l', cells') \<and>
       snapshot_forward l' cells' = Some (map (cells \<circ> snd) qs @ map (cells \<circ> snd) ps)"
    unfolding list_PushFrontList_def z o option.case f(1) using lrep_snapshots(1) [OF f(2), of cells'] f(3) by auto
qed

theorem list_push_lists_witness:
  "\<exists>l. lrep l [(1, 5)] \<and>
     (\<exists>l' cells'. list_PushBackList l l (\<lambda>c. c) 6 = Some (l', cells') \<and> snapshot_forward l' cells' = Some [5, 5])"
proof -
  obtain l where l: "lrep l [(1, 5)]"
    using run_sim [OF lrep_new(1), of "[PushBack 5]" 0] lrep_new(2) by (auto simp: op_ok_def)
  from list_push_lists [OF l l, of 6 "\<lambda>c. c"] l show ?thesis by auto
qed

end
