(* ===== verification/Sort_Interface.thy ===== *)
theory Sort_Interface
  imports Goish_Prelude "HOL-Library.Multiset" "HOL-Library.Monad_Syntax"
begin

text \<open>
  \<^verbatim>\<open>sort.Interface\<close> (\<^verbatim>\<open>src/src/sort/sort.rs\<close>): a collection with a length, a comparison and an
  exchange of two positions.  An interface value is a record of its three methods; a method that
  panics on an index out of range returns \<^const>\<open>None\<close>.  The locale \<open>sort_interface\<close> is what the
  package asks of an implementation; it is interpreted on the collections of the source:
  \<^verbatim>\<open>IntSlice\<close>, \<^verbatim>\<open>StringSlice\<close>, their \<^verbatim>\<open>Reverse\<close>, and the orders \<^verbatim>\<open>byLiteral\<close> and \<^verbatim>\<open>byFreq\<close> of the
  Huffman encoder (\<^verbatim>\<open>src/src/compress/flate/huffman_code.rs\<close>).

  Positions are Go's \<^verbatim>\<open>int\<close>.  A collection has fewer than \<open>2 ^ 62\<close> elements, so that \<open>2 * i + 2\<close>
  for a position \<open>i\<close>, the largest number the package computes, does not overflow.
\<close>

section \<open>Collections\<close>

record 'd sort_if =
  Len :: "'d \<Rightarrow> int"
  Less :: "'d \<Rightarrow> int \<Rightarrow> int \<Rightarrow> bool option"
  Swap :: "'d \<Rightarrow> int \<Rightarrow> int \<Rightarrow> 'd option"

text \<open>Rust's \<^verbatim>\<open>xs[i]\<close> and \<^verbatim>\<open>xs.swap(i, j)\<close>; the cast \<^verbatim>\<open>i as usize\<close> makes a negative index too large.\<close>

definition index :: "'a list \<Rightarrow> int \<Rightarrow> 'a option" where
  "index xs i = (if 0 \<le> i \<and> i < int (length xs) then Some (xs ! nat i) else None)"

definition swapped :: "'a list \<Rightarrow> nat \<Rightarrow> nat \<Rightarrow> 'a list" where
  "swapped xs i j = xs[i := xs ! j, j := xs ! i]"

definition slice_swap :: "'a list \<Rightarrow> int \<Rightarrow> int \<Rightarrow> 'a list option" where
  "slice_swap xs i j =
     (if 0 \<le> i \<and> i < int (length xs) \<and> 0 \<le> j \<and> j < int (length xs) then Some (swapped xs (nat i) (nat j)) else None)"

definition slice_if :: "('a \<Rightarrow> 'a \<Rightarrow> bool) \<Rightarrow> 'a list sort_if" where
  "slice_if lt = \<lparr>Len = (\<lambda>xs. int (length xs)),
     Less = (\<lambda>xs i j. do { a \<leftarrow> index xs i; b \<leftarrow> index xs j; Some (lt a b) }),
     Swap = slice_swap\<rparr>"

definition IntSlice :: "int list sort_if" where
  "IntSlice = slice_if (<)"

definition StringSlice :: "u8 list list sort_if" where
  "StringSlice = slice_if ord_class.lexordp"

definition sort_Reverse :: "('d, 'z) sort_if_scheme \<Rightarrow> ('d, 'z) sort_if_scheme" where
  "sort_Reverse I = I\<lparr>Less := \<lambda>d i j. Less I d j i\<rparr>"

section \<open>The orders of the Huffman encoder\<close>

record literalNode =
  literal :: u16
  freq :: int

definition touidx :: "int \<Rightarrow> nat" where
  "touidx i = (if i < 0 then 0 else nat i)"

definition lit_less :: "literalNode \<Rightarrow> literalNode \<Rightarrow> bool" where
  "lit_less a b \<longleftrightarrow> literal a < literal b"

definition freq_less :: "literalNode \<Rightarrow> literalNode \<Rightarrow> bool" where
  "freq_less a b \<longleftrightarrow> (if freq a = freq b then literal a < literal b else freq a < freq b)"

definition nodes_if :: "(literalNode \<Rightarrow> literalNode \<Rightarrow> bool) \<Rightarrow> literalNode list sort_if" where
  "nodes_if lt = \<lparr>Len = (\<lambda>xs. int (length xs)),
     Less = (\<lambda>xs i j. do { a \<leftarrow> index xs (int (touidx i)); b \<leftarrow> index xs (int (touidx j)); Some (lt a b) }),
     Swap = (\<lambda>xs i j. slice_swap xs (int (touidx i)) (int (touidx j)))\<rparr>"

definition byLiteral :: "literalNode list sort_if" where
  "byLiteral = nodes_if lit_less"

definition byFreq :: "literalNode list sort_if" where
  "byFreq = nodes_if freq_less"

lemma length_swapped [simp]: "length (swapped xs i j) = length xs"
  by (simp add: swapped_def)

section \<open>What the package asks\<close>

text \<open>
  A strict weak order: elements neither of which is less than the other count as equal.
\<close>

locale weak_order =
  fixes lt :: "'a \<Rightarrow> 'a \<Rightarrow> bool"
  assumes irrefl: "\<not> lt x x"
    and not_lt_trans: "\<not> lt x y \<Longrightarrow> \<not> lt y z \<Longrightarrow> \<not> lt x z"
    and asym: "lt x y \<Longrightarrow> \<not> lt y x"
begin

lemma lt_trans: "lt x y \<Longrightarrow> lt y z \<Longrightarrow> lt x z"
  using not_lt_trans asym by metis

lemma lt_not_lt: "lt x y \<Longrightarrow> \<not> lt z y \<Longrightarrow> lt x z"
  using not_lt_trans by blast

lemma not_lt_lt: "\<not> lt y x \<Longrightarrow> lt y z \<Longrightarrow> lt x z"
  using not_lt_trans by blast

lemma weak_order_reverse: "weak_order (\<lambda>x y. lt y x)"
  using irrefl not_lt_trans asym by unfold_locales blast+

end

locale sort_interface = weak_order lt
  for lt :: "'a \<Rightarrow> 'a \<Rightarrow> bool" +
  fixes I :: "('d, 'z) sort_if_scheme" and elems :: "'d \<Rightarrow> 'a list"
  assumes Len_elems: "Len I d = int (length (elems d))"
    and Less_elems: "i < length (elems d) \<Longrightarrow> j < length (elems d) \<Longrightarrow>
      Less I d (int i) (int j) = Some (lt (elems d ! i) (elems d ! j))"
    and Swap_elems: "i < length (elems d) \<Longrightarrow> j < length (elems d) \<Longrightarrow>
      \<exists>d'. Swap I d (int i) (int j) = Some d' \<and> elems d' = swapped (elems d) i j"
begin

lemma interface_reverse: "sort_interface (\<lambda>x y. lt y x) (sort_Reverse I) elems"
  using weak_order_reverse Len_elems Less_elems Swap_elems
  by (simp add: sort_interface_def sort_interface_axioms_def sort_Reverse_def)

end

lemma weak_order_total:
  assumes "\<And>x. \<not> lt x x" "\<And>x y z. lt x y \<Longrightarrow> lt y z \<Longrightarrow> lt x z" "\<And>x y. lt x y \<or> x = y \<or> lt y x"
  shows "weak_order lt"
  using assms by unfold_locales blast+

lemma slice_interface:
  assumes "weak_order lt"
  shows "sort_interface lt (slice_if lt) (\<lambda>xs. xs)"
  using assms by (simp add: sort_interface_def sort_interface_axioms_def slice_if_def index_def slice_swap_def)

lemma nodes_interface:
  assumes "weak_order lt"
  shows "sort_interface lt (nodes_if lt) (\<lambda>xs. xs)"
  using assms
  by (simp add: sort_interface_def sort_interface_axioms_def nodes_if_def index_def slice_swap_def touidx_def)

interpretation int_slice: sort_interface "(<)" IntSlice "\<lambda>xs. xs"
  unfolding IntSlice_def by (intro slice_interface weak_order_total) auto

interpretation string_slice: sort_interface ord_class.lexordp StringSlice "\<lambda>xs. xs"
  unfolding StringSlice_def
  by (intro slice_interface weak_order_total) (rule lexordp_irreflexive' | erule (1) lexordp_trans | rule lexordp_linear)+

interpretation literal_slice: sort_interface lit_less byLiteral "\<lambda>xs. xs"
  unfolding byLiteral_def by (intro nodes_interface) (unfold_locales, auto simp: lit_less_def)

interpretation freq_slice: sort_interface freq_less byFreq "\<lambda>xs. xs"
  unfolding byFreq_def by (intro nodes_interface) (unfold_locales, auto simp: freq_less_def split: if_splits)

interpretation reverse_int_slice: sort_interface "\<lambda>x y. y < x" "sort_Reverse IntSlice" "\<lambda>xs. xs"
  by (rule int_slice.interface_reverse)

section \<open>Exchanging two positions\<close>

lemma swapped_nth:
  "i < length xs \<Longrightarrow> j < length xs \<Longrightarrow> k < length xs \<Longrightarrow>
    swapped xs i j ! k = (if k = i then xs ! j else if k = j then xs ! i else xs ! k)"
  by (auto simp: swapped_def nth_list_update)

text \<open>A list in which only the first \<open>n\<close> positions have been rearranged.\<close>

definition shuffled :: "nat \<Rightarrow> 'a list \<Rightarrow> 'a list \<Rightarrow> bool" where
  "shuffled n xs ys \<longleftrightarrow> length ys = length xs \<and> mset (take n ys) = mset (take n xs) \<and> drop n ys = drop n xs"

lemma shuffled_refl [simp]: "shuffled n xs xs"
  by (simp add: shuffled_def)

lemma shuffled_trans: "shuffled n xs ys \<Longrightarrow> shuffled n ys zs \<Longrightarrow> shuffled n xs zs"
  by (simp add: shuffled_def)

lemma shuffled_swapped:
  assumes "i < n" "j < n" "n \<le> length xs"
  shows "shuffled n xs (swapped xs i j)"
proof -
  have "take n (swapped xs i j) = (take n xs)[i := take n xs ! j, j := take n xs ! i]"
    using assms by (simp add: swapped_def take_update_swap)
  moreover have "mset \<dots> = mset (take n xs)"
    using assms by (intro mset_swap) auto
  ultimately show ?thesis
    using assms by (simp add: shuffled_def swapped_def)
qed

lemma shuffledD:
  assumes "shuffled n xs ys"
  shows "length ys = length xs" "mset ys = mset xs" "set (take n ys) = set (take n xs)"
    "n \<le> k \<Longrightarrow> k < length xs \<Longrightarrow> ys ! k = xs ! k"
proof -
  show "length ys = length xs" "set (take n ys) = set (take n xs)"
    using assms by (auto simp: shuffled_def dest: mset_eq_setD)
  show "mset ys = mset xs"
    using assms unfolding shuffled_def by (metis append_take_drop_id mset_append)
  show "ys ! k = xs ! k" if "n \<le> k" "k < length xs"
  proof -
    have len: "length ys = length xs" and eq: "drop n ys = drop n xs"
      using assms by (simp_all add: shuffled_def)
    have "drop n ys ! (k - n) = ys ! k" "drop n xs ! (k - n) = xs ! k"
      using that len by simp_all
    then show ?thesis
      using eq by simp
  qed
qed

end
