(* ===== verification/Heap_Order.thy ===== *)
theory Heap_Order
  imports Sort_Interface
begin

text \<open>
  Heap order on a list, with one position out of place: what \<^verbatim>\<open>siftDown\<close>, \<^verbatim>\<open>down\<close> and \<^verbatim>\<open>up\<close>
  repair.  A list is a heap from position \<open>k\<close> up to \<open>n\<close> if no parent at or after \<open>k\<close> is less than
  one of its children below \<open>n\<close>; for the other direction of the order, reverse \<open>lt\<close>.
\<close>

definition child :: "nat \<Rightarrow> nat \<Rightarrow> bool" where
  "child i j \<longleftrightarrow> j = 2 * i + 1 \<or> j = 2 * i + 2"

definition heap_from :: "('a \<Rightarrow> 'a \<Rightarrow> bool) \<Rightarrow> nat \<Rightarrow> nat \<Rightarrow> 'a list \<Rightarrow> bool" where
  "heap_from lt k n xs \<longleftrightarrow> (\<forall>i j. k \<le> i \<and> child i j \<and> j < n \<longrightarrow> \<not> lt (xs ! i) (xs ! j))"

text \<open>Heap order but for position \<open>r\<close>, around which it holds.\<close>

definition hole :: "('a \<Rightarrow> 'a \<Rightarrow> bool) \<Rightarrow> nat \<Rightarrow> nat \<Rightarrow> nat \<Rightarrow> 'a list \<Rightarrow> bool" where
  "hole lt k n r xs \<longleftrightarrow>
     (\<forall>i j. k \<le> i \<and> child i j \<and> j < n \<and> i \<noteq> r \<and> j \<noteq> r \<longrightarrow> \<not> lt (xs ! i) (xs ! j)) \<and>
     (\<forall>p j. k \<le> p \<and> child p r \<and> child r j \<and> j < n \<longrightarrow> \<not> lt (xs ! p) (xs ! j))"

definition parent_ok :: "('a \<Rightarrow> 'a \<Rightarrow> bool) \<Rightarrow> nat \<Rightarrow> nat \<Rightarrow> 'a list \<Rightarrow> bool" where
  "parent_ok lt k r xs \<longleftrightarrow> (\<forall>p. k \<le> p \<and> child p r \<longrightarrow> \<not> lt (xs ! p) (xs ! r))"

definition children_ok :: "('a \<Rightarrow> 'a \<Rightarrow> bool) \<Rightarrow> nat \<Rightarrow> nat \<Rightarrow> 'a list \<Rightarrow> bool" where
  "children_ok lt n r xs \<longleftrightarrow> (\<forall>j. child r j \<and> j < n \<longrightarrow> \<not> lt (xs ! r) (xs ! j))"

text \<open>The greater child of \<open>r\<close>.\<close>

definition max_child :: "('a \<Rightarrow> 'a \<Rightarrow> bool) \<Rightarrow> nat \<Rightarrow> nat \<Rightarrow> 'a list \<Rightarrow> nat" where
  "max_child lt n r xs = (if 2 * r + 2 < n \<and> lt (xs ! (2 * r + 1)) (xs ! (2 * r + 2)) then 2 * r + 2 else 2 * r + 1)"

lemma child_less: "child i j \<Longrightarrow> i < j"
  by (auto simp: child_def)

lemma child_unique: "child i j \<Longrightarrow> child i' j \<Longrightarrow> i = i'"
  by (auto simp: child_def)

lemma hole_heap: "hole lt k n r xs \<Longrightarrow> parent_ok lt k r xs \<Longrightarrow> children_ok lt n r xs \<Longrightarrow> heap_from lt k n xs"
  unfolding hole_def parent_ok_def children_ok_def heap_from_def by blast

lemma hole_start: "heap_from lt (Suc k) n xs \<Longrightarrow> hole lt k n k xs \<and> parent_ok lt k k xs"
  by (auto simp: hole_def parent_ok_def heap_from_def dest: child_less)

lemma heap_parts:
  assumes "heap_from lt k n xs"
  shows "k \<le> r \<Longrightarrow> children_ok lt n r xs" "r < n \<Longrightarrow> parent_ok lt k r xs"
  using assms by (auto simp: children_ok_def parent_ok_def heap_from_def)

text \<open>From position \<open>n\<close> on, every element is in its final place.\<close>

definition ends :: "('a \<Rightarrow> 'a \<Rightarrow> bool) \<Rightarrow> nat \<Rightarrow> 'a list \<Rightarrow> bool" where
  "ends lt n xs \<longleftrightarrow> (\<forall>i j. i < j \<and> n \<le> j \<and> j < length xs \<longrightarrow> \<not> lt (xs ! j) (xs ! i))"

lemma ends_all: "length xs \<le> n \<Longrightarrow> ends lt n xs"
  by (auto simp: ends_def)

lemma ends_sorted: "ends lt 1 xs \<Longrightarrow> sorted_wrt (\<lambda>x y. \<not> lt y x) xs"
  by (auto simp: ends_def sorted_wrt_iff_nth_less)

lemma ends_shuffled:
  assumes "shuffled n xs ys" "ends lt n xs"
  shows "ends lt n ys"
  unfolding ends_def
proof (intro allI impI)
  fix i j
  assume ij: "i < j \<and> n \<le> j \<and> j < length ys"
  have len: "length ys = length xs" and j: "ys ! j = xs ! j"
    using shuffledD(1, 4) [OF assms(1)] ij by simp_all
  show "\<not> lt (ys ! j) (ys ! i)"
  proof (cases "i < n")
    case True
    then have "ys ! i \<in> set (take n ys)"
      using ij by (force simp: in_set_conv_nth)
    then obtain k where "k < n" "k < length xs" "ys ! i = xs ! k"
      using shuffledD(3) [OF assms(1)] by (auto simp: in_set_conv_nth)
    then show ?thesis
      using assms(2) ij j len unfolding ends_def by auto
  next
    case False
    then show ?thesis
      using assms(2) ij j len shuffledD(4) [OF assms(1), of i] unfolding ends_def by simp
  qed
qed

lemma heap_swap_end:
  assumes "heap_from lt 0 (Suc e) xs" "e < length xs"
  shows "heap_from lt (Suc 0) e (swapped xs 0 e)"
  unfolding heap_from_def
proof (intro allI impI)
  fix i j
  assume ij: "Suc 0 \<le> i \<and> child i j \<and> j < e"
  then have "i < j" "j < length xs" "0 < length xs"
    using child_less assms(2) by auto
  then show "\<not> lt (swapped xs 0 e ! i) (swapped xs 0 e ! j)"
    using ij assms swapped_nth [of 0 xs e i] swapped_nth [of 0 xs e j] by (simp add: heap_from_def)
qed

context weak_order
begin

lemma max_child:
  assumes "2 * r + 1 < n"
  shows "child r (max_child lt n r xs)" "max_child lt n r xs < n"
    "child r j \<Longrightarrow> j < n \<Longrightarrow> \<not> lt (xs ! max_child lt n r xs) (xs ! j)"
  using assms irrefl asym by (auto simp: max_child_def child_def)

lemma hole_down:
  assumes h: "hole lt k n r xs" and c: "child r c" "c < n" "n \<le> length xs"
    and max: "\<And>j. child r j \<Longrightarrow> j < n \<Longrightarrow> \<not> lt (xs ! c) (xs ! j)" and lt: "lt (xs ! r) (xs ! c)"
    and k: "k \<le> r"
  shows "hole lt k n c (swapped xs r c) \<and> parent_ok lt k c (swapped xs r c)"
proof -
  have len: "r < length xs" "c < length xs"
    using c child_less [OF c(1)] by simp_all
  note nth = swapped_nth [OF len]
  have "\<not> lt (swapped xs r c ! i) (swapped xs r c ! j)"
    if ij: "k \<le> i" "child i j" "j < n" "i \<noteq> c" "j \<noteq> c" for i j
  proof -
    have l: "i < length xs" "j < length xs"
      using ij child_less [OF ij(2)] c by simp_all
    consider "i = r" | "j = r" | "i \<noteq> r" "j \<noteq> r"
      by blast
    then show ?thesis
    proof cases
      case 1
      then show ?thesis
        using nth [OF l(1)] nth [OF l(2)] max ij child_less [OF ij(2)] by simp
    next
      case 2
      then show ?thesis
        using nth [OF l(1)] nth [OF l(2)] h ij c child_less [OF ij(2)] unfolding hole_def by simp
    next
      case 3
      then show ?thesis
        using nth [OF l(1)] nth [OF l(2)] h ij unfolding hole_def by simp
    qed
  qed
  moreover have "\<not> lt (swapped xs r c ! p) (swapped xs r c ! j)" if "child p c" "child c j" "j < n" for p j
  proof -
    have "p = r"
      using that(1) c(1) child_unique by blast
    then show ?thesis
      using nth [of r] nth [of j] h that c k child_less [OF that(2)] child_less [OF c(1)] len unfolding hole_def by auto
  qed
  moreover have "parent_ok lt k c (swapped xs r c)"
  proof -
    have "p = r" if "child p c" for p
      using that c(1) child_unique by blast
    then show ?thesis
      using nth [of r] nth [of c] len asym [OF lt] child_less [OF c(1)] unfolding parent_ok_def by auto
  qed
  ultimately show ?thesis
    unfolding hole_def by blast
qed

lemma hole_up:
  assumes h: "hole lt k n r xs" and b: "children_ok lt n r xs" and p: "child p r" "r < n" "n \<le> length xs" "k \<le> p"
    and lt: "lt (xs ! p) (xs ! r)"
  shows "hole lt k n p (swapped xs p r) \<and> children_ok lt n p (swapped xs p r)"
proof -
  have len: "p < length xs" "r < length xs"
    using p child_less [OF p(1)] by simp_all
  note nth = swapped_nth [OF len]
  have sib: "\<not> lt (xs ! p) (xs ! j)" if "child p j" "j < n" "j \<noteq> r" for j
    using h that p child_less [OF p(1)] unfolding hole_def by blast
  have "\<not> lt (swapped xs p r ! i) (swapped xs p r ! j)"
    if ij: "k \<le> i" "child i j" "j < n" "i \<noteq> p" "j \<noteq> p" for i j
  proof -
    have l: "i < length xs" "j < length xs"
      using ij child_less [OF ij(2)] p by simp_all
    have "j \<noteq> r"
      using ij child_unique p(1) by blast
    then show ?thesis
      using nth [OF l(1)] nth [OF l(2)] h ij p child_less [OF ij(2)] unfolding hole_def by (cases "i = r") auto
  qed
  moreover have "\<not> lt (swapped xs p r ! q) (swapped xs p r ! j)"
    if q: "k \<le> q" "child q p" "child p j" "j < n" for q j
  proof -
    have l: "q < length xs" "j < length xs" "q \<noteq> p" "q \<noteq> r" "j \<noteq> p"
      using q child_less [OF q(2)] child_less [OF q(3)] child_less [OF p(1)] p by auto
    have qp: "\<not> lt (xs ! q) (xs ! p)"
      using h q l child_less [OF p(1)] p unfolding hole_def by auto
    show ?thesis
      using nth [OF l(1)] nth [OF l(2)] l qp not_lt_trans [OF qp sib [of j]] q by (cases "j = r") auto
  qed
  moreover have "\<not> lt (swapped xs p r ! p) (swapped xs p r ! j)" if "child p j" "j < n" for j
  proof -
    have l: "j < length xs" "j \<noteq> p"
      using that child_less [OF that(1)] p by auto
    show ?thesis
      using nth [OF len(1)] nth [OF l(1)] l asym [OF lt] sib [of j] that lt_trans [OF lt]
      by (cases "j = r") (auto dest: lt_trans [OF lt])
  qed
  ultimately show ?thesis
    unfolding hole_def children_ok_def by blast
qed

lemma heap_top:
  assumes "heap_from lt 0 n xs" "j < n"
  shows "\<not> lt (xs ! 0) (xs ! j)"
  using assms(2)
proof (induction j rule: less_induct)
  case (less j)
  show ?case
  proof (cases "j = 0")
    case True
    then show ?thesis
      using irrefl by simp
  next
    case False
    let ?p = "(j - 1) div 2"
    have "child ?p j"
      using False unfolding child_def by presburger
    then have "?p < j" "\<not> lt (xs ! ?p) (xs ! j)"
      using assms(1) less.prems child_less unfolding heap_from_def by blast+
    then show ?thesis
      using less not_lt_trans by fastforce
  qed
qed

lemma ends_swap:
  assumes "heap_from lt 0 (Suc e) xs" "ends lt (Suc e) xs" "e < length xs"
  shows "ends lt e (swapped xs 0 e)"
  unfolding ends_def
proof (intro allI impI)
  fix i j
  assume ij: "i < j \<and> e \<le> j \<and> j < length (swapped xs 0 e)"
  show "\<not> lt (swapped xs 0 e ! j) (swapped xs 0 e ! i)"
  proof (cases "j = e")
    case True
    have "0 < length xs" "i < length xs"
      using ij by auto
    then show ?thesis
      using True ij assms(3) heap_top [OF assms(1)] swapped_nth [of 0 xs e i] swapped_nth [of 0 xs e e] by auto
  next
    case False
    have "ends lt (Suc e) (swapped xs 0 e)"
      using assms by (intro ends_shuffled [OF shuffled_swapped]) auto
    then show ?thesis
      using ij False unfolding ends_def by simp
  qed
qed

text \<open>Changing one element of a heap leaves a hole there.\<close>

lemma hole_change:
  assumes "heap_from lt 0 n xs" "\<And>j. j < n \<Longrightarrow> j \<noteq> i \<Longrightarrow> ys ! j = xs ! j" "i < n"
  shows "hole lt 0 n i ys"
  unfolding hole_def
proof (intro conjI allI impI)
  fix p j
  assume "0 \<le> p \<and> child p j \<and> j < n \<and> p \<noteq> i \<and> j \<noteq> i"
  then show "\<not> lt (ys ! p) (ys ! j)"
    using assms(1, 2) child_less unfolding heap_from_def by (metis le0 order.strict_trans)
next
  fix p j
  assume pj: "0 \<le> p \<and> child p i \<and> child i j \<and> j < n"
  then have "p < i" "i < j" "ys ! p = xs ! p" "ys ! j = xs ! j"
    using child_less assms(2, 3) by (auto dest: child_less)
  moreover have "\<not> lt (xs ! p) (xs ! i)" "\<not> lt (xs ! i) (xs ! j)"
    using assms(1, 3) pj unfolding heap_from_def by blast+
  ultimately show "\<not> lt (ys ! p) (ys ! j)"
    using not_lt_trans by metis
qed

end

end
