(* ===== verification/Container_Heap.thy ===== *)
theory Container_Heap
  imports Heap_Order "HOL-Library.Signed_Division"
begin

text \<open>
  \<^verbatim>\<open>container/heap\<close> (\<^verbatim>\<open>src/src/container/heap/heap.rs\<close>): a binary heap through an interface that adds \<^verbatim>\<open>Push\<close>
  and \<^verbatim>\<open>Pop\<close> of the last element to \<^verbatim>\<open>sort.Interface\<close>.  The locale \<open>heap_interface\<close> is what the package asks of
  an implementation, interpreted on the \<^verbatim>\<open>IntHeap\<close> of \<^verbatim>\<open>src/examples/container_heap_smoke.rs\<close>.  Go's \<^verbatim>\<open>int\<close>
  wraps around in \<^verbatim>\<open>2 * i + 1\<close>, which \<^verbatim>\<open>down\<close> checks for; division truncates.
\<close>

section \<open>The code\<close>

record ('d, 'x) heap_if = "'d sort_if" +
  heap_Push :: "'d \<Rightarrow> 'x \<Rightarrow> 'd option"
  heap_Pop :: "'d \<Rightarrow> ('x \<times> 'd) option"

definition i64 :: "int \<Rightarrow> int" where
  "i64 x = sint (word_of_int x :: u64)"

partial_function (option) down_loop :: "('d, 'z) sort_if_scheme \<Rightarrow> 'd \<Rightarrow> int \<Rightarrow> int \<Rightarrow> ('d \<times> int) option" where
  [code]: "down_loop I h i n =
     (let j1 = i64 (2 * i + 1) in
      if j1 \<ge> n \<or> j1 < 0 then Some (h, i)
      else let j2 = j1 + 1 in do {
        right \<leftarrow> (if j2 < n then Less I h j2 j1 else Some False);
        let j = (if right then j2 else j1);
        lt \<leftarrow> Less I h j i;
        if \<not> lt then Some (h, i)
        else do { h \<leftarrow> Swap I h i j; down_loop I h j n }
      })"

definition down :: "('d, 'z) sort_if_scheme \<Rightarrow> 'd \<Rightarrow> int \<Rightarrow> int \<Rightarrow> ('d \<times> bool) option" where
  "down I h i0 n = map_option (\<lambda>(h, i). (h, i > i0)) (down_loop I h i0 n)"

partial_function (option) up :: "('d, 'z) sort_if_scheme \<Rightarrow> 'd \<Rightarrow> int \<Rightarrow> 'd option" where
  [code]: "up I h j =
     (let i = (j - 1) sdiv 2 in
      if i = j then Some h
      else do {
        lt \<leftarrow> Less I h j i;
        if \<not> lt then Some h else do { h \<leftarrow> Swap I h i j; up I h i }
      })"

partial_function (option) Init_loop :: "('d, 'z) sort_if_scheme \<Rightarrow> 'd \<Rightarrow> int \<Rightarrow> int \<Rightarrow> 'd option" where
  [code]: "Init_loop I h i n =
     (if i \<ge> 0 then do { (h, _) \<leftarrow> down I h i n; Init_loop I h (i - 1) n } else Some h)"

definition Init :: "('d, 'z) sort_if_scheme \<Rightarrow> 'd \<Rightarrow> 'd option" where
  "Init I h = (let n = Len I h in Init_loop I h (n sdiv 2 - 1) n)"

definition Push :: "('d, 'x, 'z) heap_if_scheme \<Rightarrow> 'd \<Rightarrow> 'x \<Rightarrow> 'd option" where
  "Push I h x = do { h \<leftarrow> heap_Push I h x; up I h (Len I h - 1) }"

definition Pop :: "('d, 'x, 'z) heap_if_scheme \<Rightarrow> 'd \<Rightarrow> ('x \<times> 'd) option" where
  "Pop I h = do { let n = Len I h - 1; h \<leftarrow> Swap I h 0 n; (h, _) \<leftarrow> down I h 0 n; heap_Pop I h }"

definition fix_at :: "('d, 'z) sort_if_scheme \<Rightarrow> 'd \<Rightarrow> int \<Rightarrow> int \<Rightarrow> 'd option" where
  "fix_at I h i n = do { (h, moved) \<leftarrow> down I h i n; if \<not> moved then up I h i else Some h }"

definition Remove :: "('d, 'x, 'z) heap_if_scheme \<Rightarrow> 'd \<Rightarrow> int \<Rightarrow> ('x \<times> 'd) option" where
  "Remove I h i =
     do {
       let n = Len I h - 1;
       h \<leftarrow> (if n \<noteq> i then do { h \<leftarrow> Swap I h i n; fix_at I h i n } else Some h);
       heap_Pop I h
     }"

definition Fix :: "('d, 'z) sort_if_scheme \<Rightarrow> 'd \<Rightarrow> int \<Rightarrow> 'd option" where
  "Fix I h i = fix_at I h i (Len I h)"

definition IntHeap :: "(int list, int) heap_if" where
  "IntHeap = \<lparr>Len = (\<lambda>xs. int (length xs)),
     Less = (\<lambda>xs i j. do { a \<leftarrow> index xs i; b \<leftarrow> index xs j; Some (a < b) }),
     Swap = slice_swap,
     heap_Push = (\<lambda>xs x. Some (xs @ [x])),
     heap_Pop = (\<lambda>xs. if xs = [] then None else Some (last xs, butlast xs))\<rparr>"

section \<open>The contract\<close>

locale heap_interface = sort_interface lt I elems
  for lt :: "'a \<Rightarrow> 'a \<Rightarrow> bool" and I :: "('d, 'a, 'z) heap_if_scheme" and elems :: "'d \<Rightarrow> 'a list" +
  assumes Push_elems: "\<exists>d'. heap_Push I d x = Some d' \<and> elems d' = elems d @ [x]"
    and Pop_elems: "elems d \<noteq> [] \<Longrightarrow> \<exists>d'. heap_Pop I d = Some (last (elems d), d') \<and> elems d' = butlast (elems d)"

interpretation int_heap: heap_interface "(<)" IntHeap "\<lambda>xs. xs"
proof -
  have "weak_order ((<) :: int \<Rightarrow> int \<Rightarrow> bool)"
    by (rule weak_order_total) auto
  then show "heap_interface (<) IntHeap (\<lambda>xs. xs)"
    by (simp add: heap_interface_def heap_interface_axioms_def sort_interface_def sort_interface_axioms_def
        IntHeap_def index_def slice_swap_def)
qed

end
