(* ===== verification/Container_Heap_Props.thy ===== *)
theory Container_Heap_Props
  imports Container_Heap
begin

text \<open>
  The heap keeps its order and is a priority queue: every operation returns, keeps the heap order, and moves
  the elements as a multiset should.  The order of the heap is the reverse of the one in \<open>Heap_Order\<close>, where
  the greatest element is on top.
\<close>

lemma i64_child:
  assumes "0 \<le> i" "i < 2 ^ 63"
  shows "i64 (2 * i + 1) = (if 2 * i + 1 < 2 ^ 63 then 2 * i + 1 else 2 * i + 1 - 2 ^ 64)"
proof -
  have s: "i64 (2 * i + 1) = signed_take_bit 63 (2 * i + 1)"
    unfolding i64_def signed_of_int by simp
  show ?thesis
  proof (cases "2 * i + 1 < 2 ^ 63")
    case True
    then show ?thesis
      using assms unfolding s by (simp add: signed_take_bit_int_eq_self)
  next
    case False
    have "signed_take_bit 63 (2 * i + 1) = signed_take_bit 63 (2 * i + 1 - 2 ^ 64)"
      unfolding signed_take_bit_eq_iff_take_bit_eq take_bit_eq_mod using minus_mod_self2 [of "2 * i + 1" "2 ^ 64 :: int"] by simp
    then show ?thesis
      using False assms unfolding s by (simp add: signed_take_bit_int_eq_self)
  qed
qed

lemma sdiv_two: "0 \<le> a \<Longrightarrow> a sdiv 2 = a div (2 :: int)"
  by (auto simp: signed_divide_int_def sgn_if)

abbreviation (input) gt :: "('a \<Rightarrow> 'a \<Rightarrow> bool) \<Rightarrow> 'a \<Rightarrow> 'a \<Rightarrow> bool" where
  "gt lt \<equiv> \<lambda>x y. lt y x"

definition is_heap :: "('a \<Rightarrow> 'a \<Rightarrow> bool) \<Rightarrow> 'a list \<Rightarrow> bool" where
  "is_heap lt xs \<longleftrightarrow> heap_from (gt lt) 0 (length xs) xs"

section \<open>Sifting\<close>

context sort_interface
begin

lemmas rev_hole_down = weak_order.hole_down [OF weak_order_reverse]
lemmas rev_hole_up = weak_order.hole_up [OF weak_order_reverse]
lemmas rev_max_child = weak_order.max_child [OF weak_order_reverse]
lemmas rev_heap_top = weak_order.heap_top [OF weak_order_reverse]

lemma down_leaf:
  assumes "r < 2 ^ 63" "\<not> 2 * r + 1 < n"
  shows "down_loop I d (int r) (int n) = Some (d, int r)"
  using assms i64_child [of "int r"] by (subst down_loop.simps) (simp add: Let_def)

lemma down_step:
  assumes "2 * r + 1 < n" "n \<le> length (elems d)" "length (elems d) < 2 ^ 63"
  shows "down_loop I d (int r) (int n) =
    (let c = max_child (gt lt) n r (elems d) in
     if lt (elems d ! c) (elems d ! r) then Swap I d (int r) (int c) \<bind> (\<lambda>d. down_loop I d (int c) (int n)) else Some (d, int r))"
proof -
  let ?c = "max_child (gt lt) n r (elems d)"
  let ?right = "2 * r + 2 < n \<and> lt (elems d ! (2 * r + 2)) (elems d ! (2 * r + 1))"
  have c: "?c < length (elems d)" "r < length (elems d)"
    using rev_max_child(2) [OF assms(1), where xs = "elems d"] assms by simp_all
  note less = Less_elems [OF c]
  have j1: "i64 (2 * int r + 1) = int (2 * r + 1)" "\<not> (int (2 * r + 1) \<ge> int n \<or> int (2 * r + 1) < 0)"
    using i64_child [of "int r"] assms by simp_all
  have right: "(if int (2 * r + 1) + 1 < int n then Less I d (int (2 * r + 1) + 1) (int (2 * r + 1)) else Some False) = Some ?right"
    using Less_elems [of "2 * r + 2" d "2 * r + 1"] assms by (simp add: algebra_simps)
  have c: "(if ?right then int (2 * r + 1) + 1 else int (2 * r + 1)) = int ?c"
    by (simp add: max_child_def)
  show ?thesis
    by (subst down_loop.simps) (simp only: Let_def j1 right c less bind.bind_lunit if_False, simp)
qed

lemma down_hole:
  assumes "hole (gt lt) k n r (elems d)" "k \<le> r" "r < n" "n \<le> length (elems d)" "length (elems d) < 2 ^ 63"
  shows "\<exists>d' r'. down_loop I d (int r) (int n) = Some (d', int r') \<and> shuffled n (elems d) (elems d') \<and>
    (if r' = r then d' = d \<and> children_ok (gt lt) n r (elems d) else r < r' \<and> heap_from (gt lt) k n (elems d'))"
  using assms
proof (induction "n - r" arbitrary: r d rule: less_induct)
  case less
  show ?case
  proof (cases "2 * r + 1 < n")
    case False
    then have "children_ok (gt lt) n r (elems d)"
      by (auto simp: children_ok_def child_def)
    then show ?thesis
      using down_leaf [OF _ False] less.prems(3-5) by (intro exI [of _ d] exI [of _ r]) simp
  next
    case True
    let ?xs = "elems d"
    let ?c = "max_child (gt lt) n r ?xs"
    note c = rev_max_child [OF True, where xs = ?xs] and step = down_step [OF True less.prems(4, 5)]
    show ?thesis
    proof (cases "lt (?xs ! ?c) (?xs ! r)")
      case False
      then have "children_ok (gt lt) n r ?xs"
        using c(3) not_lt_trans unfolding children_ok_def by blast
      then show ?thesis
        using False step by (intro exI [of _ d] exI [of _ r]) (simp add: Let_def)
    next
      case lt: True
      have rc: "r < n" "?c < n" "r < ?c"
        using c(2) child_less [OF c(1)] by simp_all
      obtain d1 where d1: "Swap I d (int r) (int ?c) = Some d1" "elems d1 = swapped ?xs r ?c"
        using Swap_elems [of r d ?c] rc less.prems(4) by auto
      have h: "hole (gt lt) k n ?c (elems d1)" "parent_ok (gt lt) k ?c (elems d1)"
        unfolding d1(2) using rev_hole_down [OF less.prems(1) c(1, 2) less.prems(4) c(3) lt less.prems(2)] by blast+
      have "n - ?c < n - r" "k \<le> ?c" "n \<le> length (elems d1)" "length (elems d1) < 2 ^ 63"
        using rc less.prems(2, 4, 5) d1(2) by auto
      from less.hyps [OF this(1) h(1) this(2) rc(2) this(3, 4)] obtain d' r' where
        d': "down_loop I d1 (int ?c) (int n) = Some (d', int r')" "shuffled n (elems d1) (elems d')"
          "if r' = ?c then d' = d1 \<and> children_ok (gt lt) n ?c (elems d1) else ?c < r' \<and> heap_from (gt lt) k n (elems d')"
        by blast
      then have "heap_from (gt lt) k n (elems d')" "r < r'"
        using hole_heap [OF h] rc(3) by (auto split: if_splits)
      then show ?thesis
        using lt d1 d'(1, 2) step shuffled_trans [OF shuffled_swapped [OF rc(1, 2) less.prems(4)]]
        by (intro exI [of _ d'] exI [of _ r']) (simp add: Let_def)
    qed
  qed
qed

lemma up_hole:
  assumes "hole (gt lt) 0 n r (elems d)" "children_ok (gt lt) n r (elems d)" "r < n" "n \<le> length (elems d)"
  shows "\<exists>d'. up I d (int r) = Some d' \<and> shuffled n (elems d) (elems d') \<and> heap_from (gt lt) 0 n (elems d')"
  using assms
proof (induction r arbitrary: d rule: less_induct)
  case (less r)
  show ?case
  proof (cases "r = 0")
    case True
    then have "parent_ok (gt lt) 0 r (elems d)"
      by (auto simp: parent_ok_def dest: child_less)
    then show ?thesis
      using True hole_heap [OF less.prems(1)] less.prems(2) by (subst up.simps) (simp add: Let_def signed_divide_int_def)
  next
    case False
    let ?p = "(r - 1) div 2"
    have p: "child ?p r" "?p < r"
      using False unfolding child_def by presburger+
    have parent: "(int r - 1) sdiv 2 = int ?p" "int ?p \<noteq> int r"
      using False p(2) sdiv_two [of "int r - 1"] by (auto simp: zdiv_int of_nat_diff)
    have less': "Less I d (int r) (int ?p) = Some (lt (elems d ! r) (elems d ! ?p))"
      using p(2) less.prems(3, 4) by (intro Less_elems) simp_all
    show ?thesis
    proof (cases "lt (elems d ! r) (elems d ! ?p)")
      case f: False
      then have "parent_ok (gt lt) 0 r (elems d)"
        using p(1) child_unique unfolding parent_ok_def by blast
      then show ?thesis
        using f less' parent hole_heap [OF less.prems(1)] less.prems(2) by (subst up.simps) (simp add: Let_def)
    next
      case t: True
      obtain d1 where d1: "Swap I d (int ?p) (int r) = Some d1" "elems d1 = swapped (elems d) ?p r"
        using Swap_elems [of ?p d r] p(2) less.prems(3, 4) by auto
      have h: "hole (gt lt) 0 n ?p (elems d1)" "children_ok (gt lt) n ?p (elems d1)"
        unfolding d1(2) using rev_hole_up [OF less.prems(1, 2) p(1) less.prems(3, 4) _ t] by blast+
      obtain d' where "up I d1 (int ?p) = Some d'" "shuffled n (elems d1) (elems d')" "heap_from (gt lt) 0 n (elems d')"
        using less.IH [OF p(2) h] p(2) less.prems(3, 4) d1(2) by auto
      then show ?thesis
        using t less' parent d1 shuffled_trans [OF shuffled_swapped [of ?p n r "elems d"]] p(2) less.prems(3, 4)
        by (subst up.simps) (simp add: Let_def)
    qed
  qed
qed

lemma fix_at_hole:
  assumes "hole (gt lt) 0 n r (elems d)" "r < n" "n \<le> length (elems d)" "length (elems d) < 2 ^ 63"
  shows "\<exists>d'. fix_at I d (int r) (int n) = Some d' \<and> shuffled n (elems d) (elems d') \<and> heap_from (gt lt) 0 n (elems d')"
proof -
  obtain d1 r' where d1: "down_loop I d (int r) (int n) = Some (d1, int r')" "shuffled n (elems d) (elems d1)"
      "if r' = r then d1 = d \<and> children_ok (gt lt) n r (elems d) else r < r' \<and> heap_from (gt lt) 0 n (elems d1)"
    using down_hole [OF assms(1) _ assms(2-4)] by blast
  then show ?thesis
    using up_hole [OF assms(1) _ assms(2, 3)] by (cases "r' = r") (auto simp: fix_at_def down_def)
qed

lemma Init_loop_heap:
  assumes "heap_from (gt lt) k n (elems d)" "2 * k \<le> n" "length (elems d) = n" "n < 2 ^ 63"
  shows "\<exists>d'. Init_loop I d (int k - 1) (int n) = Some d' \<and> shuffled n (elems d) (elems d') \<and> heap_from (gt lt) 0 n (elems d')"
  using assms
proof (induction k arbitrary: d)
  case 0
  then show ?case
    by (subst Init_loop.simps) simp
next
  case (Suc k)
  note start = hole_start [OF Suc.prems(1)]
  obtain d1 r where d1: "down_loop I d (int k) (int n) = Some (d1, int r)" "shuffled n (elems d) (elems d1)"
      "if r = k then d1 = d \<and> children_ok (gt lt) n k (elems d) else k < r \<and> heap_from (gt lt) k n (elems d1)"
    using down_hole [of k n k d] start Suc.prems(2-4) by fastforce
  have "heap_from (gt lt) k n (elems d1)"
    using d1(3) hole_heap [of "gt lt" k n k "elems d"] start by (auto split: if_splits)
  moreover have "length (elems d1) = n"
    using shuffledD(1) [OF d1(2)] Suc.prems(3) by simp
  ultimately obtain d' where "Init_loop I d1 (int k - 1) (int n) = Some d'" "shuffled n (elems d1) (elems d')" "heap_from (gt lt) 0 n (elems d')"
    using Suc.IH [of d1] Suc.prems(2, 4) by auto
  then show ?case
    using d1(1, 2) shuffled_trans by (subst Init_loop.simps) (auto simp: down_def)
qed

lemma Init_heap:
  assumes "length (elems d) < 2 ^ 63"
  shows "\<exists>d'. Init I d = Some d' \<and> mset (elems d') = mset (elems d) \<and> is_heap lt (elems d')"
proof -
  let ?n = "length (elems d)"
  have "heap_from (gt lt) (?n div 2) ?n (elems d)"
    by (auto simp: heap_from_def child_def)
  then obtain d' where "Init_loop I d (int (?n div 2) - 1) (int ?n) = Some d'" "shuffled ?n (elems d) (elems d')"
      "heap_from (gt lt) 0 ?n (elems d')"
    using Init_loop_heap [of "?n div 2" ?n d] assms by auto
  moreover have "int ?n sdiv 2 - 1 = int (?n div 2) - 1"
    by (simp add: sdiv_two zdiv_int)
  ultimately show ?thesis
    using shuffledD(1, 2) by (fastforce simp: Init_def Len_elems is_heap_def)
qed

lemma Fix_heap:
  assumes "is_heap lt xs" "i < length xs" "elems d = xs[i := v]" "length xs < 2 ^ 63"
  shows "\<exists>d'. Fix I d (int i) = Some d' \<and> mset (elems d') = mset (elems d) \<and> is_heap lt (elems d')"
proof -
  have "hole (gt lt) 0 (length xs) i (elems d)"
    using assms(1-3) by (intro weak_order.hole_change [OF weak_order_reverse, of _ xs]) (auto simp: is_heap_def)
  then obtain d' where "fix_at I d (int i) (int (length xs)) = Some d'" "shuffled (length xs) (elems d) (elems d')"
      "heap_from (gt lt) 0 (length xs) (elems d')"
    using fix_at_hole [of "length xs" i d] assms by auto
  then show ?thesis
    using shuffledD(1, 2) assms(3) by (fastforce simp: Fix_def Len_elems is_heap_def)
qed

end

section \<open>The priority queue\<close>

lemma is_heap_butlast: "heap_from (gt lt) 0 (length xs - 1) xs \<Longrightarrow> is_heap lt (butlast xs)"
  unfolding is_heap_def heap_from_def
proof (intro allI impI)
  fix i j
  assume h: "\<forall>i j. 0 \<le> i \<and> child i j \<and> j < length xs - 1 \<longrightarrow> \<not> lt (xs ! j) (xs ! i)"
    and ij: "0 \<le> i \<and> child i j \<and> j < length (butlast xs)"
  then have "i < length (butlast xs)"
    using child_less by fastforce
  then show "\<not> lt (butlast xs ! j) (butlast xs ! i)"
    using h ij by (simp add: nth_butlast)
qed

context heap_interface
begin

lemma Push_heap:
  assumes "is_heap lt (elems d)" "length (elems d) < 2 ^ 63 - 1"
  shows "\<exists>d'. Push I d x = Some d' \<and> mset (elems d') = add_mset x (mset (elems d)) \<and> is_heap lt (elems d')"
proof -
  let ?n = "length (elems d)"
  obtain d1 where d1: "heap_Push I d x = Some d1" "elems d1 = elems d @ [x]"
    using Push_elems by blast
  have "hole (gt lt) 0 (Suc ?n) ?n (elems d1)" "children_ok (gt lt) (Suc ?n) ?n (elems d1)"
    using assms(1) unfolding d1(2) hole_def children_ok_def is_heap_def heap_from_def
    by (auto simp: nth_append child_def)
  then obtain d' where "up I d1 (int ?n) = Some d'" "shuffled (Suc ?n) (elems d1) (elems d')" "heap_from (gt lt) 0 (Suc ?n) (elems d')"
    using up_hole [of "Suc ?n" ?n d1] d1(2) by auto
  then show ?thesis
    using d1 shuffledD(1, 2) by (fastforce simp: Push_def Len_elems is_heap_def)
qed

lemma heap_Pop_last:
  assumes "heap_from (gt lt) 0 (length (elems d) - 1) (elems d)" "elems d \<noteq> []"
  shows "\<exists>d'. heap_Pop I d = Some (last (elems d), d') \<and> mset (elems d) = add_mset (last (elems d)) (mset (elems d'))
    \<and> is_heap lt (elems d')"
proof -
  obtain d' where "heap_Pop I d = Some (last (elems d), d')" "elems d' = butlast (elems d)"
    using Pop_elems [OF assms(2)] by blast
  moreover have "mset (elems d) = mset (butlast (elems d) @ [last (elems d)])"
    using assms(2) by simp
  ultimately show ?thesis
    using is_heap_butlast [OF assms(1)] by (simp del: append_butlast_last_id)
qed

lemma last_shuffled_swapped:
  assumes "shuffled n (swapped xs i n) ys" "length xs = Suc n" "i < Suc n"
  shows "last ys = xs ! i" "ys \<noteq> []" "length ys = Suc n" "mset ys = mset xs"
proof -
  show len: "length ys = Suc n"
    using shuffledD(1) [OF assms(1)] assms(2) by simp
  then show "ys \<noteq> []"
    by auto
  then have "last ys = ys ! n"
    using len by (simp add: last_conv_nth)
  then show "last ys = xs ! i"
    using shuffledD(4) [OF assms(1), of n] assms(2, 3) by (simp add: swapped_nth)
  show "mset ys = mset xs"
    using shuffledD(2) [OF assms(1)] shuffledD(2) [OF shuffled_swapped [of i "Suc n" n xs]] assms(2, 3) by simp
qed

lemma Pop_heap:
  assumes "is_heap lt (elems d)" "elems d \<noteq> []" "length (elems d) < 2 ^ 63"
  shows "\<exists>x d'. Pop I d = Some (x, d') \<and> mset (elems d) = add_mset x (mset (elems d')) \<and> is_heap lt (elems d')
    \<and> (\<forall>y \<in> set (elems d). \<not> lt y x)"
proof -
  obtain n where n: "length (elems d) = Suc n"
    using assms(2) by (cases "elems d") auto
  have heap: "heap_from (gt lt) 0 (Suc n) (elems d)"
    using assms(1) n by (simp add: is_heap_def)
  obtain d1 where d1: "Swap I d 0 (int n) = Some d1" "elems d1 = swapped (elems d) 0 n"
    using Swap_elems [of 0 d n] n by force
  have "hole (gt lt) 0 n 0 (elems d1) \<and> parent_ok (gt lt) 0 0 (elems d1)"
    unfolding d1(2) using hole_start [OF heap_swap_end [OF heap]] n by simp
  moreover have len1: "length (elems d1) = Suc n"
    using d1(2) n by simp
  ultimately have "\<exists>d2 r. down_loop I d1 0 (int n) = Some (d2, r) \<and> shuffled n (elems d1) (elems d2) \<and> heap_from (gt lt) 0 n (elems d2)"
    using down_hole [of 0 n 0 d1] down_leaf [of 0 n d1] hole_heap [of "gt lt" 0 n 0 "elems d1"] assms(3) n
    by (cases "n = 0") (auto simp: heap_from_def split: if_splits)
  then obtain d2 r where d2: "down_loop I d1 0 (int n) = Some (d2, r)" "shuffled n (elems d1) (elems d2)" "heap_from (gt lt) 0 n (elems d2)"
    by blast
  note l = last_shuffled_swapped [OF d2(2) [unfolded d1(2)] n]
  obtain d' where d': "heap_Pop I d2 = Some (last (elems d2), d')" "mset (elems d2) = add_mset (last (elems d2)) (mset (elems d'))"
      "is_heap lt (elems d')"
    using heap_Pop_last [of d2] d2(3) l by auto
  have "\<not> lt y (elems d ! 0)" if "y \<in> set (elems d)" for y
    using that rev_heap_top [OF heap] n by (auto simp: in_set_conv_nth)
  then show ?thesis
    using d1(1) d2(1) d' l n by (auto simp: Pop_def Len_elems down_def Let_def)
qed

lemma Remove_heap:
  assumes "is_heap lt (elems d)" "i < length (elems d)" "length (elems d) < 2 ^ 63"
  shows "\<exists>d'. Remove I d (int i) = Some (elems d ! i, d') \<and> mset (elems d) = add_mset (elems d ! i) (mset (elems d')) \<and> is_heap lt (elems d')"
proof -
  obtain n where n: "length (elems d) = Suc n"
    using assms(2) by (cases "elems d") auto
  have heap: "heap_from (gt lt) 0 (Suc n) (elems d)"
    using assms(1) n by (simp add: is_heap_def)
  show ?thesis
  proof (cases "i = n")
    case True
    have "heap_from (gt lt) 0 n (elems d)" "elems d \<noteq> []"
      using heap n by (auto simp: heap_from_def)
    then obtain d' where "heap_Pop I d = Some (last (elems d), d')" "mset (elems d) = add_mset (last (elems d)) (mset (elems d'))" "is_heap lt (elems d')"
      using heap_Pop_last [of d] n by auto
    moreover have "last (elems d) = elems d ! i"
      using True n \<open>elems d \<noteq> []\<close> by (simp add: last_conv_nth)
    ultimately show ?thesis
      using True n by (simp add: Remove_def Len_elems Let_def)
  next
    case False
    obtain d1 where d1: "Swap I d (int i) (int n) = Some d1" "elems d1 = swapped (elems d) i n"
      using Swap_elems [of i d n] n assms(2) by auto
    have "hole (gt lt) 0 n i (elems d1)"
      unfolding d1(2) using heap False n assms(2)
      by (intro weak_order.hole_change [OF weak_order_reverse, of _ "elems d"]) (auto simp: heap_from_def swapped_nth)
    then obtain d2 where d2: "fix_at I d1 (int i) (int n) = Some d2" "shuffled n (elems d1) (elems d2)" "heap_from (gt lt) 0 n (elems d2)"
      using fix_at_hole [of n i d1] False n assms(2, 3) d1(2) by auto
    note l = last_shuffled_swapped [OF d2(2) [unfolded d1(2)] n assms(2) [unfolded n]]
    obtain d' where "heap_Pop I d2 = Some (last (elems d2), d')" "mset (elems d2) = add_mset (last (elems d2)) (mset (elems d'))"
        "is_heap lt (elems d')"
      using heap_Pop_last [of d2] d2(3) l by auto
    then show ?thesis
      using d1(1) d2(1) l n False by (simp add: Remove_def Len_elems Let_def)
  qed
qed

end

text \<open>
  C37: the heap package keeps its invariant and is a priority queue.  On every collection that keeps the contract of
  \<^verbatim>\<open>heap.Interface\<close>, none of the operations panics or fails to return, each leaves a heap (no element less than
  its parent), and the elements change as they should: \<^verbatim>\<open>Init\<close> rearranges any collection into a heap; \<^verbatim>\<open>Push\<close> adds
  one element; \<^verbatim>\<open>Pop\<close> takes out a least one; \<^verbatim>\<open>Remove\<close> takes out the element at the given position; \<^verbatim>\<open>Fix\<close>
  repairs a heap of which one element was changed.
\<close>

theorem heap_operations:
  assumes "heap_interface lt I elems" "length (elems d) < 2 ^ 63 - 1"
  shows "(\<exists>d'. Init I d = Some d' \<and> mset (elems d') = mset (elems d) \<and> is_heap lt (elems d'))
    \<and> (is_heap lt (elems d) \<longrightarrow>
        (\<exists>d'. Push I d x = Some d' \<and> mset (elems d') = add_mset x (mset (elems d)) \<and> is_heap lt (elems d')))
    \<and> (is_heap lt (elems d) \<and> elems d \<noteq> [] \<longrightarrow>
        (\<exists>y d'. Pop I d = Some (y, d') \<and> mset (elems d) = add_mset y (mset (elems d')) \<and> is_heap lt (elems d')
          \<and> (\<forall>z \<in> set (elems d). \<not> lt z y)))
    \<and> (is_heap lt (elems d) \<and> i < length (elems d) \<longrightarrow>
        (\<exists>d'. Remove I d (int i) = Some (elems d ! i, d') \<and> mset (elems d) = add_mset (elems d ! i) (mset (elems d'))
          \<and> is_heap lt (elems d')))
    \<and> (is_heap lt xs \<and> i < length xs \<and> elems d = xs[i := v] \<longrightarrow>
        (\<exists>d'. Fix I d (int i) = Some d' \<and> mset (elems d') = mset (elems d) \<and> is_heap lt (elems d')))"
proof -
  have len: "length (elems d) < 2 ^ 63"
    using assms(2) by simp
  have si: "sort_interface lt I elems"
    using assms(1) by (simp add: heap_interface_def)
  show ?thesis
  proof (intro conjI impI)
    show "\<exists>d'. Init I d = Some d' \<and> mset (elems d') = mset (elems d) \<and> is_heap lt (elems d')"
      by (rule sort_interface.Init_heap [OF si len])
  next
    assume "is_heap lt (elems d)"
    then show "\<exists>d'. Push I d x = Some d' \<and> mset (elems d') = add_mset x (mset (elems d)) \<and> is_heap lt (elems d')"
      by (rule heap_interface.Push_heap [OF assms(1) _ assms(2)])
  next
    assume "is_heap lt (elems d) \<and> elems d \<noteq> []"
    then show "\<exists>y d'. Pop I d = Some (y, d') \<and> mset (elems d) = add_mset y (mset (elems d')) \<and> is_heap lt (elems d')
        \<and> (\<forall>z \<in> set (elems d). \<not> lt z y)"
      by (elim conjE) (rule heap_interface.Pop_heap [OF assms(1) _ _ len])
  next
    assume "is_heap lt (elems d) \<and> i < length (elems d)"
    then show "\<exists>d'. Remove I d (int i) = Some (elems d ! i, d') \<and> mset (elems d) = add_mset (elems d ! i) (mset (elems d'))
        \<and> is_heap lt (elems d')"
      by (elim conjE) (rule heap_interface.Remove_heap [OF assms(1) _ _ len])
  next
    assume "is_heap lt xs \<and> i < length xs \<and> elems d = xs[i := v]"
    then show "\<exists>d'. Fix I d (int i) = Some d' \<and> mset (elems d') = mset (elems d) \<and> is_heap lt (elems d')"
      using len by (intro sort_interface.Fix_heap [OF si, of xs i d v]) simp_all
  qed
qed

theorem heap_operations_witness:
  "is_heap (<) [1, 3, 2 :: int] \<and> (\<exists>d'. Push IntHeap [1, 3, 2] 0 = Some d' \<and> mset d' = {#0, 1, 3, 2#} \<and> is_heap (<) d')
   \<and> (\<exists>y d'. Pop IntHeap [1, 3, 2] = Some (y, d') \<and> {#1, 3, 2#} = add_mset y (mset d') \<and> \<not> 1 < y)"
proof -
  have "i = 0 \<and> (j = 1 \<or> j = 2)" if "child i j" "j < 3" for i j
    using that by (auto simp: child_def)
  then have heap: "is_heap (<) [1, 3, 2 :: int]"
    by (fastforce simp: is_heap_def heap_from_def numeral_3_eq_3)
  have "length [1, 3, 2 :: int] < 2 ^ 63 - 1"
    by simp
  note ops = heap_operations [OF int_heap.heap_interface_axioms this]
  have "\<exists>d'. Push IntHeap [1, 3, 2] 0 = Some d' \<and> mset d' = {#0, 1, 3, 2#} \<and> is_heap (<) d'"
    using ops [THEN conjunct2, THEN conjunct1, of 0] heap by simp
  moreover have "\<exists>y d'. Pop IntHeap [1, 3, 2] = Some (y, d') \<and> {#1, 3, 2#} = add_mset y (mset d') \<and> \<not> 1 < y"
  proof -
    obtain y d' where "Pop IntHeap [1, 3, 2] = Some (y, d')" "mset [1, 3, 2] = add_mset y (mset d')" "\<forall>z \<in> set [1, 3, 2]. \<not> z < y"
      using ops [THEN conjunct2, THEN conjunct2, THEN conjunct1] heap by blast
    then show ?thesis
      by simp
  qed
  ultimately show ?thesis
    using heap by blast
qed

end
