(* ===== verification/Sort.thy ===== *)
theory Sort
  imports Heap_Order
begin

text \<open>
  \<^verbatim>\<open>sort.Sort\<close> (\<^verbatim>\<open>src/src/sort/sort.rs\<close>), a heap sort through the three methods of the interface,
  \<^verbatim>\<open>sort.Slice\<close> and \<^verbatim>\<open>sort.SliceIsSorted\<close> (\<^verbatim>\<open>src/src/sort/slice.rs\<close>), which run the same on a slice
  and a closure, and the tests for sortedness.  Every loop is a partial function in the option
  monad: \<^const>\<open>None\<close> is a panic in a method, or no return.  For an interface that keeps the
  contract \<open>sort_interface\<close> the lemmas show that all of them return.
\<close>

section \<open>The code\<close>

partial_function (option) siftDown :: "('d, 'z) sort_if_scheme \<Rightarrow> 'd \<Rightarrow> int \<Rightarrow> int \<Rightarrow> 'd option" where
  [code]: "siftDown I data r hi =
     (let child = r * 2 + 1 in
      if child \<ge> hi then Some data
      else do {
        right \<leftarrow> (if child + 1 < hi then Less I data child (child + 1) else Some False);
        let child = (if right then child + 1 else child);
        lt \<leftarrow> Less I data r child;
        if \<not> lt then Some data
        else do { data \<leftarrow> Swap I data r child; siftDown I data child hi }
      })"

partial_function (option) heapify :: "('d, 'z) sort_if_scheme \<Rightarrow> 'd \<Rightarrow> int \<Rightarrow> int \<Rightarrow> 'd option" where
  [code]: "heapify I data start n =
     do {
       data \<leftarrow> siftDown I data start n;
       if start = 0 then Some data else heapify I data (start - 1) n
     }"

partial_function (option) drain :: "('d, 'z) sort_if_scheme \<Rightarrow> 'd \<Rightarrow> int \<Rightarrow> 'd option" where
  [code]: "drain I data hi =
     (if hi > 0
      then do {
        data \<leftarrow> Swap I data 0 hi;
        data \<leftarrow> siftDown I data 0 hi;
        drain I data (hi - 1)
      }
      else Some data)"

definition Sort :: "('d, 'z) sort_if_scheme \<Rightarrow> 'd \<Rightarrow> 'd option" where
  "Sort I data =
     (let n = Len I data in
      if n \<le> 1 then Some data
      else do { data \<leftarrow> heapify I data ((n - 1) div 2) n; drain I data (n - 1) })"

partial_function (option) sorted_down :: "('d, 'z) sort_if_scheme \<Rightarrow> 'd \<Rightarrow> int \<Rightarrow> bool option" where
  [code]: "sorted_down I data i =
     (if i > 0
      then do { lt \<leftarrow> Less I data i (i - 1); if lt then Some False else sorted_down I data (i - 1) }
      else Some True)"

definition IsSorted :: "('d, 'z) sort_if_scheme \<Rightarrow> 'd \<Rightarrow> bool option" where
  "IsSorted I data = sorted_down I data (Len I data - 1)"

partial_function (option) sorted_up :: "('d, 'z) sort_if_scheme \<Rightarrow> 'd \<Rightarrow> int \<Rightarrow> int \<Rightarrow> bool option" where
  [code]: "sorted_up I data i n =
     (if i < n
      then do { lt \<leftarrow> Less I data i (i - 1); if lt then Some False else sorted_up I data (i + 1) n }
      else Some True)"

definition SliceIsSorted :: "('d, 'z) sort_if_scheme \<Rightarrow> 'd \<Rightarrow> bool option" where
  "SliceIsSorted I x = sorted_up I x 1 (Len I x)"

text \<open>\<^verbatim>\<open>sort.Slice\<close> on a slice and a closure that compares two of its positions.\<close>

definition Slice :: "('a list \<Rightarrow> int \<Rightarrow> int \<Rightarrow> bool option) \<Rightarrow> 'a list \<Rightarrow> 'a list option" where
  "Slice less_at x = Sort \<lparr>Len = (\<lambda>xs. int (length xs)), Less = less_at, Swap = slice_swap\<rparr> x"

text \<open>\<^verbatim>\<open>IntsAreSorted\<close> and \<^verbatim>\<open>StringsAreSorted\<close>, with \<open>lt\<close> the order of the elements.\<close>

fun are_sorted :: "('a \<Rightarrow> 'a \<Rightarrow> bool) \<Rightarrow> 'a list \<Rightarrow> nat \<Rightarrow> bool" where
  "are_sorted lt raw i \<longleftrightarrow> (if i > 1 then (if lt (raw ! (i - 1)) (raw ! (i - 2)) then False else are_sorted lt raw (i - 1)) else True)"

declare are_sorted.simps [simp del]

definition IntsAreSorted :: "int list \<Rightarrow> bool" where
  "IntsAreSorted x = are_sorted (<) x (length x)"

definition StringsAreSorted :: "u8 list list \<Rightarrow> bool" where
  "StringsAreSorted x = are_sorted ord_class.lexordp x (length x)"

section \<open>Sifting and sorting\<close>

context sort_interface
begin

lemma siftDown_step:
  assumes "2 * r + 1 < n" "n \<le> length (elems d)"
  shows "siftDown I d (int r) (int n) =
    (let c = max_child lt n r (elems d) in
     if lt (elems d ! r) (elems d ! c) then Swap I d (int r) (int c) \<bind> (\<lambda>d. siftDown I d (int c) (int n)) else Some d)"
proof -
  let ?c = "max_child lt n r (elems d)"
  let ?right = "2 * r + 2 < n \<and> lt (elems d ! (2 * r + 1)) (elems d ! (2 * r + 2))"
  have "?c < length (elems d)" "r < length (elems d)"
    using max_child [OF assms(1), where xs = "elems d"] assms by simp_all
  note less = Less_elems [OF this(2, 1)]
  have right: "(if int r * 2 + 1 + 1 < int n then Less I d (int r * 2 + 1) (int r * 2 + 1 + 1) else Some False) = Some ?right"
    using Less_elems [of "2 * r + 1" d "2 * r + 2"] assms by (simp add: algebra_simps)
  have c: "(if ?right then int r * 2 + 1 + 1 else int r * 2 + 1) = int ?c"
    by (simp add: max_child_def)
  have "\<not> int r * 2 + 1 \<ge> int n"
    using assms(1) by simp
  then show ?thesis
    by (subst siftDown.simps) (simp only: Let_def right c less bind.bind_lunit if_False, simp)
qed

lemma siftDown_hole:
  assumes "hole lt k n r (elems d)" "parent_ok lt k r (elems d)" "k \<le> r" "n \<le> length (elems d)"
  shows "\<exists>d'. siftDown I d (int r) (int n) = Some d' \<and> shuffled n (elems d) (elems d') \<and> heap_from lt k n (elems d')"
  using assms
proof (induction "n - r" arbitrary: r d rule: less_induct)
  case less
  show ?case
  proof (cases "2 * r + 1 < n")
    case False
    then have "children_ok lt n r (elems d)"
      by (auto simp: children_ok_def child_def)
    then show ?thesis
      using less.prems False hole_heap by (subst siftDown.simps) (auto simp: mult.commute)
  next
    case True
    let ?xs = "elems d"
    let ?c = "max_child lt n r ?xs"
    note c = max_child [OF True, where xs = ?xs] and step = siftDown_step [OF True less.prems(4)]
    show ?thesis
    proof (cases "lt (?xs ! r) (?xs ! ?c)")
      case False
      then have "children_ok lt n r ?xs"
        using c(3) not_lt_trans unfolding children_ok_def by blast
      then show ?thesis
        using less.prems False hole_heap step by (simp add: Let_def)
    next
      case lt: True
      have rc: "r < n" "?c < n"
        using c(2) child_less [OF c(1)] by simp_all
      obtain d1 where d1: "Swap I d (int r) (int ?c) = Some d1" "elems d1 = swapped ?xs r ?c"
        using Swap_elems [of r d ?c] rc less.prems(4) by auto
      have h: "hole lt k n ?c (elems d1)" "parent_ok lt k ?c (elems d1)"
        unfolding d1(2) using hole_down [OF less.prems(1) c(1, 2) less.prems(4) c(3) lt less.prems(3)] by blast+
      have "n - ?c < n - r" "k \<le> ?c" "n \<le> length (elems d1)"
        using rc child_less [OF c(1)] less.prems(3, 4) d1(2) by auto
      from less.hyps [OF this(1) h this(2, 3)] obtain d' where
        d': "siftDown I d1 (int ?c) (int n) = Some d'" "shuffled n (elems d1) (elems d')" "heap_from lt k n (elems d')"
        by blast
      then show ?thesis
        using lt d1 step shuffled_trans [OF shuffled_swapped [OF rc less.prems(4)]] by (simp add: Let_def)
    qed
  qed
qed

lemma heapify_heap:
  assumes "heap_from lt (Suc k) n (elems d)" "n \<le> length (elems d)"
  shows "\<exists>d'. heapify I d (int k) (int n) = Some d' \<and> shuffled n (elems d) (elems d') \<and> heap_from lt 0 n (elems d')"
  using assms
proof (induction k arbitrary: d)
  case 0
  then show ?case
    using siftDown_hole [of 0 n 0 d] hole_start by (subst heapify.simps) fastforce
next
  case (Suc k)
  obtain d1 where d1: "siftDown I d (int (Suc k)) (int n) = Some d1" "shuffled n (elems d) (elems d1)"
      "heap_from lt (Suc k) n (elems d1)"
    using siftDown_hole [of "Suc k" n "Suc k" d] hole_start [OF Suc.prems(1)] Suc.prems(2) by blast
  have "n \<le> length (elems d1)"
    using Suc.prems(2) shuffledD(1) [OF d1(2)] by simp
  then obtain d' where "heapify I d1 (int k) (int n) = Some d'" "shuffled n (elems d1) (elems d')"
      "heap_from lt 0 n (elems d')"
    using Suc.IH [OF d1(3)] by blast
  then show ?case
    using d1 shuffled_trans by (subst heapify.simps) auto
qed

lemma heap_leaves: "n \<le> 2 * k + 1 \<Longrightarrow> heap_from lt k n xs"
  by (auto simp: heap_from_def child_def)

lemma drain_sorts:
  assumes "heap_from lt 0 (Suc e) (elems d)" "ends lt (Suc e) (elems d)" "e < length (elems d)"
  shows "\<exists>d'. drain I d (int e) = Some d' \<and> mset (elems d') = mset (elems d) \<and> ends lt 1 (elems d')"
  using assms
proof (induction e arbitrary: d)
  case 0
  then show ?case
    by (subst drain.simps) simp
next
  case (Suc e)
  let ?e = "Suc e"
  obtain d1 where d1: "Swap I d 0 (int ?e) = Some d1" "elems d1 = swapped (elems d) 0 ?e"
    using Swap_elems [of 0 d ?e] Suc.prems(3) by force
  have len1: "length (elems d1) = length (elems d)"
    using d1(2) by simp
  have "hole lt 0 ?e 0 (elems d1)" "parent_ok lt 0 0 (elems d1)"
    unfolding d1(2) using hole_start [OF heap_swap_end [OF Suc.prems(1, 3)]] by blast+
  then obtain d2 where d2: "siftDown I d1 0 (int ?e) = Some d2" "shuffled ?e (elems d1) (elems d2)"
      "heap_from lt 0 ?e (elems d2)"
    using siftDown_hole [of 0 ?e 0 d1] Suc.prems(3) len1 by fastforce
  have "ends lt ?e (elems d2)" "e < length (elems d2)"
    using ends_shuffled [OF d2(2)] ends_swap [OF Suc.prems] d1(2) shuffledD(1) [OF d2(2)] len1 Suc.prems(3) by simp_all
  then obtain d' where d': "drain I d2 (int e) = Some d'" "mset (elems d') = mset (elems d2)" "ends lt 1 (elems d')"
    using Suc.IH [OF d2(3)] by blast
  have "mset (elems d2) = mset (elems d)"
    using shuffledD(2) [OF d2(2)] shuffledD(2) [OF shuffled_swapped [of 0 "length (elems d)" ?e "elems d"]] d1(2) Suc.prems(3)
    by fastforce
  then show ?case
    using d1 d2 d' by (subst drain.simps) (simp add: algebra_simps)
qed

lemma Sort_correct:
  "\<exists>d'. Sort I d = Some d' \<and> mset (elems d') = mset (elems d) \<and> sorted_wrt (\<lambda>x y. \<not> lt y x) (elems d')"
proof (cases "length (elems d) \<le> 1")
  case True
  then have "sorted_wrt (\<lambda>x y. \<not> lt y x) (elems d)"
    by (cases "elems d") auto
  then show ?thesis
    using True by (simp add: Sort_def Len_elems)
next
  case False
  let ?n = "length (elems d)"
  have start: "(int ?n - 1) div 2 = int ((?n - 1) div 2)" "int ?n - 1 = int (?n - 1)"
    using False by (simp_all add: zdiv_int of_nat_diff)
  have "heap_from lt (Suc ((?n - 1) div 2)) ?n (elems d)"
    by (rule heap_leaves) presburger
  then obtain d1 where d1: "heapify I d (int ((?n - 1) div 2)) (int ?n) = Some d1" "shuffled ?n (elems d) (elems d1)"
      "heap_from lt 0 ?n (elems d1)"
    using heapify_heap by blast
  have len1: "length (elems d1) = ?n" "mset (elems d1) = mset (elems d)"
    using shuffledD(1, 2) [OF d1(2)] by simp_all
  moreover obtain m where m: "?n = Suc m"
    using False by (cases ?n) auto
  ultimately obtain d' where d': "drain I d1 (int m) = Some d'" "mset (elems d') = mset (elems d1)" "ends lt 1 (elems d')"
    using drain_sorts [of m d1] d1(3) ends_all [of "elems d1" "Suc m" lt] by auto
  have "Sort I d = Some d'"
    using False d1(1) d'(1) start m by (simp add: Sort_def Len_elems Let_def)
  then show ?thesis
    using d'(2, 3) len1(2) ends_sorted [of lt] by simp
qed

lemma sorted_down_iff:
  assumes "k < length (elems d)"
  shows "sorted_down I d (int k) = Some (\<forall>i < k. \<not> lt (elems d ! Suc i) (elems d ! i))"
  using assms
proof (induction k)
  case 0
  then show ?case
    by (subst sorted_down.simps) simp
next
  case (Suc k)
  then show ?case
    using Less_elems [of "Suc k" d k] by (subst sorted_down.simps) (auto simp: less_Suc_eq algebra_simps)
qed

lemma sorted_up_iff:
  assumes "0 < k" "n \<le> length (elems d)"
  shows "sorted_up I d (int k) (int n) = Some (\<forall>i. k \<le> i \<and> i < n \<longrightarrow> \<not> lt (elems d ! i) (elems d ! (i - 1)))"
  using assms
proof (induction "n - k" arbitrary: k)
  case 0
  then show ?case
    by (subst sorted_up.simps) auto
next
  case (Suc m)
  have le: "k \<le> i \<longleftrightarrow> i = k \<or> Suc k \<le> i" for i
    by auto
  have "sorted_up I d (int k + 1) (int n) = Some (\<forall>i. Suc k \<le> i \<and> i < n \<longrightarrow> \<not> lt (elems d ! i) (elems d ! (i - 1)))"
    using Suc.hyps(1) [of "Suc k"] Suc.hyps(2) Suc.prems by (simp add: add.commute)
  then show ?case
    using Less_elems [of k d "k - 1"] Suc.hyps(2) Suc.prems
    by (subst sorted_up.simps) (auto simp: le of_nat_diff)
qed

lemma sorted_adjacent:
  "sorted_wrt (\<lambda>x y. \<not> lt y x) xs \<longleftrightarrow> (\<forall>i. Suc i < length xs \<longrightarrow> \<not> lt (xs ! Suc i) (xs ! i))"
  using not_lt_trans by (intro sorted_wrt_iff_nth_Suc_transp transpI) blast

lemma IsSorted_correct: "IsSorted I d = Some (sorted_wrt (\<lambda>x y. \<not> lt y x) (elems d))"
proof (cases "elems d = []")
  case True
  then show ?thesis
    unfolding IsSorted_def by (subst sorted_down.simps) (simp add: Len_elems)
next
  case False
  then have "Len I d - 1 = int (length (elems d) - 1)"
    by (simp add: Len_elems of_nat_diff Suc_leI)
  then show ?thesis
    using sorted_down_iff [of "length (elems d) - 1" d] False
    by (simp add: IsSorted_def sorted_adjacent less_diff_conv)
qed

lemma SliceIsSorted_correct: "SliceIsSorted I d = Some (sorted_wrt (\<lambda>x y. \<not> lt y x) (elems d))"
proof -
  have "(\<forall>i. 1 \<le> i \<and> i < n \<longrightarrow> P i (i - 1)) \<longleftrightarrow> (\<forall>i. Suc i < n \<longrightarrow> P (Suc i) i)" for n and P :: "nat \<Rightarrow> nat \<Rightarrow> bool"
    by (metis Suc_le_mono diff_Suc_1 le0 One_nat_def Suc_pred' less_eq_Suc_le)
  then show ?thesis
    using sorted_up_iff [of 1 "length (elems d)" d] by (simp add: SliceIsSorted_def Len_elems sorted_adjacent)
qed

end

end
