(* ===== verification/Search.thy ===== *)
theory Search
  imports Sort_Interface
begin

text \<open>
  Binary search (\<^verbatim>\<open>src/src/sort/search.rs\<close>).  \<^verbatim>\<open>Search\<close>, \<^verbatim>\<open>Find\<close> and the three searches inside
  \<^verbatim>\<open>symMerge\<close> run the same loop, which halves the interval in 64-bit unsigned arithmetic.  A closure
  that panics returns \<^const>\<open>None\<close>.
\<close>

section \<open>The code\<close>

text \<open>\<^verbatim>\<open>toint((touint64(i)).wrapping_add(touint64(j)) >> 1)\<close>.\<close>

definition midpoint :: "int \<Rightarrow> int \<Rightarrow> int" where
  "midpoint i j = sint (drop_bit 1 (word_of_int i + word_of_int j :: u64))"

text \<open>\<open>up h\<close>: continue above \<open>h\<close>.\<close>

partial_function (option) bsearch :: "(int \<Rightarrow> bool option) \<Rightarrow> int \<Rightarrow> int \<Rightarrow> int option" where
  [code]: "bsearch up i j =
     (if i < j
      then do {
        let h = midpoint i j;
        above \<leftarrow> up h;
        if above then bsearch up (h + 1) j else bsearch up i h
      }
      else Some i)"

definition Search :: "int \<Rightarrow> (int \<Rightarrow> bool option) \<Rightarrow> int option" where
  "Search n f = bsearch (\<lambda>h. map_option Not (f h)) 0 n"

definition Find :: "int \<Rightarrow> (int \<Rightarrow> int option) \<Rightarrow> (int \<times> bool) option" where
  "Find n cmp =
     do {
       i \<leftarrow> bsearch (\<lambda>h. map_option (\<lambda>c. c > 0) (cmp h)) 0 n;
       found \<leftarrow> (if i < n then map_option (\<lambda>c. c = 0) (cmp i) else Some False);
       Some (i, found)
     }"

definition SearchInts :: "int list \<Rightarrow> int \<Rightarrow> int option" where
  "SearchInts a x = Search (int (length a)) (\<lambda>i. map_option (\<lambda>y. y \<ge> x) (index a i))"

definition SearchStrings :: "u8 list list \<Rightarrow> u8 list \<Rightarrow> int option" where
  "SearchStrings a x = Search (int (length a)) (\<lambda>i. map_option (\<lambda>y. \<not> ord_class.lexordp y x) (index a i))"

section \<open>The loop\<close>

lemma midpoint_div:
  assumes "0 \<le> i" "0 \<le> j" "i < 2 ^ 63" "j < 2 ^ 63"
  shows "midpoint i j = (i + j) div 2"
proof -
  have ij: "(i + j) mod 2 ^ 64 = i + j"
    using assms by (intro mod_pos_pos_trivial) auto
  have "uint (drop_bit 1 (word_of_int i + word_of_int j :: u64)) = (i + j) div 2"
    using ij by (simp add: drop_bit_eq_div uint_div uint_word_of_int flip: of_int_add)
  moreover have "0 \<le> (i + j) div 2" "(i + j) div 2 < 2 ^ 63"
    using assms by linarith+
  ultimately show ?thesis
    unfolding midpoint_def by (simp add: sint_uint signed_take_bit_int_eq_self)
qed

lemma midpoint_between:
  assumes "0 \<le> i" "i < j" "j < 2 ^ 63"
  shows "i \<le> midpoint i j \<and> midpoint i j < j"
  using assms midpoint_div [of i j] by simp linarith

lemma bsearch_correct:
  assumes "0 \<le> i" "i \<le> j" "j < 2 ^ 63"
    and up: "\<And>h. i \<le> h \<Longrightarrow> h < j \<Longrightarrow> up h = Some (Q h)"
    and down: "\<And>h h'. i \<le> h' \<Longrightarrow> h' \<le> h \<Longrightarrow> h < j \<Longrightarrow> Q h \<Longrightarrow> Q h'"
  shows "\<exists>r. bsearch up i j = Some r \<and> i \<le> r \<and> r \<le> j \<and> (\<forall>h. i \<le> h \<and> h < r \<longrightarrow> Q h) \<and> (\<forall>h. r \<le> h \<and> h < j \<longrightarrow> \<not> Q h)"
  using assms
proof (induction "nat (j - i)" arbitrary: i j rule: less_induct)
  case less
  show ?case
  proof (cases "i < j")
    case False
    then show ?thesis
      using less.prems(2) by (subst bsearch.simps) auto
  next
    case True
    let ?h = "midpoint i j"
    have h: "i \<le> ?h" "?h < j"
      using midpoint_between [of i j] less.prems(1, 3) True by simp_all
    show ?thesis
    proof (cases "Q ?h")
      case q: True
      then have "\<exists>r. bsearch up (?h + 1) j = Some r \<and> ?h + 1 \<le> r \<and> r \<le> j
          \<and> (\<forall>h'. ?h + 1 \<le> h' \<and> h' < r \<longrightarrow> Q h') \<and> (\<forall>h'. r \<le> h' \<and> h' < j \<longrightarrow> \<not> Q h')"
        using less.prems h by (intro less.hyps) auto
      then obtain r where r: "bsearch up (?h + 1) j = Some r" "?h + 1 \<le> r" "r \<le> j"
          "\<And>h'. ?h + 1 \<le> h' \<Longrightarrow> h' < r \<Longrightarrow> Q h'" "\<And>h'. r \<le> h' \<Longrightarrow> h' < j \<Longrightarrow> \<not> Q h'"
        by blast
      have "Q h'" if "i \<le> h'" "h' < r" for h'
        using that r(4) [of h'] less.prems(5) [of h' ?h] h q by (cases "h' \<le> ?h") auto
      moreover have "bsearch up i j = Some r"
        using True q h less.prems(4) [of ?h] r(1) by (subst bsearch.simps) simp
      ultimately show ?thesis
        using r h by auto
    next
      case q: False
      then have "\<exists>r. bsearch up i ?h = Some r \<and> i \<le> r \<and> r \<le> ?h
          \<and> (\<forall>h'. i \<le> h' \<and> h' < r \<longrightarrow> Q h') \<and> (\<forall>h'. r \<le> h' \<and> h' < ?h \<longrightarrow> \<not> Q h')"
        using less.prems h by (intro less.hyps) auto
      then obtain r where r: "bsearch up i ?h = Some r" "i \<le> r" "r \<le> ?h"
          "\<And>h'. i \<le> h' \<Longrightarrow> h' < r \<Longrightarrow> Q h'" "\<And>h'. r \<le> h' \<Longrightarrow> h' < ?h \<Longrightarrow> \<not> Q h'"
        by blast
      have "\<not> Q h'" if "r \<le> h'" "h' < j" for h'
        using that r(2) r(5) [of h'] less.prems(5) [of ?h h'] h q by (cases "?h \<le> h'") auto
      moreover have "bsearch up i j = Some r"
        using True q h less.prems(4) [of ?h] r(1) by (subst bsearch.simps) simp
      ultimately show ?thesis
        using r h by auto
    qed
  qed
qed

section \<open>The searches\<close>

lemma Search_correct:
  assumes "0 \<le> n" "n < 2 ^ 63" "\<And>h. 0 \<le> h \<Longrightarrow> h < n \<Longrightarrow> f h = Some (P h)"
    "\<And>h h'. 0 \<le> h \<Longrightarrow> h \<le> h' \<Longrightarrow> h' < n \<Longrightarrow> P h \<Longrightarrow> P h'"
  shows "\<exists>r. Search n f = Some r \<and> 0 \<le> r \<and> r \<le> n \<and> (\<forall>h. 0 \<le> h \<and> h < r \<longrightarrow> \<not> P h) \<and> (\<forall>h. r \<le> h \<and> h < n \<longrightarrow> P h)"
proof -
  have "\<exists>r. bsearch (\<lambda>h. map_option Not (f h)) 0 n = Some r \<and> 0 \<le> r \<and> r \<le> n
      \<and> (\<forall>h. 0 \<le> h \<and> h < r \<longrightarrow> \<not> P h) \<and> (\<forall>h. r \<le> h \<and> h < n \<longrightarrow> \<not> \<not> P h)"
  proof (rule bsearch_correct)
    show "\<not> P h'" if "0 \<le> h'" "h' \<le> h" "h < n" "\<not> P h" for h h'
      using that assms(4) [of h' h] by blast
  qed (use assms(1-3) in simp_all)
  then show ?thesis
    unfolding Search_def by simp
qed

text \<open>On a sorted slice the answer is the number of elements before \<open>x\<close>.\<close>

lemma Search_takeWhile:
  assumes "length a < 2 ^ 63" "sorted_wrt (\<lambda>y z. lt z x \<longrightarrow> lt y x) a"
  shows "Search (int (length a)) (\<lambda>i. map_option (\<lambda>y. \<not> lt y x) (index a i)) = Some (int (length (takeWhile (\<lambda>y. lt y x) a)))"
proof -
  have mono: "\<not> lt (a ! nat h') x" if "0 \<le> h" "h \<le> h'" "h' < int (length a)" "\<not> lt (a ! nat h) x" for h h'
    using that sorted_wrt_nth_less [OF assms(2), of "nat h" "nat h'"] by (cases "h = h'") auto
  have "\<exists>r. Search (int (length a)) (\<lambda>i. map_option (\<lambda>y. \<not> lt y x) (index a i)) = Some r \<and> 0 \<le> r \<and> r \<le> int (length a)
      \<and> (\<forall>h. 0 \<le> h \<and> h < r \<longrightarrow> \<not> \<not> lt (a ! nat h) x) \<and> (\<forall>h. r \<le> h \<and> h < int (length a) \<longrightarrow> \<not> lt (a ! nat h) x)"
  proof (rule Search_correct)
    show "int (length a) < 2 ^ 63"
      using assms(1) by simp
  qed (use mono in \<open>auto simp: index_def\<close>)
  then obtain r where r: "Search (int (length a)) (\<lambda>i. map_option (\<lambda>y. \<not> lt y x) (index a i)) = Some r" "0 \<le> r"
      "r \<le> int (length a)" "\<And>h. 0 \<le> h \<Longrightarrow> h < r \<Longrightarrow> lt (a ! nat h) x"
      "\<And>h. r \<le> h \<Longrightarrow> h < int (length a) \<Longrightarrow> \<not> lt (a ! nat h) x"
    by blast
  have "takeWhile (\<lambda>y. lt y x) a = take (nat r) a"
  proof (rule takeWhile_eq_take_P_nth)
    show "lt (a ! i) x" if "i < nat r" "i < length a" for i
      using r(4) [of "int i"] that by simp
    show "\<not> lt (a ! nat r) x" if "nat r < length a"
      using r(2) r(5) [of r] that by simp
  qed
  then show ?thesis
    using r(1-3) by simp
qed

lemma SearchInts_correct:
  assumes "sorted a" "length a < 2 ^ 63"
  shows "SearchInts a x = Some (int (length (takeWhile (\<lambda>y. y < x) a)))"
proof -
  have "sorted_wrt (\<lambda>y z. z < x \<longrightarrow> y < x) a"
    using assms(1) by (rule sorted_wrt_mono_rel [rotated]) auto
  then show ?thesis
    using Search_takeWhile [of a "(<)" x] assms(2) by (simp add: SearchInts_def not_less)
qed

lemma SearchStrings_correct:
  assumes "sorted_wrt (\<lambda>y z. \<not> ord_class.lexordp z y) a" "length a < 2 ^ 63"
  shows "SearchStrings a x = Some (int (length (takeWhile (\<lambda>y. ord_class.lexordp y x) a)))"
proof -
  have "sorted_wrt (\<lambda>y z. ord_class.lexordp z x \<longrightarrow> ord_class.lexordp y x) a"
    using assms(1) by (rule sorted_wrt_mono_rel [rotated]) (blast intro: string_slice.not_lt_lt)
  then show ?thesis
    using Search_takeWhile [of a ord_class.lexordp x] assms(2) by (simp add: SearchStrings_def)
qed

text \<open>
  C40: binary search.  If \<^verbatim>\<open>cmp\<close> answers on every position below \<open>n\<close>, and its sign never grows (positive
  answers, then zeros, then negative ones), then \<^verbatim>\<open>Find\<close> returns the first position whose answer is not positive
  (\<open>n\<close> if there is none) and says rightly whether some position has the answer zero; \<^verbatim>\<open>Search\<close> with the test
  "not positive" returns the same position.  No midpoint overflows, whatever the size of \<open>n\<close>.
\<close>

theorem Find_Search_correct:
  assumes "0 \<le> n" "n < 2 ^ 63"
    and cmp: "\<And>h. 0 \<le> h \<Longrightarrow> h < n \<Longrightarrow> cmp h = Some (c h)"
    and mono: "\<And>h h'. 0 \<le> h \<Longrightarrow> h \<le> h' \<Longrightarrow> h' < n \<Longrightarrow> sgn (c h') \<le> sgn (c h)"
  shows "\<exists>r. Find n cmp = Some (r, \<exists>h. 0 \<le> h \<and> h < n \<and> c h = 0)
    \<and> Search n (\<lambda>h. map_option (\<lambda>v. v \<le> 0) (cmp h)) = Some r
    \<and> 0 \<le> r \<and> r \<le> n \<and> (\<forall>h. 0 \<le> h \<and> h < r \<longrightarrow> c h > 0) \<and> (\<forall>h. r \<le> h \<and> h < n \<longrightarrow> c h \<le> 0)"
proof -
  have "\<exists>r. Search n (\<lambda>h. map_option (\<lambda>v. v \<le> 0) (cmp h)) = Some r \<and> 0 \<le> r \<and> r \<le> n
      \<and> (\<forall>h. 0 \<le> h \<and> h < r \<longrightarrow> \<not> c h \<le> 0) \<and> (\<forall>h. r \<le> h \<and> h < n \<longrightarrow> c h \<le> 0)"
  proof (rule Search_correct [OF assms(1, 2)])
    show "c h' \<le> 0" if "0 \<le> h" "h \<le> h'" "h' < n" "c h \<le> 0" for h h'
      using mono [OF that(1-3)] that(4) by (auto simp: sgn_if split: if_splits)
  qed (simp add: cmp)
  then obtain r where r: "Search n (\<lambda>h. map_option (\<lambda>v. v \<le> 0) (cmp h)) = Some r" "0 \<le> r" "r \<le> n"
      "\<forall>h. 0 \<le> h \<and> h < r \<longrightarrow> c h > 0" "\<forall>h. r \<le> h \<and> h < n \<longrightarrow> c h \<le> 0"
    by (auto simp: not_le)
  have "(\<exists>h. 0 \<le> h \<and> h < n \<and> c h = 0) \<longleftrightarrow> r < n \<and> c r = 0"
  proof
    assume "\<exists>h. 0 \<le> h \<and> h < n \<and> c h = 0"
    then obtain h where h: "0 \<le> h" "h < n" "c h = 0"
      by blast
    then have "r \<le> h"
      using r(4) by force
    then show "r < n \<and> c r = 0"
      using h mono [of r h] r(2, 5) by (auto simp: sgn_if split: if_splits)
  qed (use r(2) in auto)
  moreover have "map_option Not \<circ> map_option (\<lambda>v. v \<le> 0) = map_option (\<lambda>v :: int. v > 0)"
    by (auto simp: fun_eq_iff option.map_comp comp_def not_le)
  then have "bsearch (\<lambda>h. map_option (\<lambda>v. v > 0) (cmp h)) 0 n = Some r"
    using r(1) by (simp add: Search_def option.map_comp comp_def not_le)
  ultimately have "Find n cmp = Some (r, \<exists>h. 0 \<le> h \<and> h < n \<and> c h = 0)"
    using r(2) cmp [of r] by (simp add: Find_def)
  then show ?thesis
    using r by blast
qed

theorem Find_Search_correct_witness:
  "\<exists>r. Find 4 (\<lambda>h. Some (5 - 2 * h)) = Some (r, False) \<and> 2 < r \<and> r \<le> 4"
proof -
  have odd: "2 * h \<noteq> 5" for h :: int
    by presburger
  have "sgn (5 - 2 * h') \<le> sgn (5 - 2 * h)" if "h \<le> h'" for h h' :: int
    using that by (auto simp: sgn_if)
  then have "\<exists>r. Find 4 (\<lambda>h. Some (5 - 2 * h)) = Some (r, \<exists>h. 0 \<le> h \<and> h < 4 \<and> 5 - 2 * h = (0 :: int))
      \<and> Search 4 (\<lambda>h. map_option (\<lambda>v. v \<le> 0) (Some (5 - 2 * h))) = Some r \<and> 0 \<le> r \<and> r \<le> 4
      \<and> (\<forall>h. 0 \<le> h \<and> h < r \<longrightarrow> 5 - 2 * h > 0) \<and> (\<forall>h. r \<le> h \<and> h < 4 \<longrightarrow> 5 - 2 * h \<le> 0)"
    by (intro Find_Search_correct) simp_all
  then obtain r where r: "Find 4 (\<lambda>h. Some (5 - 2 * h)) = Some (r, False)" "r \<le> 4"
      "\<And>h. r \<le> h \<Longrightarrow> h < 4 \<Longrightarrow> 5 - 2 * h \<le> 0"
    by (auto simp: odd)
  have "2 < r"
    using r(3) [of 2] by force
  then show ?thesis
    using r(1, 2) by blast
qed

end
