(* ===== verification/Stable.thy ===== *)
theory Stable
  imports Sort Search
begin

text \<open>
  \<^verbatim>\<open>sort.Stable\<close> (\<^verbatim>\<open>src/src/sort/zsortinterface.rs\<close>): insertion sort of blocks of 20, then in-place merges
  of neighbouring blocks by the SymMerge algorithm, whose only move is an exchange of two
  positions.  Stability is that every class of equal elements keeps its order.
\<close>

section \<open>The code\<close>

partial_function (option) swapRange_loop :: "('d, 'z) sort_if_scheme \<Rightarrow> 'd \<Rightarrow> int \<Rightarrow> int \<Rightarrow> int \<Rightarrow> int \<Rightarrow> 'd option" where
  [code]: "swapRange_loop I data a b n i =
     (if i < n then do { data \<leftarrow> Swap I data (a + i) (b + i); swapRange_loop I data a b n (i + 1) } else Some data)"

definition swapRange :: "('d, 'z) sort_if_scheme \<Rightarrow> 'd \<Rightarrow> int \<Rightarrow> int \<Rightarrow> int \<Rightarrow> 'd option" where
  "swapRange I data a b n = swapRange_loop I data a b n 0"

partial_function (option) rotate_loop :: "('d, 'z) sort_if_scheme \<Rightarrow> 'd \<Rightarrow> int \<Rightarrow> int \<Rightarrow> int \<Rightarrow> 'd option" where
  [code]: "rotate_loop I data m i j =
     (if i \<noteq> j
      then if i > j
        then do { data \<leftarrow> swapRange I data (m - i) m j; rotate_loop I data m (i - j) j }
        else do { data \<leftarrow> swapRange I data (m - i) (m + j - i) i; rotate_loop I data m i (j - i) }
      else swapRange I data (m - i) m i)"

definition rotate_sort :: "('d, 'z) sort_if_scheme \<Rightarrow> 'd \<Rightarrow> int \<Rightarrow> int \<Rightarrow> int \<Rightarrow> 'd option" where
  "rotate_sort I data a m b = rotate_loop I data m (m - a) (b - m)"

text \<open>The two loops that walk a single element to its place.\<close>

partial_function (option) walk_up :: "('d, 'z) sort_if_scheme \<Rightarrow> 'd \<Rightarrow> int \<Rightarrow> int \<Rightarrow> 'd option" where
  [code]: "walk_up I data k i =
     (if k < i - 1 then do { data \<leftarrow> Swap I data k (k + 1); walk_up I data (k + 1) i } else Some data)"

partial_function (option) walk_down :: "('d, 'z) sort_if_scheme \<Rightarrow> 'd \<Rightarrow> int \<Rightarrow> int \<Rightarrow> 'd option" where
  [code]: "walk_down I data k i =
     (if k > i then do { data \<leftarrow> Swap I data k (k - 1); walk_down I data (k - 1) i } else Some data)"

partial_function (option) symMerge :: "('d, 'z) sort_if_scheme \<Rightarrow> 'd \<Rightarrow> int \<Rightarrow> int \<Rightarrow> int \<Rightarrow> 'd option" where
  [code]: "symMerge I data a m b =
     (if m - a = 1 then do {
        i \<leftarrow> bsearch (\<lambda>h. Less I data h a) m b;
        walk_up I data a i
      }
      else if b - m = 1 then do {
        i \<leftarrow> bsearch (\<lambda>h. map_option Not (Less I data m h)) a m;
        walk_down I data m i
      }
      else do {
        let mid = midpoint a b;
        let n = mid + m;
        let (start, r) = (if m > mid then (n - b, mid) else (a, m));
        let p = n - 1;
        start \<leftarrow> bsearch (\<lambda>c. map_option Not (Less I data (p - c) c)) start r;
        let hi = n - start;
        data \<leftarrow> (if start < m \<and> m < hi then rotate_sort I data start m hi else Some data);
        data \<leftarrow> (if a < start \<and> start < mid then symMerge I data a start mid else Some data);
        (if mid < hi \<and> hi < b then symMerge I data mid hi b else Some data)
      })"

partial_function (option) insert_loop :: "('d, 'z) sort_if_scheme \<Rightarrow> 'd \<Rightarrow> int \<Rightarrow> int \<Rightarrow> 'd option" where
  [code]: "insert_loop I data a j =
     (if j > a
      then do {
        lt \<leftarrow> Less I data j (j - 1);
        if lt then do { data \<leftarrow> Swap I data j (j - 1); insert_loop I data a (j - 1) } else Some data
      }
      else Some data)"

partial_function (option) insertionSort_loop :: "('d, 'z) sort_if_scheme \<Rightarrow> 'd \<Rightarrow> int \<Rightarrow> int \<Rightarrow> int \<Rightarrow> 'd option" where
  [code]: "insertionSort_loop I data a b i =
     (if i < b then do { data \<leftarrow> insert_loop I data a i; insertionSort_loop I data a b (i + 1) } else Some data)"

definition insertionSort :: "('d, 'z) sort_if_scheme \<Rightarrow> 'd \<Rightarrow> int \<Rightarrow> int \<Rightarrow> 'd option" where
  "insertionSort I data a b = insertionSort_loop I data a b (a + 1)"

partial_function (option) stable_blocks :: "('d, 'z) sort_if_scheme \<Rightarrow> 'd \<Rightarrow> int \<Rightarrow> int \<Rightarrow> int \<Rightarrow> int \<Rightarrow> 'd option" where
  [code]: "stable_blocks I data blockSize n a b =
     (if b \<le> n
      then do { data \<leftarrow> insertionSort I data a b; stable_blocks I data blockSize n b (b + blockSize) }
      else insertionSort I data a n)"

partial_function (option) stable_pass :: "('d, 'z) sort_if_scheme \<Rightarrow> 'd \<Rightarrow> int \<Rightarrow> int \<Rightarrow> int \<Rightarrow> int \<Rightarrow> 'd option" where
  [code]: "stable_pass I data blockSize n a b =
     (if b \<le> n
      then do { data \<leftarrow> symMerge I data a (a + blockSize) b; stable_pass I data blockSize n b (b + 2 * blockSize) }
      else let m = a + blockSize in if m < n then symMerge I data a m n else Some data)"

partial_function (option) stable_merge :: "('d, 'z) sort_if_scheme \<Rightarrow> 'd \<Rightarrow> int \<Rightarrow> int \<Rightarrow> 'd option" where
  [code]: "stable_merge I data blockSize n =
     (if blockSize < n
      then do { data \<leftarrow> stable_pass I data blockSize n 0 (2 * blockSize); stable_merge I data (2 * blockSize) n }
      else Some data)"

definition stable :: "('d, 'z) sort_if_scheme \<Rightarrow> 'd \<Rightarrow> int \<Rightarrow> 'd option" where
  "stable I data n = do { data \<leftarrow> stable_blocks I data 20 n 0 20; stable_merge I data 20 n }"

definition Stable :: "('d, 'z) sort_if_scheme \<Rightarrow> 'd \<Rightarrow> 'd option" where
  "Stable I data = stable I data (Len I data)"

end
