(* ===== verification/Stable_Props.thy ===== *)
theory Stable_Props
  imports Stable
begin

text \<open>
  The stable sort sorts and is stable.  Each routine is described by what it does to a list cut
  into pieces: the collection holds \<open>U @ A @ B @ V\<close>, the routine rearranges \<open>A @ B\<close>.
\<close>

section \<open>Stability\<close>

definition eqv :: "('a \<Rightarrow> 'a \<Rightarrow> bool) \<Rightarrow> 'a \<Rightarrow> 'a \<Rightarrow> bool" where
  "eqv lt x y \<longleftrightarrow> \<not> lt x y \<and> \<not> lt y x"

definition stab :: "('a \<Rightarrow> 'a \<Rightarrow> bool) \<Rightarrow> 'a list \<Rightarrow> 'a list \<Rightarrow> bool" where
  "stab lt xs ys \<longleftrightarrow> (\<forall>x. filter (eqv lt x) ys = filter (eqv lt x) xs)"

abbreviation (input) in_order :: "('a \<Rightarrow> 'a \<Rightarrow> bool) \<Rightarrow> 'a list \<Rightarrow> bool" where
  "in_order lt \<equiv> sorted_wrt (\<lambda>x y. \<not> lt y x)"

lemma stab_refl [simp]: "stab lt xs xs"
  by (simp add: stab_def)

lemma stab_trans: "stab lt xs ys \<Longrightarrow> stab lt ys zs \<Longrightarrow> stab lt xs zs"
  by (simp add: stab_def)

lemma stab_append: "stab lt xs xs' \<Longrightarrow> stab lt ys ys' \<Longrightarrow> stab lt (xs @ ys) (xs' @ ys')"
  by (simp add: stab_def)

context weak_order
begin

lemma stab_swap:
  assumes "\<And>x y. x \<in> set A \<Longrightarrow> y \<in> set B \<Longrightarrow> lt y x"
  shows "stab lt (A @ B) (B @ A)"
proof -
  have "filter (eqv lt z) A = [] \<or> filter (eqv lt z) B = []" for z
  proof (rule ccontr)
    assume "\<not> ?thesis"
    then obtain x y where "x \<in> set A" "y \<in> set B" "eqv lt z x" "eqv lt z y"
      by (auto simp: filter_empty_conv)
    moreover from this have "\<not> lt y x"
      unfolding eqv_def using not_lt_trans by blast
    ultimately show False
      using assms by blast
  qed
  then show ?thesis
    unfolding stab_def by (metis append_Nil append_Nil2 filter_append)
qed

lemma stab_mset:
  assumes "stab lt xs ys"
  shows "mset ys = mset xs"
proof (rule multiset_eqI)
  fix x
  have "count (mset zs) x = count (mset (filter (eqv lt x) zs)) x" for zs
    using irrefl by (simp add: eqv_def)
  then show "count (mset ys) x = count (mset xs) x"
    using assms unfolding stab_def by metis
qed

lemma stab_set: "stab lt xs ys \<Longrightarrow> set ys = set xs"
  using stab_mset mset_eq_setD by blast

lemma stab_length: "stab lt xs ys \<Longrightarrow> length ys = length xs"
  using stab_mset mset_eq_length by blast

end

section \<open>Moving blocks\<close>

context sort_interface
begin

lemma Swap_append:
  assumes "elems d = U @ x # M @ y # V" "i = int (length U)" "j = int (length U + 1 + length M)"
  shows "\<exists>d'. Swap I d i j = Some d' \<and> elems d' = U @ y # M @ x # V"
    and "\<exists>d'. Swap I d j i = Some d' \<and> elems d' = U @ y # M @ x # V"
proof -
  let ?i = "length U" and ?j = "length U + 1 + length M"
  have len: "?i < length (elems d)" "?j < length (elems d)"
    using assms(1) by simp_all
  have nth: "elems d ! ?i = x" "elems d ! ?j = y"
    using assms(1) by (simp_all add: nth_append)
  have "swapped (elems d) ?i ?j = U @ y # M @ x # V" "swapped (elems d) ?j ?i = U @ y # M @ x # V"
    by (simp_all add: swapped_def assms(1) list_update_append nth_append)
  then show "\<exists>d'. Swap I d i j = Some d' \<and> elems d' = U @ y # M @ x # V"
    "\<exists>d'. Swap I d j i = Some d' \<and> elems d' = U @ y # M @ x # V"
    using Swap_elems [OF len] Swap_elems [OF len(2, 1)] assms(2, 3) by auto
qed

lemma Less_append:
  assumes "elems d = U @ x # M @ y # V" "i = int (length U)" "j = int (length U + 1 + length M)"
  shows "Less I d i j = Some (lt x y)" "Less I d j i = Some (lt y x)"
proof -
  let ?i = "length U" and ?j = "length U + 1 + length M"
  have len: "?i < length (elems d)" "?j < length (elems d)"
    using assms(1) by simp_all
  have nth: "elems d ! ?i = x" "elems d ! ?j = y"
    using assms(1) by (simp_all add: nth_append)
  show "Less I d i j = Some (lt x y)" "Less I d j i = Some (lt y x)"
    using Less_elems [OF len] Less_elems [OF len(2, 1)] assms(2, 3) nth by simp_all
qed

lemma swapRange_loop_blocks:
  assumes "length X = length Y" "elems d = U @ X @ M @ Y @ V"
    "a + i = int (length U)" "b + i = int (length U + length X + length M)" "n - i = int (length X)"
  shows "\<exists>d'. swapRange_loop I d a b n i = Some d' \<and> elems d' = U @ Y @ M @ X @ V"
  using assms
proof (induction X Y arbitrary: d U M i rule: list_induct2)
  case Nil
  then show ?case
    by (subst swapRange_loop.simps) simp
next
  case (Cons x X y Y)
  obtain d1 where d1: "Swap I d (a + i) (b + i) = Some d1" "elems d1 = U @ y # (X @ M) @ x # Y @ V"
    using Swap_append(1) [of d U x "X @ M" y "Y @ V" "a + i" "b + i"] Cons.prems by auto
  have "\<exists>d'. swapRange_loop I d1 a b n (i + 1) = Some d' \<and> elems d' = (U @ [y]) @ Y @ (M @ [x]) @ X @ V"
    using d1(2) Cons.prems Cons.hyps by (intro Cons.IH) auto
  then show ?case
    using d1(1) Cons.prems(4) by (subst swapRange_loop.simps) auto
qed

lemma swapRange_blocks:
  assumes "length X = length Y" "elems d = U @ X @ M @ Y @ V"
    "a = int (length U)" "b = int (length U + length X + length M)" "n = int (length X)"
  shows "\<exists>d'. swapRange I d a b n = Some d' \<and> elems d' = U @ Y @ M @ X @ V"
  unfolding swapRange_def using assms by (intro swapRange_loop_blocks) simp_all

lemma rotate_loop_blocks:
  assumes "elems d = U @ A @ B @ V" "A \<noteq> []" "B \<noteq> []" "m = int (length U + length A)"
    "i = int (length A)" "j = int (length B)"
  shows "\<exists>d'. rotate_loop I d m i j = Some d' \<and> elems d' = U @ B @ A @ V"
  using assms
proof (induction "length A + length B" arbitrary: d U A B V m i j rule: less_induct)
  case less
  consider (eq) "length A = length B" | (gt) "length B < length A" | (lt) "length A < length B"
    by linarith
  then show ?case
  proof cases
    case eq
    then show ?thesis
      using less.prems swapRange_blocks [of A B d U "[]" V] by (subst rotate_loop.simps) auto
  next
    case gt
    let ?A1 = "take (length B) A" and ?A2 = "drop (length B) A"
    have "elems d = U @ ?A1 @ ?A2 @ B @ V"
      using less.prems(1) by (simp flip: append_assoc)
    then obtain d1 where d1: "swapRange I d (m - i) m j = Some d1" "elems d1 = U @ B @ ?A2 @ ?A1 @ V"
      using swapRange_blocks [of ?A1 B d U ?A2 V "m - i" m j] gt less.prems by auto
    have "\<exists>d'. rotate_loop I d1 m (i - j) j = Some d' \<and> elems d' = (U @ B) @ ?A1 @ ?A2 @ V"
      using d1(2) gt less.prems by (intro less.hyps) auto
    then show ?thesis
      using d1(1) gt less.prems by (subst rotate_loop.simps) auto
  next
    case lt
    let ?B1 = "take (length B - length A) B" and ?B2 = "drop (length B - length A) B"
    have "elems d = U @ A @ ?B1 @ ?B2 @ V"
      using less.prems(1) by (simp flip: append_assoc)
    then obtain d1 where d1: "swapRange I d (m - i) (m + j - i) i = Some d1" "elems d1 = U @ ?B2 @ ?B1 @ A @ V"
      using swapRange_blocks [of A ?B2 d U ?B1 V "m - i" "m + j - i" i] lt less.prems by auto
    have "\<exists>d'. rotate_loop I d1 m i (j - i) = Some d' \<and> elems d' = U @ ?B1 @ ?B2 @ A @ V"
      using d1(2) lt less.prems by (intro less.hyps) (auto simp flip: length_greater_0_conv)
    then show ?thesis
      using d1(1) lt less.prems by (subst rotate_loop.simps) auto
  qed
qed

lemma rotate_blocks:
  assumes "elems d = U @ A @ B @ V" "A \<noteq> []" "B \<noteq> []"
    "a = int (length U)" "m = int (length U + length A)" "b = int (length U + length A + length B)"
  shows "\<exists>d'. rotate_sort I d a m b = Some d' \<and> elems d' = U @ B @ A @ V"
  unfolding rotate_sort_def using assms by (intro rotate_loop_blocks) simp_all

lemma walk_up_block:
  assumes "elems d = U @ x # B @ V" "k = int (length U)" "i = int (length U + 1 + length B)"
  shows "\<exists>d'. walk_up I d k i = Some d' \<and> elems d' = U @ B @ x # V"
  using assms
proof (induction B arbitrary: d U k)
  case Nil
  then show ?case
    by (subst walk_up.simps) simp
next
  case (Cons y B)
  obtain d1 where d1: "Swap I d k (k + 1) = Some d1" "elems d1 = U @ y # x # B @ V"
    using Swap_append(1) [of d U x "[]" y "B @ V" k "k + 1"] Cons.prems by auto
  have "\<exists>d'. walk_up I d1 (k + 1) i = Some d' \<and> elems d' = (U @ [y]) @ B @ x # V"
    using d1(2) Cons.prems by (intro Cons.IH) auto
  then show ?case
    using d1(1) Cons.prems by (subst walk_up.simps) auto
qed

lemma walk_down_block:
  assumes "elems d = U @ A @ y # V" "k = int (length U + length A)" "i = int (length U)"
  shows "\<exists>d'. walk_down I d k i = Some d' \<and> elems d' = U @ y # A @ V"
  using assms
proof (induction A arbitrary: d V k rule: rev_induct)
  case Nil
  then show ?case
    by (subst walk_down.simps) simp
next
  case (snoc x A)
  obtain d1 where d1: "Swap I d k (k - 1) = Some d1" "elems d1 = (U @ A) @ y # x # V"
    using Swap_append(2) [of d "U @ A" x "[]" y V "k - 1" k] snoc.prems by auto
  have "\<exists>d'. walk_down I d1 (k - 1) i = Some d' \<and> elems d' = U @ y # A @ x # V"
    using d1(2) snoc.prems by (intro snoc.IH) auto
  then show ?case
    using d1(1) snoc.prems by (subst walk_down.simps) auto
qed

end

lemma bsearch_split:
  assumes len: "l + length B < 2 ^ 63" and up: "\<And>k. k < length B \<Longrightarrow> up (int (l + k)) = Some (P (B ! k))"
    and mono: "sorted_wrt (\<lambda>x y. P y \<longrightarrow> P x) B"
  shows "\<exists>k \<le> length B. bsearch up (int l) (int (l + length B)) = Some (int (l + k))
    \<and> (\<forall>j < k. P (B ! j)) \<and> (\<forall>j. k \<le> j \<and> j < length B \<longrightarrow> \<not> P (B ! j))"
proof -
  let ?Q = "\<lambda>h. P (B ! nat (h - int l))"
  have "\<exists>r. bsearch up (int l) (int (l + length B)) = Some r \<and> int l \<le> r \<and> r \<le> int (l + length B)
      \<and> (\<forall>h. int l \<le> h \<and> h < r \<longrightarrow> ?Q h) \<and> (\<forall>h. r \<le> h \<and> h < int (l + length B) \<longrightarrow> \<not> ?Q h)"
  proof (rule bsearch_correct)
    show "int (l + length B) < 2 ^ 63"
      using len by simp
    show "up h = Some (?Q h)" if "int l \<le> h" "h < int (l + length B)" for h
      using up [of "nat (h - int l)"] that by simp
    show "?Q h'" if "int l \<le> h'" "h' \<le> h" "h < int (l + length B)" "?Q h" for h h'
      using sorted_wrt_nth_less [OF mono, of "nat (h' - int l)" "nat (h - int l)"] that by (cases "h = h'") auto
  qed simp_all
  then obtain r where r: "bsearch up (int l) (int (l + length B)) = Some r" "int l \<le> r" "r \<le> int (l + length B)"
      "\<And>h. int l \<le> h \<Longrightarrow> h < r \<Longrightarrow> ?Q h" "\<And>h. r \<le> h \<Longrightarrow> h < int (l + length B) \<Longrightarrow> \<not> ?Q h"
    by blast
  have "P (B ! j)" if "j < nat (r - int l)" for j
    using r(4) [of "int (l + j)"] that by simp
  moreover have "\<not> P (B ! j)" if "nat (r - int l) \<le> j" "j < length B" for j
    using r(5) [of "int (l + j)"] that by simp
  ultimately show ?thesis
    using r(1-3) by (intro exI [of _ "nat (r - int l)"]) auto
qed

section \<open>Merging\<close>

text \<open>A list of sorted runs of length \<open>k\<close>, the last of which may be shorter.\<close>

inductive runs :: "('a \<Rightarrow> 'a \<Rightarrow> bool) \<Rightarrow> nat \<Rightarrow> 'a list \<Rightarrow> bool" for lt k where
  short: "in_order lt xs \<Longrightarrow> length xs \<le> k \<Longrightarrow> runs lt k xs"
| run: "in_order lt A \<Longrightarrow> length A = k \<Longrightarrow> runs lt k xs \<Longrightarrow> runs lt k (A @ xs)"

lemma runs_in_order:
  assumes "runs lt k xs" "length xs \<le> k"
  shows "in_order lt xs"
  using assms by cases auto

lemma runs_split:
  assumes "runs lt k xs" "k \<le> length xs"
  obtains A ys where "xs = A @ ys" "in_order lt A" "length A = k" "runs lt k ys"
  using assms
proof cases
  case short
  then show ?thesis
    using that [of xs "[]"] assms(2) by (simp add: runs.short)
qed (use that in blast)

lemma take_drop_append [simp]: "take k xs @ drop k xs @ ys = xs @ ys"
  by (metis append_assoc append_take_drop_id)

lemma set_take_nth: "x \<in> set (take k xs) \<Longrightarrow> \<exists>j < k. j < length xs \<and> x = xs ! j"
  by (auto simp: in_set_conv_nth)

lemma set_drop_nth: "x \<in> set (drop k xs) \<Longrightarrow> \<exists>j \<ge> k. j < length xs \<and> x = xs ! j"
  by (auto simp: in_set_conv_nth) (metis add.commute le_add1 less_diff_conv)

context weak_order
begin

lemma in_order_nth: "in_order lt xs \<Longrightarrow> i \<le> j \<Longrightarrow> j < length xs \<Longrightarrow> \<not> lt (xs ! j) (xs ! i)"
  using irrefl by (cases "i = j") (auto simp: sorted_wrt_iff_nth_less)

text \<open>A cut of two runs: the elements before it come before those after it, across the runs.\<close>

lemma cut_before:
  assumes "in_order lt A" "in_order lt B" "k \<le> length A" "e \<le> length B"
    "k = 0 \<or> e = length B \<or> \<not> lt (B ! e) (A ! (k - 1))"
    "x \<in> set (take k A)" "y \<in> set (drop e B)"
  shows "\<not> lt y x"
proof -
  obtain i j where i: "i < k" "x = A ! i" and j: "e \<le> j" "j < length B" "y = B ! j"
    using set_take_nth [OF assms(6)] set_drop_nth [OF assms(7)] by blast
  have "\<not> lt (A ! (k - 1)) x" "\<not> lt y (B ! e)"
    using in_order_nth [OF assms(1), of i "k - 1"] in_order_nth [OF assms(2), of e j] i j assms(3) by simp_all
  moreover have "\<not> lt (B ! e) (A ! (k - 1))"
    using assms(5) i j by auto
  ultimately show ?thesis
    using not_lt_trans by blast
qed

lemma cut_after:
  assumes "in_order lt A" "in_order lt B" "k \<le> length A" "e \<le> length B"
    "k = length A \<or> e = 0 \<or> lt (B ! (e - 1)) (A ! k)"
    "x \<in> set (drop k A)" "y \<in> set (take e B)"
  shows "lt y x"
proof -
  obtain i j where i: "k \<le> i" "i < length A" "x = A ! i" and j: "j < e" "y = B ! j"
    using set_drop_nth [OF assms(6)] set_take_nth [OF assms(7)] by blast
  have "\<not> lt x (A ! k)" "\<not> lt (B ! (e - 1)) y"
    using in_order_nth [OF assms(1), of k i] in_order_nth [OF assms(2), of j "e - 1"] i j assms(4) by simp_all
  moreover have "lt (B ! (e - 1)) (A ! k)"
    using assms(5) i j by auto
  ultimately show ?thesis
    using lt_not_lt not_lt_lt by blast
qed

lemma join_runs:
  assumes A: "in_order lt (A1 @ A2)" and B: "in_order lt (B1 @ B2)"
    and before: "\<And>x y. x \<in> set A1 \<Longrightarrow> y \<in> set B2 \<Longrightarrow> \<not> lt y x"
    and after: "\<And>x y. x \<in> set A2 \<Longrightarrow> y \<in> set B1 \<Longrightarrow> lt y x"
    and Y1: "in_order lt Y1" "stab lt (A1 @ B1) Y1" and Y2: "in_order lt Y2" "stab lt (A2 @ B2) Y2"
  shows "in_order lt (Y1 @ Y2) \<and> stab lt ((A1 @ A2) @ (B1 @ B2)) (Y1 @ Y2)"
proof -
  have sets: "set Y1 = set A1 \<union> set B1" "set Y2 = set A2 \<union> set B2"
    using stab_set [OF Y1(2)] stab_set [OF Y2(2)] by simp_all
  have "\<not> lt y x" if "x \<in> set Y1" "y \<in> set Y2" for x y
    using that A B before after asym unfolding sets sorted_wrt_append by blast
  then have "in_order lt (Y1 @ Y2)"
    using Y1(1) Y2(1) by (simp add: sorted_wrt_append)
  moreover have "stab lt (A1 @ (A2 @ B1) @ B2) (A1 @ (B1 @ A2) @ B2)"
    using after by (intro stab_append stab_swap stab_refl) blast
  then have "stab lt ((A1 @ A2) @ (B1 @ B2)) (Y1 @ Y2)"
    using stab_trans stab_append [OF Y1(2) Y2(2)] by fastforce
  ultimately show ?thesis
    by blast
qed

end

context sort_interface
begin

lemma Less_nth:
  "0 \<le> i \<Longrightarrow> i < int (length (elems d)) \<Longrightarrow> 0 \<le> j \<Longrightarrow> j < int (length (elems d)) \<Longrightarrow>
    Less I d i j = Some (lt (elems d ! nat i) (elems d ! nat j))"
  using Less_elems [of "nat i" d "nat j"] by simp

lemma symMerge_single_left:
  assumes d: "elems d = U @ [x] @ B @ V" "length (elems d) < 2 ^ 63" and B: "in_order lt B"
    and amb: "a = int (length U)" "m = int (length U + 1)" "b = int (length U + 1 + length B)"
  shows "\<exists>d' Y. symMerge I d a m b = Some d' \<and> elems d' = U @ Y @ V \<and> in_order lt Y \<and> stab lt ([x] @ B) Y"
proof -
  let ?l = "length U + 1"
  have "\<exists>k \<le> length B. bsearch (\<lambda>h. Less I d h a) (int ?l) (int (?l + length B)) = Some (int (?l + k))
      \<and> (\<forall>j < k. lt (B ! j) x) \<and> (\<forall>j. k \<le> j \<and> j < length B \<longrightarrow> \<not> lt (B ! j) x)"
  proof (rule bsearch_split)
    show "Less I d (int (?l + k)) a = Some (lt (B ! k) x)" if "k < length B" for k
      using that d(1) amb(1) Less_elems [of "?l + k" d "length U"] by (simp add: nth_append)
    show "sorted_wrt (\<lambda>y z. lt z x \<longrightarrow> lt y x) B"
      using B by (rule sorted_wrt_mono_rel [rotated]) (blast intro: not_lt_lt)
  qed (use d in simp)
  then obtain k where k: "k \<le> length B" "bsearch (\<lambda>h. Less I d h a) m b = Some (int (?l + k))"
      "\<And>j. j < k \<Longrightarrow> lt (B ! j) x" "\<And>j. k \<le> j \<Longrightarrow> j < length B \<Longrightarrow> \<not> lt (B ! j) x"
    using amb(2, 3) by auto
  let ?B1 = "take k B" and ?B2 = "drop k B"
  have "elems d = U @ x # ?B1 @ ?B2 @ V"
    using d(1) by simp
  then obtain d' where d': "walk_up I d a (int (?l + k)) = Some d'" "elems d' = U @ ?B1 @ x # ?B2 @ V"
    using walk_up_block [of d U x ?B1 "?B2 @ V" a "int (?l + k)"] amb(1) k(1) by auto
  have lo: "\<And>y. y \<in> set ?B1 \<Longrightarrow> lt y x" and hi: "\<And>y. y \<in> set ?B2 \<Longrightarrow> \<not> lt y x"
    using k(3, 4) by (auto dest!: set_take_nth set_drop_nth)
  have "in_order lt ?B1" "in_order lt ?B2" "\<forall>u \<in> set ?B1. \<forall>v \<in> set ?B2. \<not> lt v u"
    using B sorted_wrt_append [of "\<lambda>x y. \<not> lt y x" ?B1 ?B2] by simp_all
  then have "in_order lt (?B1 @ [x] @ ?B2)"
    using lo hi asym by (auto simp: sorted_wrt_append)
  moreover have "stab lt (([x] @ ?B1) @ ?B2) ((?B1 @ [x]) @ ?B2)"
    using lo by (intro stab_append stab_swap stab_refl) auto
  ultimately have "elems d' = U @ (?B1 @ [x] @ ?B2) @ V \<and> in_order lt (?B1 @ [x] @ ?B2) \<and> stab lt ([x] @ B) (?B1 @ [x] @ ?B2)"
    using d'(2) by simp
  moreover have "symMerge I d a m b = Some d'"
    using k(2) d'(1) amb(1, 2) by (subst symMerge.simps) simp
  ultimately show ?thesis
    by blast
qed

lemma symMerge_single_right:
  assumes d: "elems d = U @ A @ [y] @ V" "length (elems d) < 2 ^ 63" and A: "in_order lt A" "length A \<noteq> 1"
    and amb: "a = int (length U)" "m = int (length U + length A)" "b = int (length U + length A + 1)"
  shows "\<exists>d' Y. symMerge I d a m b = Some d' \<and> elems d' = U @ Y @ V \<and> in_order lt Y \<and> stab lt (A @ [y]) Y"
proof -
  let ?l = "length U"
  have "\<exists>k \<le> length A. bsearch (\<lambda>h. map_option Not (Less I d m h)) (int ?l) (int (?l + length A)) = Some (int (?l + k))
      \<and> (\<forall>j < k. \<not> lt y (A ! j)) \<and> (\<forall>j. k \<le> j \<and> j < length A \<longrightarrow> \<not> \<not> lt y (A ! j))"
  proof (rule bsearch_split)
    show "map_option Not (Less I d m (int (?l + k))) = Some (\<not> lt y (A ! k))" if "k < length A" for k
      using that d(1) amb(2) Less_elems [of "?l + length A" d "?l + k"] by (simp add: nth_append)
    show "sorted_wrt (\<lambda>u v. \<not> lt y v \<longrightarrow> \<not> lt y u) A"
      using A(1) by (rule sorted_wrt_mono_rel [rotated]) (metis not_lt_trans)
  qed (use d in simp)
  then obtain k where k: "k \<le> length A" "bsearch (\<lambda>h. map_option Not (Less I d m h)) a m = Some (int (?l + k))"
      "\<And>j. j < k \<Longrightarrow> \<not> lt y (A ! j)" "\<And>j. k \<le> j \<Longrightarrow> j < length A \<Longrightarrow> lt y (A ! j)"
    using amb(1, 2) by auto
  let ?A1 = "take k A" and ?A2 = "drop k A"
  have "elems d = (U @ ?A1) @ ?A2 @ y # V"
    using d(1) by simp
  then obtain d' where d': "walk_down I d m (int (?l + k)) = Some d'" "elems d' = (U @ ?A1) @ y # ?A2 @ V"
    using walk_down_block [of d "U @ ?A1" ?A2 y V m "int (?l + k)"] amb(2) k(1) by auto
  have lo: "\<And>x. x \<in> set ?A1 \<Longrightarrow> \<not> lt y x" and hi: "\<And>x. x \<in> set ?A2 \<Longrightarrow> lt y x"
    using k(3, 4) by (auto dest!: set_take_nth set_drop_nth)
  have "in_order lt ?A1" "in_order lt ?A2" "\<forall>u \<in> set ?A1. \<forall>v \<in> set ?A2. \<not> lt v u"
    using A(1) sorted_wrt_append [of "\<lambda>x y. \<not> lt y x" ?A1 ?A2] by simp_all
  then have "in_order lt (?A1 @ [y] @ ?A2)"
    using lo hi asym by (auto simp: sorted_wrt_append)
  moreover have "stab lt (?A1 @ (?A2 @ [y])) (?A1 @ ([y] @ ?A2))"
    using hi by (intro stab_append stab_swap stab_refl) auto
  ultimately have "elems d' = U @ (?A1 @ [y] @ ?A2) @ V \<and> in_order lt (?A1 @ [y] @ ?A2) \<and> stab lt (A @ [y]) (?A1 @ [y] @ ?A2)"
    using d'(2) by simp
  moreover have "symMerge I d a m b = Some d'"
    using k(2) d'(1) amb A(2) by (subst symMerge.simps) simp
  ultimately show ?thesis
    by blast
qed

text \<open>The symmetric search of \<^verbatim>\<open>symMerge\<close> finds a cut of the two runs whose lower parts fill the first half.\<close>

lemma symMerge_search:
  assumes d: "elems d = U @ A @ B @ V" "length (elems d) < 2 ^ 63" and AB: "in_order lt A" "in_order lt B" "A \<noteq> []" "B \<noteq> []"
    and a: "a = length U" and m: "m = a + length A" and b: "b = m + length B" and mid: "mid = (a + b) div 2"
    and sr: "s0 = (if m > mid then mid + m - b else a)" "r = (if m > mid then mid else m)"
  shows "\<exists>s. bsearch (\<lambda>c. map_option Not (Less I d (int (mid + m) - 1 - c) c)) (int s0) (int r) = Some (int s)
    \<and> a \<le> s \<and> s \<le> m \<and> s \<le> mid \<and> mid - s \<le> length B
    \<and> (s = a \<or> mid - s = length B \<or> \<not> lt (B ! (mid - s)) (A ! (s - a - 1)))
    \<and> (s - a = length A \<or> mid - s = 0 \<or> lt (B ! (mid - s - 1)) (A ! (s - a)))"
proof -
  let ?P = "\<lambda>c. \<not> lt (B ! (mid - 1 - c)) (A ! (c - a))"
  have r: "s0 \<le> r" "r \<le> m" "r \<le> mid" "a \<le> s0" "mid + m - b \<le> s0" "r \<le> length (elems d)"
    using sr mid m b a d(1) AB(3, 4) by (auto split: if_splits)
  have in_range: "a \<le> c" "c - a < length A" "mid - 1 - c < length B" "c < mid" if "s0 \<le> c" "c < r" for c
    using that r m b by auto
  have less: "map_option Not (Less I d (int (mid + m) - 1 - int c) (int c)) = Some (?P c)" if c: "s0 \<le> c" "c < r" for c
  proof -
    note ir = in_range [OF c]
    have eq: "int (mid + m) - 1 - int c = int (m + (mid - 1 - c))"
      using ir by simp
    have "elems d ! (m + (mid - 1 - c)) = B ! (mid - 1 - c)" "elems d ! c = A ! (c - a)"
      using ir d(1) a m by (auto simp: nth_append)
    moreover have "m + (mid - 1 - c) < length (elems d)" "c < length (elems d)"
      using ir d(1) a m by auto
    ultimately show ?thesis
      unfolding eq using Less_elems [of "m + (mid - 1 - c)" d c] by (simp del: of_nat_add of_nat_diff)
  qed
  have mono: "?P x" if xy: "s0 \<le> x" "x \<le> y" "y < r" "?P y" for x y
  proof -
    have "\<not> lt (A ! (y - a)) (A ! (x - a))" "\<not> lt (B ! (mid - 1 - x)) (B ! (mid - 1 - y))"
      using xy in_range [of x] in_range [of y]
        in_order_nth [OF AB(1), of "x - a" "y - a"] in_order_nth [OF AB(2), of "mid - 1 - y" "mid - 1 - x"]
      by simp_all
    then show ?thesis
      using xy(4) not_lt_trans by blast
  qed
  have len: "length [s0..<r] = r - s0" "s0 + (r - s0) = r"
    using r(1) by simp_all
  have "\<exists>k \<le> length [s0..<r]. bsearch (\<lambda>c. map_option Not (Less I d (int (mid + m) - 1 - c) c)) (int s0) (int (s0 + length [s0..<r]))
      = Some (int (s0 + k)) \<and> (\<forall>j < k. ?P ([s0..<r] ! j)) \<and> (\<forall>j. k \<le> j \<and> j < length [s0..<r] \<longrightarrow> \<not> ?P ([s0..<r] ! j))"
  proof (rule bsearch_split)
    show "sorted_wrt (\<lambda>x y. ?P y \<longrightarrow> ?P x) [s0..<r]"
      unfolding sorted_wrt_iff_nth_less
    proof (intro allI impI)
      fix i j
      assume "i < j" "j < length [s0..<r]" "?P ([s0..<r] ! j)"
      then show "?P ([s0..<r] ! i)"
        using mono [of "s0 + i" "s0 + j"] by simp
    qed
    show "map_option Not (Less I d (int (mid + m) - 1 - int (s0 + k)) (int (s0 + k))) = Some (?P ([s0..<r] ! k))"
      if "k < length [s0..<r]" for k
      using less [of "s0 + k"] that by simp
  qed (use r d(2) in auto)
  then obtain k where k: "k \<le> r - s0"
      "bsearch (\<lambda>c. map_option Not (Less I d (int (mid + m) - 1 - c) c)) (int s0) (int r) = Some (int (s0 + k))"
      "\<And>j. j < k \<Longrightarrow> ?P ([s0..<r] ! j)" "\<And>j. k \<le> j \<Longrightarrow> j < r - s0 \<Longrightarrow> \<not> ?P ([s0..<r] ! j)"
    unfolding len by blast
  let ?s = "s0 + k"
  have s: "a \<le> ?s" "?s \<le> m" "?s \<le> mid" "mid - ?s \<le> length B"
    using k(1) r m b by auto
  have "?s = a \<or> mid - ?s = length B \<or> ?P (?s - 1)"
  proof (cases "k = 0")
    case True
    then show ?thesis
      using sr mid m b r by (auto split: if_splits)
  next
    case False
    then show ?thesis
      using k(1) k(3) [of "k - 1"] by simp
  qed
  moreover have "mid - 1 - (?s - 1) = mid - ?s \<and> ?s - 1 - a = ?s - a - 1" if "?s \<noteq> a"
    using that s by auto
  ultimately have lo: "?s = a \<or> mid - ?s = length B \<or> \<not> lt (B ! (mid - ?s)) (A ! (?s - a - 1))"
    by auto
  have "?s - a = length A \<or> mid - ?s = 0 \<or> \<not> ?P ?s"
  proof (cases "?s = r")
    case True
    then show ?thesis
      using sr m by (auto split: if_splits)
  next
    case False
    then show ?thesis
      using k(1) k(4) [of k] r(1) by simp
  qed
  then have "?s - a = length A \<or> mid - ?s = 0 \<or> lt (B ! (mid - ?s - 1)) (A ! (?s - a))"
    by (simp add: diff_commute)
  with k(2) s lo show ?thesis
    by blast
qed

text \<open>What one of the two recursive calls does, or the test that skips it.\<close>

lemma symMerge_half:
  assumes "elems d = U @ A @ B @ V" "in_order lt A" "in_order lt B"
    "A \<noteq> [] \<Longrightarrow> B \<noteq> [] \<Longrightarrow>
      \<exists>d' Y. symMerge I d a m b = Some d' \<and> elems d' = U @ Y @ V \<and> in_order lt Y \<and> stab lt (A @ B) Y"
    "c \<longleftrightarrow> A \<noteq> [] \<and> B \<noteq> []"
  shows "\<exists>d' Y. (if c then symMerge I d a m b else Some d) = Some d'
    \<and> elems d' = U @ Y @ V \<and> in_order lt Y \<and> stab lt (A @ B) Y"
proof (cases c)
  case True
  then show ?thesis
    using assms(4, 5) by simp
next
  case False
  then have "in_order lt (A @ B)"
    using assms(2, 3, 5) by auto
  then show ?thesis
    using False assms(1) by (intro exI [of _ d] exI [of _ "A @ B"]) simp
qed

lemma symMerge_rotate:
  assumes "elems d = U @ (A1 @ A2) @ (B1 @ B2) @ V" "c \<longleftrightarrow> A2 \<noteq> [] \<and> B1 \<noteq> []"
    "s = int (length U + length A1)" "m = int (length U + length A1 + length A2)"
    "e = int (length U + length A1 + length A2 + length B1)"
  shows "\<exists>d'. (if c then rotate_sort I d s m e else Some d) = Some d' \<and> elems d' = U @ A1 @ B1 @ A2 @ B2 @ V"
proof (cases c)
  case True
  then show ?thesis
    using rotate_blocks [of d "U @ A1" A2 B1 "B2 @ V" s m e] assms by simp
next
  case False
  then show ?thesis
    using assms(1, 2) by auto
qed

text \<open>The code after the two special cases, with the cut \<open>s\<close> its search finds.\<close>

lemma symMerge_unfold:
  assumes "a + 2 \<le> m" "m + 2 \<le> b" "b < 2 ^ 63" and mid: "mid = (a + b) div 2"
    and s: "bsearch (\<lambda>c. map_option Not (Less I d (int (mid + m) - 1 - c) c))
      (int (if m > mid then mid + m - b else a)) (int (if m > mid then mid else m)) = Some (int s)" "s \<le> mid"
  shows "symMerge I d (int a) (int m) (int b) =
    do {
      d \<leftarrow> (if s < m \<and> s < mid then rotate_sort I d (int s) (int m) (int (mid + m - s)) else Some d);
      d \<leftarrow> (if a < s \<and> s < mid then symMerge I d (int a) (int s) (int mid) else Some d);
      (if s < m \<and> mid + m < b + s then symMerge I d (int mid) (int (mid + m - s)) (int b) else Some d)
    }"
proof -
  have m: "midpoint (int a) (int b) = int mid"
    using midpoint_div [of "int a" "int b"] assms(1-3) mid by (simp add: zdiv_int)
  have sr: "(if int m > int mid then (int mid + int m - int b, int mid) else (int a, int m)) =
      (int (if m > mid then mid + m - b else a), int (if m > mid then mid else m))"
    using assms(1, 2) mid by auto
  have hi: "int mid + int m - int s = int (mid + m - s)"
    using s(2) by simp
  have conds: "int s < int m \<and> int m < int (mid + m - s) \<longleftrightarrow> s < m \<and> s < mid"
      "int a < int s \<and> int s < int mid \<longleftrightarrow> a < s \<and> s < mid"
      "int mid < int (mid + m - s) \<and> int (mid + m - s) < int b \<longleftrightarrow> s < m \<and> mid + m < b + s"
    using s(2) by auto
  have "\<not> int m - int a = 1" "\<not> int b - int m = 1"
    using assms(1, 2) by simp_all
  then show ?thesis
    by (subst symMerge.simps)
      (simp only: m sr Let_def prod.case s(1) [simplified of_nat_add] bind.bind_lunit hi conds if_False)
qed

lemma symMerge_halves:
  assumes d: "elems d = U @ A1 @ B1 @ A2 @ B2 @ V" "length (elems d) < 2 ^ 63"
    and sorted: "in_order lt A1" "in_order lt A2" "in_order lt B1" "in_order lt B2"
    and IH: "\<And>d U A B V. A = A1 \<and> B = B1 \<or> A = A2 \<and> B = B2 \<Longrightarrow> elems d = U @ A @ B @ V \<Longrightarrow> length (elems d) < 2 ^ 63 \<Longrightarrow>
      A \<noteq> [] \<Longrightarrow> B \<noteq> [] \<Longrightarrow> \<exists>d' Y. symMerge I d (int (length U)) (int (length U + length A)) (int (length U + length A + length B)) = Some d'
        \<and> elems d' = U @ Y @ V \<and> in_order lt Y \<and> stab lt (A @ B) Y"
    and c: "c1 \<longleftrightarrow> A1 \<noteq> [] \<and> B1 \<noteq> []" "c2 \<longleftrightarrow> A2 \<noteq> [] \<and> B2 \<noteq> []"
    and pos: "a = length U" "s = a + length A1" "mid = s + length B1" "h = mid + length A2" "b = h + length B2"
  shows "\<exists>d' Y1 Y2. do { d \<leftarrow> (if c1 then symMerge I d (int a) (int s) (int mid) else Some d);
        if c2 then symMerge I d (int mid) (int h) (int b) else Some d } = Some d'
    \<and> elems d' = U @ (Y1 @ Y2) @ V \<and> in_order lt Y1 \<and> stab lt (A1 @ B1) Y1 \<and> in_order lt Y2 \<and> stab lt (A2 @ B2) Y2"
proof -
  have "\<exists>d1 Y1. (if c1 then symMerge I d (int a) (int s) (int mid) else Some d) = Some d1
      \<and> elems d1 = U @ Y1 @ (A2 @ B2 @ V) \<and> in_order lt Y1 \<and> stab lt (A1 @ B1) Y1"
    using IH [of A1 B1 d U "A2 @ B2 @ V"] d sorted c(1) pos(1-3) by (intro symMerge_half) simp_all
  then obtain d1 Y1 where d1: "(if c1 then symMerge I d (int a) (int s) (int mid) else Some d) = Some d1"
      "elems d1 = (U @ Y1) @ A2 @ B2 @ V" "in_order lt Y1" "stab lt (A1 @ B1) Y1"
    by auto
  have len: "length (elems d1) < 2 ^ 63" "length (U @ Y1) = mid" "mid + length A2 = h" "h + length B2 = b"
    using stab_length [OF d1(4)] d d1(2) pos by simp_all
  have "\<exists>d2 Y2. (if c2 then symMerge I d1 (int mid) (int h) (int b) else Some d1) = Some d2
      \<and> elems d2 = (U @ Y1) @ Y2 @ V \<and> in_order lt Y2 \<and> stab lt (A2 @ B2) Y2"
    using IH [of A2 B2 d1 "U @ Y1" V, unfolded len(2-4)] d1(2) len(1) sorted c(2) by (intro symMerge_half) simp_all
  then obtain d2 Y2 where d2: "(if c2 then symMerge I d1 (int mid) (int h) (int b) else Some d1) = Some d2"
      "elems d2 = (U @ Y1) @ Y2 @ V" "in_order lt Y2" "stab lt (A2 @ B2) Y2"
    by blast
  show ?thesis
    using d1 d2 by (intro exI [of _ d2] exI [of _ Y1] exI [of _ Y2]) simp
qed

lemma symMerge_both:
  assumes d: "elems d = U @ A @ B @ V" "length (elems d) < 2 ^ 63" and A: "in_order lt A" "length A \<ge> 2"
    and B: "in_order lt B" "length B \<ge> 2"
    and IH: "\<And>d U A' B' V. length A' + length B' < length A + length B \<Longrightarrow> in_order lt A' \<Longrightarrow> in_order lt B' \<Longrightarrow>
      elems d = U @ A' @ B' @ V \<Longrightarrow> length (elems d) < 2 ^ 63 \<Longrightarrow> A' \<noteq> [] \<Longrightarrow> B' \<noteq> [] \<Longrightarrow>
      \<exists>d' Y. symMerge I d (int (length U)) (int (length U + length A')) (int (length U + length A' + length B')) = Some d'
        \<and> elems d' = U @ Y @ V \<and> in_order lt Y \<and> stab lt (A' @ B') Y"
  shows "\<exists>d' Y. symMerge I d (int (length U)) (int (length U + length A)) (int (length U + length A + length B)) = Some d'
    \<and> elems d' = U @ Y @ V \<and> in_order lt Y \<and> stab lt (A @ B) Y"
proof -
  let ?a = "length U" and ?m = "length U + length A" and ?b = "length U + length A + length B"
  let ?mid = "(?a + ?b) div 2"
  have ne: "A \<noteq> []" "B \<noteq> []"
    using A(2) B(2) by auto
  obtain s where s: "bsearch (\<lambda>c. map_option Not (Less I d (int (?mid + ?m) - 1 - c) c))
        (int (if ?m > ?mid then ?mid + ?m - ?b else ?a)) (int (if ?m > ?mid then ?mid else ?m)) = Some (int s)"
      "?a \<le> s" "s \<le> ?m" "s \<le> ?mid" "?mid - s \<le> length B"
      "s = ?a \<or> ?mid - s = length B \<or> \<not> lt (B ! (?mid - s)) (A ! (s - ?a - 1))"
      "s - ?a = length A \<or> ?mid - s = 0 \<or> lt (B ! (?mid - s - 1)) (A ! (s - ?a))"
    using symMerge_search [OF d A(1) B(1) ne refl refl refl refl refl refl] by blast
  let ?k = "s - ?a" and ?e = "?mid - s"
  let ?A1 = "take ?k A" and ?A2 = "drop ?k A" and ?B1 = "take ?e B" and ?B2 = "drop ?e B"
  have before: "\<not> lt y x" if "x \<in> set ?A1" "y \<in> set ?B2" for x y
    using s(2, 3, 5, 6) by (intro cut_before [OF A(1) B(1) _ _ _ that]) auto
  have after: "lt y x" if "x \<in> set ?A2" "y \<in> set ?B1" for x y
    using s(2, 3, 5, 7) by (intro cut_after [OF A(1) B(1) _ _ _ that]) auto
  have sorted: "in_order lt ?A1" "in_order lt ?A2" "in_order lt ?B1" "in_order lt ?B2"
    using A(1) B(1) by (simp_all add: sorted_wrt_take sorted_wrt_drop)
  have lens: "length ?A1 = ?k" "length ?A2 = ?m - s" "length ?B1 = ?e" "length ?B2 = length B - ?e"
    using s(2, 3, 5) by auto
  have pos: "s = ?a + length ?A1" "?mid = s + length ?B1" "?mid + ?m - s = ?mid + length ?A2" "?b = ?mid + ?m - s + length ?B2"
    unfolding lens using s(2-5) by linarith+
  have empty: "?A1 \<noteq> [] \<longleftrightarrow> ?a < s" "?A2 \<noteq> [] \<longleftrightarrow> s < ?m" "?B1 \<noteq> [] \<longleftrightarrow> s < ?mid" "?B2 \<noteq> [] \<longleftrightarrow> ?mid + ?m < ?b + s"
    using s(2-5) ne by auto
  have "\<exists>d1. (if s < ?m \<and> s < ?mid then rotate_sort I d (int s) (int ?m) (int (?mid + ?m - s)) else Some d) = Some d1
      \<and> elems d1 = U @ ?A1 @ ?B1 @ ?A2 @ ?B2 @ V"
  proof (rule symMerge_rotate)
    show "elems d = U @ (?A1 @ ?A2) @ (?B1 @ ?B2) @ V"
      using d(1) by simp
    show "s < ?m \<and> s < ?mid \<longleftrightarrow> ?A2 \<noteq> [] \<and> ?B1 \<noteq> []"
      unfolding empty ..
  qed (unfold lens, use s(2-4) in simp_all)
  then obtain d1 where d1: "(if s < ?m \<and> s < ?mid then rotate_sort I d (int s) (int ?m) (int (?mid + ?m - s)) else Some d) = Some d1"
      "elems d1 = U @ ?A1 @ ?B1 @ ?A2 @ ?B2 @ V"
    by blast
  have "\<exists>d' Y1 Y2. do { d \<leftarrow> (if ?a < s \<and> s < ?mid then symMerge I d1 (int ?a) (int s) (int ?mid) else Some d1);
        if s < ?m \<and> ?mid + ?m < ?b + s then symMerge I d (int ?mid) (int (?mid + ?m - s)) (int ?b) else Some d } = Some d'
      \<and> elems d' = U @ (Y1 @ Y2) @ V \<and> in_order lt Y1 \<and> stab lt (?A1 @ ?B1) Y1 \<and> in_order lt Y2 \<and> stab lt (?A2 @ ?B2) Y2"
  proof (rule symMerge_halves)
    have "length (elems d1) = length (elems d)"
      unfolding d1(2) d(1) length_append lens using s(2-5) by simp
    then show "length (elems d1) < 2 ^ 63"
      using d(2) by simp
    show "\<exists>d' Y. symMerge I d (int (length U)) (int (length U + length A')) (int (length U + length A' + length B')) = Some d'
        \<and> elems d' = U @ Y @ V \<and> in_order lt Y \<and> stab lt (A' @ B') Y"
      if h: "A' = ?A1 \<and> B' = ?B1 \<or> A' = ?A2 \<and> B' = ?B2" "elems d = U @ A' @ B' @ V" "length (elems d) < 2 ^ 63" "A' \<noteq> []" "B' \<noteq> []"
      for d U A' B' V
    proof (rule IH [OF _ _ _ h(2-5)])
      show "length A' + length B' < length A + length B"
        using h(1) lens s(2-5) A(2) B(2) by auto
    qed (use h(1) sorted in auto)
    show "?a < s \<and> s < ?mid \<longleftrightarrow> ?A1 \<noteq> [] \<and> ?B1 \<noteq> []" "s < ?m \<and> ?mid + ?m < ?b + s \<longleftrightarrow> ?A2 \<noteq> [] \<and> ?B2 \<noteq> []"
      unfolding empty by (rule refl)+
  qed (rule d1(2) sorted pos refl)+
  then obtain d' Y1 Y2 where d': "do { d \<leftarrow> (if ?a < s \<and> s < ?mid then symMerge I d1 (int ?a) (int s) (int ?mid) else Some d1);
        if s < ?m \<and> ?mid + ?m < ?b + s then symMerge I d (int ?mid) (int (?mid + ?m - s)) (int ?b) else Some d } = Some d'"
      "elems d' = U @ (Y1 @ Y2) @ V" "in_order lt Y1" "stab lt (?A1 @ ?B1) Y1" "in_order lt Y2" "stab lt (?A2 @ ?B2) Y2"
    by blast
  have "symMerge I d (int ?a) (int ?m) (int ?b) = Some d'"
    using symMerge_unfold [OF _ _ _ refl s(1, 4)] A(2) B(2) d d1(1) d'(1) by simp
  moreover have "in_order lt (Y1 @ Y2) \<and> stab lt ((?A1 @ ?A2) @ (?B1 @ ?B2)) (Y1 @ Y2)"
    using A(1) B(1) by (intro join_runs [OF _ _ before after d'(3-6)]) simp_all
  ultimately show ?thesis
    using d'(2) by (intro exI [of _ d'] exI [of _ "Y1 @ Y2"]) simp
qed

lemma symMerge_correct:
  assumes "elems d = U @ A @ B @ V" "length (elems d) < 2 ^ 63" "in_order lt A" "in_order lt B" "A \<noteq> []" "B \<noteq> []"
  shows "\<exists>d' Y. symMerge I d (int (length U)) (int (length U + length A)) (int (length U + length A + length B)) = Some d'
    \<and> elems d' = U @ Y @ V \<and> in_order lt Y \<and> stab lt (A @ B) Y"
  using assms
proof (induction "length A + length B" arbitrary: d U A B V rule: less_induct)
  case less
  consider (left) "length A = 1" | (right) "length A \<noteq> 1" "length B = 1" | (both) "length A \<ge> 2" "length B \<ge> 2"
    using less.prems(5, 6) by (cases "length A"; cases "length B") fastforce+
  then show ?case
  proof cases
    case left
    then obtain x where "A = [x]"
      by (auto simp: length_Suc_conv)
    then show ?thesis
      using symMerge_single_left [of d U x B V] less.prems by simp
  next
    case right
    then obtain y where "B = [y]"
      by (auto simp: length_Suc_conv)
    then show ?thesis
      using symMerge_single_right [of d U A y V] less.prems right by simp
  next
    case both
    show ?thesis
      by (rule symMerge_both [OF less.prems(1-3) both(1) less.prems(4) both(2)]) (rule less.hyps)
  qed
qed

section \<open>Insertion sort\<close>

lemma insert_loop_correct:
  assumes "elems d = U @ S @ x # V" "in_order lt S" "j = int (length U + length S)"
  shows "\<exists>d' Y. insert_loop I d (int (length U)) j = Some d' \<and> elems d' = U @ Y @ V \<and> in_order lt Y \<and> stab lt (S @ [x]) Y"
  using assms
proof (induction S arbitrary: d V j rule: rev_induct)
  case Nil
  then show ?case
    by (subst insert_loop.simps) (auto intro!: exI [of _ "[x]"])
next
  case (snoc y S)
  have d: "elems d = (U @ S) @ y # [] @ x # V"
    using snoc.prems(1) by simp
  have less: "Less I d j (j - 1) = Some (lt x y)"
    by (rule Less_append(2) [OF d]) (use snoc.prems(3) in simp_all)
  show ?case
  proof (cases "lt x y")
    case False
    have "insert_loop I d (int (length U)) j = Some d"
      using less False by (subst insert_loop.simps) simp
    moreover have "in_order lt (S @ [y] @ [x])"
      using snoc.prems(2) False not_lt_trans [OF False] by (auto simp: sorted_wrt_append)
    ultimately show ?thesis
      using snoc.prems(1) by (intro exI [of _ d] exI [of _ "S @ [y] @ [x]"]) simp
  next
    case True
    obtain d1 where d1: "Swap I d j (j - 1) = Some d1" "elems d1 = (U @ S) @ x # [] @ y # V"
      using Swap_append(2) [OF d, of "j - 1" j] snoc.prems(3) by auto
    have "\<exists>d' Y. insert_loop I d1 (int (length U)) (j - 1) = Some d' \<and> elems d' = U @ Y @ (y # V) \<and> in_order lt Y \<and> stab lt (S @ [x]) Y"
      using d1(2) snoc.prems(2, 3) by (intro snoc.IH) (simp_all add: sorted_wrt_append)
    then obtain d' Y where d': "insert_loop I d1 (int (length U)) (j - 1) = Some d'" "elems d' = U @ Y @ y # V" "in_order lt Y"
        "stab lt (S @ [x]) Y"
      by blast
    have "set Y = insert x (set S)"
      using stab_set [OF d'(4)] by simp
    then have "in_order lt (Y @ [y])"
      using d'(3) snoc.prems(2) asym [OF True] by (auto simp: sorted_wrt_append)
    moreover have "stab lt (S @ ([y] @ [x])) (S @ ([x] @ [y]))"
      using True by (intro stab_append stab_swap stab_refl) simp
    then have "stab lt ((S @ [y]) @ [x]) (Y @ [y])"
      using stab_trans stab_append [OF d'(4) stab_refl [of lt "[y]"]] by fastforce
    moreover have "insert_loop I d (int (length U)) j = Some d'"
      using snoc.prems(3) less True d1(1) d'(1) by (subst insert_loop.simps) simp
    ultimately show ?thesis
      using d'(2) by (intro exI [of _ d'] exI [of _ "Y @ [y]"]) simp
  qed
qed

lemma insertionSort_loop_correct:
  assumes "elems d = U @ S @ R @ V" "in_order lt S" "i = int (length U + length S)" "b = int (length U + length S + length R)"
  shows "\<exists>d' Y. insertionSort_loop I d (int (length U)) b i = Some d' \<and> elems d' = U @ Y @ V \<and> in_order lt Y \<and> stab lt (S @ R) Y"
  using assms
proof (induction R arbitrary: d S i)
  case Nil
  then show ?case
    by (subst insertionSort_loop.simps) (auto intro!: exI [of _ S])
next
  case (Cons x R)
  obtain d1 Y where d1: "insert_loop I d (int (length U)) i = Some d1" "elems d1 = U @ Y @ R @ V" "in_order lt Y" "stab lt (S @ [x]) Y"
    using insert_loop_correct [of d U S x "R @ V" i] Cons.prems by auto
  have "\<exists>d' Z. insertionSort_loop I d1 (int (length U)) b (i + 1) = Some d' \<and> elems d' = U @ Z @ V \<and> in_order lt Z \<and> stab lt (Y @ R) Z"
    using d1 Cons.prems stab_length [OF d1(4)] by (intro Cons.IH) simp_all
  moreover have "stab lt ((S @ [x]) @ R) (Y @ R)"
    by (intro stab_append d1(4) stab_refl)
  ultimately show ?case
    using d1(1) Cons.prems(3, 4) by (subst insertionSort_loop.simps) (auto intro: stab_trans)
qed

lemma insertionSort_correct:
  assumes "elems d = U @ R @ V" "a = int (length U)" "b = int (length U + length R)"
  shows "\<exists>d' Y. insertionSort I d a b = Some d' \<and> elems d' = U @ Y @ V \<and> in_order lt Y \<and> stab lt R Y"
proof (cases R)
  case Nil
  then show ?thesis
    using assms unfolding insertionSort_def by (subst insertionSort_loop.simps) (auto intro!: exI [of _ "[]"])
next
  case (Cons x R')
  then show ?thesis
    using insertionSort_loop_correct [of d U "[x]" R' V "a + 1" b] assms by (simp add: insertionSort_def)
qed

section \<open>Blocks and passes\<close>

lemma stable_blocks_correct:
  assumes "elems d = U @ W" "0 < k" "n = int (length U + length W)" "a = int (length U)" "b = a + int k"
  shows "\<exists>d' Y. stable_blocks I d (int k) n a b = Some d' \<and> elems d' = U @ Y \<and> runs lt k Y \<and> stab lt W Y"
  using assms
proof (induction "length W" arbitrary: d U W a b rule: less_induct)
  case less
  show ?case
  proof (cases "k \<le> length W")
    case False
    obtain d' Y where d': "insertionSort I d a n = Some d'" "elems d' = U @ Y" "in_order lt Y" "stab lt W Y"
      using insertionSort_correct [of d U W "[]" a n] less.prems by auto
    then have "runs lt k Y"
      using False stab_length [OF d'(4)] by (intro runs.short) simp_all
    then show ?thesis
      using d' less.prems False by (subst stable_blocks.simps) simp
  next
    case True
    let ?A = "take k W" and ?W = "drop k W"
    obtain d1 Y where d1: "insertionSort I d a b = Some d1" "elems d1 = (U @ Y) @ ?W" "in_order lt Y" "stab lt ?A Y"
      using insertionSort_correct [of d U ?A ?W a b] less.prems True by auto
    have y: "length Y = k"
      using stab_length [OF d1(4)] True by simp
    have "\<exists>d' Z. stable_blocks I d1 (int k) n b (b + int k) = Some d' \<and> elems d' = (U @ Y) @ Z \<and> runs lt k Z \<and> stab lt ?W Z"
      using d1(2) y True less.prems by (intro less.hyps) simp_all
    then obtain d' Z where d': "stable_blocks I d1 (int k) n b (b + int k) = Some d'" "elems d' = (U @ Y) @ Z" "runs lt k Z" "stab lt ?W Z"
      by blast
    have "stab lt W (Y @ Z)"
      using stab_append [OF d1(4) d'(4)] by simp
    moreover have "stable_blocks I d (int k) n a b = Some d'"
      using less.prems True d1(1) d'(1) by (subst stable_blocks.simps) simp
    ultimately show ?thesis
      using d'(2) runs.run [OF d1(3) y d'(3)] by (intro exI [of _ d'] exI [of _ "Y @ Z"]) simp
  qed
qed

lemma stable_pass_correct:
  assumes "elems d = U @ W" "length (elems d) < 2 ^ 63" "runs lt k W" "0 < k" "n = int (length U + length W)"
    "a = int (length U)" "b = a + 2 * int k"
  shows "\<exists>d' Y. stable_pass I d (int k) n a b = Some d' \<and> elems d' = U @ Y \<and> runs lt (2 * k) Y \<and> stab lt W Y"
  using assms
proof (induction "length W" arbitrary: d U W a b rule: less_induct)
  case less
  consider (few) "length W \<le> k" | (last) "k < length W" "length W < 2 * k" | (more) "2 * k \<le> length W"
    by linarith
  then show ?case
  proof cases
    case few
    then have "runs lt (2 * k) W"
      using runs_in_order [OF less.prems(3)] by (intro runs.short) simp_all
    then show ?thesis
      using few less.prems by (subst stable_pass.simps) simp
  next
    case last
    obtain A B where W: "W = A @ B" "in_order lt A" "length A = k" "runs lt k B"
      using runs_split [OF less.prems(3)] last by (metis less_imp_le)
    have "\<exists>d' Y. symMerge I d (int (length U)) (int (length U + length A)) (int (length U + length A + length B)) = Some d'
        \<and> elems d' = U @ Y @ [] \<and> in_order lt Y \<and> stab lt (A @ B) Y"
      using less.prems W last runs_in_order [OF W(4)] by (intro symMerge_correct) auto
    then obtain d' Y where d': "symMerge I d a (a + int k) n = Some d'" "elems d' = U @ Y" "in_order lt Y" "stab lt W Y"
      using less.prems(5, 6) W by (auto simp: add.assoc)
    then have "runs lt (2 * k) Y"
      using last stab_length [OF d'(4)] by (intro runs.short) simp_all
    then show ?thesis
      using d' last less.prems by (subst stable_pass.simps) simp
  next
    case more
    obtain A W1 where W: "W = A @ W1" "in_order lt A" "length A = k" "runs lt k W1"
      using runs_split [OF less.prems(3)] more by (metis add_leD1 mult_2)
    moreover obtain B W' where W1: "W1 = B @ W'" "in_order lt B" "length B = k" "runs lt k W'"
      using runs_split [OF W(4)] more W(1, 3) by auto
    ultimately have "\<exists>d' Y. symMerge I d (int (length U)) (int (length U + length A)) (int (length U + length A + length B)) = Some d'
        \<and> elems d' = U @ Y @ W' \<and> in_order lt Y \<and> stab lt (A @ B) Y"
      using less.prems by (intro symMerge_correct) auto
    then obtain d1 Y where d1: "symMerge I d a (a + int k) b = Some d1" "elems d1 = (U @ Y) @ W'" "in_order lt Y" "stab lt (A @ B) Y"
      using less.prems(6, 7) W(3) W1(3) by (auto simp: add.assoc)
    have y: "length Y = 2 * k"
      using stab_length [OF d1(4)] W(3) W1(3) by simp
    have "\<exists>d' Z. stable_pass I d1 (int k) n b (b + 2 * int k) = Some d' \<and> elems d' = (U @ Y) @ Z \<and> runs lt (2 * k) Z \<and> stab lt W' Z"
      using d1(2) y W W1 less.prems by (intro less.hyps) simp_all
    then obtain d' Z where d': "stable_pass I d1 (int k) n b (b + 2 * int k) = Some d'" "elems d' = (U @ Y) @ Z" "runs lt (2 * k) Z"
        "stab lt W' Z"
      by blast
    have "stab lt W (Y @ Z)"
      using stab_append [OF d1(4) d'(4)] W(1) W1(1) by simp
    moreover have "stable_pass I d (int k) n a b = Some d'"
      using less.prems more d1(1) d'(1) by (subst stable_pass.simps) simp
    ultimately show ?thesis
      using d'(2) runs.run [OF d1(3) y d'(3)] by (intro exI [of _ d'] exI [of _ "Y @ Z"]) simp
  qed
qed

lemma stable_merge_correct:
  assumes "runs lt k (elems d)" "length (elems d) < 2 ^ 63" "0 < k" "n = length (elems d)"
  shows "\<exists>d'. stable_merge I d (int k) (int n) = Some d' \<and> in_order lt (elems d') \<and> stab lt (elems d) (elems d')"
  using assms
proof (induction "n - k" arbitrary: d k rule: less_induct)
  case less
  show ?case
  proof (cases "k < n")
    case False
    then show ?thesis
      using less.prems runs_in_order [OF less.prems(1)] by (subst stable_merge.simps) simp
  next
    case True
    obtain d1 where d1: "stable_pass I d (int k) (int n) 0 (2 * int k) = Some d1" "runs lt (2 * k) (elems d1)" "stab lt (elems d) (elems d1)"
      using stable_pass_correct [of d "[]" "elems d" k "int n" 0 "2 * int k"] less.prems by auto
    have "\<exists>d'. stable_merge I d1 (int (2 * k)) (int n) = Some d' \<and> in_order lt (elems d') \<and> stab lt (elems d1) (elems d')"
      using less.prems True stab_length [OF d1(3)] d1(2) by (intro less.hyps) auto
    then show ?thesis
      using True d1 by (subst stable_merge.simps) (auto intro: stab_trans)
  qed
qed

lemma Stable_correct:
  assumes "length (elems d) < 2 ^ 63"
  shows "\<exists>d'. Stable I d = Some d' \<and> in_order lt (elems d') \<and> stab lt (elems d) (elems d')"
proof -
  obtain d1 where d1: "stable_blocks I d 20 (int (length (elems d))) 0 20 = Some d1" "runs lt 20 (elems d1)" "stab lt (elems d) (elems d1)"
    using stable_blocks_correct [of d "[]" "elems d" 20 "int (length (elems d))" 0 20] by auto
  obtain d' where "stable_merge I d1 20 (int (length (elems d))) = Some d'" "in_order lt (elems d')" "stab lt (elems d1) (elems d')"
    using stable_merge_correct [OF d1(2), of "length (elems d1)"] assms stab_length [OF d1(3)] by auto
  then show ?thesis
    using d1 by (auto simp: Stable_def stable_def Len_elems intro: stab_trans)
qed

end

end
