(* ===== verification/Sort_Props.thy ===== *)
theory Sort_Props
  imports Stable_Props
begin

text \<open>
  What the sort package promises: \<^verbatim>\<open>Sort\<close>, \<^verbatim>\<open>Slice\<close> and \<^verbatim>\<open>Stable\<close> return, on every interface that keeps its
  contract, with the elements in order; \<^verbatim>\<open>Stable\<close> keeps equal elements in place.
\<close>

text \<open>On a total order the result does not depend on how the elements were arranged, nor on the algorithm.\<close>

lemma in_order_unique:
  assumes "\<And>x y. lt x y \<or> x = y \<or> lt y x" "weak_order lt" "in_order lt xs" "in_order lt ys" "mset xs = mset ys"
  shows "xs = ys"
  using assms(3-5)
proof (induction xs arbitrary: ys)
  case (Cons x xs)
  then obtain y ys' where ys: "ys = y # ys'"
    by (cases ys) auto
  have "x \<in> set ys" "y \<in> set (x # xs)"
    using mset_eq_setD [OF Cons.prems(3)] ys by auto
  then have "x = y \<or> \<not> lt x y \<and> \<not> lt y x"
    using Cons.prems(1, 2) ys by auto
  then have "x = y"
    using assms(1) by blast
  then show ?case
    using Cons.IH [of ys'] Cons.prems ys by simp
qed simp

lemma Sort_IntSlice: "Sort IntSlice xs = Some (sort xs)"
proof -
  obtain ys where ys: "Sort IntSlice xs = Some ys" "mset ys = mset xs" "sorted_wrt (\<lambda>x y. \<not> y < x) ys"
    using int_slice.Sort_correct by blast
  then show ?thesis
    using properties_for_sort [of ys xs] by (simp add: not_less)
qed

lemma Sort_byFreq:
  assumes "mset xs = mset ys"
  shows "Sort byFreq xs = Sort byFreq ys"
proof -
  have total: "freq_less x y \<or> x = y \<or> freq_less y x" for x y
    by (auto simp: freq_less_def)
  obtain xs' ys' where "Sort byFreq xs = Some xs'" "mset xs' = mset xs" "in_order freq_less xs'"
      "Sort byFreq ys = Some ys'" "mset ys' = mset ys" "in_order freq_less ys'"
    using freq_slice.Sort_correct [of xs] freq_slice.Sort_correct [of ys] by blast
  then show ?thesis
    using in_order_unique [OF total freq_slice.weak_order_axioms, of xs' ys'] assms by simp
qed

text \<open>
  C38: \<^verbatim>\<open>Sort\<close> sorts.  On every collection that keeps the contract of \<^verbatim>\<open>sort.Interface\<close> for a strict weak order,
  \<^verbatim>\<open>Sort\<close> returns without a panic; the elements are the same, rearranged so that none is less than one before it;
  and \<^verbatim>\<open>IsSorted\<close> and \<^verbatim>\<open>SliceIsSorted\<close> answer exactly whether that is the case.
\<close>

theorem Sort_sorts:
  assumes "sort_interface lt I elems"
  shows "(\<exists>d'. Sort I d = Some d' \<and> mset (elems d') = mset (elems d) \<and> sorted_wrt (\<lambda>x y. \<not> lt y x) (elems d')
      \<and> IsSorted I d' = Some True)
    \<and> IsSorted I d = Some (sorted_wrt (\<lambda>x y. \<not> lt y x) (elems d))
    \<and> SliceIsSorted I d = Some (sorted_wrt (\<lambda>x y. \<not> lt y x) (elems d))"
  using sort_interface.Sort_correct [OF assms, of d] sort_interface.IsSorted_correct [OF assms]
    sort_interface.SliceIsSorted_correct [OF assms] by auto

theorem Sort_sorts_witness:
  "(\<exists>ys. Sort IntSlice [3, 1, 2] = Some ys \<and> mset ys = {#1, 2, 3#} \<and> sorted_wrt (\<lambda>x y. \<not> y < x) ys)
   \<and> IsSorted IntSlice [3, 1, 2] = Some False"
  using Sort_sorts [OF int_slice.sort_interface_axioms, of "[3, 1, 2]"] by auto

text \<open>
  C39: \<^verbatim>\<open>Stable\<close> sorts and is stable.  On every collection that keeps the contract of \<^verbatim>\<open>sort.Interface\<close>, of fewer
  than \<open>2 ^ 63\<close> elements, \<^verbatim>\<open>Stable\<close> returns; the elements are in order; and for every \<open>x\<close> the elements that count
  as equal to \<open>x\<close> stand in the order in which they stood before.
\<close>

theorem Stable_sorts_stably:
  assumes "sort_interface lt I elems" "length (elems d) < 2 ^ 63"
  shows "\<exists>d'. Stable I d = Some d' \<and> mset (elems d') = mset (elems d) \<and> sorted_wrt (\<lambda>x y. \<not> lt y x) (elems d')
    \<and> (\<forall>x. filter (\<lambda>y. \<not> lt x y \<and> \<not> lt y x) (elems d') = filter (\<lambda>y. \<not> lt x y \<and> \<not> lt y x) (elems d))"
proof -
  obtain d' where d': "Stable I d = Some d'" "sorted_wrt (\<lambda>x y. \<not> lt y x) (elems d')" "stab lt (elems d) (elems d')"
    using sort_interface.Stable_correct [OF assms] by blast
  have "mset (elems d') = mset (elems d)"
    using assms(1) d'(3) by (intro weak_order.stab_mset) (simp_all add: sort_interface_def)
  then show ?thesis
    using d' by (simp add: stab_def eqv_def [abs_def])
qed

theorem Stable_sorts_stably_witness:
  "\<exists>ys. Stable byLiteral [\<lparr>literal = 6, freq = 0\<rparr>, \<lparr>literal = 4, freq = 7\<rparr>, \<lparr>literal = 4, freq = 5\<rparr>] = Some ys
     \<and> filter (\<lambda>y. literal y = 4) ys = [\<lparr>literal = 4, freq = 7\<rparr>, \<lparr>literal = 4, freq = 5\<rparr>]"
proof -
  let ?xs = "[\<lparr>literal = 6, freq = 0\<rparr>, \<lparr>literal = 4, freq = 7\<rparr>, \<lparr>literal = 4, freq = 5\<rparr>]"
  obtain ys where ys: "Stable byLiteral ?xs = Some ys"
      "\<And>x. filter (\<lambda>y. \<not> lit_less x y \<and> \<not> lit_less y x) ys = filter (\<lambda>y. \<not> lit_less x y \<and> \<not> lit_less y x) ?xs"
    using Stable_sorts_stably [OF literal_slice.sort_interface_axioms, of ?xs] by auto
  have "(\<not> lit_less \<lparr>literal = 4, freq = 7\<rparr> y \<and> \<not> lit_less y \<lparr>literal = 4, freq = 7\<rparr>) \<longleftrightarrow> literal y = 4" for y
    by (auto simp: lit_less_def not_less)
  then show ?thesis
    using ys(1) ys(2) [of "\<lparr>literal = 4, freq = 7\<rparr>"] by simp
qed

end
