(* ===== verification/Spec2Isabelle.thy ===== *)
theory Spec2Isabelle
  imports Ring Scheduler_Props Select_Props RWMutex_Props Once WaitGroup NotifyList Bits_Props Utf8_Props Varint_Props Container_List_Props
    Container_Heap_Props Sort_Props
begin

text \<open>
  A verification development of goish, a port of Go's runtime and standard library to Rust without
  the Rust standard library (sources under \<^verbatim>\<open>src/src\<close>).

  \<^bold>\<open>The program.\<close>  Goroutines run on worker threads (Ms), each of which owns a processor (P) with
  a run queue; idle workers steal from the others.  A goroutine blocks by parking itself under the
  lock of what it waits for and is made runnable again by \<^verbatim>\<open>goready\<close>.  Channels, \<^verbatim>\<open>select!\<close> and the
  \<^verbatim>\<open>sync\<close> package are built on these two calls: a channel keeps a ring buffer and two queues of
  parked sudogs, a select registers one sudog on every channel it names and lets the first waker
  claim it, and the mutex, the wait group and the condition variable keep chains of goroutines
  linked through \<^verbatim>\<open>g.sema_next\<close>; the reader/writer mutex and \<^verbatim>\<open>Once\<close> contain a mutex.  Above them lies the library proper: bit operations, UTF-8,
  variable-length integers, containers, sorting and much more.

  \<^bold>\<open>Modelling.\<close>  Machine integers are words of their width and wrap around; a panic or a failed
  \<^verbatim>\<open>expect\<close> is \<^const>\<open>None\<close> or a constructor of its own; pointers are natural numbers or identifiers
  into an explicit heap.  Code under a lock is one atomic function of the state it guards.  Code on
  atomic variables is split at every atomic access: a program point per place where a thread can be
  interrupted, and an inductive step relation that lets any thread take its next step.  Interleaving
  is sequentially consistent; the \<^verbatim>\<open>Ordering\<close> arguments are not modelled.  Loops that follow
  pointers are \<^theory_text>\<open>partial_function\<close>s in the option monad, and it is proved that they return.  Random
  choices and the outcome of weak compare-and-swaps are inputs.

  \<^bold>\<open>The theories.\<close>

  \<^item> \<open>Goish_Prelude\<close>: types, collections of simplification rules, lemmas on words, lists, counting.

  \<^item> \<open>Ring\<close> (\<^verbatim>\<open>runtime/lockfree_ring.rs\<close>): slots with sequence numbers, \<^verbatim>\<open>new\<close>, \<^verbatim>\<open>try_send\<close>,
    \<^verbatim>\<open>try_recv\<close>, \<^verbatim>\<open>len\<close>.  The locale \<open>bounded_fifo\<close> states what a bounded queue promises and is
    interpreted on the ring; the ring refines a list, also when its counters wrap around.

  \<^item> \<open>Sudog_Queue\<close>, \<open>Chan\<close> (\<^verbatim>\<open>gochan.rs\<close>): sudogs on a heap, the queues \<^verbatim>\<open>enqueue\<close>, \<^verbatim>\<open>dequeue\<close>,
    \<^verbatim>\<open>cancel\<close>, and every operation of a channel.  The locale \<open>wait_queue\<close> is the interface between
    them, interpreted on the linked queue.  \<open>Chan_Inv\<close>, \<open>Chan_Close\<close> describe each operation on
    the represented lists; \<open>Chan_Run\<close>, \<open>Chan_Eff\<close> whole runs and the footprint on the shared heap;
    \<open>Chan_Props\<close> has order, completeness, closing and draining.

  \<^item> \<open>Select_Order\<close>, \<open>Select\<close> (\<^verbatim>\<open>select_macro.rs\<close>, \<^verbatim>\<open>runtime/rand.rs\<close>): lock order, poll order,
    the polling, registering and cancelling passes.  \<open>Select_Inv\<close>, \<open>Select_Run\<close>, \<open>Select_Props\<close>:
    against every behaviour of other goroutines, exactly one case fires and nothing stays registered.

  \<^item> \<open>Run_Queue\<close>, \<open>Steal_Order\<close> (\<^verbatim>\<open>runtime/sched/p.rs\<close>), \<open>Scheduler\<close>
    (\<^verbatim>\<open>runtime/sched/scheduler.rs\<close>): the ring of a P with every atomic access a step, the randomised
    order of stealing, the search for work, and creation, wake-up, yield, park, exit and pinning of
    goroutines.  \<open>Run_Queue_Inv\<close>, \<open>Run_Queue_Steal\<close> have what one queue operation keeps under
    interference, \<open>Scheduler_Inv\<close>, \<open>Scheduler_Run\<close> the invariant of the whole system,
    \<open>Scheduler_Props\<close> that no goroutine is lost or duplicated.

  \<^item> \<open>Sema\<close>, \<open>Mutex\<close>, \<open>WaitGroup\<close>, \<open>NotifyList\<close> (\<^verbatim>\<open>sync/\<close>): the semaphore and its chain of
    waiters, with the locale \<open>semaphore\<close> as the contract its clients use; then one step system
    each, with an invariant that counts goroutines per program point: mutual exclusion, no lost
    wake-up, no early return.

  \<^item> \<open>Mutex_Client\<close>: the mutex as the two primitives built on it see it.  The locale
    \<open>lock_interface\<close> speaks of four phases (outside, entering, inside, leaving) and is interpreted on
    the step system of the mutex; a client's step system contains the steps of its mutex, guarded by
    where the client's code is.  \<open>Once\<close> (\<^verbatim>\<open>sync/once.rs\<close>): the function runs exactly once.
    \<open>RWMutex\<close>, \<open>RWMutex_Inv\<close>, \<open>RWMutex_Props\<close> (\<^verbatim>\<open>sync/rwmutex.rs\<close>): the inner mutex, two
    semaphores chained through the same store and two signed 32-bit counters; the balance of readers and
    writers, exclusion, and that every sleeper is owed a wake-up.

  \<^item> \<open>Bits\<close>, \<open>Bits_Props\<close> (\<^verbatim>\<open>math/bits/bits.rs\<close>); \<open>Utf8\<close>, \<open>Utf8_Props\<close>
    (\<^verbatim>\<open>unicode/utf8/utf8.rs\<close>); \<open>Container_List\<close>, \<open>Container_List_Props\<close>
    (\<^verbatim>\<open>container/list/list.rs\<close>): every function, with agreement with arithmetic, round trips,
    and refinement of the linked list to a sequence.

  \<^item> \<open>Varint\<close>, \<open>Varint_Props\<close> (\<^verbatim>\<open>encoding/binary/varint.rs\<close>, \<^verbatim>\<open>bytes/reader.rs\<close>): the
    variable-length codec on slices and on readers; the locale \<open>byte_source\<close> is the contract of a reader,
    interpreted on the reader over a slice.

  \<^item> \<open>Sort_Interface\<close>, \<open>Heap_Order\<close>, \<open>Sort\<close>, \<open>Search\<close>, \<open>Stable\<close>, \<open>Stable_Props\<close>, \<open>Sort_Props\<close>
    (\<^verbatim>\<open>sort/\<close>): heap sort, binary search and the stable sort by rotations, all through the methods of an
    interface.  The locale \<open>sort_interface\<close> is what the package asks of a collection, interpreted on the
    collections of the source, among them the node orders of the Huffman encoder.
    \<open>Container_Heap\<close>, \<open>Container_Heap_Props\<close> (\<^verbatim>\<open>container/heap/heap.rs\<close>): the priority queue over the
    locale \<open>heap_interface\<close>.  Every loop is shown to return, with the elements rearranged as promised.

  \<^bold>\<open>What is added to the code's state.\<close>  Five counters are not in the code and no step depends on
  them except as said here: \<open>calls\<close> of a \<open>Once\<close> counts the calls of its function; \<open>taken\<close> of a run queue counts what has left it (a thief may hold a stale
  head only while fewer than \<open>2 ^ 32\<close> goroutines have passed, the guard \<open>fresh\<close>); \<open>zeroed\<close> of a
  wait group; \<open>issued\<close> and \<open>served\<close> of a notification list (a waiter enters \<^verbatim>\<open>Wait\<close> while at most
  \<open>2 ^ 31\<close> later tickets have been notified, the bound the code's \<^verbatim>\<open>less\<close> documents).  Bounds on the
  number of goroutines (\<open>2 ^ 30\<close>, \<open>2 ^ 31\<close>, \<open>2 ^ 32 - 1\<close>) come from the words that count them.  Positions in
  a sorted collection are integers: it has fewer than \<open>2 ^ 62\<close> elements, so that \<open>2 * i + 2\<close> fits.

  \<^bold>\<open>Not modelled.\<close>  Context switches, stacks, signals, thread parking, the network poller, system
  calls and the memory allocator's raw memory are effects below the language.  Memory orderings
  weaker than sequential consistency are out of reach of a step relation on one state.  Reference
  counting and destructors are Rust ownership.  The remaining packages (formatting, files,
  networking, cryptography, compression, reflection, time and others) are not translated.
\<close>

end
